(* ===== verification/Sky_Prelude.thy ===== *)
theory Sky_Prelude
  imports Main "HOL-Library.Word" "HOL-Library.Monad_Syntax" "HOL-Library.Signed_Division"
    "HOL-Library.Code_Target_Nat"
begin

unbundle bit_operations_syntax

text \<open>
  Shared vocabulary of the Skylink development.

  Conventions used by every component theory:
  \<^item> \<open>None\<close> is an execution the C program does not survive: a failed \<open>SKY_ASSERT\<close> (the build
    defines \<open>SKY_DEBUG\<close>, so the macro is \<open>assert\<close>), an access outside an array or outside the
    element pool, a signed overflow, or a loop that never ends. \<open>Some r\<close> is a normal return.
  \<^item> \<open>Inl e\<close> is a negative return code, \<open>Inr v\<close> a successful call that hands back data.
  \<^item> C \<open>int\<close> and \<open>int32_t\<close> values are \<^typ>\<open>int\<close>; where the source can leave the 32 bit range the
    model checks it with \<open>c_int\<close>. Unsigned values whose wrap-around matters (ARQ sequence
    numbers, HMAC sequence numbers, masks, bytes, diagnostics counters) are words.
  \<^item> Buffers are lists of bytes, a pointer into a buffer is an offset.
\<close>

section \<open>Types\<close>

type_synonym byte = "8 word"
type_synonym u16 = "16 word"
type_synonym u32 = "32 word"
type_synonym bytes = "byte list"
type_synonym sky_tick_t = int
type_synonym sky_arq_sequence_t = "8 word"
type_synonym sky_arq_mask_t = "16 word"
type_synonym sky_element_idx_t = nat
type_synonym sky_element_length_t = nat
type_synonym 'a c_result = "int + 'a"

section \<open>Theorem collections\<close>

named_theorems ring_simps \<open>ring index arithmetic under a ring invariant\<close>
named_theorems eb_simps \<open>element accessors of the element buffer\<close>
named_theorems ret_codes \<open>the values of the return codes\<close>
named_theorems wire_simps \<open>byte layout of frames\<close>

section \<open>Return codes (\<open>skylink/skylink.h\<close>)\<close>

definition SKY_RET_OK :: int where [ret_codes]: "SKY_RET_OK = 0"
definition SKY_RET_INVALID_ENCODED_LENGTH :: int where [ret_codes]: "SKY_RET_INVALID_ENCODED_LENGTH = - 2"
definition SKY_RET_INVALID_PLAIN_LENGTH :: int where [ret_codes]: "SKY_RET_INVALID_PLAIN_LENGTH = - 3"
definition SKY_RET_INVALID_VERSION :: int where [ret_codes]: "SKY_RET_INVALID_VERSION = - 4"
definition SKY_RET_INVALID_VC :: int where [ret_codes]: "SKY_RET_INVALID_VC = - 5"
definition SKY_RET_INVALID_EXT_LENGTH :: int where [ret_codes]: "SKY_RET_INVALID_EXT_LENGTH = - 6"
definition SKY_RET_REDUNDANT_EXTENSIONS :: int where [ret_codes]: "SKY_RET_REDUNDANT_EXTENSIONS = - 7"
definition SKY_RET_FILTERED_BY_IDENTITY :: int where [ret_codes]: "SKY_RET_FILTERED_BY_IDENTITY = - 8"
definition SKY_RET_CRC_INVALID_LENGTH :: int where [ret_codes]: "SKY_RET_CRC_INVALID_LENGTH = - 9"
definition SKY_RET_CRC_INVALID_CHECKSUM :: int where [ret_codes]: "SKY_RET_CRC_INVALID_CHECKSUM = - 9"
definition SKY_RET_GOLAY_FAILED :: int where [ret_codes]: "SKY_RET_GOLAY_FAILED = - 10"
definition SKY_RET_GOLAY_MISCONFIGURED :: int where [ret_codes]: "SKY_RET_GOLAY_MISCONFIGURED = - 11"
definition SKY_RET_RS_FAILED :: int where [ret_codes]: "SKY_RET_RS_FAILED = - 12"
definition SKY_RET_RS_INVALID_LENGTH :: int where [ret_codes]: "SKY_RET_RS_INVALID_LENGTH = - 13"
definition SKY_RET_INVALID_MAC_WINDOW_SIZE :: int where [ret_codes]: "SKY_RET_INVALID_MAC_WINDOW_SIZE = - 21"
definition SKY_RET_INVALID_MAC_REMAINING_SIZE :: int where [ret_codes]: "SKY_RET_INVALID_MAC_REMAINING_SIZE = - 22"
definition SKY_RET_AUTH_FAILED :: int where [ret_codes]: "SKY_RET_AUTH_FAILED = - 30"
definition SKY_RET_AUTH_MISSING :: int where [ret_codes]: "SKY_RET_AUTH_MISSING = - 31"
definition SKY_RET_EXCESSIVE_HMAC_JUMP :: int where [ret_codes]: "SKY_RET_EXCESSIVE_HMAC_JUMP = - 33"
definition SKY_RET_FRAME_TOO_LONG_FOR_HMAC :: int where [ret_codes]: "SKY_RET_FRAME_TOO_LONG_FOR_HMAC = - 34"
definition SKY_RET_FRAME_TOO_SHORT_FOR_HMAC :: int where [ret_codes]: "SKY_RET_FRAME_TOO_SHORT_FOR_HMAC = - 35"
definition SKY_RET_NO_SPACE_FOR_PAYLOAD :: int where [ret_codes]: "SKY_RET_NO_SPACE_FOR_PAYLOAD = - 40"
definition SKY_RET_UNKNOWN_EXTENSION :: int where [ret_codes]: "SKY_RET_UNKNOWN_EXTENSION = - 41"
definition SKY_RET_EXT_DECODE_FAIL :: int where [ret_codes]: "SKY_RET_EXT_DECODE_FAIL = - 42"
definition SKY_RET_INVALID_EXT_TYPE :: int where [ret_codes]: "SKY_RET_INVALID_EXT_TYPE = - 43"
definition SKY_RET_RING_EMPTY :: int where [ret_codes]: "SKY_RET_RING_EMPTY = - 50"
definition SKY_RET_RING_INVALID_SEQUENCE :: int where [ret_codes]: "SKY_RET_RING_INVALID_SEQUENCE = - 51"
definition SKY_RET_RING_BUFFER_FULL :: int where [ret_codes]: "SKY_RET_RING_BUFFER_FULL = - 53"
definition SKY_RET_RING_RING_FULL :: int where [ret_codes]: "SKY_RET_RING_RING_FULL = - 54"
definition SKY_RET_RING_PACKET_ALREADY_IN :: int where [ret_codes]: "SKY_RET_RING_PACKET_ALREADY_IN = - 55"
definition SKY_RET_RING_CANNOT_RECALL :: int where [ret_codes]: "SKY_RET_RING_CANNOT_RECALL = - 56"
definition SKY_RET_RING_RESEND_FULL :: int where [ret_codes]: "SKY_RET_RING_RESEND_FULL = - 57"
definition SKY_RET_RING_INVALID_ACKNOWLEDGE :: int where [ret_codes]: "SKY_RET_RING_INVALID_ACKNOWLEDGE = - 58"
definition SKY_RET_RING_SEQUENCES_DETACHED :: int where [ret_codes]: "SKY_RET_RING_SEQUENCES_DETACHED = - 59"
definition SKY_RET_RING_SEQUENCES_OUT_OF_SYNC :: int where [ret_codes]: "SKY_RET_RING_SEQUENCES_OUT_OF_SYNC = - 60"
definition SKY_RET_TOO_LONG_PAYLOAD :: int where [ret_codes]: "SKY_RET_TOO_LONG_PAYLOAD = - 61"
definition SKY_RET_MALLOC_FAILED :: int where [ret_codes]: "SKY_RET_MALLOC_FAILED = - 70"
definition SKY_RET_EBUFFER_INVALID_INDEX :: int where [ret_codes]: "SKY_RET_EBUFFER_INVALID_INDEX = - 110"
definition SKY_RET_EBUFFER_CHAIN_CORRUPTED :: int where [ret_codes]: "SKY_RET_EBUFFER_CHAIN_CORRUPTED = - 111"
definition SKY_RET_EBUFFER_NO_SPACE :: int where [ret_codes]: "SKY_RET_EBUFFER_NO_SPACE = - 112"
definition SKY_RET_EBUFFER_TOO_LONG_PAYLOAD :: int where [ret_codes]: "SKY_RET_EBUFFER_TOO_LONG_PAYLOAD = - 113"

section \<open>Signed 32 bit arithmetic\<close>

definition INT_MAX :: int where "INT_MAX = 2147483647"
definition INT_MIN :: int where "INT_MIN = - 2147483648"

text \<open>The value of a signed 32 bit expression; overflow is undefined behaviour.\<close>

definition c_int :: "int \<Rightarrow> int option" where
  "c_int v = (if INT_MIN \<le> v \<and> v \<le> INT_MAX then Some v else None)"

lemma c_int_in_range [simp]: "\<lbrakk> - 2147483648 \<le> v; v \<le> 2147483647 \<rbrakk> \<Longrightarrow> c_int v = Some v"
  by (simp add: c_int_def INT_MAX_def INT_MIN_def)

section \<open>Options and checked array access\<close>

definition nth_opt :: "'a list \<Rightarrow> nat \<Rightarrow> 'a option" where
  "nth_opt xs i = (if i < length xs then Some (xs ! i) else None)"

definition upd_opt :: "'a list \<Rightarrow> nat \<Rightarrow> 'a \<Rightarrow> 'a list option" where
  "upd_opt xs i v = (if i < length xs then Some (xs[i := v]) else None)"

lemma nth_opt_Some [simp]: "i < length xs \<Longrightarrow> nth_opt xs i = Some (xs ! i)"
  by (simp add: nth_opt_def)

lemma upd_opt_Some [simp]: "i < length xs \<Longrightarrow> upd_opt xs i v = Some (xs[i := v])"
  by (simp add: upd_opt_def)

lemma nth_opt_eq_Some: "nth_opt xs i = Some v \<longleftrightarrow> i < length xs \<and> xs ! i = v"
  by (auto simp: nth_opt_def)

lemma upd_opt_eq_Some: "upd_opt xs i v = Some ys \<longleftrightarrow> i < length xs \<and> ys = xs[i := v]"
  by (auto simp: upd_opt_def)

text \<open>\<open>memcpy\<close> of a whole byte string to an offset, and a read of \<open>n\<close> bytes from one.\<close>

definition write_bytes :: "'a list \<Rightarrow> nat \<Rightarrow> 'a list \<Rightarrow> 'a list option" where
  "write_bytes xs off bs =
     (if off + length bs \<le> length xs
      then Some (take off xs @ bs @ drop (off + length bs) xs) else None)"

definition read_bytes :: "'a list \<Rightarrow> nat \<Rightarrow> nat \<Rightarrow> 'a list option" where
  "read_bytes xs off n = (if off + n \<le> length xs then Some (take n (drop off xs)) else None)"

lemma length_write_bytes: "write_bytes xs off bs = Some ys \<Longrightarrow> length ys = length xs"
  by (auto simp: write_bytes_def split: if_splits)

lemma write_bytes_Some [simp]:
  "off + length bs \<le> length xs \<Longrightarrow>
   write_bytes xs off bs = Some (take off xs @ bs @ drop (off + length bs) xs)"
  by (simp add: write_bytes_def)

lemma read_bytes_Some [simp]:
  "off + n \<le> length xs \<Longrightarrow> read_bytes xs off n = Some (take n (drop off xs))"
  by (simp add: read_bytes_def)

lemma read_after_write:
  "write_bytes xs off bs = Some ys \<Longrightarrow> read_bytes ys off (length bs) = Some bs"
  by (auto simp: write_bytes_def split: if_splits)

section \<open>Words read as integers\<close>

lemma uint_less_int [ring_simps]: "uint w < int n \<longleftrightarrow> unat w < n"
  by (metis of_nat_less_iff of_nat_unat)

lemma int_less_uint [ring_simps]: "int n < uint w \<longleftrightarrow> n < unat w"
  by (metis of_nat_less_iff of_nat_unat)

lemma unat_byte_less: "unat (w :: byte) < 256"
  using unsigned_less [of w, where 'a = nat] by simp

lemma unat_u16_less: "unat (w :: u16) < 65536"
  using unsigned_less [of w, where 'a = nat] by simp

section \<open>Lists\<close>

lemma map_nth_upt: "length xs = n \<Longrightarrow> map (\<lambda>i. xs ! i) [0..<n] = xs"
  by (rule nth_equalityI) auto

lemma take_drop_append_mid:
  "length xs = n \<Longrightarrow> take n (drop 0 (xs @ ys)) = xs"
  by simp

lemma distinct_map_update:
  "\<lbrakk> i < length xs; y \<notin> set xs; distinct xs \<rbrakk> \<Longrightarrow> distinct (xs[i := y])"
  by (simp add: distinct_list_update)

lemma length_filter_conv_sum:
  "length (filter P [0..<n]) = card {i. i < n \<and> P i}"
proof -
  have "length (filter P [0..<n]) = card (set (filter P [0..<n]))"
    by (simp only: distinct_card distinct_filter distinct_upt)
  also have "set (filter P [0..<n]) = {i. i < n \<and> P i}" by auto
  finally show ?thesis .
qed

end
