(* ===== verification/Utilities.thy ===== *)
theory Utilities
  imports Sky_Prelude
begin

text \<open>
  \<open>src/utilities.c\<close>: byte order conversion, the division-free positive modulo, tick wrapping
  and the global tick counter.
\<close>

section \<open>Byte order\<close>

text \<open>The model is the little-endian branch of the preprocessor conditional.\<close>

definition sky_hton16 :: "u16 \<Rightarrow> u16" where
  "sky_hton16 vh = drop_bit 8 (vh AND 0xff00) OR push_bit 8 (vh AND 0x00ff)"

definition sky_ntoh16 :: "u16 \<Rightarrow> u16" where
  "sky_ntoh16 vn = sky_hton16 vn"

definition sky_hton32 :: "u32 \<Rightarrow> u32" where
  "sky_hton32 vh =
     (drop_bit 24 (vh AND 0xff000000) OR push_bit 24 (vh AND 0x000000ff)) OR
     (push_bit 8 (vh AND 0x0000ff00) OR drop_bit 8 (vh AND 0x00ff0000))"

definition sky_ntoh32 :: "u32 \<Rightarrow> u32" where
  "sky_ntoh32 vn = sky_hton32 vn"

text \<open>How a 16 or 32 bit object lies in memory on the modelled (little-endian) host.\<close>

definition mem16 :: "u16 \<Rightarrow> bytes" where
  "mem16 w = [ucast w, ucast (drop_bit 8 w)]"

definition mem32 :: "u32 \<Rightarrow> bytes" where
  "mem32 w = [ucast w, ucast (drop_bit 8 w), ucast (drop_bit 16 w), ucast (drop_bit 24 w)]"

definition load16 :: "byte \<Rightarrow> byte \<Rightarrow> u16" where
  "load16 b0 b1 = ucast b0 OR push_bit 8 (ucast b1)"

definition load32 :: "byte \<Rightarrow> byte \<Rightarrow> byte \<Rightarrow> byte \<Rightarrow> u32" where
  "load32 b0 b1 b2 b3 =
     ucast b0 OR push_bit 8 (ucast b1) OR push_bit 16 (ucast b2) OR push_bit 24 (ucast b3)"

section \<open>Positive modulo\<close>

partial_function (option) pm_add_loop :: "int \<Rightarrow> int \<Rightarrow> int option" where
  "pm_add_loop x m =
     (if x < 0 then Option.bind (c_int (x + m)) (\<lambda>x'. pm_add_loop x' m) else Some x)"

partial_function (option) pm_sub_loop :: "int \<Rightarrow> int \<Rightarrow> int option" where
  "pm_sub_loop x m =
     (if m \<le> x then Option.bind (c_int (x - m)) (\<lambda>x'. pm_sub_loop x' m) else Some x)"

declare pm_add_loop.simps [code] pm_sub_loop.simps [code]

definition positive_modulo :: "int \<Rightarrow> int \<Rightarrow> int option" where
  "positive_modulo x m = do {
     ax \<leftarrow> c_int \<bar>x\<bar>;
     m12 \<leftarrow> c_int (m * 12);
     if ax > m12 then
       (if m = 0 then None
        else do { s \<leftarrow> c_int (x smod m + m); Some (s smod m) })
     else do {
       x1 \<leftarrow> pm_add_loop x m;
       pm_sub_loop x1 m
     }
   }"

definition MOD_TIME_TICKS :: int where "MOD_TIME_TICKS = 16777216"

definition wrap_time_ticks :: "sky_tick_t \<Rightarrow> int option" where
  "wrap_time_ticks time_ticks = positive_modulo time_ticks MOD_TIME_TICKS"

section \<open>Global time\<close>

text \<open>The global \<open>_global_ticks_now\<close> is passed explicitly.\<close>

definition sky_tick :: "sky_tick_t \<Rightarrow> sky_tick_t \<Rightarrow> (int \<times> sky_tick_t) option" where
  "sky_tick global_ticks_now time_in_ticks = do {
     let ret = (if time_in_ticks \<noteq> global_ticks_now then 1 else 0);
     now \<leftarrow> positive_modulo time_in_ticks MOD_TIME_TICKS;
     Some (ret, now)
   }"

definition sky_get_tick_time :: "sky_tick_t \<Rightarrow> sky_tick_t" where
  "sky_get_tick_time global_ticks_now = global_ticks_now"

section \<open>Lemmas: byte order\<close>

lemma mask16_hi: "(0xff00::u16) = push_bit 8 (mask 8)"
  by (simp add: mask_eq_exp_minus_1 push_bit_eq_mult)

lemma mask16_lo: "(0x00ff::u16) = mask 8"
  by (simp add: mask_eq_exp_minus_1)

lemma mask32_bytes:
  "(0xff000000::u32) = push_bit 24 (mask 8)" "(0x00ff0000::u32) = push_bit 16 (mask 8)"
  "(0x0000ff00::u32) = push_bit 8 (mask 8)" "(0x000000ff::u32) = mask 8"
  by (simp_all add: mask_eq_exp_minus_1 push_bit_eq_mult)

text \<open>Host-to-network conversion reverses the bytes in memory: the wire order is big-endian.\<close>

lemma hton16_mem: "mem16 (sky_hton16 w) = rev (mem16 w)"
proof -
  have "ucast (sky_hton16 w) = (ucast (drop_bit 8 w) :: byte)"
    "ucast (drop_bit 8 (sky_hton16 w)) = (ucast w :: byte)"
    unfolding sky_hton16_def mask16_hi mask16_lo
    by (rule bit_word_eqI, auto simp: bit_simps)+
  then show ?thesis by (simp add: mem16_def)
qed

lemma hton32_mem: "mem32 (sky_hton32 w) = rev (mem32 w)"
proof -
  have "ucast (sky_hton32 w) = (ucast (drop_bit 24 w) :: byte)"
    "ucast (drop_bit 8 (sky_hton32 w)) = (ucast (drop_bit 16 w) :: byte)"
    "ucast (drop_bit 16 (sky_hton32 w)) = (ucast (drop_bit 8 w) :: byte)"
    "ucast (drop_bit 24 (sky_hton32 w)) = (ucast w :: byte)"
    unfolding sky_hton32_def mask32_bytes
    by (rule bit_word_eqI, auto simp: bit_simps)+
  then show ?thesis by (simp add: mem32_def)
qed

lemma load16_mem [wire_simps]: "load16 (ucast w) (ucast (drop_bit 8 w)) = w"
  unfolding load16_def by (rule bit_word_eqI) (auto simp: bit_simps)

lemma load32_mem [wire_simps]:
  "load32 (ucast w) (ucast (drop_bit 8 w)) (ucast (drop_bit 16 w)) (ucast (drop_bit 24 w)) = w"
proof (rule bit_word_eqI)
  fix n assume "n < LENGTH(32)"
  then consider "n < 8" | "8 \<le> n \<and> n < 16" | "16 \<le> n \<and> n < 24" | "24 \<le> n \<and> n < 32" by force
  then show "bit (load32 (ucast w) (ucast (drop_bit 8 w)) (ucast (drop_bit 16 w))
      (ucast (drop_bit 24 w))) n = bit w n"
    unfolding load32_def by cases (auto simp: bit_simps)
qed

lemma mem16_load16: "mem16 (load16 b0 b1) = [b0, b1]"
proof -
  have "ucast (load16 b0 b1) = b0" "ucast (drop_bit 8 (load16 b0 b1)) = b1"
    unfolding load16_def
    by (rule bit_word_eqI, auto simp: bit_simps dest: bit_imp_le_length)+
  then show ?thesis by (simp add: mem16_def)
qed

lemma mem16_inj: "mem16 v = mem16 w \<longleftrightarrow> v = w"
  by (metis load16_mem mem16_def nth_Cons_0 nth_Cons_Suc)

lemma mem32_inj: "mem32 v = mem32 w \<longleftrightarrow> v = w"
  by (metis load32_mem mem32_def nth_Cons_0 nth_Cons_Suc)

lemma length_mem [simp]: "length (mem16 w) = 2" "length (mem32 v) = 4"
  by (simp_all add: mem16_def mem32_def)

lemma ntoh16_hton16 [wire_simps]: "sky_ntoh16 (sky_hton16 w) = w"
  by (metis hton16_mem mem16_inj rev_rev_ident sky_ntoh16_def)

lemma ntoh32_hton32 [wire_simps]: "sky_ntoh32 (sky_hton32 w) = w"
  by (metis hton32_mem mem32_inj rev_rev_ident sky_ntoh32_def)

section \<open>Lemmas: positive modulo\<close>

lemma pm_add_loop_nonneg: "0 \<le> x \<Longrightarrow> pm_add_loop x m = Some x"
  by (simp add: pm_add_loop.simps)

lemma pm_sub_loop_small: "x < m \<Longrightarrow> pm_sub_loop x m = Some x"
  by (simp add: pm_sub_loop.simps)

lemma pm_add_loop_neg:
  assumes m: "0 < m" "m \<le> 178956970" and x: "- 2147483647 \<le> x" "x < 0"
  shows "pm_add_loop x m = Some (x mod m)"
  using x
proof (induction "nat (- x)" arbitrary: x rule: less_induct)
  case less
  have step: "pm_add_loop x m = pm_add_loop (x + m) m"
    using less.prems m by (subst pm_add_loop.simps) simp
  show ?case
  proof (cases "x + m < 0")
    case True
    then have "pm_add_loop (x + m) m = Some ((x + m) mod m)"
      using less.prems m by (intro less.hyps) auto
    then show ?thesis using step by simp
  next
    case False
    have "(x + m) mod m = x + m" using False less.prems m by (intro mod_pos_pos_trivial) auto
    then show ?thesis using step False pm_add_loop_nonneg [of "x + m" m] by simp
  qed
qed

lemma pm_sub_loop_nonneg:
  assumes m: "0 < m" and x: "0 \<le> x" "x \<le> 2147483647"
  shows "pm_sub_loop x m = Some (x mod m)"
  using x
proof (induction "nat x" arbitrary: x rule: less_induct)
  case less
  show ?case
  proof (cases "m \<le> x")
    case True
    have "pm_sub_loop x m = pm_sub_loop (x - m) m"
      using less.prems m True by (subst pm_sub_loop.simps) simp
    moreover have "pm_sub_loop (x - m) m = Some ((x - m) mod m)"
      using less.prems m True by (intro less.hyps) auto
    ultimately show ?thesis by (simp add: minus_mod_self2)
  next
    case False
    then show ?thesis using less.prems pm_sub_loop_small [of x m] by simp
  qed
qed

lemma smod_plus_smod:
  fixes x m :: int
  assumes "0 < m"
  shows "(x smod m + m) smod m = x mod m"
proof -
  have "x smod m \<in> {- \<bar>m\<bar> + 1..\<bar>m\<bar> - 1}" using assms by (intro smod_int_range) simp
  then have "0 \<le> x smod m + m" using assms by simp
  then have "(x smod m + m) smod m = (x smod m + m) mod m"
    using assms by (intro smod_mod_positive) simp_all
  also have "\<dots> = x smod m mod m" by simp
  also have "\<dots> = x mod m"
    by (subst signed_modulo_int_eq_modulo_int) (simp add: mod_diff_right_eq [symmetric])
  finally show ?thesis .
qed

lemma positive_modulo_mod [simp]:
  assumes "0 < m" "m \<le> 178956970" "- 2147483647 \<le> x" "x \<le> 2147483647"
  shows "positive_modulo x m = Some (x mod m)"
proof (cases "\<bar>x\<bar> > m * 12")
  case True
  have "x smod m \<in> {- \<bar>m\<bar> + 1..\<bar>m\<bar> - 1}" using assms by (intro smod_int_range) simp
  then have "c_int (x smod m + m) = Some (x smod m + m)" using assms by simp
  then show ?thesis using True assms by (simp add: positive_modulo_def smod_plus_smod)
next
  case False
  have b: "0 \<le> x mod m" "x mod m < m" using assms by auto
  have "Option.bind (pm_add_loop x m) (\<lambda>x1. pm_sub_loop x1 m) = Some (x mod m)"
  proof (cases "x < 0")
    case True
    then show ?thesis using assms b by (simp add: pm_add_loop_neg pm_sub_loop_small)
  next
    case False
    then show ?thesis using assms by (simp add: pm_add_loop_nonneg pm_sub_loop_nonneg)
  qed
  then show ?thesis using False assms by (simp add: positive_modulo_def)
qed

lemma wrap_time_ticks_mod [simp]:
  "\<lbrakk> - 2147483647 \<le> t; t \<le> 2147483647 \<rbrakk> \<Longrightarrow> wrap_time_ticks t = Some (t mod MOD_TIME_TICKS)"
  by (simp add: wrap_time_ticks_def MOD_TIME_TICKS_def)

section \<open>Properties\<close>

text \<open>
  Byte order. Converting to network order reverses the bytes of the object in memory, so the
  wire is big-endian on a little-endian host, and converting back gives the original value, for 16
  and for 32 bit values.
\<close>

theorem network_order:
  "mem16 (sky_hton16 v) = rev (mem16 v) \<and> sky_ntoh16 (sky_hton16 v) = v \<and>
   mem32 (sky_hton32 w) = rev (mem32 w) \<and> sky_ntoh32 (sky_hton32 w) = w"
  by (simp add: hton16_mem hton32_mem ntoh16_hton16 ntoh32_hton32)

text \<open>
  C38: the positive modulo terminates without signed overflow and returns the representative of
  \<open>x\<close> modulo \<open>m\<close> in \<open>[0, m)\<close>, for negative \<open>x\<close> as well, for every modulus up to
  \<open>INT_MAX / 12\<close> and every \<open>x\<close> but \<open>INT_MIN\<close>.
\<close>

theorem positive_modulo_correct:
  assumes "0 < m" "m \<le> 178956970" "- 2147483647 \<le> x" "x \<le> 2147483647"
  shows "\<exists>r. positive_modulo x m = Some r \<and> 0 \<le> r \<and> r < m \<and> m dvd (x - r)"
  using assms by (auto simp: minus_mod_eq_mult_div)

theorem positive_modulo_correct_witness:
  "\<exists>r. positive_modulo (- 1000) 7 = Some r \<and> 0 \<le> r \<and> r < 7 \<and> 7 dvd (- 1000 - r)"
  using positive_modulo_correct [of 7 "- 1000"] by simp

end
