(* ===== verification/Element_Buffer.thy ===== *)
theory Element_Buffer
  imports Utilities
begin

text \<open>
  \<open>src/element_buffer.c\<close>: the pool of fixed-size elements in which payloads are stored as doubly
  linked chains. The pool memory is a list of elements; element \<open>i\<close> stands for the
  \<open>element_size\<close> bytes at \<open>pool + i * element_size\<close> (two 16 bit link fields, then the data area).
  An index that does not denote an element of the pool is an access outside the allocation.
\<close>

section \<open>Model\<close>

definition EB_MAX_ELEMENT_COUNT :: nat where "EB_MAX_ELEMENT_COUNT = 65530"
definition EB_END_IDX :: nat where "EB_END_IDX = EB_MAX_ELEMENT_COUNT + 1"
definition EB_NULL_IDX :: nat where "EB_NULL_IDX = EB_MAX_ELEMENT_COUNT + 2"
definition EB_LEN_BYTES :: int where "EB_LEN_BYTES = 2"

record BufferElement =
  previous :: sky_element_idx_t
  next_idx :: sky_element_idx_t
  el_data :: bytes

record SkyElementBuffer =
  pool :: "BufferElement list"
  last_write_index :: sky_element_idx_t
  free_elements :: int
  element_count :: sky_element_idx_t
  element_size :: int
  element_usable_space :: int

definition min_i32 :: "int \<Rightarrow> int \<Rightarrow> int" where
  "min_i32 a b = (if a > b then b else a)"

definition wrap_element :: "SkyElementBuffer \<Rightarrow> int \<Rightarrow> sky_element_idx_t option" where
  "wrap_element buffer idx = map_option nat (positive_modulo idx (int (element_count buffer)))"

definition element_i :: "SkyElementBuffer \<Rightarrow> sky_element_idx_t \<Rightarrow> BufferElement option" where
  "element_i buffer i = nth_opt (pool buffer) i"

definition element_is_free :: "BufferElement \<Rightarrow> bool" where
  "element_is_free e \<longleftrightarrow> previous e = EB_NULL_IDX \<and> next_idx e = EB_NULL_IDX"

definition element_is_first :: "SkyElementBuffer \<Rightarrow> BufferElement \<Rightarrow> bool" where
  "element_is_first buffer e \<longleftrightarrow>
     (previous e = EB_END_IDX \<and> next_idx e = EB_END_IDX) \<or>
     (previous e = EB_END_IDX \<and> next_idx e < element_count buffer)"

definition element_is_last :: "SkyElementBuffer \<Rightarrow> BufferElement \<Rightarrow> bool" where
  "element_is_last buffer e \<longleftrightarrow>
     (next_idx e = EB_END_IDX \<and> previous e = EB_END_IDX) \<or>
     (next_idx e = EB_END_IDX \<and> previous e < element_count buffer)"

definition element_is_in_chain :: "SkyElementBuffer \<Rightarrow> BufferElement \<Rightarrow> bool" where
  "element_is_in_chain buffer e \<longleftrightarrow>
     (previous e = EB_END_IDX \<and> next_idx e = EB_END_IDX) \<or>
     (previous e < element_count buffer \<and> next_idx e < element_count buffer) \<or>
     (previous e = EB_END_IDX \<and> next_idx e < element_count buffer) \<or>
     (previous e < element_count buffer \<and> next_idx e = EB_END_IDX)"

definition wipe_element :: "BufferElement \<Rightarrow> BufferElement" where
  "wipe_element e = e\<lparr>previous := EB_NULL_IDX, next_idx := EB_NULL_IDX\<rparr>"

text \<open>The scan of \<open>element_buffer_get_next_free\<close>, over the loop counters still to visit.\<close>

fun next_free_scan :: "SkyElementBuffer \<Rightarrow> sky_element_idx_t \<Rightarrow> nat list \<Rightarrow> int option" where
  "next_free_scan buffer start_idx [] = Some (- 1)"
| "next_free_scan buffer start_idx (i # is) = do {
     idx \<leftarrow> wrap_element buffer (int start_idx + int i);
     element \<leftarrow> element_i buffer idx;
     if element_is_free element then Some (int idx)
     else next_free_scan buffer start_idx is
   }"

definition element_buffer_get_next_free :: "SkyElementBuffer \<Rightarrow> sky_element_idx_t \<Rightarrow> int option" where
  "element_buffer_get_next_free buffer start_idx =
     next_free_scan buffer start_idx [0..<element_count buffer]"

text \<open>
  The caller's array \<open>indexes\<close> has 42 entries; a write behind its end is undefined behaviour.
  The list argument holds the loop counters still to visit.
\<close>

definition INDEXES_SIZE :: nat where "INDEXES_SIZE = 42"

fun n_free_loop :: "SkyElementBuffer \<Rightarrow> int \<Rightarrow> sky_element_idx_t list \<Rightarrow> nat list \<Rightarrow>
    (int \<times> sky_element_idx_t list) option" where
  "n_free_loop buffer idx0 tgt [] = Some (0, tgt)"
| "n_free_loop buffer idx0 tgt (i # is) = do {
     start \<leftarrow> wrap_element buffer (int (tgt ! (i - 1)) + 1);
     idx \<leftarrow> element_buffer_get_next_free buffer start;
     if idx = idx0 then Some (- 1, tgt)
     else if idx < 0 then Some (- 1, tgt)
     else if i < INDEXES_SIZE then n_free_loop buffer idx0 (tgt @ [nat idx]) is
     else None
   }"

definition element_buffer_get_n_free ::
    "SkyElementBuffer \<Rightarrow> int \<Rightarrow> sky_element_idx_t \<Rightarrow> (int \<times> sky_element_idx_t list) option" where
  "element_buffer_get_n_free buffer n start_idx = do {
     idx0 \<leftarrow> element_buffer_get_next_free buffer start_idx;
     if idx0 < 0 then Some (- 1, [])
     else n_free_loop buffer idx0 [nat idx0] [1..<nat n]
   }"

definition sky_element_buffer_element_requirement :: "int \<Rightarrow> int \<Rightarrow> int option" where
  "sky_element_buffer_element_requirement elementsize len =
     (if elementsize > 4 then
        let usable_size = elementsize - 4
        in Some ((len + EB_LEN_BYTES + usable_size - 1) sdiv usable_size)
      else None)"

definition sky_element_buffer_element_requirement_for :: "SkyElementBuffer \<Rightarrow> int \<Rightarrow> int option" where
  "sky_element_buffer_element_requirement_for buffer len =
     (if element_usable_space buffer > 0 then
        Some ((len + EB_LEN_BYTES + element_usable_space buffer - 1) sdiv element_usable_space buffer)
      else None)"

definition sky_element_buffer_wipe :: "SkyElementBuffer \<Rightarrow> SkyElementBuffer" where
  "sky_element_buffer_wipe buffer =
     buffer\<lparr>pool := map wipe_element (take (element_count buffer) (pool buffer)) @
                    drop (element_count buffer) (pool buffer),
            last_write_index := 0,
            free_elements := int (element_count buffer)\<rparr>"

text \<open>
  \<open>uninit\<close> is the content of the freshly allocated (uninitialised) data areas. The link
  fields are uninitialised as well until the call of \<open>sky_element_buffer_wipe\<close>.
\<close>

definition sky_element_buffer_create ::
    "(nat \<Rightarrow> byte) \<Rightarrow> int \<Rightarrow> int \<Rightarrow> SkyElementBuffer option" where
  "sky_element_buffer_create uninit usable_element_size elementcount =
     (if elementcount > int EB_MAX_ELEMENT_COUNT \<or> elementcount < 0 \<or> usable_element_size < 0 then None
      else
        let usable = nat usable_element_size;
            mem = map (\<lambda>i. \<lparr>previous = 0, next_idx = 0,
                         el_data = map (\<lambda>k. uninit (i * usable + k)) [0..<usable]\<rparr>)
                      [0..<nat elementcount]
        in Some (sky_element_buffer_wipe
             \<lparr>pool = mem, last_write_index = 0, free_elements = elementcount,
              element_count = nat elementcount, element_size = usable_element_size + 4,
              element_usable_space = usable_element_size\<rparr>))"

text \<open>\<open>memcpy\<close> into the data area of one element; a negative count converts to a huge size.\<close>

definition el_copy_in :: "bytes \<Rightarrow> nat \<Rightarrow> int \<Rightarrow> bytes \<Rightarrow> bytes option" where
  "el_copy_in area off n src = (if n < 0 then None else write_bytes area off (take (nat n) src))"

definition el_copy_out :: "bytes \<Rightarrow> nat \<Rightarrow> int \<Rightarrow> bytes option" where
  "el_copy_out area off n = (if n < 0 then None else read_bytes area off (nat n))"

definition el_length_field :: "bytes \<Rightarrow> int option" where
  "el_length_field area = (case area of b0 # b1 # _ \<Rightarrow> Some (int (unat (load16 b0 b1))) | _ \<Rightarrow> None)"

text \<open>The copy loop of \<open>sky_element_buffer_store\<close>, over the acquired indexes still to link.\<close>

fun store_loop :: "int \<Rightarrow> bytes \<Rightarrow> int \<Rightarrow> BufferElement list \<Rightarrow> int \<Rightarrow> sky_element_idx_t \<Rightarrow>
    sky_element_idx_t list \<Rightarrow> BufferElement list option" where
  "store_loop usable dat len pl data_cursor prev_i [] = Some pl"
| "store_loop usable dat len pl data_cursor prev_i (ix # rest) = do {
     el \<leftarrow> nth_opt pl prev_i;
     pl1 \<leftarrow> upd_opt pl prev_i (el\<lparr>next_idx := ix\<rparr>);
     el1 \<leftarrow> nth_opt pl1 ix;
     let to_copy = min_i32 usable (len - data_cursor);
     area \<leftarrow> el_copy_in (el_data el1) 0 to_copy (drop (nat data_cursor) dat);
     pl2 \<leftarrow> upd_opt pl1 ix \<lparr>previous = prev_i, next_idx = EB_END_IDX, el_data = area\<rparr>;
     store_loop usable dat len pl2 (data_cursor + to_copy) ix rest
   }"

definition sky_element_buffer_store :: "SkyElementBuffer \<Rightarrow> bytes \<Rightarrow> (int \<times> SkyElementBuffer) option" where
  "sky_element_buffer_store buffer dat = do {
     let len = length dat mod 65536;
     n \<leftarrow> sky_element_buffer_element_requirement_for buffer (int len);
     if n > free_elements buffer then Some (SKY_RET_EBUFFER_NO_SPACE, buffer)
     else do {
       let n_required = (if n = 0 then n + 1 else n);
       (r, indexes) \<leftarrow> element_buffer_get_n_free buffer n_required (last_write_index buffer);
       if r < 0 then Some (SKY_RET_EBUFFER_NO_SPACE, buffer)
       else do {
         el0 \<leftarrow> element_i buffer (indexes ! 0);
         area0 \<leftarrow> el_copy_in (el_data el0) 0 EB_LEN_BYTES (mem16 (of_nat len));
         let to_copy = min_i32 (int len) (element_usable_space buffer - EB_LEN_BYTES);
         area1 \<leftarrow> el_copy_in area0 2 to_copy dat;
         pl0 \<leftarrow> upd_opt (pool buffer) (indexes ! 0)
                  \<lparr>previous = EB_END_IDX, next_idx = EB_END_IDX, el_data = area1\<rparr>;
         pl \<leftarrow> store_loop (element_usable_space buffer) dat (int len) pl0 to_copy
                (indexes ! 0) (tl indexes);
         Some (int (indexes ! 0),
           buffer\<lparr>pool := pl, last_write_index := indexes ! (nat n_required - 1),
                  free_elements := free_elements buffer - n_required\<rparr>)
       }
     }
   }"

definition sky_element_buffer_get_data_length ::
    "SkyElementBuffer \<Rightarrow> sky_element_idx_t \<Rightarrow> int option" where
  "sky_element_buffer_get_data_length buffer idx = do {
     el \<leftarrow> element_i buffer idx;
     if \<not> element_is_first buffer el then Some SKY_RET_EBUFFER_INVALID_INDEX
     else el_length_field (el_data el)
   }"

text \<open>
  The read loop; the last argument counts the elements still to visit. The accumulated bytes
  are what has been written to \<open>target\<close>.
\<close>

fun read_loop :: "SkyElementBuffer \<Rightarrow> int \<Rightarrow> int \<Rightarrow> BufferElement \<Rightarrow> bytes \<Rightarrow> nat \<Rightarrow>
    bytes c_result option" where
  "read_loop buffer len cursor el acc 0 =
     (if \<not> element_is_last buffer el then Some (Inl SKY_RET_EBUFFER_CHAIN_CORRUPTED)
      else Some (Inr acc))"
| "read_loop buffer len cursor el acc (Suc k) = do {
     el1 \<leftarrow> element_i buffer (next_idx el);
     if element_is_free el1 then Some (Inl SKY_RET_EBUFFER_CHAIN_CORRUPTED)
     else do {
       let to_read = min_i32 (element_usable_space buffer) (len - cursor);
       bs \<leftarrow> el_copy_out (el_data el1) 0 to_read;
       read_loop buffer len (cursor + to_read) el1 (acc @ bs) k
     }
   }"

definition sky_element_buffer_read ::
    "SkyElementBuffer \<Rightarrow> sky_element_idx_t \<Rightarrow> nat \<Rightarrow> bytes c_result option" where
  "sky_element_buffer_read buffer idx max_len = do {
     el \<leftarrow> element_i buffer idx;
     if \<not> element_is_first buffer el then Some (Inl SKY_RET_EBUFFER_INVALID_INDEX)
     else do {
       len \<leftarrow> el_length_field (el_data el);
       if len > int max_len then Some (Inl SKY_RET_EBUFFER_TOO_LONG_PAYLOAD)
       else do {
         let to_read = min_i32 (element_usable_space buffer - EB_LEN_BYTES) len;
         bs \<leftarrow> el_copy_out (el_data el) 2 to_read;
         n_elements \<leftarrow> sky_element_buffer_element_requirement_for buffer len;
         read_loop buffer len to_read el bs (nat (n_elements - 1))
       }
     }
   }"

partial_function (option) delete_loop ::
    "SkyElementBuffer \<Rightarrow> sky_element_idx_t \<Rightarrow> SkyElementBuffer option" where
  "delete_loop buffer i =
     Option.bind (element_i buffer i) (\<lambda>el.
       let buffer' = buffer\<lparr>pool := (pool buffer)[i := wipe_element el],
                            free_elements := free_elements buffer + 1\<rparr>
       in if element_is_last buffer el then Some buffer'
          else delete_loop buffer' (next_idx el))"

declare delete_loop.simps [code]

definition sky_element_buffer_delete ::
    "SkyElementBuffer \<Rightarrow> sky_element_idx_t \<Rightarrow> (int \<times> SkyElementBuffer) option" where
  "sky_element_buffer_delete buffer idx = do {
     el \<leftarrow> element_i buffer idx;
     if \<not> element_is_first buffer el then Some (SKY_RET_EBUFFER_INVALID_INDEX, buffer)
     else do { buffer' \<leftarrow> delete_loop buffer idx; Some (0, buffer') }
   }"

partial_function (option) chain_is_ok_backwards ::
    "SkyElementBuffer \<Rightarrow> sky_element_idx_t \<Rightarrow> BufferElement \<Rightarrow> bool option" where
  "chain_is_ok_backwards buffer idx el =
     (if \<not> element_is_in_chain buffer el then Some False
      else if element_is_first buffer el then Some True
      else Option.bind (element_i buffer (previous el)) (\<lambda>el1.
        if next_idx el1 \<noteq> idx then Some False
        else chain_is_ok_backwards buffer (previous el) el1))"

partial_function (option) chain_is_ok_forward ::
    "SkyElementBuffer \<Rightarrow> sky_element_idx_t \<Rightarrow> BufferElement \<Rightarrow> bool option" where
  "chain_is_ok_forward buffer idx el =
     (if \<not> element_is_in_chain buffer el then Some False
      else if element_is_last buffer el then Some True
      else Option.bind (element_i buffer (next_idx el)) (\<lambda>el1.
        if previous el1 \<noteq> idx then Some False
        else chain_is_ok_forward buffer (next_idx el) el1))"

declare chain_is_ok_backwards.simps [code] chain_is_ok_forward.simps [code]

definition sky_element_buffer_valid_chain :: "SkyElementBuffer \<Rightarrow> sky_element_idx_t \<Rightarrow> bool option" where
  "sky_element_buffer_valid_chain buffer idx = do {
     el \<leftarrow> element_i buffer idx;
     if \<not> element_is_in_chain buffer el then Some False
     else do {
       a \<leftarrow> chain_is_ok_backwards buffer idx el;
       b \<leftarrow> chain_is_ok_forward buffer idx el;
       Some (a \<and> b)
     }
   }"

fun buffer_ok_loop :: "SkyElementBuffer \<Rightarrow> int \<Rightarrow> nat list \<Rightarrow> bool option" where
  "buffer_ok_loop buffer counted_free [] = Some (counted_free = free_elements buffer)"
| "buffer_ok_loop buffer counted_free (i # is) = do {
     el \<leftarrow> element_i buffer i;
     if element_is_free el then buffer_ok_loop buffer (counted_free + 1) is
     else do {
       v \<leftarrow> sky_element_buffer_valid_chain buffer i;
       if v then buffer_ok_loop buffer counted_free is else Some False
     }
   }"

definition sky_element_buffer_entire_buffer_is_ok :: "SkyElementBuffer \<Rightarrow> bool option" where
  "sky_element_buffer_entire_buffer_is_ok buffer = buffer_ok_loop buffer 0 [0..<element_count buffer]"

end
