(* ===== verification/Sequence_Ring.thy ===== *)
theory Sequence_Ring
  imports Element_Buffer
begin

text \<open>
  \<open>src/sequence_ring.c\<close>: the send ring and the receive ring of a virtual channel. A ring keeps
  its item array, its indexes as C \<open>int\<close>s and its sequence numbers as bytes that overflow
  naturally. Every operation takes the rings and the element buffer and returns them updated,
  together with the C return value. Indexing an item outside the array gives \<open>None\<close>.
\<close>

section \<open>Rings\<close>

definition ARQ_RESEND_SCHEDULE_DEPTH :: nat where "ARQ_RESEND_SCHEDULE_DEPTH = 16"
definition ARQ_MAXIMUM_HORIZON :: int where "ARQ_MAXIMUM_HORIZON = 64"
definition SKY_PAYLOAD_MAX_LEN :: nat where "SKY_PAYLOAD_MAX_LEN = 181"

record RingItem =
  idx :: sky_element_idx_t
  sequence :: sky_arq_sequence_t

record SkySendRing =
  s_buff :: "RingItem list"
  s_length :: int
  s_head :: int
  tx_head :: int
  s_tail :: int
  s_head_sequence :: sky_arq_sequence_t
  tx_sequence :: sky_arq_sequence_t
  s_tail_sequence :: sky_arq_sequence_t
  s_storage_count :: int
  resend_count :: nat
  resend_list :: "sky_arq_sequence_t list"

record SkyRcvRing =
  r_buff :: "RingItem list"
  r_length :: int
  horizon_width :: int
  r_head :: int
  r_tail :: int
  r_head_sequence :: sky_arq_sequence_t
  r_tail_sequence :: sky_arq_sequence_t
  r_storage_count :: int

definition null_item :: RingItem where
  "null_item = \<lparr>idx = EB_NULL_IDX, sequence = 0\<rparr>"

text \<open>\<open>&buff[i]\<close> for reading and writing.\<close>

definition item_at :: "RingItem list \<Rightarrow> int \<Rightarrow> RingItem option" where
  "item_at buff i = (if i < 0 then None else nth_opt buff (nat i))"

definition item_set :: "RingItem list \<Rightarrow> int \<Rightarrow> RingItem \<Rightarrow> RingItem list option" where
  "item_set buff i v = (if i < 0 then None else upd_opt buff (nat i) v)"

definition ring_wrap :: "int \<Rightarrow> int \<Rightarrow> int option" where
  "ring_wrap i len = positive_modulo i len"

text \<open>
  The loop both wipe functions share: delete the payload of an occupied item when there is an
  element buffer, then reset the item.
\<close>

fun wipe_items :: "RingItem list \<Rightarrow> SkyElementBuffer option \<Rightarrow> nat list \<Rightarrow>
    (RingItem list \<times> SkyElementBuffer option) option" where
  "wipe_items buff eb [] = Some (buff, eb)"
| "wipe_items buff eb (i # is) = do {
     item \<leftarrow> nth_opt buff i;
     eb' \<leftarrow> (case eb of
               None \<Rightarrow> Some None
             | Some b \<Rightarrow> (if idx item \<noteq> EB_NULL_IDX
                         then map_option (\<lambda>r. Some (snd r)) (sky_element_buffer_delete b (idx item))
                         else Some (Some b)));
     wipe_items (buff[i := null_item]) eb' is
   }"

section \<open>Receive ring\<close>

definition sky_rcv_ring_wipe :: "SkyRcvRing \<Rightarrow> SkyElementBuffer option \<Rightarrow> sky_arq_sequence_t \<Rightarrow>
    (SkyRcvRing \<times> SkyElementBuffer option) option" where
  "sky_rcv_ring_wipe rcvRing elementBuffer initial_sequence = do {
     (buff, eb) \<leftarrow> wipe_items (r_buff rcvRing) elementBuffer [0..<nat (r_length rcvRing)];
     Some (rcvRing\<lparr>r_buff := buff, r_head := 0, r_tail := 0, r_storage_count := 0,
                   r_head_sequence := initial_sequence, r_tail_sequence := initial_sequence\<rparr>, eb)
   }"

text \<open>The inner option is the returned pointer, \<open>NULL\<close> for refused arguments.\<close>

definition sky_rcv_ring_create :: "int \<Rightarrow> int \<Rightarrow> sky_arq_sequence_t \<Rightarrow> SkyRcvRing option option" where
  "sky_rcv_ring_create len horizon initial_sequence =
     (if len < 3 \<or> horizon < 0 then Some None
      else if len < horizon + 3 then Some None
      else do {
        (ring, _) \<leftarrow> sky_rcv_ring_wipe
          \<lparr>r_buff = replicate (nat len) \<lparr>idx = 0, sequence = 0\<rparr>, r_length = len,
           horizon_width = (if horizon \<le> ARQ_MAXIMUM_HORIZON then horizon else ARQ_MAXIMUM_HORIZON),
           r_head = 0, r_tail = 0, r_head_sequence = 0, r_tail_sequence = 0, r_storage_count = 0\<rparr>
          None initial_sequence;
        Some (Some ring)
      })"

definition rcvRing_count_readable_packets :: "SkyRcvRing \<Rightarrow> int option" where
  "rcvRing_count_readable_packets rcvRing =
     ring_wrap (r_head rcvRing - r_tail rcvRing) (r_length rcvRing)"

partial_function (option) advance_head_loop :: "SkyRcvRing \<Rightarrow> int \<Rightarrow> (int \<times> SkyRcvRing) option" where
  "advance_head_loop rcvRing advanced =
     Option.bind (item_at (r_buff rcvRing) (r_head rcvRing)) (\<lambda>item.
       if idx item = EB_NULL_IDX then Some (advanced, rcvRing)
       else Option.bind (ring_wrap (r_head rcvRing + horizon_width rcvRing + 1) (r_length rcvRing)) (\<lambda>w.
         if w = r_tail rcvRing then Some (advanced, rcvRing)
         else Option.bind (ring_wrap (r_head rcvRing + 1) (r_length rcvRing)) (\<lambda>h.
           advance_head_loop
             (rcvRing\<lparr>r_head := h, r_head_sequence := r_head_sequence rcvRing + 1\<rparr>) (advanced + 1))))"

declare advance_head_loop.simps [code]

definition rcvRing_advance_head :: "SkyRcvRing \<Rightarrow> (int \<times> SkyRcvRing) option" where
  "rcvRing_advance_head rcvRing = advance_head_loop rcvRing 0"

text \<open>The returned bytes are what has been written to the caller's buffer.\<close>

definition rcvRing_read_next_received :: "SkyRcvRing \<Rightarrow> SkyElementBuffer \<Rightarrow> nat \<Rightarrow>
    (int \<times> bytes \<times> SkyRcvRing \<times> SkyElementBuffer) option" where
  "rcvRing_read_next_received rcvRing elementBuffer max_length = do {
     n \<leftarrow> rcvRing_count_readable_packets rcvRing;
     if n = 0 then Some (SKY_RET_RING_EMPTY, [], rcvRing, elementBuffer)
     else do {
       tail_item \<leftarrow> item_at (r_buff rcvRing) (r_tail rcvRing);
       ret \<leftarrow> sky_element_buffer_read elementBuffer (idx tail_item) max_length;
       case ret of
         Inl e \<Rightarrow> Some (e, [], rcvRing, elementBuffer)
       | Inr bs \<Rightarrow> do {
           (_, eb) \<leftarrow> sky_element_buffer_delete elementBuffer (idx tail_item);
           buff \<leftarrow> item_set (r_buff rcvRing) (r_tail rcvRing) null_item;
           t \<leftarrow> ring_wrap (r_tail rcvRing + 1) (r_length rcvRing);
           (_, ring) \<leftarrow> rcvRing_advance_head
             (rcvRing\<lparr>r_buff := buff, r_storage_count := r_storage_count rcvRing - 1,
                      r_tail := t, r_tail_sequence := r_tail_sequence rcvRing + 1\<rparr>);
           Some (SKY_RET_OK, bs, ring, eb)
         }
     }
   }"

definition rcvRing_push_rx_packet :: "SkyRcvRing \<Rightarrow> SkyElementBuffer \<Rightarrow> bytes \<Rightarrow> sky_arq_sequence_t \<Rightarrow>
    (int \<times> SkyRcvRing \<times> SkyElementBuffer) option" where
  "rcvRing_push_rx_packet rcvRing elementBuffer src sq = do {
     let diff = sq - r_head_sequence rcvRing;
     if int (unat diff) > horizon_width rcvRing
     then Some (SKY_RET_RING_INVALID_SEQUENCE, rcvRing, elementBuffer)
     else do {
       ring_idx \<leftarrow> ring_wrap (r_head rcvRing + int (unat diff)) (r_length rcvRing);
       item \<leftarrow> item_at (r_buff rcvRing) ring_idx;
       if idx item \<noteq> EB_NULL_IDX
       then Some (SKY_RET_RING_PACKET_ALREADY_IN, rcvRing, elementBuffer)
       else do {
         (i, eb) \<leftarrow> sky_element_buffer_store elementBuffer src;
         if i < 0 then Some (i, rcvRing, eb)
         else do {
           buff \<leftarrow> item_set (r_buff rcvRing) ring_idx \<lparr>idx = nat i, sequence = sq\<rparr>;
           (advanced, ring) \<leftarrow> rcvRing_advance_head
             (rcvRing\<lparr>r_buff := buff, r_storage_count := r_storage_count rcvRing + 1\<rparr>);
           Some (advanced, ring, eb)
         }
       }
     }
   }"

fun bitmap_loop :: "SkyRcvRing \<Rightarrow> sky_arq_mask_t \<Rightarrow> nat list \<Rightarrow> sky_arq_mask_t option" where
  "bitmap_loop rcvRing m [] = Some m"
| "bitmap_loop rcvRing m (i # is) = do {
     ring_idx \<leftarrow> ring_wrap (r_head rcvRing + 1 + int i) (r_length rcvRing);
     item \<leftarrow> item_at (r_buff rcvRing) ring_idx;
     bitmap_loop rcvRing (if idx item \<noteq> EB_NULL_IDX then m OR push_bit i 1 else m) is
   }"

definition rcvRing_get_horizon_bitmap :: "SkyRcvRing \<Rightarrow> sky_arq_mask_t option" where
  "rcvRing_get_horizon_bitmap rcvRing =
     (let scan_count = (if horizon_width rcvRing < 16 then horizon_width rcvRing else 16)
      in bitmap_loop rcvRing 0 [0..<nat scan_count])"

definition rcvRing_get_sequence_sync_status :: "SkyRcvRing \<Rightarrow> sky_arq_sequence_t \<Rightarrow> int" where
  "rcvRing_get_sequence_sync_status rcvRing peer_tx_head_sequence_by_ctrl =
     (if peer_tx_head_sequence_by_ctrl = r_head_sequence rcvRing then SKY_RET_OK
      else let offset = peer_tx_head_sequence_by_ctrl - r_head_sequence rcvRing
           in if int (unat offset) \<le> ARQ_MAXIMUM_HORIZON then SKY_RET_RING_SEQUENCES_OUT_OF_SYNC
              else SKY_RET_RING_SEQUENCES_DETACHED)"

section \<open>Send ring\<close>

definition sky_send_ring_wipe :: "SkySendRing \<Rightarrow> SkyElementBuffer option \<Rightarrow> sky_arq_sequence_t \<Rightarrow>
    (SkySendRing \<times> SkyElementBuffer option) option" where
  "sky_send_ring_wipe sendRing elementBuffer initial_sequence = do {
     (buff, eb) \<leftarrow> wipe_items (s_buff sendRing) elementBuffer [0..<nat (s_length sendRing)];
     Some (sendRing\<lparr>s_buff := buff, resend_list := replicate ARQ_RESEND_SCHEDULE_DEPTH 0,
                    s_head := 0, tx_head := 0, s_tail := 0, s_storage_count := 0,
                    s_head_sequence := initial_sequence, s_tail_sequence := initial_sequence,
                    tx_sequence := initial_sequence, resend_count := 0\<rparr>, eb)
   }"

definition sky_send_ring_create :: "int \<Rightarrow> sky_arq_sequence_t \<Rightarrow> SkySendRing option option" where
  "sky_send_ring_create len initial_sequence =
     (if len < 4 then Some None
      else do {
        (ring, _) \<leftarrow> sky_send_ring_wipe
          \<lparr>s_buff = replicate (nat len) \<lparr>idx = 0, sequence = 0\<rparr>, s_length = len,
           s_head = 0, tx_head = 0, s_tail = 0, s_head_sequence = 0, tx_sequence = 0,
           s_tail_sequence = 0, s_storage_count = 0, resend_count = 0,
           resend_list = replicate ARQ_RESEND_SCHEDULE_DEPTH 0\<rparr>
          None initial_sequence;
        Some (Some ring)
      })"

definition sendRing_is_full :: "SkySendRing \<Rightarrow> bool option" where
  "sendRing_is_full sendRing = do {
     h \<leftarrow> ring_wrap (s_head sendRing + 1) (s_length sendRing);
     t \<leftarrow> ring_wrap (s_tail sendRing) (s_length sendRing);
     Some (h = t)
   }"

definition sendRing_can_recall :: "SkySendRing \<Rightarrow> sky_arq_sequence_t \<Rightarrow> bool option" where
  "sendRing_can_recall sendRing sq = do {
     tx_head_ahead_of_tail \<leftarrow> ring_wrap (tx_head sendRing - s_tail sendRing) (s_length sendRing);
     let sequence_ahead_of_tail = sq - s_tail_sequence sendRing;
     Some (\<not> int (unat sequence_ahead_of_tail) \<ge> tx_head_ahead_of_tail)
   }"

definition sendRing_get_recall_ring_index :: "SkySendRing \<Rightarrow> sky_arq_sequence_t \<Rightarrow> int option" where
  "sendRing_get_recall_ring_index sendRing recall_sequence = do {
     can \<leftarrow> sendRing_can_recall sendRing recall_sequence;
     if \<not> can then Some SKY_RET_RING_CANNOT_RECALL
     else ring_wrap (s_tail sendRing + int (unat (recall_sequence - s_tail_sequence sendRing)))
            (s_length sendRing)
   }"

definition sendRing_push_packet_to_send :: "SkySendRing \<Rightarrow> SkyElementBuffer \<Rightarrow> bytes \<Rightarrow>
    (int \<times> SkySendRing \<times> SkyElementBuffer) option" where
  "sendRing_push_packet_to_send sendRing elementBuffer payload = do {
     full \<leftarrow> sendRing_is_full sendRing;
     if full then Some (SKY_RET_RING_RING_FULL, sendRing, elementBuffer)
     else do {
       (i, eb) \<leftarrow> sky_element_buffer_store elementBuffer payload;
       if i < 0 then Some (i, sendRing, eb)
       else do {
         buff \<leftarrow> item_set (s_buff sendRing) (s_head sendRing)
                   \<lparr>idx = nat i, sequence = s_head_sequence sendRing\<rparr>;
         h \<leftarrow> ring_wrap (s_head sendRing + 1) (s_length sendRing);
         Some (int (unat (s_head_sequence sendRing)),
           sendRing\<lparr>s_buff := buff, s_storage_count := s_storage_count sendRing + 1, s_head := h,
                    s_head_sequence := s_head_sequence sendRing + 1\<rparr>, eb)
       }
     }
   }"

definition sendRing_schedule_resend :: "SkySendRing \<Rightarrow> sky_arq_sequence_t \<Rightarrow>
    (int \<times> SkySendRing) option" where
  "sendRing_schedule_resend sendRing sq =
     (if resend_count sendRing \<ge> ARQ_RESEND_SCHEDULE_DEPTH then Some (SKY_RET_RING_RESEND_FULL, sendRing)
      else do {
        can \<leftarrow> sendRing_can_recall sendRing sq;
        if \<not> can then Some (SKY_RET_RING_CANNOT_RECALL, sendRing)
        else if sq \<in> set (take (resend_count sendRing) (resend_list sendRing))
        then Some (SKY_RET_OK, sendRing)
        else do {
          l \<leftarrow> upd_opt (resend_list sendRing) (resend_count sendRing) sq;
          Some (SKY_RET_OK, sendRing\<lparr>resend_list := l, resend_count := resend_count sendRing + 1\<rparr>)
        }
      })"

text \<open>The loop over the mask bits; the list holds the bit positions still to visit.\<close>

fun mask_loop :: "SkySendRing \<Rightarrow> sky_arq_sequence_t \<Rightarrow> sky_arq_mask_t \<Rightarrow> sky_arq_mask_t \<Rightarrow> nat list \<Rightarrow>
    (int \<times> SkySendRing) option" where
  "mask_loop sendRing sq m select_mask [] = Some (SKY_RET_OK, sendRing)"
| "mask_loop sendRing sq m select_mask (i # is) =
     (if m AND select_mask = 0 then do {
        (ret, ring) \<leftarrow> sendRing_schedule_resend sendRing sq;
        if ret \<noteq> SKY_RET_OK then Some (ret, ring)
        else mask_loop ring (sq + 1) m (push_bit 1 select_mask) is
      }
      else mask_loop sendRing (sq + 1) m (push_bit 1 select_mask) is)"

definition sendRing_schedule_resends_by_mask :: "SkySendRing \<Rightarrow> sky_arq_sequence_t \<Rightarrow> sky_arq_mask_t \<Rightarrow>
    (int \<times> SkySendRing) option" where
  "sendRing_schedule_resends_by_mask sendRing sq m = do {
     (ret, ring) \<leftarrow> sendRing_schedule_resend sendRing sq;
     if ret \<noteq> SKY_RET_OK then Some (ret, ring)
     else mask_loop ring (sq + 1) m 1 [0..<16]
   }"

definition sendRing_count_free_send_slots :: "SkySendRing \<Rightarrow> int option" where
  "sendRing_count_free_send_slots sendRing =
     ring_wrap (s_tail sendRing - (s_head sendRing + 1)) (s_length sendRing)"

definition sendRing_count_packets_to_send :: "SkySendRing \<Rightarrow> bool \<Rightarrow> int option" where
  "sendRing_count_packets_to_send sendRing include_resend = do {
     n \<leftarrow> ring_wrap (s_head sendRing - tx_head sendRing) (s_length sendRing);
     Some (if include_resend then n + int (resend_count sendRing) else n)
   }"

fun shift_resends :: "sky_arq_sequence_t list \<Rightarrow> nat list \<Rightarrow> sky_arq_sequence_t list" where
  "shift_resends l [] = l"
| "shift_resends l (i # is) = shift_resends (l[i - 1 := l ! i]) is"

definition sendRing_pop_resend_sequence :: "SkySendRing \<Rightarrow> int \<times> SkySendRing" where
  "sendRing_pop_resend_sequence sendRing =
     (if resend_count sendRing = 0 then (SKY_RET_RING_EMPTY, sendRing)
      else let r = resend_list sendRing ! 0;
               n = resend_count sendRing - 1
           in (int (unat r),
               sendRing\<lparr>resend_count := n,
                        resend_list := shift_resends (resend_list sendRing) [1..<n]\<rparr>))"

text \<open>A successful read hands back the payload and the value written to \<open>*sequence\<close>.\<close>

definition sendRing_read_new_packet_to_tx :: "SkySendRing \<Rightarrow> SkyElementBuffer \<Rightarrow>
    ((bytes \<times> sky_arq_sequence_t) c_result \<times> SkySendRing) option" where
  "sendRing_read_new_packet_to_tx sendRing elementBuffer = do {
     n \<leftarrow> sendRing_count_packets_to_send sendRing False;
     if n = 0 then Some (Inl SKY_RET_RING_EMPTY, sendRing)
     else do {
       item \<leftarrow> item_at (s_buff sendRing) (tx_head sendRing);
       r \<leftarrow> sky_element_buffer_read elementBuffer (idx item) (SKY_PAYLOAD_MAX_LEN + 100);
       case r of
         Inl e \<Rightarrow> Some (Inl e, sendRing)
       | Inr bs \<Rightarrow> do {
           h \<leftarrow> ring_wrap (tx_head sendRing + 1) (s_length sendRing);
           Some (Inr (bs, tx_sequence sendRing),
                 sendRing\<lparr>tx_head := h, tx_sequence := tx_sequence sendRing + 1\<rparr>)
         }
     }
   }"

definition sendRing_read_recall_packet_to_tx :: "SkySendRing \<Rightarrow> SkyElementBuffer \<Rightarrow>
    ((bytes \<times> sky_arq_sequence_t) c_result \<times> SkySendRing) option" where
  "sendRing_read_recall_packet_to_tx sendRing elementBuffer = do {
     let (recall_seq, ring) = sendRing_pop_resend_sequence sendRing;
     if recall_seq < 0 then Some (Inl SKY_RET_RING_EMPTY, ring)
     else do {
       i \<leftarrow> sendRing_get_recall_ring_index ring (word_of_int recall_seq);
       if i < 0 then Some (Inl SKY_RET_RING_CANNOT_RECALL, ring)
       else do {
         item \<leftarrow> item_at (s_buff ring) i;
         r \<leftarrow> sky_element_buffer_read elementBuffer (idx item) (SKY_PAYLOAD_MAX_LEN + 100);
         case r of
           Inl e \<Rightarrow> Some (Inl e, ring)
         | Inr bs \<Rightarrow> Some (Inr (bs, word_of_int recall_seq), ring)
       }
     }
   }"

definition sendRing_read_to_tx :: "SkySendRing \<Rightarrow> SkyElementBuffer \<Rightarrow> bool \<Rightarrow>
    ((bytes \<times> sky_arq_sequence_t) c_result \<times> SkySendRing) option" where
  "sendRing_read_to_tx sendRing elementBuffer include_resend =
     (if include_resend \<and> resend_count sendRing > 0 then do {
        (r, ring) \<leftarrow> sendRing_read_recall_packet_to_tx sendRing elementBuffer;
        case r of
          Inr v \<Rightarrow> Some (Inr v, ring)
        | Inl _ \<Rightarrow> sendRing_read_new_packet_to_tx ring elementBuffer
      }
      else sendRing_read_new_packet_to_tx sendRing elementBuffer)"

text \<open>
  The value written to \<open>*sequence\<close> is the second component; when the function returns
  \<open>SKY_RET_RING_EMPTY\<close> it writes nothing.
\<close>

definition sendRing_peek_next_tx_size_and_sequence :: "SkySendRing \<Rightarrow> SkyElementBuffer \<Rightarrow> bool \<Rightarrow>
    (int \<times> sky_arq_sequence_t option) option" where
  "sendRing_peek_next_tx_size_and_sequence sendRing elementBuffer include_resend = do {
     n \<leftarrow> sendRing_count_packets_to_send sendRing include_resend;
     if n = 0 then Some (SKY_RET_RING_EMPTY, None)
     else do {
       i \<leftarrow> (if include_resend \<and> resend_count sendRing > 0
             then sendRing_get_recall_ring_index sendRing (resend_list sendRing ! 0)
             else Some (- 1));
       if i \<ge> 0 then do {
         item \<leftarrow> item_at (s_buff sendRing) i;
         len \<leftarrow> sky_element_buffer_get_data_length elementBuffer (idx item);
         Some (len, Some (sequence item))
       }
       else do {
         m \<leftarrow> sendRing_count_packets_to_send sendRing False;
         if m = 0 then Some (SKY_RET_RING_EMPTY, None)
         else do {
           item \<leftarrow> item_at (s_buff sendRing) (tx_head sendRing);
           len \<leftarrow> sky_element_buffer_get_data_length elementBuffer (idx item);
           Some (len, Some (sequence item))
         }
       }
     }
   }"

partial_function (option) clean_tail_loop :: "SkySendRing \<Rightarrow> SkyElementBuffer \<Rightarrow> sky_arq_sequence_t \<Rightarrow>
    int \<Rightarrow> (int \<times> SkySendRing \<times> SkyElementBuffer) option" where
  "clean_tail_loop sendRing elementBuffer new_tail_sequence n_cleared =
     (if s_tail_sequence sendRing = new_tail_sequence then Some (n_cleared, sendRing, elementBuffer)
      else Option.bind (item_at (s_buff sendRing) (s_tail sendRing)) (\<lambda>tail_item.
        Option.bind (sky_element_buffer_delete elementBuffer (idx tail_item)) (\<lambda>del.
        Option.bind (item_set (s_buff sendRing) (s_tail sendRing) null_item) (\<lambda>buff.
        Option.bind (ring_wrap (s_tail sendRing + 1) (s_length sendRing)) (\<lambda>t.
          clean_tail_loop
            (sendRing\<lparr>s_buff := buff, s_storage_count := s_storage_count sendRing - 1, s_tail := t,
                      s_tail_sequence := s_tail_sequence sendRing + 1\<rparr>)
            (snd del) new_tail_sequence (n_cleared + 1))))))"

declare clean_tail_loop.simps [code]

definition sendRing_clean_tail_up_to :: "SkySendRing \<Rightarrow> SkyElementBuffer \<Rightarrow> sky_arq_sequence_t \<Rightarrow>
    (int \<times> SkySendRing \<times> SkyElementBuffer) option" where
  "sendRing_clean_tail_up_to sendRing elementBuffer new_tail_sequence =
     (let tx_ahead_of_tail = tx_sequence sendRing - s_tail_sequence sendRing;
          peer_head_ahead_of_tail = new_tail_sequence - s_tail_sequence sendRing
      in if peer_head_ahead_of_tail > tx_ahead_of_tail
         then Some (SKY_RET_RING_INVALID_ACKNOWLEDGE, sendRing, elementBuffer)
         else clean_tail_loop sendRing elementBuffer new_tail_sequence 0)"

end
