(* ===== verification/Frame.thy ===== *)
theory Frame
  imports Sequence_Ring
begin

text \<open>
  \<open>src/frame.c\<close> and \<open>skylink/frame.h\<close>: radio frames, the static header, the header extensions and
  their parser. A pointer into the frame (\<open>hdr\<close>, \<open>ptr\<close>, the extension pointers of a parsed frame)
  is an offset into \<open>raw\<close>.

  The C standard leaves the layout of bit-fields to the compiler, so the size of
  \<open>SkyStaticHeader\<close> and the byte offsets of its fields are a parameter of the model (\<open>ly\<close>). On the
  supported little-endian targets the flags byte comes first and bit-fields fill it from its least
  significant bit. \<open>layout_gcc\<close> is what GCC produces: the attribute \<open>packed\<close> of the outer struct does
  not reach the inner struct of \<open>unsigned int\<close> bit-fields, which keeps its four bytes.
  \<open>layout_packed\<close> is the layout without that padding.
\<close>

section \<open>Frames\<close>

record SkyHeaderLayout =
  hdr_sizeof :: nat
  off_frame_sequence :: nat
  off_extension_length :: nat

definition layout_gcc :: SkyHeaderLayout where
  "layout_gcc = \<lparr>hdr_sizeof = 7, off_frame_sequence = 4, off_extension_length = 6\<rparr>"

definition layout_packed :: SkyHeaderLayout where
  "layout_packed = \<lparr>hdr_sizeof = 4, off_frame_sequence = 1, off_extension_length = 3\<rparr>"

text \<open>The fields lie behind the flags byte, inside the header, and do not overlap.\<close>

definition layout_ok :: "SkyHeaderLayout \<Rightarrow> bool" where
  "layout_ok ly \<longleftrightarrow>
     hdr_sizeof ly \<le> 7 \<and> 1 \<le> off_frame_sequence ly \<and> 1 \<le> off_extension_length ly \<and>
     off_frame_sequence ly + 2 \<le> hdr_sizeof ly \<and> off_extension_length ly < hdr_sizeof ly \<and>
     (off_extension_length ly < off_frame_sequence ly \<or> off_frame_sequence ly + 2 \<le> off_extension_length ly)"

definition SKY_FRAME_MAX_LEN :: nat where "SKY_FRAME_MAX_LEN = 223"
definition SKY_FRAME_MIN_LEN :: nat where "SKY_FRAME_MIN_LEN = 7"
definition SKY_MAX_IDENTITY_LEN :: nat where "SKY_MAX_IDENTITY_LEN = 7"
definition SKYLINK_FRAME_VERSION_BYTE :: byte where "SKYLINK_FRAME_VERSION_BYTE = 0x60"
definition SKYLINK_FRAME_IDENTITY_MASK :: byte where "SKYLINK_FRAME_IDENTITY_MASK = 0x07"
definition RS_MSGLEN :: nat where "RS_MSGLEN = 223"
definition SKY_HMAC_LENGTH :: nat where "SKY_HMAC_LENGTH = 4"
definition RAW_SIZE :: nat where "RAW_SIZE = SKY_FRAME_MAX_LEN + 6"

definition EXTENSION_ARQ_SEQUENCE :: byte where "EXTENSION_ARQ_SEQUENCE = 0"
definition EXTENSION_ARQ_REQUEST :: byte where "EXTENSION_ARQ_REQUEST = 1"
definition EXTENSION_ARQ_CTRL :: byte where "EXTENSION_ARQ_CTRL = 2"
definition EXTENSION_ARQ_HANDSHAKE :: byte where "EXTENSION_ARQ_HANDSHAKE = 3"
definition EXTENSION_MAC_TDD_CONTROL :: byte where "EXTENSION_MAC_TDD_CONTROL = 4"
definition EXTENSION_HMAC_SEQUENCE_RESET :: byte where "EXTENSION_HMAC_SEQUENCE_RESET = 5"

record SkyRadioFrame =
  rx_time_ticks :: sky_tick_t
  frame_len :: nat
  raw :: bytes

record SkyTransmitFrame =
  tx_radio :: SkyRadioFrame
  hdr :: nat
  ptr :: nat

text \<open>
  A parsed frame keeps a copy of the static header and pointers into the received frame; \<open>p_raw\<close> is
  the memory these pointers point into.
\<close>

record SkyParsedFrame =
  p_raw :: bytes
  p_identity_len :: nat
  p_hdr :: bytes
  arq_sequence :: "nat option"
  arq_request :: "nat option"
  arq_ctrl :: "nat option"
  arq_handshake :: "nat option"
  mac_tdd :: "nat option"
  hmac_reset :: "nat option"
  p_payload :: nat
  payload_len :: nat

definition sky_frame_create :: SkyRadioFrame where
  "sky_frame_create = \<lparr>rx_time_ticks = 0, frame_len = 0, raw = replicate RAW_SIZE 0\<rparr>"

definition sky_frame_clear :: "SkyRadioFrame \<Rightarrow> SkyRadioFrame" where
  "sky_frame_clear frame = \<lparr>rx_time_ticks = 0, frame_len = 0, raw = replicate RAW_SIZE 0\<rparr>"

section \<open>Static header fields\<close>

text \<open>Reading and writing the header at offset \<open>h\<close> of a buffer.\<close>

definition hdr_vc :: "bytes \<Rightarrow> nat \<Rightarrow> nat option" where
  "hdr_vc bs h = map_option (\<lambda>f. unat (f AND 3)) (nth_opt bs h)"

definition hdr_flag :: "nat \<Rightarrow> bytes \<Rightarrow> nat \<Rightarrow> bool option" where
  "hdr_flag i bs h = map_option (\<lambda>f. bit f i) (nth_opt bs h)"

definition flag_arq_on :: "bytes \<Rightarrow> nat \<Rightarrow> bool option" where "flag_arq_on = hdr_flag 2"
definition flag_authenticated :: "bytes \<Rightarrow> nat \<Rightarrow> bool option" where "flag_authenticated = hdr_flag 3"
definition flag_has_payload :: "bytes \<Rightarrow> nat \<Rightarrow> bool option" where "flag_has_payload = hdr_flag 4"

definition hdr_set_flag :: "nat \<Rightarrow> bytes \<Rightarrow> nat \<Rightarrow> bytes option" where
  "hdr_set_flag i bs h = Option.bind (nth_opt bs h) (\<lambda>f. upd_opt bs h (set_bit i f))"

definition hdr_frame_sequence :: "SkyHeaderLayout \<Rightarrow> bytes \<Rightarrow> nat \<Rightarrow> u16 option" where
  "hdr_frame_sequence ly bs h = do {
     b0 \<leftarrow> nth_opt bs (h + off_frame_sequence ly);
     b1 \<leftarrow> nth_opt bs (h + off_frame_sequence ly + 1);
     Some (load16 b0 b1)
   }"

definition hdr_set_frame_sequence :: "SkyHeaderLayout \<Rightarrow> bytes \<Rightarrow> nat \<Rightarrow> u16 \<Rightarrow> bytes option" where
  "hdr_set_frame_sequence ly bs h s = write_bytes bs (h + off_frame_sequence ly) (mem16 s)"

definition hdr_extension_length :: "SkyHeaderLayout \<Rightarrow> bytes \<Rightarrow> nat \<Rightarrow> byte option" where
  "hdr_extension_length ly bs h = nth_opt bs (h + off_extension_length ly)"

definition hdr_set_extension_length :: "SkyHeaderLayout \<Rightarrow> bytes \<Rightarrow> nat \<Rightarrow> byte \<Rightarrow> bytes option" where
  "hdr_set_extension_length ly bs h v = upd_opt bs (h + off_extension_length ly) v"

section \<open>Encoding\<close>

text \<open>
  What every encoder does once its assertions hold: write the extension header (type in the low,
  length in the high nibble) and the body at the cursor, move the cursor and update the lengths.
\<close>

definition put_extension :: "SkyHeaderLayout \<Rightarrow> SkyTransmitFrame \<Rightarrow> byte \<Rightarrow> bytes \<Rightarrow> SkyTransmitFrame option" where
  "put_extension ly tx_frame ty body = do {
     let n = length body;
     bs \<leftarrow> write_bytes (raw (tx_radio tx_frame)) (ptr tx_frame) ((ty OR push_bit 4 (of_nat n)) # body);
     el \<leftarrow> hdr_extension_length ly bs (hdr tx_frame);
     bs' \<leftarrow> hdr_set_extension_length ly bs (hdr tx_frame) (el + of_nat (1 + n));
     Some (tx_frame\<lparr>tx_radio := (tx_radio tx_frame)\<lparr>raw := bs', frame_len := frame_len (tx_radio tx_frame) + 1 + n\<rparr>,
                    ptr := ptr tx_frame + 1 + n\<rparr>)
   }"

definition assert_no_payload :: "SkyTransmitFrame \<Rightarrow> unit option" where
  "assert_no_payload tx_frame =
     Option.bind (flag_has_payload (raw (tx_radio tx_frame)) (hdr tx_frame)) (\<lambda>p. if p then None else Some ())"

definition sky_frame_add_extension_arq_sequence ::
    "SkyHeaderLayout \<Rightarrow> SkyTransmitFrame \<Rightarrow> sky_arq_sequence_t \<Rightarrow> SkyTransmitFrame option" where
  "sky_frame_add_extension_arq_sequence ly tx_frame sq = do {
     _ \<leftarrow> assert_no_payload tx_frame;
     if frame_len (tx_radio tx_frame) + 1 + 1 < SKY_PAYLOAD_MAX_LEN
     then put_extension ly tx_frame EXTENSION_ARQ_SEQUENCE [sq] else None
   }"

definition sky_frame_add_extension_arq_request ::
    "SkyHeaderLayout \<Rightarrow> SkyTransmitFrame \<Rightarrow> sky_arq_sequence_t \<Rightarrow> sky_arq_mask_t \<Rightarrow> SkyTransmitFrame option" where
  "sky_frame_add_extension_arq_request ly tx_frame sq m = do {
     _ \<leftarrow> assert_no_payload tx_frame;
     if frame_len (tx_radio tx_frame) + 1 + 3 < SKY_PAYLOAD_MAX_LEN
     then put_extension ly tx_frame EXTENSION_ARQ_REQUEST (sq # mem16 (sky_hton16 m)) else None
   }"

definition sky_frame_add_extension_arq_ctrl ::
    "SkyHeaderLayout \<Rightarrow> SkyTransmitFrame \<Rightarrow> sky_arq_sequence_t \<Rightarrow> sky_arq_sequence_t \<Rightarrow> SkyTransmitFrame option" where
  "sky_frame_add_extension_arq_ctrl ly tx_frame tx_sq rx_sq = do {
     _ \<leftarrow> assert_no_payload tx_frame;
     if frame_len (tx_radio tx_frame) + 1 + 2 < SKY_PAYLOAD_MAX_LEN
     then put_extension ly tx_frame EXTENSION_ARQ_CTRL [tx_sq, rx_sq] else None
   }"

definition sky_frame_add_extension_arq_handshake ::
    "SkyHeaderLayout \<Rightarrow> SkyTransmitFrame \<Rightarrow> byte \<Rightarrow> u32 \<Rightarrow> SkyTransmitFrame option" where
  "sky_frame_add_extension_arq_handshake ly tx_frame state_flag identifier = do {
     _ \<leftarrow> assert_no_payload tx_frame;
     if frame_len (tx_radio tx_frame) + 1 + 5 < SKY_PAYLOAD_MAX_LEN
     then put_extension ly tx_frame EXTENSION_ARQ_HANDSHAKE (state_flag # mem32 (sky_hton32 identifier)) else None
   }"

definition sky_frame_add_extension_mac_tdd_control ::
    "SkyHeaderLayout \<Rightarrow> SkyTransmitFrame \<Rightarrow> u16 \<Rightarrow> u16 \<Rightarrow> SkyTransmitFrame option" where
  "sky_frame_add_extension_mac_tdd_control ly tx_frame window remaining = do {
     _ \<leftarrow> assert_no_payload tx_frame;
     if frame_len (tx_radio tx_frame) < SKY_PAYLOAD_MAX_LEN - 4
     then put_extension ly tx_frame EXTENSION_MAC_TDD_CONTROL (mem16 (sky_hton16 window) @ mem16 (sky_hton16 remaining))
     else None
   }"

definition sky_frame_add_extension_hmac_sequence_reset ::
    "SkyHeaderLayout \<Rightarrow> SkyTransmitFrame \<Rightarrow> u16 \<Rightarrow> SkyTransmitFrame option" where
  "sky_frame_add_extension_hmac_sequence_reset ly tx_frame sq = do {
     _ \<leftarrow> assert_no_payload tx_frame;
     if frame_len (tx_radio tx_frame) < SKY_PAYLOAD_MAX_LEN - 2
     then put_extension ly tx_frame EXTENSION_HMAC_SEQUENCE_RESET (mem16 (sky_hton16 sq)) else None
   }"

definition sky_frame_get_space_left :: "SkyRadioFrame \<Rightarrow> int" where
  "sky_frame_get_space_left frame = int RS_MSGLEN - (int (frame_len frame) + int SKY_HMAC_LENGTH)"

text \<open>Copy bytes to the write pointer, as the callers do with \<open>memcpy\<close> or a read into \<open>ptr\<close>.\<close>

definition put_bytes :: "SkyTransmitFrame \<Rightarrow> bytes \<Rightarrow> SkyTransmitFrame option" where
  "put_bytes tx_frame bs = do {
     r \<leftarrow> write_bytes (raw (tx_radio tx_frame)) (ptr tx_frame) bs;
     Some (tx_frame\<lparr>tx_radio := (tx_radio tx_frame)\<lparr>raw := r, frame_len := frame_len (tx_radio tx_frame) + length bs\<rparr>,
                    ptr := ptr tx_frame + length bs\<rparr>)
   }"

definition tx_set_flag :: "nat \<Rightarrow> SkyTransmitFrame \<Rightarrow> SkyTransmitFrame option" where
  "tx_set_flag i tx_frame = do {
     r \<leftarrow> hdr_set_flag i (raw (tx_radio tx_frame)) (hdr tx_frame);
     Some (tx_frame\<lparr>tx_radio := (tx_radio tx_frame)\<lparr>raw := r\<rparr>\<rparr>)
   }"

definition sky_frame_extend_with_payload :: "SkyTransmitFrame \<Rightarrow> bytes \<Rightarrow> (int \<times> SkyTransmitFrame) option" where
  "sky_frame_extend_with_payload tx_frame payload = do {
     _ \<leftarrow> assert_no_payload tx_frame;
     if sky_frame_get_space_left (tx_radio tx_frame) < int (length payload)
     then Some (SKY_RET_NO_SPACE_FOR_PAYLOAD, tx_frame)
     else do {
       tx1 \<leftarrow> put_bytes tx_frame payload;
       tx2 \<leftarrow> tx_set_flag 4 tx1;
       Some (SKY_RET_OK, tx2)
     }
   }"

section \<open>Parsing\<close>

text \<open>
  The body of the switch: the pointer that belongs to an extension type, and the size of the
  extension's struct. An unknown type has no slot.
\<close>

definition ext_slot :: "byte \<Rightarrow> SkyParsedFrame \<Rightarrow> (nat option \<times> nat) option" where
  "ext_slot ty p =
     (if ty = EXTENSION_ARQ_SEQUENCE then Some (arq_sequence p, 1)
      else if ty = EXTENSION_ARQ_REQUEST then Some (arq_request p, 3)
      else if ty = EXTENSION_ARQ_CTRL then Some (arq_ctrl p, 2)
      else if ty = EXTENSION_ARQ_HANDSHAKE then Some (arq_handshake p, 5)
      else if ty = EXTENSION_MAC_TDD_CONTROL then Some (mac_tdd p, 4)
      else if ty = EXTENSION_HMAC_SEQUENCE_RESET then Some (hmac_reset p, 2)
      else None)"

definition ext_set_slot :: "byte \<Rightarrow> nat \<Rightarrow> SkyParsedFrame \<Rightarrow> SkyParsedFrame" where
  "ext_set_slot ty ext p =
     (if ty = EXTENSION_ARQ_SEQUENCE then p\<lparr>arq_sequence := Some ext\<rparr>
      else if ty = EXTENSION_ARQ_REQUEST then p\<lparr>arq_request := Some ext\<rparr>
      else if ty = EXTENSION_ARQ_CTRL then p\<lparr>arq_ctrl := Some ext\<rparr>
      else if ty = EXTENSION_ARQ_HANDSHAKE then p\<lparr>arq_handshake := Some ext\<rparr>
      else if ty = EXTENSION_MAC_TDD_CONTROL then p\<lparr>mac_tdd := Some ext\<rparr>
      else p\<lparr>hmac_reset := Some ext\<rparr>)"

function parse_ext_loop :: "SkyRadioFrame \<Rightarrow> SkyParsedFrame \<Rightarrow> nat \<Rightarrow> nat \<Rightarrow> (int \<times> SkyParsedFrame) option" where
  "parse_ext_loop frame parsed cursor fin =
     (if cursor < fin then
        (case nth_opt (raw frame) cursor of
           None \<Rightarrow> None
         | Some b \<Rightarrow>
             (let ty = b AND 0x0f; len = unat (drop_bit 4 b); cursor' = cursor + 1 + len
              in if cursor' > frame_len frame then Some (SKY_RET_INVALID_EXT_LENGTH, parsed)
                 else case ext_slot ty parsed of
                        None \<Rightarrow> Some (SKY_RET_INVALID_EXT_TYPE, parsed)
                      | Some (slot, sz) \<Rightarrow>
                          (if slot \<noteq> None then Some (SKY_RET_REDUNDANT_EXTENSIONS, parsed)
                           else if len \<noteq> sz then Some (SKY_RET_INVALID_EXT_LENGTH, parsed)
                           else parse_ext_loop frame (ext_set_slot ty cursor parsed) cursor' fin)))
      else Some (SKY_RET_OK, parsed))"
  by pat_completeness auto

termination by (relation "measure (\<lambda>(_, _, cursor, fin). fin - cursor)") auto

declare parse_ext_loop.simps [simp del]

definition sky_frame_parse_extension_headers ::
    "SkyHeaderLayout \<Rightarrow> SkyRadioFrame \<Rightarrow> SkyParsedFrame \<Rightarrow> (int \<times> SkyParsedFrame) option" where
  "sky_frame_parse_extension_headers ly frame parsed = do {
     b0 \<leftarrow> nth_opt (raw frame) 0;
     el \<leftarrow> hdr_extension_length ly (p_hdr parsed) 0;
     let cursor = 1 + unat (b0 AND SKYLINK_FRAME_IDENTITY_MASK) + hdr_sizeof ly;
     let fin = cursor + unat el;
     if fin > frame_len frame then Some (SKY_RET_INVALID_EXT_LENGTH, parsed)
     else parse_ext_loop frame parsed cursor fin
   }"

end
