(* ===== verification/Reliable_VC.thy ===== *)
theory Reliable_VC
  imports Frame
begin

text \<open>
  \<open>src/reliable_vc.c\<close>: the virtual channel, an element buffer shared by a send ring and a receive
  ring, with the ARQ connection state machine. Pure functions return the updated channel; the
  global tick counter (\<open>sky_get_tick_time\<close>) is the argument \<open>ticks\<close>.
\<close>

section \<open>Data\<close>

definition ARQ_STATE_OFF :: byte where "ARQ_STATE_OFF = 0"
definition ARQ_STATE_IN_INIT :: byte where "ARQ_STATE_IN_INIT = 1"
definition ARQ_STATE_ON :: byte where "ARQ_STATE_ON = 2"

definition SKY_CONFIG_FLAG_AUTHENTICATE_TX :: byte where "SKY_CONFIG_FLAG_AUTHENTICATE_TX = 1"
definition SKY_CONFIG_FLAG_REQUIRE_AUTHENTICATION :: byte where "SKY_CONFIG_FLAG_REQUIRE_AUTHENTICATION = 2"
definition SKY_CONFIG_FLAG_REQUIRE_SEQUENCE :: byte where "SKY_CONFIG_FLAG_REQUIRE_SEQUENCE = 4"
definition SKY_CONFIG_FLAG_USE_CRC32 :: byte where "SKY_CONFIG_FLAG_USE_CRC32 = 8"

record SkyVCConfig =
  usable_element_size :: int
  rcv_ring_len :: int
  conf_horizon_width :: int
  send_ring_len :: int
  require_authentication :: byte

record SkyARQConfig =
  arq_timeout_ticks :: int
  idle_frame_threshold :: int
  arq_idle_frames_per_window :: int

record SkyVirtualChannel =
  elementBuffer :: SkyElementBuffer
  sendRing :: SkySendRing
  rcvRing :: SkyRcvRing
  arq_state_flag :: byte
  handshake_send :: byte
  arq_session_identifier :: u32
  need_recall :: byte
  last_tx_tick :: sky_tick_t
  last_rx_tick :: sky_tick_t
  last_ctrl_send_tick :: sky_tick_t
  unconfirmed_payloads :: int

record SkyVCState =
  st_state :: nat
  free_tx_slots :: int
  st_tx_frames :: int
  st_rx_frames :: int
  session_identifier :: u32

text \<open>Conversion of an \<open>int\<close> to \<open>int16_t\<close> (GCC reduces modulo the width).\<close>

definition to_i16 :: "int \<Rightarrow> int" where
  "to_i16 v = (v + 32768) mod 65536 - 32768"

text \<open>One channel of \<open>sky_get_state\<close>; the counts are stored in \<open>uint16_t\<close> fields.\<close>

definition vc_get_state :: "SkyVirtualChannel \<Rightarrow> SkyVCState option" where
  "vc_get_state vc = do {
     f \<leftarrow> sendRing_count_free_send_slots (sendRing vc);
     t \<leftarrow> sendRing_count_packets_to_send (sendRing vc) True;
     r \<leftarrow> rcvRing_count_readable_packets (rcvRing vc);
     Some \<lparr>st_state = unat (arq_state_flag vc), free_tx_slots = f mod 65536, st_tx_frames = t mod 65536,
           st_rx_frames = r mod 65536, session_identifier = arq_session_identifier vc\<rparr>
   }"

fun sky_get_state :: "SkyVirtualChannel list \<Rightarrow> SkyVCState list option" where
  "sky_get_state [] = Some []"
| "sky_get_state (vc # vcs) = do { s \<leftarrow> vc_get_state vc; ss \<leftarrow> sky_get_state vcs; Some (s # ss) }"

section \<open>Creation and wiping\<close>

definition compute_required_element_count :: "int \<Rightarrow> int \<Rightarrow> int \<Rightarrow> int option" where
  "compute_required_element_count elementsize total_ring_slots maximum_pl_size = do {
     n_per_pl \<leftarrow> sky_element_buffer_element_requirement elementsize maximum_pl_size;
     c_int (total_ring_slots * n_per_pl)
   }"

definition sky_vc_wipe_to_arq_off_state :: "SkyVirtualChannel \<Rightarrow> SkyVirtualChannel option" where
  "sky_vc_wipe_to_arq_off_state vchannel = do {
     (s, eb1) \<leftarrow> sky_send_ring_wipe (sendRing vchannel) (Some (elementBuffer vchannel)) 0;
     (r, eb2) \<leftarrow> sky_rcv_ring_wipe (rcvRing vchannel) eb1 0;
     eb \<leftarrow> eb2;
     Some (vchannel\<lparr>sendRing := s, rcvRing := r, elementBuffer := sky_element_buffer_wipe eb,
                    need_recall := 0, arq_state_flag := ARQ_STATE_OFF, arq_session_identifier := 0,
                    last_tx_tick := 0, last_rx_tick := 0, last_ctrl_send_tick := 0,
                    unconfirmed_payloads := 0, handshake_send := 0\<rparr>)
   }"

definition sky_vc_wipe_to_arq_init_state :: "sky_tick_t \<Rightarrow> SkyVirtualChannel \<Rightarrow> SkyVirtualChannel option" where
  "sky_vc_wipe_to_arq_init_state ticks vchannel = do {
     (r, eb1) \<leftarrow> sky_rcv_ring_wipe (rcvRing vchannel) (Some (elementBuffer vchannel)) 0;
     (s, eb2) \<leftarrow> sky_send_ring_wipe (sendRing vchannel) eb1 0;
     eb \<leftarrow> eb2;
     Some (vchannel\<lparr>sendRing := s, rcvRing := r, elementBuffer := eb,
                    need_recall := 0, arq_state_flag := ARQ_STATE_IN_INIT,
                    arq_session_identifier := word_of_int (sky_get_tick_time ticks),
                    last_tx_tick := sky_get_tick_time ticks, last_rx_tick := sky_get_tick_time ticks,
                    last_ctrl_send_tick := 0, unconfirmed_payloads := 0, handshake_send := 0\<rparr>)
   }"

definition sky_vc_wipe_to_arq_on_state :: "sky_tick_t \<Rightarrow> SkyVirtualChannel \<Rightarrow> u32 \<Rightarrow> SkyVirtualChannel option" where
  "sky_vc_wipe_to_arq_on_state ticks vchannel identifier = do {
     (r, eb1) \<leftarrow> sky_rcv_ring_wipe (rcvRing vchannel) (Some (elementBuffer vchannel)) 0;
     (s, eb2) \<leftarrow> sky_send_ring_wipe (sendRing vchannel) eb1 0;
     eb \<leftarrow> eb2;
     Some (vchannel\<lparr>sendRing := s, rcvRing := r, elementBuffer := eb,
                    need_recall := 0, arq_state_flag := ARQ_STATE_ON,
                    arq_session_identifier := identifier,
                    last_tx_tick := sky_get_tick_time ticks, last_rx_tick := sky_get_tick_time ticks,
                    last_ctrl_send_tick := 0, unconfirmed_payloads := 0, handshake_send := 1\<rparr>)
   }"

text \<open>The sanitised configuration is written back to the caller's struct.\<close>

definition sanitise_vc_config :: "SkyVCConfig \<Rightarrow> SkyVCConfig" where
  "sanitise_vc_config c0 =
     (let c1 = (if rcv_ring_len c0 < 6 \<or> rcv_ring_len c0 > 250 then c0\<lparr>rcv_ring_len := 32\<rparr> else c0);
          c2 = (if conf_horizon_width c1 > rcv_ring_len c1 - 3
                then c1\<lparr>conf_horizon_width := rcv_ring_len c1 - 3\<rparr> else c1);
          c3 = (if send_ring_len c2 < 6 \<or> send_ring_len c2 > 250 then c2\<lparr>send_ring_len := 32\<rparr> else c2);
          c4 = (if usable_element_size c3 < 12 \<or> usable_element_size c3 > 500
                then c3\<lparr>usable_element_size := 32\<rparr> else c3)
      in if require_authentication c4 AND (SKY_CONFIG_FLAG_AUTHENTICATE_TX OR SKY_CONFIG_FLAG_USE_CRC32) = 0
         then c4\<lparr>require_authentication := require_authentication c4 OR SKY_CONFIG_FLAG_USE_CRC32\<rparr> else c4)"

text \<open>The fields that \<open>malloc\<close> leaves uninitialised are all set by the final wipe.\<close>

definition sky_vc_create :: "(nat \<Rightarrow> byte) \<Rightarrow> SkyVCConfig \<Rightarrow> (SkyVCConfig \<times> SkyVirtualChannel) option" where
  "sky_vc_create uninit config0 = do {
     let config = sanitise_vc_config config0;
     sr \<leftarrow> sky_send_ring_create (send_ring_len config) 0;
     s \<leftarrow> sr;
     rr \<leftarrow> sky_rcv_ring_create (rcv_ring_len config) (conf_horizon_width config) 0;
     r \<leftarrow> rr;
     let ring_slots = rcv_ring_len config + send_ring_len config - 2;
     n \<leftarrow> compute_required_element_count (usable_element_size config + 4) ring_slots (int SKY_PAYLOAD_MAX_LEN);
     eb \<leftarrow> sky_element_buffer_create uninit (usable_element_size config) n;
     v \<leftarrow> sky_vc_wipe_to_arq_off_state
       \<lparr>elementBuffer = eb, sendRing = s, rcvRing = r, arq_state_flag = 0, handshake_send = 0,
        arq_session_identifier = 0, need_recall = 0, last_tx_tick = 0, last_rx_tick = 0,
        last_ctrl_send_tick = 0, unconfirmed_payloads = 0\<rparr>;
     Some (config, v)
   }"

definition sky_vc_arq_connect :: "sky_tick_t \<Rightarrow> SkyVirtualChannel \<Rightarrow> (int \<times> SkyVirtualChannel) option" where
  "sky_vc_arq_connect ticks vchannel =
     map_option (\<lambda>v. (SKY_RET_OK, v)) (sky_vc_wipe_to_arq_init_state ticks vchannel)"

definition sky_vc_arq_disconnect :: "SkyVirtualChannel \<Rightarrow> (int \<times> SkyVirtualChannel) option" where
  "sky_vc_arq_disconnect vchannel =
     map_option (\<lambda>v. (SKY_RET_OK, v)) (sky_vc_wipe_to_arq_off_state vchannel)"

text \<open>\<open>wrap_time_ticks(now - t)\<close>\<close>

definition ticks_since :: "sky_tick_t \<Rightarrow> sky_tick_t \<Rightarrow> int option" where
  "ticks_since now t = Option.bind (c_int (now - t)) wrap_time_ticks"

definition sky_vc_check_timeouts :: "SkyVirtualChannel \<Rightarrow> sky_tick_t \<Rightarrow> sky_tick_t \<Rightarrow> SkyVirtualChannel option" where
  "sky_vc_check_timeouts vchannel now timeout =
     (if arq_state_flag vchannel = ARQ_STATE_OFF then Some vchannel
      else do {
        a \<leftarrow> ticks_since now (last_tx_tick vchannel);
        b \<leftarrow> ticks_since now (last_rx_tick vchannel);
        if a > timeout \<or> b > timeout then sky_vc_wipe_to_arq_off_state vchannel else Some vchannel
      })"

section \<open>Sending\<close>

definition sky_vc_push_packet_to_send ::
    "SkyVirtualChannel \<Rightarrow> bytes \<Rightarrow> (int \<times> SkyVirtualChannel) option" where
  "sky_vc_push_packet_to_send vchannel payload =
     (if length payload > SKY_PAYLOAD_MAX_LEN then Some (SKY_RET_TOO_LONG_PAYLOAD, vchannel)
      else do {
        (ret, s, eb) \<leftarrow> sendRing_push_packet_to_send (sendRing vchannel) (elementBuffer vchannel) payload;
        Some (ret, vchannel\<lparr>sendRing := s, elementBuffer := eb\<rparr>)
      })"

definition sky_vc_send_buffer_is_full :: "SkyVirtualChannel \<Rightarrow> bool option" where
  "sky_vc_send_buffer_is_full vchannel = sendRing_is_full (sendRing vchannel)"

definition sky_vc_count_packets_to_tx :: "SkyVirtualChannel \<Rightarrow> bool \<Rightarrow> int option" where
  "sky_vc_count_packets_to_tx vchannel include_resend =
     sendRing_count_packets_to_send (sendRing vchannel) include_resend"

definition sky_vc_read_packet_for_tx :: "SkyVirtualChannel \<Rightarrow> bool \<Rightarrow>
    ((bytes \<times> sky_arq_sequence_t) c_result \<times> SkyVirtualChannel) option" where
  "sky_vc_read_packet_for_tx vchannel include_resend = do {
     (r, s) \<leftarrow> sendRing_read_to_tx (sendRing vchannel) (elementBuffer vchannel) include_resend;
     Some (r, vchannel\<lparr>sendRing := s\<rparr>)
   }"

definition sky_vc_read_packet_for_tx_monotonic :: "SkyVirtualChannel \<Rightarrow>
    ((bytes \<times> sky_arq_sequence_t) c_result \<times> SkyVirtualChannel) option" where
  "sky_vc_read_packet_for_tx_monotonic vchannel = do {
     (r, s) \<leftarrow> sendRing_read_to_tx (sendRing vchannel) (elementBuffer vchannel) False;
     case r of
       Inl e \<Rightarrow> Some (Inl e, vchannel\<lparr>sendRing := s\<rparr>)
     | Inr v \<Rightarrow> do {
         (_, s', eb) \<leftarrow> sendRing_clean_tail_up_to s (elementBuffer vchannel) (tx_sequence s);
         Some (Inr v, vchannel\<lparr>sendRing := s', elementBuffer := eb\<rparr>)
       }
   }"

definition sky_vc_update_tx_sync ::
    "SkyVirtualChannel \<Rightarrow> sky_arq_sequence_t \<Rightarrow> sky_tick_t \<Rightarrow> SkyVirtualChannel option" where
  "sky_vc_update_tx_sync vchannel peer_rx_head_sequence_by_ctrl now = do {
     (n_cleared, s, eb) \<leftarrow> sendRing_clean_tail_up_to (sendRing vchannel) (elementBuffer vchannel)
                             peer_rx_head_sequence_by_ctrl;
     let v1 = vchannel\<lparr>sendRing := s, elementBuffer := eb\<rparr>;
     let v2 = (if n_cleared > 0 then v1\<lparr>last_tx_tick := now\<rparr> else v1);
     Some (if tx_sequence (sendRing v2) = peer_rx_head_sequence_by_ctrl then v2\<lparr>last_tx_tick := now\<rparr> else v2)
   }"

section \<open>Receiving\<close>

definition sky_vc_count_readable_rcv_packets :: "SkyVirtualChannel \<Rightarrow> int option" where
  "sky_vc_count_readable_rcv_packets vchannel = rcvRing_count_readable_packets (rcvRing vchannel)"

definition sky_vc_read_next_received ::
    "SkyVirtualChannel \<Rightarrow> nat \<Rightarrow> (int \<times> bytes \<times> SkyVirtualChannel) option" where
  "sky_vc_read_next_received vchannel max_length = do {
     (ret, bs, r, eb) \<leftarrow> rcvRing_read_next_received (rcvRing vchannel) (elementBuffer vchannel) max_length;
     Some (ret, bs, vchannel\<lparr>rcvRing := r, elementBuffer := eb\<rparr>)
   }"

definition sky_vc_push_rx_packet_monotonic ::
    "SkyVirtualChannel \<Rightarrow> bytes \<Rightarrow> (int \<times> SkyVirtualChannel) option" where
  "sky_vc_push_rx_packet_monotonic vchannel src = do {
     (ret, r, eb) \<leftarrow> rcvRing_push_rx_packet (rcvRing vchannel) (elementBuffer vchannel) src
                       (r_head_sequence (rcvRing vchannel));
     Some (ret, vchannel\<lparr>rcvRing := r, elementBuffer := eb\<rparr>)
   }"

definition sky_vc_push_rx_packet ::
    "SkyVirtualChannel \<Rightarrow> bytes \<Rightarrow> sky_arq_sequence_t \<Rightarrow> sky_tick_t \<Rightarrow> (int \<times> SkyVirtualChannel) option" where
  "sky_vc_push_rx_packet vchannel src sq now = do {
     (ret, r, eb) \<leftarrow> rcvRing_push_rx_packet (rcvRing vchannel) (elementBuffer vchannel) src sq;
     let v1 = vchannel\<lparr>rcvRing := r, elementBuffer := eb\<rparr>;
     let v2 = (if ret > 0 then v1\<lparr>last_rx_tick := now\<rparr> else v1);
     Some (ret, v2\<lparr>unconfirmed_payloads := to_i16 (unconfirmed_payloads v2 + 1)\<rparr>)
   }"

definition sky_vc_update_rx_sync ::
    "SkyVirtualChannel \<Rightarrow> sky_arq_sequence_t \<Rightarrow> sky_tick_t \<Rightarrow> SkyVirtualChannel" where
  "sky_vc_update_rx_sync vchannel peer_tx_head_sequence_by_ctrl now =
     (let sync = rcvRing_get_sequence_sync_status (rcvRing vchannel) peer_tx_head_sequence_by_ctrl
      in if sync = SKY_RET_OK then vchannel\<lparr>last_rx_tick := now, need_recall := 0\<rparr>
         else if sync = SKY_RET_RING_SEQUENCES_OUT_OF_SYNC then vchannel\<lparr>need_recall := 1\<rparr>
         else vchannel)"

section \<open>Filling a frame\<close>

definition sky_vc_content_to_send ::
    "SkyVirtualChannel \<Rightarrow> SkyARQConfig \<Rightarrow> sky_tick_t \<Rightarrow> nat \<Rightarrow> bool option" where
  "sky_vc_content_to_send vchannel arq now frames_sent_in_this_vc_window =
     (let idle_left = int frames_sent_in_this_vc_window < arq_idle_frames_per_window arq
      in if arq_state_flag vchannel = ARQ_STATE_OFF then
           map_option (\<lambda>n. n > 0) (sendRing_count_packets_to_send (sendRing vchannel) False)
         else if arq_state_flag vchannel = ARQ_STATE_IN_INIT then Some idle_left
         else if arq_state_flag vchannel = ARQ_STATE_ON then do {
           n \<leftarrow> sendRing_count_packets_to_send (sendRing vchannel) True;
           if n > 0 then Some True
           else do {
             m \<leftarrow> (if idle_left then rcvRing_get_horizon_bitmap (rcvRing vchannel) else Some 0);
             if idle_left \<and> (m \<noteq> 0 \<or> need_recall vchannel \<noteq> 0) then Some True
             else if handshake_send vchannel \<noteq> 0 then Some True
             else if idle_left then do {
               t1 \<leftarrow> ticks_since now (last_ctrl_send_tick vchannel);
               t2 \<leftarrow> ticks_since now (last_tx_tick vchannel);
               t3 \<leftarrow> ticks_since now (last_rx_tick vchannel);
               Some (t1 > idle_frame_threshold arq \<or> t2 > idle_frame_threshold arq \<or>
                     t3 > idle_frame_threshold arq \<or> unconfirmed_payloads vchannel > 0)
             }
             else Some False
           }
         }
         else Some False)"

definition fill_arq_off :: "SkyVirtualChannel \<Rightarrow> SkyTransmitFrame \<Rightarrow>
    (int \<times> SkyVirtualChannel \<times> SkyTransmitFrame) option" where
  "fill_arq_off vchannel tx_frame = do {
     (len, _) \<leftarrow> sendRing_peek_next_tx_size_and_sequence (sendRing vchannel) (elementBuffer vchannel) False;
     if len > 0 then
       (if len \<le> sky_frame_get_space_left (tx_radio tx_frame) then do {
          (r, v) \<leftarrow> sky_vc_read_packet_for_tx_monotonic vchannel;
          case r of
            Inl _ \<Rightarrow> None
          | Inr (bs, _) \<Rightarrow> do {
              tx1 \<leftarrow> put_bytes tx_frame bs;
              tx2 \<leftarrow> tx_set_flag 4 tx1;
              Some (1, v, tx2)
            }
        }
        else None)
     else Some (0, vchannel, tx_frame)
   }"

text \<open>
  The four parts of the case \<open>ARQ_STATE_ON\<close>, in the order of the code. The first three hand on the
  value of \<open>ret\<close>.
\<close>

definition fill_handshake :: "SkyHeaderLayout \<Rightarrow> SkyVirtualChannel \<Rightarrow> SkyTransmitFrame \<Rightarrow>
    (int \<times> SkyVirtualChannel \<times> SkyTransmitFrame) option" where
  "fill_handshake ly v tx =
     (if handshake_send v > 0 then do {
        tx' \<leftarrow> sky_frame_add_extension_arq_handshake ly tx ARQ_STATE_ON (arq_session_identifier v);
        Some (1, v\<lparr>handshake_send := handshake_send v - 1\<rparr>, tx')
      }
      else Some (0, v, tx))"

definition fill_request :: "SkyHeaderLayout \<Rightarrow> bool \<Rightarrow> int \<Rightarrow> SkyVirtualChannel \<Rightarrow> SkyTransmitFrame \<Rightarrow>
    (int \<times> SkyVirtualChannel \<times> SkyTransmitFrame) option" where
  "fill_request ly idle_left ret v tx = do {
     m \<leftarrow> rcvRing_get_horizon_bitmap (rcvRing v);
     if idle_left \<and> (m \<noteq> 0 \<or> need_recall v \<noteq> 0) then do {
       tx' \<leftarrow> sky_frame_add_extension_arq_request ly tx (r_head_sequence (rcvRing v)) m;
       Some (1, v\<lparr>need_recall := 0\<rparr>, tx')
     }
     else Some (ret, v, tx)
   }"

definition fill_ctrl :: "SkyHeaderLayout \<Rightarrow> SkyARQConfig \<Rightarrow> bool \<Rightarrow> sky_tick_t \<Rightarrow> int \<Rightarrow> SkyVirtualChannel \<Rightarrow>
    SkyTransmitFrame \<Rightarrow> (int \<times> SkyVirtualChannel \<times> SkyTransmitFrame) option" where
  "fill_ctrl ly arq b0 now ret v tx = do {
     n \<leftarrow> sendRing_count_packets_to_send (sendRing v) True;
     t1 \<leftarrow> ticks_since now (last_ctrl_send_tick v);
     t2 \<leftarrow> ticks_since now (last_tx_tick v);
     t3 \<leftarrow> ticks_since now (last_rx_tick v);
     let th = idle_frame_threshold arq;
     if (b0 \<and> (t1 > th \<or> t2 > th \<or> t3 > th \<or> unconfirmed_payloads v > 0)) \<or> n > 0 then do {
       tx' \<leftarrow> sky_frame_add_extension_arq_ctrl ly tx (tx_sequence (sendRing v)) (r_head_sequence (rcvRing v));
       Some (1, v\<lparr>last_ctrl_send_tick := now, unconfirmed_payloads := 0\<rparr>, tx')
     }
     else Some (ret, v, tx)
   }"

definition fill_payload :: "SkyHeaderLayout \<Rightarrow> int \<Rightarrow> SkyVirtualChannel \<Rightarrow> SkyTransmitFrame \<Rightarrow>
    (int \<times> SkyVirtualChannel \<times> SkyTransmitFrame) option" where
  "fill_payload ly ret v tx = do {
     n \<leftarrow> sendRing_count_packets_to_send (sendRing v) True;
     if n > 0 then do {
       (packet_length, packet_sequence) \<leftarrow>
         sendRing_peek_next_tx_size_and_sequence (sendRing v) (elementBuffer v) True;
       if packet_length < 0 then Some (packet_length, v, tx)
       else if packet_length + 1 + 1 \<le> sky_frame_get_space_left (tx_radio tx) then do {
         sq \<leftarrow> packet_sequence;
         tx1 \<leftarrow> sky_frame_add_extension_arq_sequence ly tx sq;
         (r, s) \<leftarrow> sendRing_read_to_tx (sendRing v) (elementBuffer v) True;
         case r of
           Inl _ \<Rightarrow> None
         | Inr (bs, _) \<Rightarrow> do {
             tx2 \<leftarrow> put_bytes tx1 bs;
             tx3 \<leftarrow> tx_set_flag 4 tx2;
             Some (1, v\<lparr>sendRing := s\<rparr>, tx3)
           }
       }
       else do {
         (_, s) \<leftarrow> sendRing_read_to_tx (sendRing v) (elementBuffer v) True;
         Some (SKY_RET_NO_SPACE_FOR_PAYLOAD, v\<lparr>sendRing := s\<rparr>, tx)
       }
     }
     else Some (ret, v, tx)
   }"

definition sky_vc_fill_frame :: "SkyHeaderLayout \<Rightarrow> SkyVirtualChannel \<Rightarrow> SkyARQConfig \<Rightarrow> SkyTransmitFrame \<Rightarrow>
    sky_tick_t \<Rightarrow> nat \<Rightarrow> (int \<times> SkyVirtualChannel \<times> SkyTransmitFrame) option" where
  "sky_vc_fill_frame ly vchannel arq tx_frame now frames_sent_in_this_vc_window =
     (let idle_left = int frames_sent_in_this_vc_window < arq_idle_frames_per_window arq
      in if arq_state_flag vchannel = ARQ_STATE_OFF then fill_arq_off vchannel tx_frame
         else if arq_state_flag vchannel = ARQ_STATE_IN_INIT then
           (if idle_left then do {
              tx' \<leftarrow> sky_frame_add_extension_arq_handshake ly tx_frame ARQ_STATE_IN_INIT
                      (arq_session_identifier vchannel);
              Some (1, vchannel, tx')
            }
            else Some (0, vchannel, tx_frame))
         else if arq_state_flag vchannel = ARQ_STATE_ON then do {
           tx0 \<leftarrow> tx_set_flag 2 tx_frame;
           (ret1, v1, tx1) \<leftarrow> fill_handshake ly vchannel tx0;
           (ret2, v2, tx2) \<leftarrow> fill_request ly idle_left ret1 v1 tx1;
           (ret3, v3, tx3) \<leftarrow> fill_ctrl ly arq idle_left now ret2 v2 tx2;
           fill_payload ly ret3 v3 tx3
         }
         else Some (0, vchannel, tx_frame))"

section \<open>Processing a frame\<close>

definition sky_vc_handle_handshake ::
    "sky_tick_t \<Rightarrow> SkyVirtualChannel \<Rightarrow> byte \<Rightarrow> u32 \<Rightarrow> (int \<times> SkyVirtualChannel) option" where
  "sky_vc_handle_handshake ticks vchannel peer_state identifier =
     (let accept = map_option (\<lambda>v. (1, v\<lparr>handshake_send := 1\<rparr>)) (sky_vc_wipe_to_arq_on_state ticks vchannel identifier)
      in if arq_state_flag vchannel = ARQ_STATE_OFF then accept
         else if arq_state_flag vchannel = ARQ_STATE_IN_INIT then
           (if identifier = arq_session_identifier vchannel
            then Some (1, vchannel\<lparr>arq_state_flag := ARQ_STATE_ON, handshake_send := 0\<rparr>)
            else if identifier > arq_session_identifier vchannel then accept
            else Some (0, vchannel))
         else if arq_state_flag vchannel = ARQ_STATE_ON then
           (if identifier = arq_session_identifier vchannel
            then Some (0, vchannel\<lparr>handshake_send := (if peer_state = ARQ_STATE_IN_INIT then 1 else 0)\<rparr>)
            else accept)
         else Some (- 1, vchannel))"

text \<open>The body of an extension at pointer \<open>ext\<close>: the bytes behind its header byte.\<close>

definition ext_body :: "SkyParsedFrame \<Rightarrow> nat \<Rightarrow> nat \<Rightarrow> bytes option" where
  "ext_body parsed ext n = read_bytes (p_raw parsed) (ext + 1) n"

definition parsed_payload :: "SkyParsedFrame \<Rightarrow> bytes option" where
  "parsed_payload parsed = read_bytes (p_raw parsed) (p_payload parsed) (payload_len parsed)"

definition process_handshake :: "sky_tick_t \<Rightarrow> SkyVirtualChannel \<Rightarrow> SkyParsedFrame \<Rightarrow> SkyVirtualChannel option" where
  "process_handshake ticks v parsed =
     (case arq_handshake parsed of
        None \<Rightarrow> Some v
      | Some ext \<Rightarrow> do {
          bs \<leftarrow> ext_body parsed ext 5;
          (_, v') \<leftarrow> sky_vc_handle_handshake ticks v (bs ! 0) (load32 (bs ! 1) (bs ! 2) (bs ! 3) (bs ! 4));
          Some v'
        })"

definition process_ctrl :: "SkyVirtualChannel \<Rightarrow> SkyParsedFrame \<Rightarrow> sky_tick_t \<Rightarrow> SkyVirtualChannel option" where
  "process_ctrl v parsed now =
     (case arq_ctrl parsed of
        None \<Rightarrow> Some v
      | Some ext \<Rightarrow> do {
          bs \<leftarrow> ext_body parsed ext 2;
          v1 \<leftarrow> sky_vc_update_tx_sync v (bs ! 1) now;
          Some (sky_vc_update_rx_sync v1 (bs ! 0) now)
        })"

definition process_request :: "SkyVirtualChannel \<Rightarrow> SkyParsedFrame \<Rightarrow> SkyVirtualChannel option" where
  "process_request v parsed =
     (case arq_request parsed of
        None \<Rightarrow> Some v
      | Some ext \<Rightarrow> do {
          bs \<leftarrow> ext_body parsed ext 3;
          (_, s) \<leftarrow> sendRing_schedule_resends_by_mask (sendRing v) (bs ! 0) (sky_ntoh16 (load16 (bs ! 1) (bs ! 2)));
          Some (v\<lparr>sendRing := s\<rparr>)
        })"

definition sky_vc_process_frame ::
    "sky_tick_t \<Rightarrow> SkyVirtualChannel \<Rightarrow> SkyParsedFrame \<Rightarrow> sky_tick_t \<Rightarrow> (int \<times> SkyVirtualChannel) option" where
  "sky_vc_process_frame ticks vchannel parsed now = do {
     v \<leftarrow> process_handshake ticks vchannel parsed;
     if arq_state_flag v = ARQ_STATE_OFF then
       (if payload_len parsed > 0 then do {
          payload \<leftarrow> parsed_payload parsed;
          (_, v') \<leftarrow> sky_vc_push_rx_packet_monotonic v payload;
          Some (0, v')
        }
        else Some (0, v))
     else if arq_state_flag v = ARQ_STATE_IN_INIT then Some (0, v)
     else if arq_state_flag v = ARQ_STATE_ON then do {
       v1 \<leftarrow> process_ctrl v parsed now;
       if payload_len parsed > 0 then
         (case arq_sequence parsed of
            None \<Rightarrow> Some (- 1, v1)
          | Some ext \<Rightarrow> do {
              bs \<leftarrow> ext_body parsed ext 1;
              payload \<leftarrow> parsed_payload parsed;
              (_, v2) \<leftarrow> sky_vc_push_rx_packet v1 payload (bs ! 0) now;
              v3 \<leftarrow> process_request v2 parsed;
              Some (0, v3)
            })
       else do { v3 \<leftarrow> process_request v1 parsed; Some (0, v3) }
     }
     else Some (- 1, v)
   }"

end
