(* ===== verification/Payload_Store.thy ===== *)
theory Payload_Store
  imports Sky_Prelude
begin

text \<open>
  The contract between the element buffer and its clients, the two sequence rings of a virtual
  channel: a store of byte strings under handles with a budget of elements. The locale fixes the
  operations the rings call and assumes what the element buffer promises; the lemmas proved here
  once are what the ring and channel theories use. The interpretation is in
  \<open>Element_Buffer_Correct\<close>.
\<close>

text \<open>The largest chain \<open>sky_element_buffer_store\<close> can acquire (the size of its array \<open>indexes\<close>).\<close>

definition MAX_CHAIN :: nat where "MAX_CHAIN = 42"

text \<open>A list of handles holds a list of payloads.\<close>

definition holds :: "(nat \<Rightarrow> bytes option) \<Rightarrow> nat list \<Rightarrow> bytes list \<Rightarrow> bool" where
  "holds g hs ds \<longleftrightarrow> distinct hs \<and> map g hs = map Some ds"

lemma holds_Nil [simp]: "holds g [] ds \<longleftrightarrow> ds = []"
  by (auto simp: holds_def)

lemma holds_length: "holds g hs ds \<Longrightarrow> length hs = length ds"
  unfolding holds_def using length_map by metis

lemma holds_nth: "\<lbrakk> holds g hs ds; k < length hs \<rbrakk> \<Longrightarrow> g (hs ! k) = Some (ds ! k)"
  using holds_length [of g hs ds] unfolding holds_def by (metis nth_map)

lemma holds_dom: "holds g hs ds \<Longrightarrow> set hs \<subseteq> dom g"
  by (metis domI holds_nth in_set_conv_nth subsetI)

lemma holds_append:
  "length hs = length ds \<Longrightarrow>
   holds g (hs @ hs') (ds @ ds') \<longleftrightarrow> holds g hs ds \<and> holds g hs' ds' \<and> set hs \<inter> set hs' = {}"
  by (auto simp: holds_def)

lemma holds_Cons: "holds g (h # hs) (d # ds) \<longleftrightarrow> g h = Some d \<and> h \<notin> set hs \<and> holds g hs ds"
  by (auto simp: holds_def)

lemma holds_cong: "\<lbrakk> holds g hs ds; \<And>h. h \<in> set hs \<Longrightarrow> g' h = g h \<rbrakk> \<Longrightarrow> holds g' hs ds"
  by (simp add: holds_def cong: map_cong)

locale payload_store =
  fixes inv :: "'b \<Rightarrow> bool"
    and get :: "'b \<Rightarrow> nat \<Rightarrow> bytes option"
    and cost :: "'b \<Rightarrow> nat \<Rightarrow> nat"
    and total :: "'b \<Rightarrow> nat"
    and free :: "'b \<Rightarrow> int"
    and store :: "'b \<Rightarrow> bytes \<Rightarrow> (int \<times> 'b) option"
    and read :: "'b \<Rightarrow> nat \<Rightarrow> nat \<Rightarrow> bytes c_result option"
    and delete :: "'b \<Rightarrow> nat \<Rightarrow> (int \<times> 'b) option"
    and get_length :: "'b \<Rightarrow> nat \<Rightarrow> int option"
  assumes finite_dom: "inv b \<Longrightarrow> finite (dom (get b))"
    and accounting: "inv b \<Longrightarrow>
      free b = int (total b) - (\<Sum>i \<in> dom (get b). int (cost b (length (the (get b i)))))"
    and handle_bound: "\<lbrakk> inv b; get b i = Some d \<rbrakk> \<Longrightarrow> i < total b \<and> i < 65530"
    and store_ok: "\<lbrakk> inv b; length d \<le> 65535; cost b (length d) \<le> MAX_CHAIN;
        int (cost b (length d)) \<le> free b \<rbrakk> \<Longrightarrow>
      \<exists>i b'. store b d = Some (int i, b') \<and> inv b' \<and> get b i = None \<and> get b' = (get b)(i \<mapsto> d) \<and>
        cost b' = cost b \<and> total b' = total b"
    and store_full: "\<lbrakk> inv b; length d \<le> 65535; free b < int (cost b (length d)) \<rbrakk> \<Longrightarrow>
      store b d = Some (SKY_RET_EBUFFER_NO_SPACE, b)"
    and read_ok: "\<lbrakk> inv b; get b i = Some d \<rbrakk> \<Longrightarrow>
      read b i m = Some (if m < length d then Inl SKY_RET_EBUFFER_TOO_LONG_PAYLOAD else Inr d)"
    and length_ok: "\<lbrakk> inv b; get b i = Some d \<rbrakk> \<Longrightarrow> get_length b i = Some (int (length d))"
    and delete_ok: "\<lbrakk> inv b; get b i = Some d \<rbrakk> \<Longrightarrow>
      \<exists>b'. delete b i = Some (0, b') \<and> inv b' \<and> get b' = (get b)(i := None) \<and>
        cost b' = cost b \<and> total b' = total b"
begin

text \<open>A buffer all of whose payloads are under the handles of a list.\<close>

definition owns :: "'b \<Rightarrow> nat list \<Rightarrow> bytes list \<Rightarrow> bool" where
  "owns b hs ds \<longleftrightarrow> inv b \<and> holds (get b) hs ds \<and> dom (get b) = set hs"

lemma owns_free:
  assumes "owns b hs ds"
  shows "free b = int (total b) - int (\<Sum>d \<leftarrow> ds. cost b (length d))"
proof -
  have h: "inv b" "distinct hs" "map (get b) hs = map Some ds" "dom (get b) = set hs"
    using assms by (simp_all add: owns_def holds_def)
  have "(\<Sum>i \<in> set hs. int (cost b (length (the (get b i))))) =
      (\<Sum>i \<leftarrow> hs. int (cost b (length (the (get b i)))))"
    using h(2) by (simp add: sum_list_distinct_conv_sum_set)
  also have "\<dots> = (\<Sum>x \<leftarrow> map (get b) hs. int (cost b (length (the x))))" by (simp add: comp_def)
  also have "\<dots> = (\<Sum>d \<leftarrow> ds. int (cost b (length d)))" by (simp only: h(3) list.map_comp comp_def option.sel)
  also have "\<dots> = int (\<Sum>d \<leftarrow> ds. cost b (length d))" by (induction ds) simp_all
  finally show ?thesis using accounting [OF h(1)] h(4) by simp
qed

text \<open>When the payloads held leave room, a store cannot fail and its handle is new.\<close>

lemma owns_store:
  assumes o: "owns b hs ds" and len: "length d \<le> 65535" "cost b (length d) \<le> MAX_CHAIN"
    and room: "(\<Sum>d \<leftarrow> d # ds. cost b (length d)) \<le> total b"
  obtains i b' where "store b d = Some (int i, b')" "owns b' (hs @ [i]) (ds @ [d])" "i \<notin> set hs"
    "i < 65530" "get b' = (get b)(i \<mapsto> d)" "cost b' = cost b" "total b' = total b"
proof -
  have inv: "inv b" using o by (simp add: owns_def)
  have "int (cost b (length d)) \<le> free b" using owns_free [OF o] room by simp
  from store_ok [OF inv len this] obtain i b' where
    s: "store b d = Some (int i, b')" "inv b'" "get b i = None" "get b' = (get b)(i \<mapsto> d)"
       "cost b' = cost b" "total b' = total b" by blast
  have ni: "i \<notin> set hs" using o s(3) by (auto simp: owns_def)
  have "holds (get b') hs ds" using o ni s(4) by (auto simp: owns_def intro: holds_cong)
  moreover have "length hs = length ds" using o by (auto simp: owns_def dest: holds_length)
  ultimately have "owns b' (hs @ [i]) (ds @ [d])"
    using o s ni by (auto simp: owns_def holds_append holds_Cons)
  then show ?thesis using that s ni handle_bound [OF s(2), of i d] by auto
qed

lemma store_any:
  assumes inv: "inv b" and len: "length d \<le> 65535" "cost b (length d) \<le> MAX_CHAIN"
  obtains (stored) i b' where "store b d = Some (int i, b')" "inv b'" "get b i = None"
      "get b' = (get b)(i \<mapsto> d)" "cost b' = cost b" "total b' = total b" "i < 65530"
    | (full) "store b d = Some (SKY_RET_EBUFFER_NO_SPACE, b)" "free b < int (cost b (length d))"
proof (cases "int (cost b (length d)) \<le> free b")
  case True
  from store_ok [OF inv len True] obtain i b' where
    s: "store b d = Some (int i, b')" "inv b'" "get b i = None" "get b' = (get b)(i \<mapsto> d)"
       "cost b' = cost b" "total b' = total b" by blast
  show ?thesis by (rule stored [OF s]) (use handle_bound [OF s(2), of i d] s(4) in simp)
next
  case False
  then show ?thesis using full store_full [OF inv len(1)] by simp
qed

lemma owns_delete:
  assumes "owns b (hs @ h # hs') (ds @ d # ds')" "length hs = length ds"
  obtains b' where "delete b h = Some (0, b')" "owns b' (hs @ hs') (ds @ ds')"
    "get b' = (get b)(h := None)" "cost b' = cost b" "total b' = total b"
proof -
  have h: "inv b" "holds (get b) hs ds" "holds (get b) hs' ds'" "get b h = Some d"
    "h \<notin> set hs" "h \<notin> set hs'" "set hs \<inter> set hs' = {}" "dom (get b) = set (hs @ h # hs')"
    using assms by (auto simp: owns_def holds_append holds_Cons)
  from delete_ok [OF h(1,4)] obtain b' where
    b': "delete b h = Some (0, b')" "inv b'" "get b' = (get b)(h := None)" "cost b' = cost b" "total b' = total b"
    by blast
  have "holds (get b') hs ds" "holds (get b') hs' ds'"
    using h b'(3) by (auto intro: holds_cong)
  then have "owns b' (hs @ hs') (ds @ ds')"
    using h b' assms(2) by (auto simp: owns_def holds_append)
  then show ?thesis using that b' by blast
qed

text \<open>Storing and deleting a payload changes the number of free elements by its cost.\<close>

lemma store_free:
  assumes inv: "inv b" and none: "get b i = None"
    and b': "inv b'" "get b' = (get b)(i \<mapsto> d)" "cost b' = cost b" "total b' = total b"
  shows "free b' = free b - int (cost b (length d))"
proof -
  have "dom (get b') = insert i (dom (get b))" "i \<notin> dom (get b)" using none b'(2) by auto
  moreover have "(\<Sum>j \<in> dom (get b). int (cost b (length (the (get b' j))))) =
      (\<Sum>j \<in> dom (get b). int (cost b (length (the (get b j)))))"
    using none b'(2) by (intro sum.cong) auto
  ultimately show ?thesis
    using accounting [OF inv] accounting [OF b'(1)] finite_dom [OF inv] b' by simp
qed

lemma delete_free:
  assumes inv: "inv b" and g: "get b i = Some d"
    and b': "inv b'" "get b' = (get b)(i := None)" "cost b' = cost b" "total b' = total b"
  shows "free b' = free b + int (cost b (length d))"
proof -
  have "get b = (get b')(i \<mapsto> d)" using g b'(2) by auto
  from store_free [OF b'(1) _ inv this] show ?thesis using b' by simp
qed

lemma owns_read:
  assumes "owns b hs ds" "k < length hs"
  shows "read b (hs ! k) m =
      Some (if m < length (ds ! k) then Inl SKY_RET_EBUFFER_TOO_LONG_PAYLOAD else Inr (ds ! k))"
    "get_length b (hs ! k) = Some (int (length (ds ! k)))" "hs ! k < 65530"
  using assms holds_nth [of "get b" hs ds k] read_ok [of b "hs ! k"] length_ok [of b "hs ! k"]
    handle_bound [of b "hs ! k"]
  by (simp_all add: owns_def)

end

end
