(* ===== verification/Element_Buffer_Correct.thy ===== *)
theory Element_Buffer_Correct
  imports Element_Buffer Payload_Store
begin

text \<open>
  Correctness of the element buffer. The chains of a well-formed buffer are given as a list of
  index lists; the abstraction \<open>eb_get\<close> maps the index of the first element of a chain to the
  payload stored in it. Section ``Interface'' states the contract the sequence rings rely on as a
  locale and discharges it for the model.
\<close>

section \<open>Chains\<close>

fun links :: "BufferElement list \<Rightarrow> nat \<Rightarrow> nat list \<Rightarrow> bool" where
  "links p pv [] = True"
| "links p pv (i # is) \<longleftrightarrow>
     i < length p \<and> previous (p ! i) = pv \<and>
     next_idx (p ! i) = (case is of [] \<Rightarrow> EB_END_IDX | j # _ \<Rightarrow> j) \<and> links p i is"

definition need :: "nat \<Rightarrow> nat \<Rightarrow> nat" where
  "need u n = (n + 1 + u) div u"

definition chain_bytes :: "BufferElement list \<Rightarrow> nat list \<Rightarrow> bytes" where
  "chain_bytes p c = concat (map (\<lambda>i. el_data (p ! i)) c)"

definition chain_len :: "BufferElement list \<Rightarrow> nat list \<Rightarrow> nat" where
  "chain_len p c = unat (load16 (el_data (p ! hd c) ! 0) (el_data (p ! hd c) ! 1))"

definition chain_payload :: "BufferElement list \<Rightarrow> nat list \<Rightarrow> bytes" where
  "chain_payload p c = take (chain_len p c) (drop 2 (chain_bytes p c))"

definition usable :: "SkyElementBuffer \<Rightarrow> nat" where
  "usable b = nat (element_usable_space b)"

definition eb_sizes :: "SkyElementBuffer \<Rightarrow> bool" where
  "eb_sizes b \<longleftrightarrow>
     2 \<le> element_usable_space b \<and> element_usable_space b \<le> 65535 \<and>
     0 < element_count b \<and> element_count b \<le> EB_MAX_ELEMENT_COUNT \<and>
     length (pool b) = element_count b \<and> last_write_index b < element_count b \<and>
     (\<forall>e \<in> set (pool b). length (el_data e) = usable b)"

definition eb_chain :: "SkyElementBuffer \<Rightarrow> nat list \<Rightarrow> bool" where
  "eb_chain b c \<longleftrightarrow> c \<noteq> [] \<and> links (pool b) EB_END_IDX c \<and>
     length c = need (usable b) (chain_len (pool b) c)"

definition eb_wf :: "SkyElementBuffer \<Rightarrow> nat list list \<Rightarrow> bool" where
  "eb_wf b cs \<longleftrightarrow> eb_sizes b \<and> distinct (concat cs) \<and> (\<forall>c \<in> set cs. eb_chain b c) \<and>
     (\<forall>i < element_count b. i \<notin> set (concat cs) \<longrightarrow> element_is_free (pool b ! i)) \<and>
     free_elements b = int (element_count b) - int (length (concat cs))"

definition eb_inv :: "SkyElementBuffer \<Rightarrow> bool" where
  "eb_inv b \<longleftrightarrow> (\<exists>cs. eb_wf b cs)"

definition eb_get :: "SkyElementBuffer \<Rightarrow> nat \<Rightarrow> bytes option" where
  "eb_get b i = (case sky_element_buffer_read b i 65535 of Some (Inr bs) \<Rightarrow> Some bs | _ \<Rightarrow> None)"

lemma eb_idx_values [eb_simps]:
  "EB_END_IDX = 65531" "EB_NULL_IDX = 65532" "EB_MAX_ELEMENT_COUNT = 65530"
  by (simp_all add: EB_END_IDX_def EB_NULL_IDX_def EB_MAX_ELEMENT_COUNT_def)

lemma links_bound: "links p pv c \<Longrightarrow> i \<in> set c \<Longrightarrow> i < length p"
  by (induction p pv c rule: links.induct) auto

lemma links_cong:
  "\<lbrakk> links p pv c; length p' = length p; \<And>i. i \<in> set c \<Longrightarrow> p' ! i = p ! i \<rbrakk> \<Longrightarrow> links p' pv c"
  by (induction p pv c rule: links.induct) auto

lemma links_previous: "links p pv c \<Longrightarrow> i \<in> set c \<Longrightarrow> previous (p ! i) = pv \<or> previous (p ! i) \<in> set c"
  by (induction p pv c rule: links.induct) auto

lemma links_append:
  "links p pv (c @ d) \<longleftrightarrow>
     (c = [] \<and> links p pv d) \<or>
     (c \<noteq> [] \<and> links p (last c) d \<and>
      (\<forall>j < length c. c ! j < length p \<and> previous (p ! (c ! j)) = (if j = 0 then pv else c ! (j - 1)) \<and>
        next_idx (p ! (c ! j)) = (if Suc j = length c then (case d of [] \<Rightarrow> EB_END_IDX | j # _ \<Rightarrow> j)
                                  else c ! Suc j)))"
proof (induction c arbitrary: pv)
  case Nil
  then show ?case by simp
next
  case (Cons i c)
  show ?case
  proof (cases c)
    case Nil
    then show ?thesis by auto
  next
    case (Cons j c')
    have all_split: "(\<forall>k < Suc n. P k) \<longleftrightarrow> P 0 \<and> (\<forall>k < n. P (Suc k))" for n :: nat and P
      using less_Suc_eq_0_disj by auto
    show ?thesis
      using Cons.IH [of i] Cons by (auto simp: all_split nth_Cons' split: if_splits)
  qed
qed

lemma need_pos: "0 < u \<Longrightarrow> 0 < need u n"
  by (simp add: need_def div_greater_zero_iff)

lemma need_bounds:
  assumes "0 < u"
  shows "n + 2 \<le> u * need u n" "u * (need u n - 1) < n + 2"
proof -
  define q r where "q = (n + 1 + u) div u" and "r = (n + 1 + u) mod u"
  have "u * q + r = n + 1 + u" "r < u" using assms by (simp_all add: q_def r_def)
  then have "n + 2 \<le> u * q" "u * q - u < n + 2" by linarith+
  then show "n + 2 \<le> u * need u n" "u * (need u n - 1) < n + 2"
    by (simp_all add: need_def q_def diff_mult_distrib2)
qed

lemma need_mono: "m \<le> n \<Longrightarrow> need u m \<le> need u n"
  by (simp add: need_def div_le_mono)

lemma sdiv_pos_int: "\<lbrakk> 0 < a; 0 < b \<rbrakk> \<Longrightarrow> int a sdiv int b = int (a div b)"
  by (simp add: signed_divide_int_def zdiv_int)

lemma requirement_for:
  assumes "0 < element_usable_space b"
  shows "sky_element_buffer_element_requirement_for b (int n) = Some (int (need (usable b) n))"
proof -
  have u: "element_usable_space b = int (usable b)" "0 < usable b"
    using assms by (simp_all add: usable_def)
  have "int n + 2 + int (usable b) - 1 = int (n + 1 + usable b)" by simp
  then show ?thesis using u sdiv_pos_int [of "n + 1 + usable b" "usable b"]
    by (simp add: sky_element_buffer_element_requirement_for_def need_def EB_LEN_BYTES_def)
qed

section \<open>Searching free elements\<close>

definition free_set :: "SkyElementBuffer \<Rightarrow> nat set" where
  "free_set b = {i. i < element_count b \<and> element_is_free (pool b ! i)}"

text \<open>How far \<open>j\<close> lies after \<open>s\<close> on a cycle of \<open>N\<close> elements.\<close>

definition cyc_dist :: "nat \<Rightarrow> nat \<Rightarrow> nat \<Rightarrow> nat" where
  "cyc_dist N s j = (if s \<le> j then j - s else j + N - s)"

lemma cyc_dist_less: "\<lbrakk> s < N; j < N \<rbrakk> \<Longrightarrow> cyc_dist N s j < N"
  by (auto simp: cyc_dist_def)

lemma cyc_dist_mod: "\<lbrakk> s < N; i < N \<rbrakk> \<Longrightarrow> cyc_dist N s ((s + i) mod N) = i"
  by (cases "s + i < N") (auto simp: cyc_dist_def mod_if)

lemma cyc_dist_inj: "\<lbrakk> s < N; j < N; k < N; cyc_dist N s j = cyc_dist N s k \<rbrakk> \<Longrightarrow> j = k"
  by (auto simp: cyc_dist_def split: if_splits)

lemma cyc_dist_add: "\<lbrakk> s < N; j < N \<rbrakk> \<Longrightarrow> (s + cyc_dist N s j) mod N = j"
  by (auto simp: cyc_dist_def mod_if)

lemma cyc_dist_succ:
  assumes "a < N" "l < N" "k < N"
  shows "cyc_dist N (Suc l mod N) k =
    (if cyc_dist N a l < cyc_dist N a k then cyc_dist N a k - cyc_dist N a l - 1
     else cyc_dist N a k + N - cyc_dist N a l - 1)"
  using assms by (cases "Suc l = N") (auto simp: cyc_dist_def)

lemma wrap_element_mod:
  assumes "eb_sizes b" "i < 131072"
  shows "wrap_element b (int i) = Some (i mod element_count b)"
  using assms by (simp add: wrap_element_def eb_sizes_def eb_simps nat_mod_as_int)

lemma next_free_scan_find:
  assumes "eb_sizes b" "s < element_count b" "\<forall>i \<in> set is. i < element_count b"
  shows "next_free_scan b s is =
    Some (case find (\<lambda>i. element_is_free (pool b ! ((s + i) mod element_count b))) is of
            None \<Rightarrow> - 1 | Some i \<Rightarrow> int ((s + i) mod element_count b))"
  using assms(3)
proof (induction "is")
  case Nil
  then show ?case by simp
next
  case (Cons i "is")
  have "s + i < 131072" using Cons.prems assms(1,2) by (simp add: eb_sizes_def eb_simps)
  then have w: "wrap_element b (int s + int i) = Some ((s + i) mod element_count b)"
    using wrap_element_mod [OF assms(1), of "s + i"] by simp
  have "element_i b ((s + i) mod element_count b) = Some (pool b ! ((s + i) mod element_count b))"
    using assms(1) by (simp add: element_i_def eb_sizes_def)
  then show ?case using Cons w by simp
qed

lemma find_upt_Some:
  "find P [0..<n] = Some i \<longleftrightarrow> i < n \<and> P i \<and> (\<forall>j < i. \<not> P j)"
  by (auto simp: find_Some_iff)

lemma find_upt_None: "find P [0..<n] = None \<longleftrightarrow> (\<forall>j < n. \<not> P j)"
  by (auto simp: find_None_iff)

lemma get_next_free_none:
  assumes "eb_sizes b" "s < element_count b" "free_set b = {}"
  shows "element_buffer_get_next_free b s = Some (- 1)"
proof -
  have "find (\<lambda>i. element_is_free (pool b ! ((s + i) mod element_count b))) [0..<element_count b] = None"
    using assms by (auto simp: find_upt_None free_set_def)
  then show ?thesis using next_free_scan_find [OF assms(1,2), of "[0..<element_count b]"]
    by (simp add: element_buffer_get_next_free_def)
qed

lemma get_next_free_some:
  assumes sz: "eb_sizes b" and s: "s < element_count b" and ne: "free_set b \<noteq> {}"
  obtains j where "element_buffer_get_next_free b s = Some (int j)" "j \<in> free_set b"
    "\<And>k. k \<in> free_set b \<Longrightarrow> cyc_dist (element_count b) s j \<le> cyc_dist (element_count b) s k"
proof -
  let ?N = "element_count b"
  let ?P = "\<lambda>i. element_is_free (pool b ! ((s + i) mod ?N))"
  from ne obtain k where k: "k \<in> free_set b" by blast
  have "?P (cyc_dist ?N s k)" if "k \<in> free_set b" for k
    using that s by (simp add: free_set_def cyc_dist_add)
  then obtain i where i: "find ?P [0..<?N] = Some i"
    using k s by (cases "find ?P [0..<?N]") (auto simp: find_upt_None free_set_def cyc_dist_less)
  define j where "j = (s + i) mod ?N"
  have iN: "i < ?N" "?P i" "\<forall>m < i. \<not> ?P m" using i by (auto simp: find_upt_Some)
  have "element_buffer_get_next_free b s = Some (int j)"
    using next_free_scan_find [OF sz s, of "[0..<?N]"] i
    by (simp add: element_buffer_get_next_free_def j_def)
  moreover have "j \<in> free_set b" using iN by (simp add: free_set_def j_def)
  moreover have "cyc_dist ?N s j \<le> cyc_dist ?N s k" if "k \<in> free_set b" for k
  proof -
    have "cyc_dist ?N s j = i" using iN s by (simp add: j_def cyc_dist_mod)
    moreover have "?P (cyc_dist ?N s k)" using that s by (simp add: free_set_def cyc_dist_add)
    ultimately show ?thesis using iN(3) not_le by metis
  qed
  ultimately show ?thesis using that by blast
qed

text \<open>
  The acquired indexes are, in cyclic order from the first one, the nearest free elements.
\<close>

definition nearest_free :: "SkyElementBuffer \<Rightarrow> nat \<Rightarrow> nat list \<Rightarrow> bool" where
  "nearest_free b a tgt \<longleftrightarrow> tgt \<noteq> [] \<and> distinct tgt \<and> a \<in> free_set b \<and> last tgt < element_count b \<and>
     set tgt = {k \<in> free_set b. cyc_dist (element_count b) a k \<le> cyc_dist (element_count b) a (last tgt)}"

lemma nearest_free_step:
  assumes sz: "eb_sizes b" and nf: "nearest_free b a tgt" and more: "length tgt < card (free_set b)"
  obtains j where
    "Option.bind (wrap_element b (int (last tgt) + 1)) (element_buffer_get_next_free b) = Some (int j)"
    "j \<noteq> a" "nearest_free b a (tgt @ [j])"
proof -
  let ?N = "element_count b" let ?D = "cyc_dist ?N a"
  have aN: "a < ?N" and lN: "last tgt < ?N" using nf by (auto simp: nearest_free_def free_set_def)
  have "distinct tgt" using nf by (simp add: nearest_free_def)
  then have "card (set tgt) = length tgt" by (rule distinct_card)
  then have "set tgt \<noteq> free_set b" using more by auto
  then have "\<exists>k \<in> free_set b. \<not> ?D k \<le> ?D (last tgt)"
    using nf unfolding nearest_free_def by blast
  then obtain k where k: "k \<in> free_set b" "?D (last tgt) < ?D k" by (auto simp: not_le)
  have NN: "?N \<le> 65530" using sz by (simp add: eb_sizes_def eb_simps)
  have w: "wrap_element b (int (last tgt) + 1) = Some ((last tgt + 1) mod ?N)"
    using wrap_element_mod [OF sz, of "last tgt + 1"] lN NN by (simp add: algebra_simps)
  have sN: "(last tgt + 1) mod ?N < ?N" using lN by simp
  obtain j where j: "element_buffer_get_next_free b ((last tgt + 1) mod ?N) = Some (int j)"
      "j \<in> free_set b"
      "\<And>k. k \<in> free_set b \<Longrightarrow>
        cyc_dist ?N ((last tgt + 1) mod ?N) j \<le> cyc_dist ?N ((last tgt + 1) mod ?N) k"
    using get_next_free_some [OF sz sN] k(1) by blast
  have fN: "m < ?N" if "m \<in> free_set b" for m using that by (simp add: free_set_def)
  have Dlt: "?D m < ?N" if "m < ?N" for m using that aN by (simp add: cyc_dist_less)
  have jl: "?D (last tgt) < ?D j"
  proof (rule ccontr)
    assume "\<not> ?D (last tgt) < ?D j"
    then have "?D j + ?N - ?D (last tgt) - 1 \<le> ?D k - ?D (last tgt) - 1"
      using j(3) [OF k(1)] k fN [OF j(2)] fN [OF k(1)] aN lN by (simp add: cyc_dist_succ [of a])
    then show False using Dlt [OF fN [OF k(1)]] Dlt [OF lN] k(2) by linarith
  qed
  have jmin: "?D j \<le> ?D m" if "m \<in> free_set b" "?D (last tgt) < ?D m" for m
    using j(3) [OF that(1)] jl that fN [OF j(2)] fN [OF that(1)] aN lN by (simp add: cyc_dist_succ [of a])
  have "j \<noteq> a" using jl by (auto simp: cyc_dist_def)
  moreover have "j \<notin> set tgt" using nf jl by (auto simp: nearest_free_def)
  moreover have "m = j" if "m \<in> free_set b" "?D (last tgt) < ?D m" "?D m \<le> ?D j" for m
    using cyc_dist_inj [OF aN fN [OF that(1)] fN [OF j(2)]] jmin [OF that(1,2)] that(3) by simp
  ultimately have "nearest_free b a (tgt @ [j])"
    using nf j(2) jl fN [OF j(2)] unfolding nearest_free_def by fastforce
  with w j(1) \<open>j \<noteq> a\<close> show ?thesis using that by simp
qed

lemma n_free_loop_nearest:
  assumes sz: "eb_sizes b" and "nearest_free b a tgt" "length tgt \<le> n"
    "n \<le> card (free_set b)" "n \<le> INDEXES_SIZE"
  shows "\<exists>ixs. n_free_loop b (int a) tgt [length tgt..<n] = Some (0, ixs) \<and>
     nearest_free b a ixs \<and> length ixs = n \<and> hd ixs = hd tgt"
  using assms(2-5)
proof (induction "n - length tgt" arbitrary: tgt)
  case 0
  then show ?case by auto
next
  case (Suc m)
  then have lt: "length tgt < n" by simp
  have ne: "tgt \<noteq> []" using Suc.prems(1) by (simp add: nearest_free_def)
  obtain j where j:
      "Option.bind (wrap_element b (int (last tgt) + 1)) (element_buffer_get_next_free b) = Some (int j)"
      "j \<noteq> a" "nearest_free b a (tgt @ [j])"
    using nearest_free_step [OF sz Suc.prems(1)] lt Suc.prems(3) by (metis less_le_trans)
  have "\<exists>ixs. n_free_loop b (int a) (tgt @ [j]) [length (tgt @ [j])..<n] = Some (0, ixs) \<and>
     nearest_free b a ixs \<and> length ixs = n \<and> hd ixs = hd (tgt @ [j])"
    using Suc j(3) lt by (intro Suc.hyps(1)) auto
  moreover have "n_free_loop b (int a) tgt [length tgt..<n] =
      n_free_loop b (int a) (tgt @ [j]) [length (tgt @ [j])..<n]"
    using j lt ne Suc.prems(4)
    by (auto simp: upt_conv_Cons last_conv_nth bind_eq_Some_conv)
  ultimately show ?case using ne by simp
qed

lemma get_n_free:
  assumes sz: "eb_sizes b" and n: "1 \<le> n" "n \<le> card (free_set b)" "n \<le> INDEXES_SIZE"
  obtains ixs where "element_buffer_get_n_free b (int n) (last_write_index b) = Some (0, ixs)"
    "length ixs = n" "distinct ixs" "set ixs \<subseteq> free_set b"
proof -
  have s: "last_write_index b < element_count b" using sz by (simp add: eb_sizes_def)
  have "free_set b \<noteq> {}" using n by auto
  then obtain a where a: "element_buffer_get_next_free b (last_write_index b) = Some (int a)"
      "a \<in> free_set b"
    using get_next_free_some [OF sz s] by blast
  have "nearest_free b a [a]"
    using a(2) by (auto simp: nearest_free_def free_set_def cyc_dist_def split: if_splits)
  from n_free_loop_nearest [OF sz this, of n] n obtain ixs where
    "n_free_loop b (int a) [a] [1..<n] = Some (0, ixs)" "nearest_free b a ixs" "length ixs = n"
    by auto
  then show ?thesis using that a by (auto simp: element_buffer_get_n_free_def nearest_free_def)
qed

section \<open>Storing\<close>

lemma el_copy_in_ok:
  "\<lbrakk> 0 \<le> n; off + min (nat n) (length src) \<le> length area \<rbrakk> \<Longrightarrow>
   el_copy_in area off n src =
     Some (take off area @ take (nat n) src @ drop (off + min (nat n) (length src)) area)"
  by (simp add: el_copy_in_def min.commute)

text \<open>
  The copy loop links the acquired elements behind \<open>prev_i\<close>, touches no other element and lays
  out the remaining bytes (followed by old content) over them.
\<close>

lemma store_loop_ok:
  assumes "distinct (pi # rest)" "set (pi # rest) \<subseteq> {..<length pl}"
    "\<forall>e \<in> set pl. length (el_data e) = u" "0 < u" "cur \<le> len" "len \<le> length dat"
    "len - cur \<le> u * length rest"
  shows "\<exists>pl' g. store_loop (int u) dat (int len) pl (int cur) pi rest = Some pl' \<and>
     length pl' = length pl \<and> (\<forall>e \<in> set pl'. length (el_data e) = u) \<and>
     (\<forall>i. i \<notin> set (pi # rest) \<longrightarrow> pl' ! i = pl ! i) \<and>
     pl' ! pi = (pl ! pi)\<lparr>next_idx := (case rest of [] \<Rightarrow> next_idx (pl ! pi) | j # _ \<Rightarrow> j)\<rparr> \<and>
     links pl' pi rest \<and> chain_bytes pl' rest = take (len - cur) (drop cur dat) @ g"
  using assms
proof (induction rest arbitrary: pl cur pi)
  case Nil
  then show ?case by (simp add: chain_bytes_def)
next
  case (Cons ix rest)
  define k where "k = min u (len - cur)"
  define pl1 where "pl1 = pl[pi := (pl ! pi)\<lparr>next_idx := ix\<rparr>]"
  define area where "area = take k (drop cur dat) @ drop k (el_data (pl ! ix))"
  define pl2 where "pl2 = pl1[ix := \<lparr>previous = pi, next_idx = EB_END_IDX, el_data = area\<rparr>]"
  have dist: "pi \<noteq> ix" "pi \<notin> set rest" "ix \<notin> set rest" "distinct rest" using Cons.prems(1) by auto
  have bnd: "pi < length pl" "ix < length pl" "\<forall>i \<in> set rest. i < length pl" using Cons.prems(2) by auto
  have lenix: "length (el_data (pl ! ix)) = u" "length (el_data (pl ! pi)) = u"
    using Cons.prems(3) bnd by simp_all
  have k: "k \<le> u" "k \<le> len - cur" "k \<le> length (drop cur dat)" using Cons.prems by (auto simp: k_def)
  have area: "el_copy_in (el_data (pl1 ! ix)) 0 (int k) (drop (nat (int cur)) dat) = Some area"
    using k lenix dist by (subst el_copy_in_ok) (auto simp: area_def pl1_def min_absorb1)
  have kint: "min_i32 (int u) (int len - int cur) = int k"
    using Cons.prems by (auto simp: min_i32_def k_def)
  have step: "store_loop (int u) dat (int len) pl (int cur) pi (ix # rest) =
      store_loop (int u) dat (int len) pl2 (int (cur + k)) ix rest"
    using bnd area kint by (simp add: pl1_def [symmetric] pl2_def Let_def)
  have larea: "length area = u" using k lenix by (simp add: area_def)
  have sizes2: "\<forall>e \<in> set pl2. length (el_data e) = u"
    using Cons.prems(3) larea lenix bnd unfolding pl2_def pl1_def
    by (auto dest!: subsetD [OF set_update_subset_insert])
  have fit: "len - (cur + k) \<le> u * length rest"
    using Cons.prems(7) by (cases "u \<le> len - cur") (auto simp: k_def)
  have ck: "cur + k \<le> len" using k(2) Cons.prems(5) by simp
  have d2: "distinct (ix # rest)" using dist by simp
  have b2: "set (ix # rest) \<subseteq> {..<length pl2}" using bnd by (auto simp: pl2_def pl1_def)
  obtain pl' g where IH:
      "store_loop (int u) dat (int len) pl2 (int (cur + k)) ix rest = Some pl'"
      "length pl' = length pl2" "\<forall>e \<in> set pl'. length (el_data e) = u"
      "\<forall>i. i \<notin> set (ix # rest) \<longrightarrow> pl' ! i = pl2 ! i"
      "pl' ! ix = (pl2 ! ix)\<lparr>next_idx := (case rest of [] \<Rightarrow> next_idx (pl2 ! ix) | j # _ \<Rightarrow> j)\<rparr>"
      "links pl' ix rest" "chain_bytes pl' rest = take (len - (cur + k)) (drop (cur + k) dat) @ g"
    using Cons.IH [OF _ _ sizes2 Cons.prems(4) ck Cons.prems(6) fit, of ix] d2 b2 by blast
  have ix2: "pl2 ! ix = \<lparr>previous = pi, next_idx = EB_END_IDX, el_data = area\<rparr>"
    using bnd by (simp add: pl2_def pl1_def)
  have "links pl' pi (ix # rest)"
    using IH(2,5,6) ix2 bnd by (auto simp: pl2_def pl1_def split: list.splits)
  moreover have "pl' ! pi = (pl ! pi)\<lparr>next_idx := ix\<rparr>"
    using IH(4) dist bnd by (simp add: pl2_def pl1_def)
  moreover have "\<forall>i. i \<notin> set (pi # ix # rest) \<longrightarrow> pl' ! i = pl ! i"
    using IH(4) by (auto simp: pl2_def pl1_def)
  moreover have "\<exists>g'. chain_bytes pl' (ix # rest) = take (len - cur) (drop cur dat) @ g'"
  proof (cases "u \<le> len - cur")
    case True
    then have "area = take u (drop cur dat)" using k lenix by (simp add: area_def k_def)
    moreover have "take u (drop cur dat) @ take (len - cur - u) (drop (cur + u) dat) =
        take (len - cur) (drop cur dat)"
      using True by (metis add.commute drop_drop le_add_diff_inverse take_add)
    ultimately have "chain_bytes pl' (ix # rest) = take (len - cur) (drop cur dat) @ g"
      using IH(5,7) ix2 True by (simp add: chain_bytes_def k_def flip: append_assoc)
    then show ?thesis by blast
  next
    case False
    then have "k = len - cur" by (simp add: k_def)
    then show ?thesis using IH(5,7) ix2 by (auto simp: chain_bytes_def area_def)
  qed
  ultimately show ?case using step IH(1,2,3) by (auto simp: pl2_def pl1_def)
qed

lemma eb_chain_cong:
  assumes "eb_chain b c" "length (pool b') = length (pool b)"
    "\<And>i. i \<in> set c \<Longrightarrow> pool b' ! i = pool b ! i" "usable b' = usable b"
  shows "eb_chain b' c" "chain_payload (pool b') c = chain_payload (pool b) c"
proof -
  have "hd c \<in> set c" using assms(1) by (simp add: eb_chain_def)
  then have len: "chain_len (pool b') c = chain_len (pool b) c" using assms(3) by (simp add: chain_len_def)
  then show "eb_chain b' c" using assms by (auto simp: eb_chain_def intro: links_cong)
  have "chain_bytes (pool b') c = chain_bytes (pool b) c"
    using assms(3) by (simp add: chain_bytes_def cong: map_cong)
  then show "chain_payload (pool b') c = chain_payload (pool b) c" using len by (simp add: chain_payload_def)
qed

lemma eb_wf_free_set:
  assumes "eb_wf b cs"
  shows "free_set b = {..<element_count b} - set (concat cs)"
    "int (card (free_set b)) = free_elements b"
proof -
  have nf: "\<not> element_is_free (pool b ! i)" if "i \<in> set c" "c \<in> set cs" for i c
  proof -
    have l: "links (pool b) EB_END_IDX c" and len: "length (pool b) = element_count b"
      "element_count b \<le> 65530"
      using assms that by (auto simp: eb_wf_def eb_chain_def eb_sizes_def eb_simps)
    from links_previous [OF l that(1)] links_bound [OF l, of EB_NULL_IDX] len show ?thesis
      by (auto simp: element_is_free_def eb_simps)
  qed
  have sub: "set (concat cs) \<subseteq> {..<element_count b}"
    using assms by (auto simp: eb_wf_def eb_chain_def eb_sizes_def dest!: links_bound bspec)
  show fs: "free_set b = {..<element_count b} - set (concat cs)"
    using assms nf by (auto simp: free_set_def eb_wf_def)
  have "card (set (concat cs)) = length (concat cs)"
    using assms unfolding eb_wf_def by (intro distinct_card) simp
  then have "card (free_set b) = element_count b - length (concat cs)"
    and "length (concat cs) \<le> element_count b"
    using card_Diff_subset [OF _ sub] card_mono [OF _ sub] by (simp_all only: fs card_lessThan finite_lessThan finite_set)
  then show "int (card (free_set b)) = free_elements b" using assms by (simp add: eb_wf_def)
qed

lemma store_full:
  assumes "eb_inv b" "length dat \<le> 65535" "free_elements b < int (need (usable b) (length dat))"
  shows "sky_element_buffer_store b dat = Some (SKY_RET_EBUFFER_NO_SPACE, b)"
  using assms by (auto simp: sky_element_buffer_store_def eb_inv_def eb_wf_def eb_sizes_def requirement_for)

text \<open>A successful store adds exactly one chain, built from free elements.\<close>

lemma store_wf:
  assumes wf: "eb_wf b cs" and len: "length dat \<le> 65535"
    and fits: "int (need (usable b) (length dat)) \<le> free_elements b"
    and small: "need (usable b) (length dat) \<le> INDEXES_SIZE"
  obtains b' c where "sky_element_buffer_store b dat = Some (int (hd c), b')"
    "eb_wf b' (c # cs)" "chain_payload (pool b') c = dat" "set c \<subseteq> free_set b"
    "usable b' = usable b" "element_count b' = element_count b"
    "free_elements b' = free_elements b - int (need (usable b) (length dat))"
    "\<And>i. i \<notin> set c \<Longrightarrow> pool b' ! i = pool b ! i" "length (pool b') = length (pool b)"
proof -
  let ?u = "usable b" let ?n = "need (usable b) (length dat)"
  have sz: "eb_sizes b" using wf by (simp add: eb_wf_def)
  have u: "element_usable_space b = int ?u" "2 \<le> ?u" "?u \<le> 65535" using sz by (auto simp: eb_sizes_def usable_def)
  have n1: "1 \<le> ?n" using need_pos [of ?u "length dat"] u by simp
  obtain ixs where ixs: "element_buffer_get_n_free b (int ?n) (last_write_index b) = Some (0, ixs)"
      "length ixs = ?n" "distinct ixs" "set ixs \<subseteq> free_set b"
    using get_n_free [OF sz n1 _ small] fits eb_wf_free_set(2) [OF wf] by auto
  then obtain i0 rest where c: "ixs = i0 # rest" using n1 by (cases ixs) auto
  have bnd: "set ixs \<subseteq> {..<length (pool b)}" using ixs(4) sz by (auto simp: free_set_def eb_sizes_def)
  then have i0: "i0 < length (pool b)" using c by simp
  have l0: "length (el_data (pool b ! i0)) = ?u" using sz i0 by (simp add: eb_sizes_def)
  define k where "k = min (length dat) (?u - 2)"
  define area where "area = mem16 (of_nat (length dat)) @ take k dat @ drop (2 + k) (el_data (pool b ! i0))"
  define pl0 where "pl0 = (pool b)[i0 := \<lparr>previous = EB_END_IDX, next_idx = EB_END_IDX, el_data = area\<rparr>]"
  have area0: "el_copy_in (el_data (pool b ! i0)) 0 EB_LEN_BYTES (mem16 (of_nat (length dat))) =
      Some (mem16 (of_nat (length dat)) @ drop 2 (el_data (pool b ! i0)))"
    using l0 u by (subst el_copy_in_ok) (auto simp: EB_LEN_BYTES_def numeral_2_eq_2)
  have area1: "el_copy_in (mem16 (of_nat (length dat)) @ drop 2 (el_data (pool b ! i0))) 2 (int k) dat = Some area"
    using l0 u by (subst el_copy_in_ok) (auto simp: area_def k_def min_def)
  have larea: "length area = ?u" using l0 u by (auto simp: area_def k_def)
  have kint: "min_i32 (int (length dat)) (int ?u - EB_LEN_BYTES) = int k"
    using u by (auto simp: min_i32_def EB_LEN_BYTES_def k_def)
  have sizes0: "\<forall>e \<in> set pl0. length (el_data e) = ?u"
    using sz larea unfolding pl0_def eb_sizes_def by (auto dest!: subsetD [OF set_update_subset_insert])
  have fit: "length dat - k \<le> ?u * length rest"
  proof -
    have "length dat + 2 \<le> ?u * Suc (length rest)" using need_bounds(1) [of ?u "length dat"] ixs(2) c u by simp
    then show ?thesis using u by (auto simp: k_def)
  qed
  obtain pl g where pl: "store_loop (int ?u) dat (int (length dat)) pl0 (int k) i0 rest = Some pl"
      "length pl = length pl0" "\<forall>e \<in> set pl. length (el_data e) = ?u"
      "\<forall>i. i \<notin> set (i0 # rest) \<longrightarrow> pl ! i = pl0 ! i"
      "pl ! i0 = (pl0 ! i0)\<lparr>next_idx := (case rest of [] \<Rightarrow> next_idx (pl0 ! i0) | j # _ \<Rightarrow> j)\<rparr>"
      "links pl i0 rest" "chain_bytes pl rest = take (length dat - k) (drop k dat) @ g"
    using store_loop_ok [of i0 rest pl0 ?u k "length dat" dat] ixs(3) c bnd sizes0 fit u
    by (auto simp: pl0_def k_def)
  define b' where "b' = b\<lparr>pool := pl, last_write_index := ixs ! (?n - 1),
      free_elements := free_elements b - int ?n\<rparr>"
  have store: "sky_element_buffer_store b dat = Some (int (hd ixs), b')"
    using len fits u(1,2) n1 ixs(1) c i0 area0 area1 kint pl(1)
    by (simp add: sky_element_buffer_store_def requirement_for Let_def element_i_def b'_def pl0_def [symmetric])
  have pl0i: "pl0 ! i0 = \<lparr>previous = EB_END_IDX, next_idx = EB_END_IDX, el_data = area\<rparr>"
    using i0 by (simp add: pl0_def)
  have lk: "links pl EB_END_IDX ixs"
    using pl(2,5,6) pl0i i0 c by (auto simp: pl0_def split: list.splits)
  have bytes: "chain_bytes pl ixs = area @ take (length dat - k) (drop k dat) @ g"
    using pl(5,7) pl0i c by (simp add: chain_bytes_def)
  have clen: "chain_len pl ixs = length dat"
    using pl(5) pl0i c len by (simp add: chain_len_def area_def mem16_def load16_mem unat_of_nat)
  have pay: "chain_payload pl ixs = dat"
  proof (cases "?u - 2 \<le> length dat")
    case True
    then have "area = mem16 (of_nat (length dat)) @ take k dat" using l0 u by (simp add: area_def k_def)
    then show ?thesis by (simp add: chain_payload_def clen bytes min_absorb2 k_def)
  next
    case False
    then have "k = length dat" by (simp add: k_def)
    then show ?thesis by (simp add: chain_payload_def clen bytes area_def)
  qed
  have frame: "pl ! i = pool b ! i" if "i \<notin> set ixs" for i
    using that pl(4) c by (auto simp: pl0_def)
  have fs: "free_set b = {..<element_count b} - set (concat cs)" by (rule eb_wf_free_set(1) [OF wf])
  have us: "usable b' = ?u" by (simp add: b'_def usable_def)
  have "eb_wf b' (ixs # cs)"
  proof -
    have "last_write_index b' < element_count b'" using bnd ixs(2) n1 sz
      by (auto simp: b'_def eb_sizes_def subset_eq)
    then have "eb_sizes b'" using sz pl(2,3) us by (auto simp: eb_sizes_def b'_def pl0_def)
    moreover have "eb_chain b' ixs" using lk clen ixs(2) us c by (simp add: eb_chain_def b'_def)
    moreover have "eb_chain b' c'" if "c' \<in> set cs" for c'
    proof (rule eb_chain_cong(1) [of b])
      show "eb_chain b c'" using that wf by (simp add: eb_wf_def)
      show "pool b' ! i = pool b ! i" if "i \<in> set c'" for i
        using frame [of i] that \<open>c' \<in> set cs\<close> fs ixs(4) by (auto simp: b'_def)
    qed (use pl(2) us in \<open>simp_all add: b'_def pl0_def usable_def\<close>)
    moreover have "distinct (concat (ixs # cs))" using wf ixs(3,4) fs by (auto simp: eb_wf_def)
    moreover have "element_is_free (pool b' ! i)" if "i < element_count b'" "i \<notin> set (concat (ixs # cs))" for i
      using that wf frame by (auto simp: eb_wf_def b'_def)
    ultimately show ?thesis using wf ixs(2) by (auto simp: eb_wf_def b'_def)
  qed
  then show ?thesis using that [of ixs b'] store pay ixs(4) us frame pl(2)
    by (simp add: b'_def pl0_def)
qed

section \<open>Reading and deleting\<close>

lemma eb_el_length: "\<lbrakk> eb_sizes b; i < element_count b \<rbrakk> \<Longrightarrow> length (el_data (pool b ! i)) = usable b"
  by (simp add: eb_sizes_def)

lemma el_length_field_nth:
  "2 \<le> length d \<Longrightarrow> el_length_field d = Some (int (unat (load16 (d ! 0) (d ! 1))))"
  by (cases d rule: list.exhaust [case_product list.exhaust])
     (auto simp: el_length_field_def split: list.splits)

text \<open>Whatever chain the element lies on, reading continues along the links of the chain.\<close>

lemma read_loop_ok:
  assumes sz: "eb_sizes b" and l: "links (pool b) pi c"
    and el: "next_idx el = (case c of [] \<Rightarrow> EB_END_IDX | j # _ \<Rightarrow> j)"
      "c = [] \<Longrightarrow> previous el = EB_END_IDX \<or> previous el < element_count b"
    and cur: "cur \<le> len" "len - cur \<le> usable b * length c" "pi < element_count b"
  shows "read_loop b (int len) (int cur) el acc (length c) =
     Some (Inr (acc @ take (len - cur) (chain_bytes (pool b) c)))"
  using l el cur
proof (induction c arbitrary: pi cur el acc)
  case Nil
  then show ?case by (auto simp: element_is_last_def chain_bytes_def)
next
  case (Cons i c)
  define k where "k = min (usable b) (len - cur)"
  have i: "i < element_count b" "element_i b i = Some (pool b ! i)"
    using Cons.prems(1) sz by (auto simp: element_i_def eb_sizes_def)
  have nf: "\<not> element_is_free (pool b ! i)" using Cons.prems(1,6) sz
    by (auto simp: element_is_free_def eb_simps eb_sizes_def)
  have li: "length (el_data (pool b ! i)) = usable b" using eb_el_length [OF sz i(1)] .
  have out: "el_copy_out (el_data (pool b ! i)) 0 (int k) = Some (take k (el_data (pool b ! i)))"
    using li by (simp add: el_copy_out_def k_def)
  have kint: "min_i32 (element_usable_space b) (int len - int cur) = int k"
    using Cons.prems(4) sz by (auto simp: min_i32_def k_def usable_def eb_sizes_def)
  have "read_loop b (int len) (int (cur + k)) (pool b ! i) (acc @ take k (el_data (pool b ! i))) (length c) =
     Some (Inr ((acc @ take k (el_data (pool b ! i))) @ take (len - (cur + k)) (chain_bytes (pool b) c)))"
  proof (rule Cons.IH)
    show "links (pool b) i c" "next_idx (pool b ! i) = (case c of [] \<Rightarrow> EB_END_IDX | j # _ \<Rightarrow> j)"
      using Cons.prems(1) by auto
    show "previous (pool b ! i) = EB_END_IDX \<or> previous (pool b ! i) < element_count b"
      using Cons.prems(1,6) by auto
    show "cur + k \<le> len" "len - (cur + k) \<le> usable b * length c" "i < element_count b"
      using Cons.prems(4,5) i by (auto simp: k_def min_def)
  qed
  moreover have "take k (el_data (pool b ! i)) @ take (len - (cur + k)) (chain_bytes (pool b) c) =
      take (len - cur) (chain_bytes (pool b) (i # c))"
    using li by (auto simp: chain_bytes_def k_def min_def)
  ultimately show ?case using i nf out kint Cons.prems(2) by (simp add: Let_def)
qed

lemma length_chain_bytes:
  "\<lbrakk> eb_sizes b; links (pool b) pv c \<rbrakk> \<Longrightarrow> length (chain_bytes (pool b) c) = usable b * length c"
proof (induction c arbitrary: pv)
  case (Cons i c)
  then show ?case using eb_el_length [of b i] by (auto simp: chain_bytes_def eb_sizes_def)
qed (simp add: chain_bytes_def)

lemma chain_first:
  assumes sz: "eb_sizes b" and c: "eb_chain b c"
  shows "element_i b (hd c) = Some (pool b ! hd c)" "element_is_first b (pool b ! hd c)"
    "hd c < element_count b"
    "el_length_field (el_data (pool b ! hd c)) = Some (int (chain_len (pool b) c))"
proof -
  obtain i d where id: "c = i # d" using c by (cases c) (auto simp: eb_chain_def)
  then have l: "links (pool b) EB_END_IDX (i # d)" using c by (simp add: eb_chain_def)
  then have i: "i < element_count b" using sz by (simp add: eb_sizes_def)
  then show "element_i b (hd c) = Some (pool b ! hd c)" "hd c < element_count b"
    using id sz by (simp_all add: element_i_def eb_sizes_def)
  show "element_is_first b (pool b ! hd c)"
    using l id sz by (cases d) (auto simp: element_is_first_def eb_sizes_def)
  show "el_length_field (el_data (pool b ! hd c)) = Some (int (chain_len (pool b) c))"
  proof -
    have "2 \<le> length (el_data (pool b ! i))"
      using eb_el_length [OF sz i] sz by (auto simp: usable_def eb_sizes_def)
    from el_length_field_nth [OF this] id show ?thesis by (simp add: chain_len_def)
  qed
qed

lemma length_chain_payload:
  assumes sz: "eb_sizes b" and c: "eb_chain b c"
  shows "length (chain_payload (pool b) c) = chain_len (pool b) c"
proof -
  have "length (chain_bytes (pool b) c) = usable b * need (usable b) (chain_len (pool b) c)"
    using c length_chain_bytes [OF sz, of EB_END_IDX c] by (simp add: eb_chain_def)
  moreover have "0 < usable b" using sz by (simp add: eb_sizes_def usable_def)
  ultimately show ?thesis using need_bounds(1) [of "usable b" "chain_len (pool b) c"]
    by (simp add: chain_payload_def)
qed

lemma chain_len_bound: "chain_len p c \<le> 65535"
  using unat_u16_less by (simp add: chain_len_def less_Suc_eq_le [symmetric])

lemma read_chain:
  assumes sz: "eb_sizes b" and c: "eb_chain b c"
  shows "sky_element_buffer_read b (hd c) m =
    (if m < chain_len (pool b) c then Some (Inl SKY_RET_EBUFFER_TOO_LONG_PAYLOAD)
     else Some (Inr (chain_payload (pool b) c)))"
proof -
  let ?u = "usable b" let ?p = "pool b" let ?n = "chain_len (pool b) c"
  obtain i d where id: "c = i # d" using c by (cases c) (auto simp: eb_chain_def)
  then have l: "links ?p EB_END_IDX (i # d)" and ld: "Suc (length d) = need ?u ?n"
    using c by (simp_all add: eb_chain_def)
  have u: "element_usable_space b = int ?u" "2 \<le> ?u" using sz by (auto simp: usable_def eb_sizes_def)
  have li: "length (el_data (?p ! i)) = ?u"
    using eb_el_length [OF sz] chain_first(3) [OF sz c] id by simp
  define k where "k = min (?u - 2) ?n"
  have kint: "min_i32 (int ?u - EB_LEN_BYTES) (int ?n) = int k"
    using u by (auto simp: min_i32_def EB_LEN_BYTES_def k_def)
  have out: "el_copy_out (el_data (?p ! i)) 2 (int k) = Some (take k (drop 2 (el_data (?p ! i))))"
    using li u by (auto simp: el_copy_out_def k_def)
  have fit: "?n - k \<le> ?u * length d"
  proof -
    have "?n + 2 \<le> ?u * Suc (length d)" using need_bounds(1) [of ?u ?n] ld u by simp
    then show ?thesis using u by (auto simp: k_def)
  qed
  have rl: "read_loop b (int ?n) (int k) (?p ! i) (take k (drop 2 (el_data (?p ! i)))) (length d) =
      Some (Inr (take k (drop 2 (el_data (?p ! i))) @ take (?n - k) (chain_bytes ?p d)))"
  proof (rule read_loop_ok [OF sz, of i])
    show "i < element_count b" using chain_first(3) [OF sz c] id by simp
  qed (use l fit in \<open>auto simp: k_def\<close>)
  have "take k (drop 2 (el_data (?p ! i))) @ take (?n - k) (chain_bytes ?p d) = chain_payload ?p c"
    using li u id by (auto simp: chain_payload_def chain_bytes_def k_def min_def)
  moreover have "nat (int (need ?u ?n) - 1) = length d" by (simp flip: ld)
  ultimately show ?thesis using chain_first [OF sz c] id kint out rl u requirement_for [of b ?n]
    by (simp add: sky_element_buffer_read_def Let_def)
qed

lemma get_data_length_chain:
  "\<lbrakk> eb_sizes b; eb_chain b c \<rbrakk> \<Longrightarrow>
   sky_element_buffer_get_data_length b (hd c) = Some (int (length (chain_payload (pool b) c)))"
  using chain_first [of b c] length_chain_payload [of b c]
  by (simp add: sky_element_buffer_get_data_length_def)

lemma delete_loop_ok:
  assumes "links (pool b) pv c" "c \<noteq> []" "distinct c" "length (pool b) = element_count b"
    "pv = EB_END_IDX \<or> pv < element_count b" "element_count b \<le> EB_MAX_ELEMENT_COUNT"
  shows "\<exists>b'. delete_loop b (hd c) = Some b' \<and>
     b' = b\<lparr>pool := pool b', free_elements := free_elements b + int (length c)\<rparr> \<and>
     length (pool b') = length (pool b) \<and>
     (\<forall>i < length (pool b). pool b' ! i = (if i \<in> set c then wipe_element (pool b ! i) else pool b ! i))"
  using assms
proof (induction c arbitrary: b pv)
  case Nil
  then show ?case by simp
next
  case (Cons i c)
  define b1 where "b1 = b\<lparr>pool := (pool b)[i := wipe_element (pool b ! i)],
      free_elements := free_elements b + 1\<rparr>"
  have i: "i < length (pool b)" "element_i b i = Some (pool b ! i)" "i \<notin> set c"
    using Cons.prems(1,3) by (auto simp: element_i_def)
  show ?case
  proof (cases c)
    case Nil
    then have "element_is_last b (pool b ! i)" using Cons.prems(1,5) by (auto simp: element_is_last_def)
    then have "delete_loop b i = Some b1"
      using i by (subst delete_loop.simps) (simp add: b1_def Let_def)
    then show ?thesis using Nil i by (simp add: b1_def nth_list_update)
  next
    case (Cons j d)
    have nl: "\<not> element_is_last b (pool b ! i)" "next_idx (pool b ! i) = j" "j < element_count b"
      using Cons.prems(1,4,6) Cons by (auto simp: element_is_last_def eb_simps)
    have step: "delete_loop b i = delete_loop b1 j"
      using i nl by (subst delete_loop.simps) (simp add: b1_def Let_def)
    have "links (pool b1) i c"
    proof (rule links_cong [of "pool b"])
      show "links (pool b) i c" using Cons.prems(1) by simp
    qed (use i in \<open>auto simp: b1_def nth_list_update\<close>)
    moreover have "i = EB_END_IDX \<or> i < element_count b1" using Cons.prems(4) i by (simp add: b1_def)
    ultimately have l1: "links (pool b1) i c" "i = EB_END_IDX \<or> i < element_count b1" .
    obtain b' where b': "delete_loop b1 (hd c) = Some b'"
        "b' = b1\<lparr>pool := pool b', free_elements := free_elements b1 + int (length c)\<rparr>"
        "length (pool b') = length (pool b1)"
        "\<forall>i < length (pool b1). pool b' ! i = (if i \<in> set c then wipe_element (pool b1 ! i) else pool b1 ! i)"
      using Cons.IH [OF l1(1) _ _ _ l1(2)] Cons Cons.prems(3,4,6) by (auto simp: b1_def)
    have "pool b' ! k = (if k \<in> set (i # c) then wipe_element (pool b ! k) else pool b ! k)"
      if "k < length (pool b)" for k
      using b'(4) that i by (auto simp: b1_def nth_list_update)
    moreover have "b' = b\<lparr>pool := pool b', free_elements := free_elements b + int (length (i # c))\<rparr>"
      using b'(2) by (simp add: b1_def add.assoc)
    ultimately show ?thesis using step b'(1,3) Cons by (auto simp: b1_def)
  qed
qed

lemma wipe_is_free: "element_is_free (wipe_element e)"
  by (simp add: wipe_element_def element_is_free_def)

lemma delete_wf:
  assumes wf: "eb_wf b (ds @ c # es)"
  obtains b' where "sky_element_buffer_delete b (hd c) = Some (0, b')" "eb_wf b' (ds @ es)"
    "\<And>d. d \<in> set (ds @ es) \<Longrightarrow> chain_payload (pool b') d = chain_payload (pool b) d"
    "free_elements b' = free_elements b + int (length c)" "usable b' = usable b"
    "element_count b' = element_count b"
proof -
  have sz: "eb_sizes b" and c: "eb_chain b c" using wf by (simp_all add: eb_wf_def)
  have l: "links (pool b) EB_END_IDX c" "c \<noteq> []" and dc: "distinct c"
    and len: "length (pool b) = element_count b" "element_count b \<le> EB_MAX_ELEMENT_COUNT"
    using wf c sz by (auto simp: eb_wf_def eb_chain_def eb_sizes_def)
  obtain b' where b': "delete_loop b (hd c) = Some b'"
      "b' = b\<lparr>pool := pool b', free_elements := free_elements b + int (length c)\<rparr>"
      "length (pool b') = length (pool b)"
      "\<forall>i < length (pool b). pool b' ! i = (if i \<in> set c then wipe_element (pool b ! i) else pool b ! i)"
    using delete_loop_ok [OF l dc len(1) _ len(2)] by auto
  have fields: "usable b' = usable b" "element_count b' = element_count b"
      "element_usable_space b' = element_usable_space b" "last_write_index b' = last_write_index b"
      "free_elements b' = free_elements b + int (length c)"
    by (subst b'(2), simp add: usable_def)+
  have del: "sky_element_buffer_delete b (hd c) = Some (0, b')"
    using chain_first [OF sz c] b'(1) by (simp add: sky_element_buffer_delete_def)
  have other: "pool b' ! i = pool b ! i" if "d \<in> set (ds @ es)" "i \<in> set d" for d i
  proof -
    have "i < length (pool b)" using wf that by (auto simp: eb_wf_def eb_chain_def dest: links_bound)
    moreover have "i \<notin> set c" using wf that by (auto simp: eb_wf_def)
    ultimately show ?thesis using b'(4) by simp
  qed
  have ch: "eb_chain b d" if "d \<in> set (ds @ es)" for d using wf that by (auto simp: eb_wf_def)
  have cong: "eb_chain b' d" "chain_payload (pool b') d = chain_payload (pool b) d"
    if "d \<in> set (ds @ es)" for d
    using eb_chain_cong [OF ch [OF that] b'(3)] other [OF that] fields(1) by auto
  have wl: "length (el_data (wipe_element e)) = length (el_data e)" for e by (simp add: wipe_element_def)
  have "length (el_data e) = usable b'" if e: "e \<in> set (pool b')" for e
  proof -
    obtain k where k: "k < length (pool b)" "e = pool b' ! k" 
      using e b'(3) by (metis in_set_conv_nth)
    then have "length (el_data e) = length (el_data (pool b ! k))" using b'(4) wl by simp
    then show ?thesis using eb_el_length [OF sz] k(1) len(1) fields(1) by simp
  qed
  then have "eb_sizes b'" using sz b'(3) fields unfolding eb_sizes_def by auto
  moreover have "element_is_free (pool b' ! i)" if "i < element_count b'" "i \<notin> set (concat (ds @ es))" for i
    using that wf b'(4) fields len by (auto simp: eb_wf_def wipe_is_free)
  ultimately have "eb_wf b' (ds @ es)"
    using wf cong(1) fields by (auto simp: eb_wf_def)
  then show ?thesis using that del cong(2) fields by blast
qed

lemma read_not_head:
  assumes wf: "eb_wf b cs" and i: "i < element_count b" "i \<notin> hd ` set cs"
  shows "sky_element_buffer_read b i m = Some (Inl SKY_RET_EBUFFER_INVALID_INDEX)"
    "sky_element_buffer_delete b i = Some (SKY_RET_EBUFFER_INVALID_INDEX, b)"
proof -
  have sz: "eb_sizes b" using wf by (simp add: eb_wf_def)
  have "\<not> element_is_first b (pool b ! i)"
  proof (cases "i \<in> set (concat cs)")
    case True
    then obtain c where c: "c \<in> set cs" "i \<in> set c" by auto
    have "i \<noteq> hd c" using i(2) c(1) by auto
    then obtain h d where hd: "c = h # d" "i \<in> set d" using c(2) by (cases c) auto
    then have l: "links (pool b) h d" "h < element_count b"
      using wf c sz by (auto simp: eb_wf_def eb_chain_def eb_sizes_def)
    from links_previous [OF l(1) hd(2)] have "previous (pool b ! i) < element_count b"
      using l(2) links_bound [OF l(1)] sz by (auto simp: eb_sizes_def)
    then show ?thesis using sz by (auto simp: element_is_first_def eb_sizes_def eb_simps)
  next
    case False
    then show ?thesis using wf i(1)
      by (auto simp: eb_wf_def element_is_free_def element_is_first_def eb_simps)
  qed
  moreover have "element_i b i = Some (pool b ! i)" using sz i(1) by (simp add: element_i_def eb_sizes_def)
  ultimately show "sky_element_buffer_read b i m = Some (Inl SKY_RET_EBUFFER_INVALID_INDEX)"
    "sky_element_buffer_delete b i = Some (SKY_RET_EBUFFER_INVALID_INDEX, b)"
    by (simp_all add: sky_element_buffer_read_def sky_element_buffer_delete_def)
qed

section \<open>Creating and wiping\<close>

lemma wipe_wf:
  assumes "2 \<le> element_usable_space b" "element_usable_space b \<le> 65535"
    "0 < element_count b" "element_count b \<le> EB_MAX_ELEMENT_COUNT" "length (pool b) = element_count b"
    "\<forall>e \<in> set (pool b). length (el_data e) = usable b"
  shows "eb_wf (sky_element_buffer_wipe b) []"
  using assms
  by (auto simp: eb_wf_def eb_sizes_def sky_element_buffer_wipe_def usable_def wipe_is_free)
     (simp_all add: wipe_element_def)

lemma create_wf:
  assumes "2 \<le> u" "u \<le> 65535" "0 < n" "n \<le> int EB_MAX_ELEMENT_COUNT"
  obtains b where "sky_element_buffer_create uninit u n = Some b" "eb_wf b []"
    "usable b = nat u" "element_count b = nat n" "free_elements b = n"
proof -
  define mem where "mem = map (\<lambda>i. \<lparr>previous = 0, next_idx = 0,
      el_data = map (\<lambda>k. uninit (i * nat u + k)) [0..<nat u]\<rparr>) [0..<nat n]"
  define b0 where "b0 = \<lparr>pool = mem, last_write_index = 0, free_elements = n,
      element_count = nat n, element_size = u + 4, element_usable_space = u\<rparr>"
  have "sky_element_buffer_create uninit u n = Some (sky_element_buffer_wipe b0)"
    using assms by (simp add: sky_element_buffer_create_def b0_def mem_def Let_def)
  moreover have "eb_wf (sky_element_buffer_wipe b0) []"
    by (rule wipe_wf) (use assms in \<open>auto simp: b0_def mem_def usable_def\<close>)
  ultimately show ?thesis
    using that assms by (simp add: sky_element_buffer_wipe_def b0_def usable_def)
qed

section \<open>The self-check accepts every well-formed buffer\<close>

lemma links_nth:
  assumes "links p pv c" "k < length c"
  shows "c ! k < length p" "previous (p ! (c ! k)) = (if k = 0 then pv else c ! (k - 1))"
    "next_idx (p ! (c ! k)) = (if Suc k = length c then EB_END_IDX else c ! Suc k)"
  using assms links_append [of p pv c "[]"] by (auto split: if_splits)

lemma chain_element:
  assumes sz: "eb_sizes b" and c: "links (pool b) EB_END_IDX c" and k: "k < length c"
  shows "element_i b (c ! k) = Some (pool b ! (c ! k))"
    "element_is_in_chain b (pool b ! (c ! k))"
    "element_is_first b (pool b ! (c ! k)) \<longleftrightarrow> k = 0"
    "element_is_last b (pool b ! (c ! k)) \<longleftrightarrow> Suc k = length c"
proof -
  have N: "length (pool b) = element_count b" "element_count b \<le> 65530"
    using sz by (auto simp: eb_sizes_def eb_simps)
  have pv: "k \<noteq> 0 \<Longrightarrow> c ! (k - 1) < element_count b" using links_nth(1) [OF c, of "k - 1"] k N by simp
  have nx: "Suc k \<noteq> length c \<Longrightarrow> c ! Suc k < element_count b" using links_nth(1) [OF c, of "Suc k"] k N by simp
  note l = links_nth [OF c k]
  show "element_i b (c ! k) = Some (pool b ! (c ! k))" using l by (simp add: element_i_def)
  show "element_is_in_chain b (pool b ! (c ! k))"
    using l pv nx by (auto simp: element_is_in_chain_def)
  show "element_is_first b (pool b ! (c ! k)) \<longleftrightarrow> k = 0"
    using l pv nx N by (auto simp: element_is_first_def eb_simps split: if_splits)
  show "element_is_last b (pool b ! (c ! k)) \<longleftrightarrow> Suc k = length c"
    using l pv nx N by (auto simp: element_is_last_def eb_simps split: if_splits)
qed

lemma backwards_ok:
  assumes sz: "eb_sizes b" and c: "links (pool b) EB_END_IDX c" and k: "k < length c"
  shows "chain_is_ok_backwards b (c ! k) (pool b ! (c ! k)) = Some True"
  using k
proof (induction k)
  case 0
  then show ?case using chain_element [OF sz c 0]
    by (subst chain_is_ok_backwards.simps) simp
next
  case (Suc k)
  then show ?case using chain_element [OF sz c Suc.prems] chain_element(1) [OF sz c, of k]
      links_nth [OF c Suc.prems] links_nth(3) [OF c, of k]
    by (subst chain_is_ok_backwards.simps) simp
qed

lemma forward_ok:
  assumes sz: "eb_sizes b" and c: "links (pool b) EB_END_IDX c" and k: "k < length c"
  shows "chain_is_ok_forward b (c ! k) (pool b ! (c ! k)) = Some True"
  using k
proof (induction "length c - k" arbitrary: k)
  case 0
  then show ?case by simp
next
  case (Suc m)
  show ?case
  proof (cases "Suc k = length c")
    case True
    then show ?thesis using chain_element [OF sz c Suc.prems]
      by (subst chain_is_ok_forward.simps) simp
  next
    case False
    then have k': "Suc k < length c" using Suc.prems by simp
    then show ?thesis using chain_element [OF sz c Suc.prems] chain_element(1) [OF sz c k']
        links_nth [OF c Suc.prems] links_nth(2) [OF c k'] Suc.hyps(1) [of "Suc k"] Suc.hyps(2) False
      by (subst chain_is_ok_forward.simps) simp
  qed
qed

lemma buffer_ok_loop_count:
  assumes "\<forall>i \<in> set is. i < length (pool b) \<and>
    (element_is_free (pool b ! i) \<or> sky_element_buffer_valid_chain b i = Some True)"
  shows "buffer_ok_loop b n is =
    Some (n + int (length (filter (\<lambda>i. element_is_free (pool b ! i)) is)) = free_elements b)"
  using assms by (induction "is" arbitrary: n) (auto simp: element_i_def add_ac)

lemma entire_buffer_ok:
  assumes "eb_inv b"
  shows "sky_element_buffer_entire_buffer_is_ok b = Some True"
proof -
  obtain cs where wf: "eb_wf b cs" using assms by (auto simp: eb_inv_def)
  then have sz: "eb_sizes b" by (simp add: eb_wf_def)
  have "element_is_free (pool b ! i) \<or> sky_element_buffer_valid_chain b i = Some True"
    if "i < element_count b" for i
  proof (cases "i \<in> set (concat cs)")
    case True
    then obtain c k where c: "c \<in> set cs" "k < length c" "i = c ! k" by (auto simp: in_set_conv_nth)
    then have l: "links (pool b) EB_END_IDX c" using wf by (auto simp: eb_wf_def eb_chain_def)
    then show ?thesis
      using c chain_element [OF sz l c(2)] backwards_ok [OF sz l c(2)] forward_ok [OF sz l c(2)]
      by (simp add: sky_element_buffer_valid_chain_def)
  next
    case False
    then show ?thesis using wf that by (simp add: eb_wf_def)
  qed
  then have "sky_element_buffer_entire_buffer_is_ok b =
      Some (int (card (free_set b)) = free_elements b)"
    using buffer_ok_loop_count [of "[0..<element_count b]" b 0] sz
    by (simp add: sky_element_buffer_entire_buffer_is_ok_def eb_sizes_def length_filter_conv_sum free_set_def)
  then show ?thesis using eb_wf_free_set(2) [OF wf] by simp
qed

section \<open>Interface\<close>

lemma read_out_of_pool:
  "eb_sizes b \<Longrightarrow> \<not> i < element_count b \<Longrightarrow> sky_element_buffer_read b i m = None"
  by (simp add: sky_element_buffer_read_def element_i_def eb_sizes_def nth_opt_def)

lemma eb_get_head:
  assumes "eb_wf b cs" "c \<in> set cs"
  shows "eb_get b (hd c) = Some (chain_payload (pool b) c)"
  using assms read_chain [of b c 65535] chain_len_bound [of "pool b" c]
  by (simp add: eb_get_def eb_wf_def)

lemma eb_get_other:
  assumes wf: "eb_wf b cs" and i: "i \<notin> hd ` set cs"
  shows "eb_get b i = None"
proof (cases "i < element_count b")
  case True
  then show ?thesis using read_not_head(1) [OF wf True i] by (simp add: eb_get_def)
next
  case False
  then show ?thesis using read_out_of_pool [of b i] wf by (simp add: eb_get_def eb_wf_def)
qed

lemma dom_eb_get: "eb_wf b cs \<Longrightarrow> dom (eb_get b) = hd ` set cs"
  using eb_get_head eb_get_other by (fastforce simp: dom_def)

lemma eb_get_chain:
  assumes wf: "eb_wf b cs" and g: "eb_get b i = Some d"
  obtains c where "c \<in> set cs" "i = hd c" "d = chain_payload (pool b) c"
  using assms eb_get_other [OF wf, of i] eb_get_head [OF wf] by fastforce

lemma hd_inj_chains: "eb_wf b cs \<Longrightarrow> inj_on hd (set cs)"
proof (rule inj_onI)
  fix c d assume wf: "eb_wf b cs" and cd: "c \<in> set cs" "d \<in> set cs" "hd c = hd d"
  have "c \<noteq> []" "d \<noteq> []" using wf cd by (auto simp: eb_wf_def eb_chain_def)
  then have "hd c \<in> set c \<inter> set d" using cd(3) by (metis IntI hd_in_set)
  then show "c = d" using wf cd(1,2) by (auto simp: eb_wf_def distinct_concat_iff)
qed

lemma distinct_chains:
  assumes "eb_wf b cs"
  shows "distinct cs"
proof -
  have "[] \<notin> set cs" "distinct (concat cs)" using assms by (auto simp: eb_wf_def eb_chain_def)
  then show ?thesis by (simp add: distinct_concat_iff removeAll_id)
qed

lemma eb_inv_get:
  assumes "eb_inv b" "eb_get b i = Some d"
  obtains c where "eb_sizes b" "eb_chain b c" "i = hd c" "d = chain_payload (pool b) c"
proof -
  obtain cs where wf: "eb_wf b cs" using assms(1) by (auto simp: eb_inv_def)
  obtain c where "c \<in> set cs" "i = hd c" "d = chain_payload (pool b) c"
    using eb_get_chain [OF wf assms(2)] by blast
  then show ?thesis using that wf by (auto simp: eb_wf_def)
qed

lemma eb_accounting:
  assumes wf: "eb_wf b cs"
  shows "free_elements b = int (element_count b) -
    (\<Sum>i \<in> dom (eb_get b). int (need (usable b) (length (the (eb_get b i)))))"
proof -
  have "(\<Sum>i \<in> dom (eb_get b). int (need (usable b) (length (the (eb_get b i))))) =
      (\<Sum>c \<in> set cs. int (need (usable b) (length (the (eb_get b (hd c))))))"
    using hd_inj_chains [OF wf] by (simp add: dom_eb_get [OF wf] sum.reindex)
  also have "\<dots> = (\<Sum>c \<in> set cs. int (length c))"
  proof (rule sum.cong [OF refl])
    fix c assume c: "c \<in> set cs"
    then have "eb_sizes b" "eb_chain b c" using wf by (auto simp: eb_wf_def)
    then show "int (need (usable b) (length (the (eb_get b (hd c))))) = int (length c)"
      using eb_get_head [OF wf c] length_chain_payload [of b c] by (simp add: eb_chain_def)
  qed
  also have "\<dots> = (\<Sum>c \<leftarrow> cs. int (length c))"
    using distinct_chains [OF wf] by (simp add: sum_list_distinct_conv_sum_set)
  also have "\<dots> = int (length (concat cs))" by (induction cs) simp_all
  finally show ?thesis using wf by (simp add: eb_wf_def)
qed

lemma eb_get_eqI:
  assumes wf: "eb_wf b cs" and wf': "eb_wf b' cs'"
    and doms: "hd ` set cs' = insert i (hd ` set cs) \<or> hd ` set cs' = hd ` set cs - {i}"
    and same: "\<And>c. c \<in> set cs \<Longrightarrow> hd c \<noteq> i \<Longrightarrow> c \<in> set cs' \<and>
      chain_payload (pool b') c = chain_payload (pool b) c"
  shows "eb_get b' = (eb_get b)(i := eb_get b' i)"
proof (rule ext)
  fix j
  show "eb_get b' j = ((eb_get b)(i := eb_get b' i)) j"
  proof (cases "j \<noteq> i \<and> j \<in> hd ` set cs")
    case True
    then obtain c where c: "c \<in> set cs" "j = hd c" by auto
    then show ?thesis
      using True same [of c] eb_get_head [OF wf c(1)] eb_get_head [OF wf', of c] by auto
  next
    case False
    then show ?thesis using doms eb_get_other [OF wf, of j] eb_get_other [OF wf', of j] by auto
  qed
qed

lemma eb_store_get:
  assumes inv: "eb_inv b" and len: "length d \<le> 65535" "need (usable b) (length d) \<le> MAX_CHAIN"
    and room: "int (need (usable b) (length d)) \<le> free_elements b"
  shows "\<exists>i b'. sky_element_buffer_store b d = Some (int i, b') \<and> eb_inv b' \<and> eb_get b i = None \<and>
     eb_get b' = (eb_get b)(i \<mapsto> d) \<and> usable b' = usable b \<and> element_count b' = element_count b"
proof -
  obtain cs where wf: "eb_wf b cs" using inv by (auto simp: eb_inv_def)
  obtain b' c where s: "sky_element_buffer_store b d = Some (int (hd c), b')" "eb_wf b' (c # cs)"
      "chain_payload (pool b') c = d" "set c \<subseteq> free_set b" "usable b' = usable b"
      "element_count b' = element_count b" "\<And>i. i \<notin> set c \<Longrightarrow> pool b' ! i = pool b ! i"
      "length (pool b') = length (pool b)"
    using store_wf [OF wf len(1) room] len(2) by (metis INDEXES_SIZE_def MAX_CHAIN_def)
  have "hd c \<in> free_set b" using s(2,4) by (auto simp: eb_wf_def eb_chain_def)
  then have none: "eb_get b (hd c) = None"
    using eb_wf_free_set(1) [OF wf] by (intro eb_get_other [OF wf])
      (use wf in \<open>force simp: eb_wf_def eb_chain_def\<close>)
  have pay: "chain_payload (pool b') e = chain_payload (pool b) e" if "e \<in> set cs" for e
  proof (rule eb_chain_cong(2) [of b])
    show "eb_chain b e" using wf that by (simp add: eb_wf_def)
    show "pool b' ! i = pool b ! i" if "i \<in> set e" for i
      using s(7) [of i] s(2) that \<open>e \<in> set cs\<close> by (auto simp: eb_wf_def)
  qed (use s in simp_all)
  have "eb_get b' = (eb_get b)(hd c := eb_get b' (hd c))"
    by (rule eb_get_eqI [OF wf s(2)]) (use pay in auto)
  moreover have "eb_get b' (hd c) = Some d" using eb_get_head [OF s(2), of c] s(3) by simp
  ultimately show ?thesis using s(1,2,5,6) none by (auto simp: eb_inv_def)
qed

lemma eb_delete_get:
  assumes inv: "eb_inv b" and g: "eb_get b i = Some d"
  shows "\<exists>b'. sky_element_buffer_delete b i = Some (0, b') \<and> eb_inv b' \<and>
     eb_get b' = (eb_get b)(i := None) \<and> usable b' = usable b \<and> element_count b' = element_count b"
proof -
  obtain cs where wf: "eb_wf b cs" using inv by (auto simp: eb_inv_def)
  obtain c where c: "c \<in> set cs" "i = hd c" using eb_get_chain [OF wf g] by blast
  obtain ds es where cs: "cs = ds @ c # es" using split_list [OF c(1)] by blast
  obtain b' where b': "sky_element_buffer_delete b (hd c) = Some (0, b')" "eb_wf b' (ds @ es)"
      "\<And>e. e \<in> set (ds @ es) \<Longrightarrow> chain_payload (pool b') e = chain_payload (pool b) e"
      "usable b' = usable b" "element_count b' = element_count b"
    using delete_wf wf cs by metis
  have img: "hd ` set (ds @ es) = hd ` set cs - {hd c}"
  proof -
    have "hd c \<notin> hd ` set (ds @ es)"
      using hd_inj_chains [OF wf] distinct_chains [OF wf] cs by (auto simp: inj_on_def)
    then show ?thesis using cs by auto
  qed
  have "eb_get b' = (eb_get b)(hd c := eb_get b' (hd c))"
    by (rule eb_get_eqI [OF wf b'(2)]) (use img b'(3) cs in auto)
  moreover have "eb_get b' (hd c) = None" using eb_get_other [OF b'(2)] img by simp
  ultimately show ?thesis using b'(1,2,4,5) c(2) by (auto simp: eb_inv_def)
qed

text \<open>The number of elements a payload of a given length occupies.\<close>

definition eb_cost :: "SkyElementBuffer \<Rightarrow> nat \<Rightarrow> nat" where
  "eb_cost b = need (usable b)"

interpretation eb: payload_store eb_inv eb_get eb_cost element_count free_elements
  sky_element_buffer_store sky_element_buffer_read sky_element_buffer_delete
  sky_element_buffer_get_data_length
proof (unfold_locales, goal_cases)
  case (1 b)
  then show ?case by (auto simp: eb_inv_def dom_eb_get)
next
  case (2 b)
  then show ?case using eb_accounting by (auto simp: eb_inv_def eb_cost_def)
next
  case (3 b i d)
  from eb_inv_get [OF this] obtain c where "eb_sizes b" "eb_chain b c" "i = hd c" by blast
  then show ?case using chain_first(3) [of b c] by (auto simp: eb_sizes_def eb_simps)
next
  case (4 b d)
  from eb_store_get [OF this [unfolded eb_cost_def]] show ?case unfolding eb_cost_def by metis
next
  case (5 b d)
  then show ?case unfolding eb_cost_def by (rule store_full)
next
  case (6 b i d m)
  from eb_inv_get [OF this] obtain c where
    "eb_sizes b" "eb_chain b c" "i = hd c" "d = chain_payload (pool b) c" by blast
  then show ?case using read_chain [of b c m] length_chain_payload [of b c] by simp
next
  case (7 b i d)
  from eb_inv_get [OF this] obtain c where
    "eb_sizes b" "eb_chain b c" "i = hd c" "d = chain_payload (pool b) c" by blast
  then show ?case using get_data_length_chain [of b c] by simp
next
  case (8 b i d)
  from eb_delete_get [OF this] show ?case unfolding eb_cost_def by metis
qed

section \<open>Properties\<close>

text \<open>
  The states a client can bring a buffer into: any sequence of stores (of payloads that fit the
  array of acquired indexes), deletes and wipes after the creation.
\<close>

inductive eb_reach :: "SkyElementBuffer \<Rightarrow> bool" where
  created: "\<lbrakk> 2 \<le> u; u \<le> 65535; 0 < n; n \<le> int EB_MAX_ELEMENT_COUNT;
      sky_element_buffer_create uninit u n = Some b \<rbrakk> \<Longrightarrow> eb_reach b"
| stored: "\<lbrakk> eb_reach b; length d \<le> 65535; eb_cost b (length d) \<le> MAX_CHAIN;
      sky_element_buffer_store b d = Some (i, b') \<rbrakk> \<Longrightarrow> eb_reach b'"
| deleted: "\<lbrakk> eb_reach b; sky_element_buffer_delete b i = Some (r, b') \<rbrakk> \<Longrightarrow> eb_reach b'"
| wiped: "eb_reach b \<Longrightarrow> eb_reach (sky_element_buffer_wipe b)"

lemma delete_any:
  assumes inv: "eb_inv b" and d: "sky_element_buffer_delete b i = Some (r, b')"
  shows "eb_inv b'"
proof (cases "eb_get b i")
  case None
  obtain cs where wf: "eb_wf b cs" using inv by (auto simp: eb_inv_def)
  have "i < element_count b"
    using d wf by (auto simp: sky_element_buffer_delete_def element_i_def nth_opt_def eb_wf_def eb_sizes_def
        split: if_splits)
  moreover have "i \<notin> hd ` set cs" using None eb_get_head [OF wf] by force
  ultimately show ?thesis using read_not_head(2) [OF wf] d inv by simp
next
  case (Some e)
  then show ?thesis using eb.delete_ok [OF inv Some] d by auto
qed

lemma eb_reach_inv: "eb_reach b \<Longrightarrow> eb_inv b"
proof (induction rule: eb_reach.induct)
  case (created u n uninit b)
  then show ?case using create_wf [of u n uninit] by (metis eb_inv_def option.inject)
next
  case (stored b d i b')
  then show ?case by (cases rule: eb.store_any [OF stored.IH stored.hyps(2,3)]) auto
next
  case (deleted b i r b')
  then show ?case using delete_any by blast
next
  case (wiped b)
  then have "eb_sizes b" by (auto simp: eb_inv_def eb_wf_def)
  then show ?case using wipe_wf [of b] by (auto simp: eb_inv_def eb_sizes_def)
qed

text \<open>
  C20: storing and reading back. When the payload needs no more elements than are free, the store
  succeeds; reading the returned index gives exactly the stored bytes, and every payload stored
  before is still read back unchanged, under an index different from the new one.
\<close>

theorem store_read_roundtrip:
  assumes "eb_inv b" "length d \<le> 65535" "eb_cost b (length d) \<le> MAX_CHAIN"
    "int (eb_cost b (length d)) \<le> free_elements b"
  shows "\<exists>i b'. sky_element_buffer_store b d = Some (int i, b') \<and> eb_inv b' \<and>
    free_elements b' = free_elements b - int (eb_cost b (length d)) \<and>
    (\<forall>m. length d \<le> m \<longrightarrow> sky_element_buffer_read b' i m = Some (Inr d)) \<and>
    (\<forall>j e. sky_element_buffer_read b j 65535 = Some (Inr e) \<longrightarrow>
       j \<noteq> i \<and> sky_element_buffer_read b' j 65535 = Some (Inr e))"
proof -
  from eb.store_ok [OF assms] obtain i b' where s: "sky_element_buffer_store b d = Some (int i, b')"
    "eb_inv b'" "eb_get b i = None" "eb_get b' = (eb_get b)(i \<mapsto> d)" "eb_cost b' = eb_cost b"
    "element_count b' = element_count b" by blast
  have "sky_element_buffer_read b' i m = Some (Inr d)" if "length d \<le> m" for m
    using eb.read_ok [OF s(2), of i d m] s(4) that by simp
  moreover have "j \<noteq> i \<and> sky_element_buffer_read b' j 65535 = Some (Inr e)"
    if "sky_element_buffer_read b j 65535 = Some (Inr e)" for j e
  proof -
    have g: "eb_get b j = Some e" using that by (simp add: eb_get_def)
    then have "j \<noteq> i" using s(3) by auto
    then have g': "eb_get b' j = Some e" using g s(4) by simp
    have "\<not> 65535 < length e" using eb.read_ok [OF assms(1) g, of 65535] that by (auto split: if_splits)
    then show ?thesis using eb.read_ok [OF s(2) g', of 65535] \<open>j \<noteq> i\<close> by simp
  qed
  moreover have "free_elements b' = free_elements b - int (eb_cost b (length d))"
    using eb.store_free [OF assms(1) s(3,2,4,5,6)] .
  ultimately show ?thesis using s(1,2) by blast
qed

theorem store_read_roundtrip_witness:
  "\<exists>b i b'. sky_element_buffer_create (\<lambda>_. 0) 12 5 = Some b \<and>
     sky_element_buffer_store b [7, 8, 9] = Some (int i, b') \<and>
     sky_element_buffer_read b' i 3 = Some (Inr [7, 8, 9])"
proof -
  obtain b where b: "sky_element_buffer_create (\<lambda>_. 0) 12 5 = Some b" "eb_wf b []" "usable b = nat 12"
      "free_elements b = 5"
    using create_wf [of 12 5 "\<lambda>_. 0"] by (auto simp: eb_simps)
  then have "eb_inv b" "eb_cost b 3 = 1" by (auto simp: eb_inv_def eb_cost_def need_def)
  then show ?thesis using store_read_roundtrip [of b "[7, 8, 9]"] b by (auto simp: MAX_CHAIN_def numeral_3_eq_3)
qed

text \<open>
  a payload that needs more elements than are free is refused with \<open>SKY_RET_EBUFFER_NO_SPACE\<close>
  and the buffer is left as it was.
\<close>

theorem store_refused:
  assumes "eb_inv b" "length d \<le> 65535" "free_elements b < int (eb_cost b (length d))"
  shows "sky_element_buffer_store b d = Some (SKY_RET_EBUFFER_NO_SPACE, b)"
  using assms by (rule eb.store_full)

theorem store_refused_witness:
  "\<exists>b. sky_element_buffer_create (\<lambda>_. 0) 2 1 = Some b \<and>
     sky_element_buffer_store b [7] = Some (SKY_RET_EBUFFER_NO_SPACE, b)"
proof -
  obtain b where b: "sky_element_buffer_create (\<lambda>_. 0) 2 1 = Some b" "eb_wf b []" "usable b = nat 2"
      "free_elements b = 1"
    using create_wf [of 2 1 "\<lambda>_. 0"] by (auto simp: eb_simps)
  then have "eb_inv b" "eb_cost b 1 = 2" by (auto simp: eb_inv_def eb_cost_def need_def)
  then show ?thesis using store_refused [of b "[7]"] b by auto
qed

text \<open>
  deleting a stored payload succeeds, gives back exactly the elements it occupied and leaves
  every other payload readable; deleting or reading any other index of the pool is refused with
  \<open>SKY_RET_EBUFFER_INVALID_INDEX\<close> and changes nothing.
\<close>

theorem delete_correct:
  assumes inv: "eb_inv b" and i: "i < element_count b"
  shows "(case eb_get b i of
       Some d \<Rightarrow> \<exists>b'. sky_element_buffer_delete b i = Some (0, b') \<and> eb_inv b' \<and>
         free_elements b' = free_elements b + int (eb_cost b (length d)) \<and> eb_get b' = (eb_get b)(i := None)
     | None \<Rightarrow> sky_element_buffer_delete b i = Some (SKY_RET_EBUFFER_INVALID_INDEX, b) \<and>
         sky_element_buffer_read b i m = Some (Inl SKY_RET_EBUFFER_INVALID_INDEX))"
proof (cases "eb_get b i")
  case None
  obtain cs where wf: "eb_wf b cs" using inv by (auto simp: eb_inv_def)
  have "i \<notin> hd ` set cs" using None eb_get_head [OF wf] by force
  then show ?thesis using read_not_head [OF wf i] None by simp
next
  case (Some d)
  then show ?thesis using eb.delete_ok [OF inv Some] eb.delete_free [OF inv Some] by fastforce
qed

theorem delete_correct_witness:
  "\<exists>b. sky_element_buffer_create (\<lambda>_. 0) 12 5 = Some b \<and>
     sky_element_buffer_delete b 4 = Some (SKY_RET_EBUFFER_INVALID_INDEX, b)"
proof -
  obtain b where b: "sky_element_buffer_create (\<lambda>_. 0) 12 5 = Some b" "eb_wf b []" "element_count b = nat 5"
    using create_wf [of 12 5 "\<lambda>_. 0"] by (auto simp: eb_simps)
  then have "eb_inv b" "eb_get b 4 = None" using dom_eb_get [OF b(2)] by (auto simp: eb_inv_def)
  then show ?thesis using delete_correct [of b 4] b by simp
qed

text \<open>
  C35: whatever sequence of stores, deletes and wipes a client performs on a created buffer, the
  self-check \<open>sky_element_buffer_entire_buffer_is_ok\<close> (every chain linked consistently in both
  directions, the count of free elements right) answers yes.
\<close>

theorem reachable_buffer_ok:
  assumes "eb_reach b"
  shows "sky_element_buffer_entire_buffer_is_ok b = Some True"
  using assms by (intro entire_buffer_ok eb_reach_inv)

theorem reachable_buffer_ok_witness:
  "\<exists>b. sky_element_buffer_create (\<lambda>_. 0) 12 5 = Some b \<and> sky_element_buffer_entire_buffer_is_ok b = Some True"
proof -
  obtain b where "sky_element_buffer_create (\<lambda>_. 0) 12 5 = Some b"
    using create_wf [of 12 5 "\<lambda>_. 0"] by (auto simp: eb_simps)
  then show ?thesis using reachable_buffer_ok [of b] eb_reach.created [of 12 5 "\<lambda>_. 0" b] by (auto simp: eb_simps)
qed

end
