(* ===== verification/Ring_Window.thy ===== *)
theory Ring_Window
  imports Sequence_Ring Element_Buffer_Correct "HOL-Library.Multiset"
begin

text \<open>
  Index arithmetic the two rings share. A ring whose tail is at \<open>t\<close> is viewed as the rotated
  array \<open>rotate t buff\<close>, whose first entry is the item at the tail. A slot is either empty or holds
  the handle of a payload, and the item at distance \<open>k\<close> from the tail carries the sequence number
  of the tail plus \<open>k\<close>.
\<close>

section \<open>Wrapped indexes\<close>

lemma ring_wrap_mod:
  assumes "0 < L" "L \<le> 65536" "- 65538 \<le> x" "x < 2147483647"
  shows "ring_wrap x (int L) = Some (x mod int L)"
  using assms by (simp add: ring_wrap_def)

lemma ring_wrap_eq:
  "\<lbrakk> 0 < L; L \<le> 65536; - 65538 \<le> x; x < 2147483647; x mod int L = y \<rbrakk> \<Longrightarrow>
   ring_wrap x (int L) = Some y"
  by (simp add: ring_wrap_mod)

lemma ring_wrap_int [ring_simps]:
  "\<lbrakk> 0 < L; L \<le> 65536; a < 2147483647 \<rbrakk> \<Longrightarrow> ring_wrap (int a) (int L) = Some (int (a mod L))"
  by (simp add: ring_wrap_mod zmod_int)

lemma int_mod_bounds: "0 < L \<Longrightarrow> 0 \<le> int (a mod L) \<and> int (a mod L) < int L"
  by simp

lemma ring_wrap_diff2 [ring_simps]:
  assumes L: "0 < L" "L \<le> 65536" and mn: "m \<le> n" "n < L"
  shows "ring_wrap (int ((t + n) mod L) - int ((t + m) mod L)) (int L) = Some (int (n - m))"
proof -
  have "(int ((t + n) mod L) - int ((t + m) mod L)) mod int L = (int (t + n) - int (t + m)) mod int L"
    by (simp only: zmod_int mod_diff_eq)
  also have "\<dots> = int (n - m)" using mn by (simp add: of_nat_diff)
  finally show ?thesis
    using L int_mod_bounds [OF L(1), of "t + n"] int_mod_bounds [OF L(1), of "t + m"]
    by (intro ring_wrap_eq) linarith+
qed

lemma ring_wrap_diff [ring_simps]:
  "\<lbrakk> 0 < L; L \<le> 65536; t < L; n < L \<rbrakk> \<Longrightarrow>
   ring_wrap (int ((t + n) mod L) - int t) (int L) = Some (int n)"
  using ring_wrap_diff2 [of L 0 n t] by simp

lemma ring_wrap_free [ring_simps]:
  assumes L: "0 < L" "L \<le> 65536" and tn: "t < L" "n < L"
  shows "ring_wrap (int t - (int ((t + n) mod L) + 1)) (int L) = Some (int (L - 1 - n))"
proof -
  have "(int t - (int ((t + n) mod L) + 1)) mod int L = (int t - 1 - int ((t + n) mod L)) mod int L"
    by (simp add: algebra_simps)
  also have "\<dots> = (int t - 1 - int (t + n)) mod int L" by (simp only: zmod_int mod_diff_right_eq)
  also have "\<dots> = (int (L - 1 - n) - int L) mod int L" using tn by (simp add: of_nat_diff algebra_simps)
  also have "\<dots> = int (L - 1 - n) mod int L" by (rule minus_mod_self2)
  also have "\<dots> = int (L - 1 - n)" using tn by (intro mod_pos_pos_trivial) auto
  finally show ?thesis using L tn int_mod_bounds [OF L(1), of "t + n"]
    by (intro ring_wrap_eq) linarith+
qed

lemma ring_wrap_add [ring_simps]:
  assumes L: "0 < L" "L \<le> 65536" and k: "k \<le> 65537"
  shows "ring_wrap (int (a mod L) + int k) (int L) = Some (int ((a + k) mod L))"
proof -
  have "(int (a mod L) + int k) mod int L = int ((a + k) mod L)"
    by (metis mod_add_left_eq of_nat_add zmod_int)
  then show ?thesis using L k int_mod_bounds [OF L(1), of a]
    by (intro ring_wrap_eq) linarith+
qed

lemma ring_wrap_succ [ring_simps]:
  "\<lbrakk> 0 < L; L \<le> 65536 \<rbrakk> \<Longrightarrow> ring_wrap (int (a mod L) + 1) (int L) = Some (int (Suc a mod L))"
  using ring_wrap_add [of L 1 a] by simp

section \<open>The rotated array\<close>

lemma rotate_nth:
  "k < length buff \<Longrightarrow> buff ! ((t + k) mod length buff) = rotate t buff ! k"
  by (simp add: nth_rotate)

lemma rotate_update:
  assumes "k < length buff"
  shows "rotate t (buff[(t + k) mod length buff := v]) = (rotate t buff)[k := v]"
proof (rule nth_equalityI)
  fix j assume "j < length (rotate t (buff[(t + k) mod length buff := v]))"
  then have j: "j < length buff" by simp
  have "(t + k) mod length buff = (t + j) mod length buff \<longleftrightarrow> k = j"
    using assms j by (metis add_left_cancel cyc_dist_mod mod_add_left_eq mod_less_divisor not_less_zero neq0_conv)
  then show "rotate t (buff[(t + k) mod length buff := v]) ! j = (rotate t buff)[k := v] ! j"
  proof (cases "k = j")
    case True
    have "(t + j) mod length buff < length buff" by (rule mod_less_divisor) (use j in linarith)
    then show ?thesis using True j by (simp only: nth_rotate length_list_update nth_list_update_eq length_rotate)
  qed (use j assms in \<open>simp add: nth_rotate\<close>)
qed simp

lemma rotate_mod_length: "length buff = L \<Longrightarrow> rotate (t mod L) buff = rotate t buff"
  using rotate_conv_mod [of t buff] by simp

lemma item_at_window [ring_simps]:
  "\<lbrakk> length buff = L; k < L \<rbrakk> \<Longrightarrow> item_at buff (int ((t + k) mod L)) = Some (rotate t buff ! k)"
  by (auto simp: item_at_def nth_rotate)

lemma item_set_window [ring_simps]:
  "\<lbrakk> length buff = L; 0 < L \<rbrakk> \<Longrightarrow> item_set buff (int (a mod L)) v = Some (buff[a mod L := v])"
  by (auto simp: item_set_def)

lemma mset_rotate: "mset (rotate n xs) = mset xs"
  by (simp add: rotate_drop_take flip: mset_append)
     (metis append_take_drop_id mset_append union_commute)

section \<open>Slots\<close>

fun slots :: "sky_arq_sequence_t \<Rightarrow> nat option list \<Rightarrow> RingItem list" where
  "slots q [] = []"
| "slots q (None # xs) = null_item # slots (q + 1) xs"
| "slots q (Some h # xs) = \<lparr>idx = h, sequence = q\<rparr> # slots (q + 1) xs"

lemma length_slots [simp]: "length (slots q xs) = length xs"
  by (induction q xs rule: slots.induct) auto

lemma slots_nth:
  "k < length xs \<Longrightarrow> slots q xs ! k =
     (case xs ! k of None \<Rightarrow> null_item | Some h \<Rightarrow> \<lparr>idx = h, sequence = q + of_nat k\<rparr>)"
proof (induction q xs arbitrary: k rule: slots.induct)
  case (2 q xs)
  then show ?case by (cases k) (auto simp: algebra_simps split: option.splits)
next
  case (3 q h xs)
  then show ?case by (cases k) (auto simp: algebra_simps split: option.splits)
qed simp

lemma slots_append: "slots q (xs @ ys) = slots q xs @ slots (q + of_nat (length xs)) ys"
  by (induction q xs rule: slots.induct) (auto simp: algebra_simps)

lemma slots_replicate_None [simp]: "slots q (replicate n None) = replicate n null_item"
  by (induction n arbitrary: q) simp_all

lemma slots_update:
  "k < length xs \<Longrightarrow> (slots q xs)[k := slots (q + of_nat k) [v] ! 0] = slots q (xs[k := v])"
proof (induction q xs arbitrary: k rule: slots.induct)
  case (2 q xs)
  then show ?case by (cases k; cases v) (auto simp: algebra_simps)
next
  case (3 q h xs)
  then show ?case by (cases k; cases v) (auto simp: algebra_simps)
qed simp

lemmas slots_update_Some = slots_update [of _ _ _ "Some h" for h, simplified]
lemmas slots_update_None = slots_update [of _ _ _ None, simplified]

lemma slots_rotate1:
  "slots q (None # xs) = null_item # ys \<Longrightarrow> slots (q + 1) (xs @ [None]) = ys @ [null_item]"
  by (simp add: slots_append)

text \<open>The handles in the slots, in ring order.\<close>

definition handles :: "nat option list \<Rightarrow> nat list" where
  "handles xs = map the (filter (\<lambda>x. x \<noteq> None) xs)"

lemma handles_simps [simp]:
  "handles [] = []" "handles (None # xs) = handles xs" "handles (Some h # xs) = h # handles xs"
  "handles (xs @ ys) = handles xs @ handles ys" "handles (map Some hs) = hs"
  "handles (replicate n None) = []"
  by (induction hs) (auto simp: handles_def)

lemma set_handles: "set (handles xs) = {h. Some h \<in> set xs}"
  by (force simp: handles_def)

section \<open>Wiping\<close>

definition occupied :: "RingItem list \<Rightarrow> nat list" where
  "occupied items = filter (\<lambda>h. h \<noteq> EB_NULL_IDX) (map idx items)"

lemma occupied_simps [simp]:
  "occupied [] = []"
  "occupied (x # xs) = (if idx x = EB_NULL_IDX then occupied xs else idx x # occupied xs)"
  by (simp_all add: occupied_def)

lemma occupied_slots:
  "\<forall>h \<in> set (handles xs). h < 65530 \<Longrightarrow> occupied (slots q xs) = handles xs"
  by (induction q xs rule: slots.induct) (auto simp: null_item_def eb_simps)

text \<open>
  Wiping the items deletes exactly the payloads the items hold and leaves every slot empty.
\<close>

lemma wipe_items_ok:
  assumes "eb_inv b" "distinct is" "set is \<subseteq> {..<length buff}"
    "distinct (occupied (map (nth buff) is))" "set (occupied (map (nth buff) is)) \<subseteq> dom (eb_get b)"
  shows "\<exists>b'. wipe_items buff (Some b) is =
      Some (map (\<lambda>i. if i \<in> set is then null_item else buff ! i) [0..<length buff], Some b') \<and>
    eb_inv b' \<and> eb_get b' = eb_get b |` (- set (occupied (map (nth buff) is))) \<and>
    eb_cost b' = eb_cost b \<and> element_count b' = element_count b"
  using assms
proof (induction "is" arbitrary: buff b)
  case Nil
  then show ?case by (simp add: map_nth)
next
  case (Cons i "is")
  let ?buff = "buff[i := null_item]"
  have eq: "map (nth ?buff) is = map (nth buff) is"
    using Cons.prems(2) by (intro map_cong refl) (metis distinct.simps(2) nth_list_update_neq)
  have res: "map (\<lambda>j. if j \<in> set is then null_item else ?buff ! j) [0..<length ?buff] =
      map (\<lambda>j. if j \<in> set (i # is) then null_item else buff ! j) [0..<length buff]"
    by (auto simp: nth_list_update)
  show ?case
  proof (cases "idx (buff ! i) = EB_NULL_IDX")
    case True
    then show ?thesis using Cons.IH [of b ?buff] Cons.prems eq res by auto
  next
    case False
    then obtain d where d: "eb_get b (idx (buff ! i)) = Some d" using Cons.prems(5) by auto
    from eb.delete_ok [OF Cons.prems(1) d] obtain b1 where b1:
      "sky_element_buffer_delete b (idx (buff ! i)) = Some (0, b1)" "eb_inv b1"
      "eb_get b1 = (eb_get b)(idx (buff ! i) := None)" "eb_cost b1 = eb_cost b"
      "element_count b1 = element_count b" by blast
    have "set (occupied (map (nth buff) is)) \<subseteq> dom (eb_get b1)" "idx (buff ! i) \<notin> set (occupied (map (nth buff) is))"
      using Cons.prems(4,5) b1(3) False by auto
    then obtain b2 where b2: "wipe_items ?buff (Some b1) is =
        Some (map (\<lambda>j. if j \<in> set (i # is) then null_item else buff ! j) [0..<length buff], Some b2)"
        "eb_inv b2" "eb_get b2 = eb_get b1 |` (- set (occupied (map (nth buff) is)))"
        "eb_cost b2 = eb_cost b1" "element_count b2 = element_count b1"
      using Cons.IH [of b1 ?buff] Cons.prems b1(2) False unfolding eq res by auto
    have "eb_get b2 = eb_get b |` (- set (occupied (map (nth buff) (i # is))))"
      using b2(3) b1(3) False by (auto simp: restrict_map_def)
    then show ?thesis using b1 b2 False Cons.prems(3) by auto
  qed
qed

text \<open>Wiping a whole ring.\<close>

lemma wipe_ring:
  assumes inv: "eb_inv b" and rot: "rotate t buff = slots q xs" and len: "length buff = L"
    and hs: "distinct (handles xs)" "\<forall>h \<in> set (handles xs). h < 65530"
      "set (handles xs) \<subseteq> dom (eb_get b)"
  obtains b' where "wipe_items buff (Some b) [0..<L] = Some (replicate L null_item, Some b')"
    "eb_inv b'" "eb_get b' = eb_get b |` (- set (handles xs))"
    "eb_cost b' = eb_cost b" "element_count b' = element_count b"
proof -
  have "mset (occupied (rotate t buff)) = mset (occupied buff)"
    by (simp only: occupied_def mset_filter mset_map mset_rotate)
  then have m: "mset (occupied buff) = mset (handles xs)" using occupied_slots [OF hs(2)] rot by metis
  then have o: "distinct (occupied buff)" "set (occupied buff) = set (handles xs)"
    using hs(1) mset_eq_imp_distinct_iff mset_eq_setD by metis+
  have mp: "map (nth buff) [0..<L] = buff" using len by (simp add: map_nth_upt)
  obtain b' where b': "wipe_items buff (Some b) [0..<L] =
        Some (map (\<lambda>i. if i \<in> set [0..<L] then null_item else buff ! i) [0..<length buff], Some b')"
      "eb_inv b'" "eb_get b' = eb_get b |` (- set (occupied buff))"
      "eb_cost b' = eb_cost b" "element_count b' = element_count b"
    using wipe_items_ok [OF inv, of "[0..<L]" buff] o hs(3) len unfolding mp
    by (auto simp: atLeast0LessThan)
  have "map (\<lambda>i. if i \<in> set [0..<L] then null_item else buff ! i) [0..<length buff] = replicate L null_item"
    using len by (auto intro: nth_equalityI)
  then show ?thesis using that b' o(2) by metis
qed

lemma wipe_items_no_buffer:
  assumes "set is \<subseteq> {..<length buff}"
  shows "wipe_items buff None is =
    Some (map (\<lambda>i. if i \<in> set is then null_item else buff ! i) [0..<length buff], None)"
  using assms
proof (induction "is" arbitrary: buff)
  case (Cons i "is")
  then show ?case using Cons.IH [of "buff[i := null_item]"] by (auto simp: nth_list_update)
qed (simp add: map_nth)

lemma wipe_ring_no_buffer:
  "length buff = L \<Longrightarrow> wipe_items buff None [0..<L] = Some (replicate L null_item, None)"
  by (subst wipe_items_no_buffer) (auto intro: nth_equalityI)

end
