(* ===== verification/Send_Ring_Correct.thy ===== *)
theory Send_Ring_Correct
  imports Ring_Window
begin

text \<open>
  Correctness of the send ring. \<open>send_rel r L hs m\<close> relates a ring of \<open>L\<close> slots to the list of
  handles of the packets in memory, oldest first, of which the first \<open>m\<close> have been transmitted.
  Each operation is shown to act on that list: a push appends, the transmission of a new packet
  advances \<open>m\<close>, an acknowledgement drops a prefix of the transmitted part, a recall indexes it.
\<close>

section \<open>The ring as a list\<close>

definition send_rel :: "SkySendRing \<Rightarrow> nat \<Rightarrow> nat list \<Rightarrow> nat \<Rightarrow> bool" where
  "send_rel r L hs m \<longleftrightarrow>
     4 \<le> L \<and> L \<le> 256 \<and> s_length r = int L \<and> length (s_buff r) = L \<and>
     length hs < L \<and> m \<le> length hs \<and> (\<forall>h \<in> set hs. h < 65530) \<and>
     resend_count r \<le> 16 \<and> length (resend_list r) = 16 \<and>
     (\<exists>t < L. s_tail r = int t \<and> s_head r = int ((t + length hs) mod L) \<and>
        tx_head r = int ((t + m) mod L) \<and>
        rotate t (s_buff r) = slots (s_tail_sequence r) (map Some hs @ replicate (L - length hs) None)) \<and>
     s_head_sequence r = s_tail_sequence r + of_nat (length hs) \<and>
     tx_sequence r = s_tail_sequence r + of_nat m \<and> s_storage_count r = int (length hs)"

text \<open>The sequence numbers waiting for retransmission.\<close>

definition pending_resends :: "SkySendRing \<Rightarrow> sky_arq_sequence_t list" where
  "pending_resends r = take (resend_count r) (resend_list r)"

lemma send_relE:
  assumes "send_rel r L hs m"
  obtains t where "t < L" "s_tail r = int t" "s_head r = int ((t + length hs) mod L)"
    "tx_head r = int ((t + m) mod L)" "length (s_buff r) = L" "s_length r = int L"
    "rotate t (s_buff r) = slots (s_tail_sequence r) (map Some hs @ replicate (L - length hs) None)"
    "4 \<le> L" "L \<le> 256" "length hs < L" "m \<le> length hs"
  using assms unfolding send_rel_def by blast

lemma unat_seq_diff: "k < 256 \<Longrightarrow> unat (q + of_nat k - q :: 8 word) = k"
  by (simp add: unat_of_nat)

lemma seq_of_diff: "q + of_nat (unat (s - q)) = (s :: 8 word)"
  by (simp add: algebra_simps)

lemma create_send_rel:
  assumes "4 \<le> L" "L \<le> 256"
  obtains r where "sky_send_ring_create (int L) q = Some (Some r)" "send_rel r L [] 0"
    "s_tail_sequence r = q" "pending_resends r = []"
  using that assms wipe_ring_no_buffer [of "replicate L \<lparr>idx = 0, sequence = 0\<rparr>" L]
  by (simp add: sky_send_ring_create_def sky_send_ring_wipe_def send_rel_def pending_resends_def
      ARQ_RESEND_SCHEDULE_DEPTH_def)

lemma send_wipe_ok:
  assumes rel: "send_rel r L hs m" and inv: "eb_inv b" and hs: "distinct hs" "set hs \<subseteq> dom (eb_get b)"
  obtains r' b' where "sky_send_ring_wipe r (Some b) q = Some (r', Some b')" "send_rel r' L [] 0"
    "s_tail_sequence r' = q" "pending_resends r' = []" "eb_inv b'" "eb_get b' = eb_get b |` (- set hs)"
    "eb_cost b' = eb_cost b" "element_count b' = element_count b"
proof -
  obtain t where t: "t < L" "s_tail r = int t" "length (s_buff r) = L" "s_length r = int L"
    "rotate t (s_buff r) = slots (s_tail_sequence r) (map Some hs @ replicate (L - length hs) None)"
    "4 \<le> L" "L \<le> 256"
    using send_relE [OF rel] by metis
  have h: "\<forall>h \<in> set (handles (map Some hs @ replicate (L - length hs) None)). h < 65530"
    using rel by (simp add: send_rel_def)
  obtain b' where b': "wipe_items (s_buff r) (Some b) [0..<L] = Some (replicate L null_item, Some b')"
      "eb_inv b'" "eb_get b' = eb_get b |` (- set hs)" "eb_cost b' = eb_cost b"
      "element_count b' = element_count b"
    using wipe_ring [OF inv t(5,3) _ h] hs by auto
  then show ?thesis using that t
    by (simp add: sky_send_ring_wipe_def send_rel_def pending_resends_def ARQ_RESEND_SCHEDULE_DEPTH_def)
qed

section \<open>Counting\<close>

lemma send_is_full: "send_rel r L hs m \<Longrightarrow> sendRing_is_full r = Some (Suc (length hs) = L)"
proof (erule send_relE)
  fix t assume t: "t < L" "s_tail r = int t" "s_head r = int ((t + length hs) mod L)"
    "s_length r = int L" "4 \<le> L" "L \<le> 256" "length hs < L"
  have "Suc (t + length hs) mod L = t \<longleftrightarrow> Suc (length hs) = L"
    using t by (cases "Suc (t + length hs) < L"; cases "Suc (length hs) = L") (auto simp: mod_if)
  then show ?thesis using t by (simp add: sendRing_is_full_def ring_simps)
qed

lemma send_free_slots:
  "send_rel r L hs m \<Longrightarrow> sendRing_count_free_send_slots r = Some (int (L - 1 - length hs))"
  by (erule send_relE) (simp add: sendRing_count_free_send_slots_def ring_simps)

lemma send_count:
  "send_rel r L hs m \<Longrightarrow> sendRing_count_packets_to_send r rs =
     Some (int (length hs - m) + (if rs then int (resend_count r) else 0))"
  by (erule send_relE) (simp add: sendRing_count_packets_to_send_def ring_simps)

section \<open>Pushing\<close>

lemma send_push_full:
  "\<lbrakk> send_rel r L hs m; Suc (length hs) = L \<rbrakk> \<Longrightarrow>
   sendRing_push_packet_to_send r b d = Some (SKY_RET_RING_RING_FULL, r, b)"
  by (simp add: sendRing_push_packet_to_send_def send_is_full)

lemma send_push_no_space:
  "\<lbrakk> send_rel r L hs m; Suc (length hs) < L; sky_element_buffer_store b d = Some (e, b); e < 0 \<rbrakk> \<Longrightarrow>
   sendRing_push_packet_to_send r b d = Some (e, r, b)"
  by (simp add: sendRing_push_packet_to_send_def send_is_full)

lemma slots_push:
  assumes "length hs < L"
  shows "(slots q (map Some hs @ replicate (L - length hs) None))
      [length hs := \<lparr>idx = i, sequence = q + of_nat (length hs)\<rparr>] =
    slots q (map Some (hs @ [i]) @ replicate (L - length (hs @ [i])) None)"
proof -
  have "replicate (L - length hs) None = None # replicate (L - length (hs @ [i])) (None :: nat option)"
    using assms by (simp flip: replicate_Suc)
  then show ?thesis
    using slots_update_Some [of "length hs" "map Some hs @ replicate (L - length hs) None" q i] assms
    by (simp add: list_update_append)
qed

lemma send_push_ok:
  assumes rel: "send_rel r L hs m" and room: "Suc (length hs) < L"
    and st: "sky_element_buffer_store b d = Some (int i, b')" and i: "i < 65530"
  obtains r' where
    "sendRing_push_packet_to_send r b d =
       Some (int (unat (s_tail_sequence r + of_nat (length hs))), r', b')"
    "send_rel r' L (hs @ [i]) m" "s_tail_sequence r' = s_tail_sequence r"
    "pending_resends r' = pending_resends r" "tx_sequence r' = tx_sequence r"
proof -
  obtain t where t: "t < L" "s_tail r = int t" "s_head r = int ((t + length hs) mod L)"
    "tx_head r = int ((t + m) mod L)" "length (s_buff r) = L" "s_length r = int L"
    "rotate t (s_buff r) = slots (s_tail_sequence r) (map Some hs @ replicate (L - length hs) None)"
    "4 \<le> L" "L \<le> 256"
    using send_relE [OF rel] by metis
  define r' where "r' = r\<lparr>s_buff := (s_buff r)[(t + length hs) mod L := \<lparr>idx = i, sequence = s_head_sequence r\<rparr>],
      s_storage_count := s_storage_count r + 1, s_head := int (Suc (t + length hs) mod L),
      s_head_sequence := s_head_sequence r + 1\<rparr>"
  have seq: "s_head_sequence r = s_tail_sequence r + of_nat (length hs)" using rel by (simp add: send_rel_def)
  have push: "sendRing_push_packet_to_send r b d =
       Some (int (unat (s_tail_sequence r + of_nat (length hs))), r', b')"
    using t st room rel
    by (simp add: sendRing_push_packet_to_send_def send_is_full ring_simps r'_def seq)
  have "rotate t (s_buff r') =
      slots (s_tail_sequence r) (map Some (hs @ [i]) @ replicate (L - length (hs @ [i])) None)"
    using rotate_update [of "length hs" "s_buff r" t] t room slots_push [of hs L]
    by (simp add: r'_def seq)
  then have "send_rel r' L (hs @ [i]) m"
    using rel t i room by (auto simp: send_rel_def r'_def)
  then show ?thesis using that push by (simp add: r'_def pending_resends_def)
qed

section \<open>Recalling\<close>

lemma send_can_recall:
  "send_rel r L hs m \<Longrightarrow>
   sendRing_can_recall r s = Some (unat (s - s_tail_sequence r) < m)"
  by (erule send_relE) (simp add: sendRing_can_recall_def ring_simps not_le)

lemma send_recall_index:
  assumes rel: "send_rel r L hs m"
  shows "sendRing_get_recall_ring_index r s =
     (if unat (s - s_tail_sequence r) < m
      then Some (int ((nat (s_tail r) + unat (s - s_tail_sequence r)) mod L))
      else Some SKY_RET_RING_CANNOT_RECALL)"
proof -
  have "unat (s - s_tail_sequence r) < 256" by (rule unat_byte_less)
  moreover obtain t where "t < L" "s_tail r = int t" "s_length r = int L" "4 \<le> L" "L \<le> 256"
    using send_relE [OF rel] by metis
  ultimately show ?thesis
    using ring_wrap_int [of L "t + unat (s - s_tail_sequence r)"]
    by (simp add: sendRing_get_recall_ring_index_def send_can_recall [OF rel])
qed

lemma send_item:
  assumes "send_rel r L hs m" "k < length hs"
  shows "item_at (s_buff r) (int ((nat (s_tail r) + k) mod L)) =
     Some \<lparr>idx = hs ! k, sequence = s_tail_sequence r + of_nat k\<rparr>"
  using assms(2) by (rule_tac send_relE [OF assms(1)])
    (simp add: item_at_window slots_nth nth_append)

lemma send_tx_item:
  assumes rel: "send_rel r L hs m" and m: "m < length hs"
  shows "item_at (s_buff r) (tx_head r) = Some \<lparr>idx = hs ! m, sequence = tx_sequence r\<rparr>"
proof -
  have "tx_head r = int ((nat (s_tail r) + m) mod L)" using send_relE [OF rel] by (metis nat_int)
  then show ?thesis using send_item [OF rel m] rel by (simp add: send_rel_def)
qed

section \<open>The resend list\<close>

lemma schedule_resend_rel:
  assumes rel: "send_rel r L hs m"
  obtains ret r' where "sendRing_schedule_resend r s = Some (ret, r')" "send_rel r' L hs m"
    "s_tail_sequence r' = s_tail_sequence r" "tx_sequence r' = tx_sequence r"
    "ret = (if 16 \<le> resend_count r then SKY_RET_RING_RESEND_FULL
            else if \<not> unat (s - s_tail_sequence r) < m then SKY_RET_RING_CANNOT_RECALL
            else SKY_RET_OK)"
    "pending_resends r' = (if ret = SKY_RET_OK \<and> s \<notin> set (pending_resends r)
       then pending_resends r @ [s] else pending_resends r)"
proof (cases "16 \<le> resend_count r \<or> \<not> unat (s - s_tail_sequence r) < m \<or> s \<in> set (pending_resends r)")
  case True
  then have "sendRing_schedule_resend r s =
      Some (if 16 \<le> resend_count r then SKY_RET_RING_RESEND_FULL
            else if \<not> unat (s - s_tail_sequence r) < m then SKY_RET_RING_CANNOT_RECALL
            else SKY_RET_OK, r)"
    using send_can_recall [OF rel, of s]
    by (auto simp: sendRing_schedule_resend_def ARQ_RESEND_SCHEDULE_DEPTH_def pending_resends_def)
  then show ?thesis using True that rel by (auto simp: ret_codes)
next
  case False
  define r' where "r' = r\<lparr>resend_list := (resend_list r)[resend_count r := s],
      resend_count := resend_count r + 1\<rparr>"
  have len: "length (resend_list r) = 16" using rel by (simp add: send_rel_def)
  have "sendRing_schedule_resend r s = Some (SKY_RET_OK, r')"
    using False len send_can_recall [OF rel, of s]
    by (simp add: sendRing_schedule_resend_def ARQ_RESEND_SCHEDULE_DEPTH_def pending_resends_def r'_def)
  moreover have "send_rel r' L hs m" using rel False by (simp add: send_rel_def r'_def)
  moreover have "pending_resends r' = pending_resends r @ [s]"
    using False len by (simp add: pending_resends_def r'_def take_Suc_conv_app_nth)
  ultimately show ?thesis using that False by (simp add: r'_def)
qed

lemma mask_loop_rel:
  assumes "send_rel r L hs m"
  shows "\<exists>ret r'. mask_loop r s mk sel is = Some (ret, r') \<and> send_rel r' L hs m \<and>
    s_tail_sequence r' = s_tail_sequence r \<and> tx_sequence r' = tx_sequence r \<and>
    (\<exists>xs. pending_resends r' = pending_resends r @ xs)"
  using assms
proof (induction "is" arbitrary: r s sel)
  case Nil
  then show ?case by auto
next
  case (Cons i "is")
  obtain ret r1 where r1: "sendRing_schedule_resend r s = Some (ret, r1)" "send_rel r1 L hs m"
      "s_tail_sequence r1 = s_tail_sequence r" "tx_sequence r1 = tx_sequence r"
      "\<exists>xs. pending_resends r1 = pending_resends r @ xs"
    using schedule_resend_rel [OF Cons.prems, of s] by (metis append_Nil2)
  show ?case using r1 Cons.prems Cons.IH [OF r1(2), of "s + 1" "push_bit 1 sel"]
      Cons.IH [OF Cons.prems, of "s + 1" "push_bit 1 sel"] by fastforce
qed

lemma schedule_by_mask_rel:
  assumes rel: "send_rel r L hs m"
  obtains ret r' xs where "sendRing_schedule_resends_by_mask r s mk = Some (ret, r')" "send_rel r' L hs m"
    "s_tail_sequence r' = s_tail_sequence r" "tx_sequence r' = tx_sequence r"
    "pending_resends r' = pending_resends r @ xs"
proof -
  obtain ret r1 where r1: "sendRing_schedule_resend r s = Some (ret, r1)" "send_rel r1 L hs m"
      "s_tail_sequence r1 = s_tail_sequence r" "tx_sequence r1 = tx_sequence r"
      "\<exists>xs. pending_resends r1 = pending_resends r @ xs"
    using schedule_resend_rel [OF rel, of s] by (metis append_Nil2)
  have "\<exists>ret r' xs. sendRing_schedule_resends_by_mask r s mk = Some (ret, r') \<and> send_rel r' L hs m \<and>
    s_tail_sequence r' = s_tail_sequence r \<and> tx_sequence r' = tx_sequence r \<and>
    pending_resends r' = pending_resends r @ xs"
    using r1 mask_loop_rel [OF r1(2), of "s + 1" mk 1 "[0..<16]"]
    by (fastforce simp: sendRing_schedule_resends_by_mask_def)
  then show ?thesis using that by blast
qed

lemma length_shift_resends [simp]: "length (shift_resends l is) = length l"
  by (induction l "is" rule: shift_resends.induct) auto

lemma shift_resends_nth:
  assumes "1 \<le> k" "n \<le> length l" "j < length l"
  shows "shift_resends l [k..<n] ! j = (if k \<le> Suc j \<and> Suc j < n then l ! Suc j else l ! j)"
  using assms
proof (induction "n - k" arbitrary: k l)
  case 0
  then show ?case by auto
next
  case (Suc d)
  then have "[k..<n] = k # [Suc k..<n]" by (simp add: upt_conv_Cons)
  then show ?case using Suc.hyps(1) [of "Suc k" "l[k - 1 := l ! k]"] Suc.hyps(2) Suc.prems
    by (auto simp: nth_list_update)
qed

text \<open>
  What popping does to the pending list: the entry at the front is returned, but of the others the
  last is lost and the one before it appears twice (with two entries the front one stays).
\<close>

lemma pop_resend_rel:
  assumes rel: "send_rel r L hs m" and ne: "pending_resends r \<noteq> []"
  obtains r' where "sendRing_pop_resend_sequence r = (int (unat (hd (pending_resends r))), r')"
    "send_rel r' L hs m" "s_tail_sequence r' = s_tail_sequence r" "tx_sequence r' = tx_sequence r"
    "s_buff r' = s_buff r" "resend_count r' = resend_count r - 1"
    "pending_resends r' = (let p = butlast (pending_resends r) in if p = [] then [] else tl p @ [last p])"
proof -
  define n where "n = resend_count r - 1"
  have len: "length (resend_list r) = 16" "resend_count r = Suc n" "n < 16"
    using rel ne by (auto simp: send_rel_def pending_resends_def n_def)
  define r' where "r' = r\<lparr>resend_count := n, resend_list := shift_resends (resend_list r) [1..<n]\<rparr>"
  have pop: "sendRing_pop_resend_sequence r = (int (unat (hd (pending_resends r))), r')"
    using len by (cases "resend_list r")
      (auto simp: sendRing_pop_resend_sequence_def r'_def pending_resends_def Let_def)
  have bl: "butlast (pending_resends r) = take n (resend_list r)"
    using len by (simp add: pending_resends_def butlast_take)
  have lst: "last (take n (resend_list r)) = resend_list r ! (n - 1)" if "0 < n"
    using that len by (subst last_conv_nth) (auto simp: min_def)
  have "pending_resends r' = (if n = 0 then [] else tl (take n (resend_list r)) @ [last (take n (resend_list r))])"
  proof (rule nth_equalityI)
    fix i assume "i < length (pending_resends r')"
    then have i: "i < n" using len by (simp add: pending_resends_def r'_def)
    then have "Suc i < n \<or> i = n - 1" by linarith
    then show "pending_resends r' ! i =
        (if n = 0 then [] else tl (take n (resend_list r)) @ [last (take n (resend_list r))]) ! i"
      using i len lst by (auto simp: pending_resends_def r'_def shift_resends_nth nth_append nth_tl)
  qed (use len in \<open>simp add: pending_resends_def r'_def\<close>)
  then have "pending_resends r' =
      (let p = butlast (pending_resends r) in if p = [] then [] else tl p @ [last p])"
    unfolding bl using len by (auto simp: Let_def)
  moreover have "send_rel r' L hs m" using rel len by (simp add: send_rel_def r'_def)
  ultimately show ?thesis using that pop len by (simp add: r'_def)
qed

section \<open>Acknowledgement\<close>

lemma send_drop:
  assumes rel: "send_rel r L (h # hs) (Suc m)"
    and r1: "r1 = r\<lparr>s_buff := (s_buff r)[nat (s_tail r) := null_item],
      s_storage_count := s_storage_count r - 1, s_tail := int (Suc (nat (s_tail r)) mod L),
      s_tail_sequence := s_tail_sequence r + 1\<rparr>"
  shows "send_rel r1 L hs m"
proof -
  obtain t where t: "t < L" "s_tail r = int t" "s_head r = int ((t + Suc (length hs)) mod L)"
    "tx_head r = int ((t + Suc m) mod L)" "length (s_buff r) = L" "s_length r = int L"
    "rotate t (s_buff r) = slots (s_tail_sequence r) (map Some (h # hs) @ replicate (L - Suc (length hs)) None)"
    "4 \<le> L" "L \<le> 256" "Suc (length hs) < L"
    using send_relE [OF rel] by auto
  let ?q = "s_tail_sequence r" let ?rest = "map Some hs @ replicate (L - Suc (length hs)) None"
  have "rotate t ((s_buff r)[t := null_item]) = null_item # slots (?q + 1) ?rest"
    using rotate_update [of 0 "s_buff r" t null_item] t by simp
  then have "rotate (Suc t) ((s_buff r)[t := null_item]) = slots (?q + 1) ?rest @ [null_item]"
    by (simp add: rotate_Suc)
  also have "\<dots> = slots (?q + 1) (?rest @ [None])" by (simp add: slots_append)
  also have "?rest @ [None] = map Some hs @ replicate (L - length hs) None"
    using t(10) by (simp add: replicate_append_same Suc_diff_Suc flip: replicate_Suc)
  finally have "rotate (Suc t mod L) ((s_buff r)[t := null_item]) =
      slots (?q + 1) (map Some hs @ replicate (L - length hs) None)"
    using t(5) rotate_mod_length [of "(s_buff r)[t := null_item]" L "Suc t"] by simp
  moreover have "(Suc t mod L + k) mod L = (t + Suc k) mod L" for k by (simp add: mod_simps)
  moreover have "Suc t mod L < L" using t(1) by (intro mod_less_divisor) linarith
  ultimately have "\<exists>u < L. s_tail r1 = int u \<and> s_head r1 = int ((u + length hs) mod L) \<and>
      tx_head r1 = int ((u + m) mod L) \<and>
      rotate u (s_buff r1) = slots (s_tail_sequence r1) (map Some hs @ replicate (L - length hs) None)"
    using t r1 by (intro exI [of _ "Suc t mod L"]) simp
  then show ?thesis using rel r1 by (auto simp: send_rel_def algebra_simps)
qed

lemma clean_tail_loop_ok:
  assumes "send_rel r L hs m" "k \<le> m" "eb_inv b" "distinct hs" "set hs \<subseteq> dom (eb_get b)"
  shows "\<exists>r' b'. clean_tail_loop r b (s_tail_sequence r + of_nat k) n = Some (n + int k, r', b') \<and>
    send_rel r' L (drop k hs) (m - k) \<and> s_tail_sequence r' = s_tail_sequence r + of_nat k \<and>
    pending_resends r' = pending_resends r \<and> tx_sequence r' = tx_sequence r \<and>
    eb_inv b' \<and> eb_get b' = eb_get b |` (- set (take k hs)) \<and>
    eb_cost b' = eb_cost b \<and> element_count b' = element_count b"
  using assms
proof (induction k arbitrary: r hs m b n)
  case 0
  then show ?case by (subst clean_tail_loop.simps) (simp add: restrict_map_def)
next
  case (Suc k)
  obtain t where t: "t < L" "s_tail r = int t" "length (s_buff r) = L" "s_length r = int L"
    "4 \<le> L" "L \<le> 256" "length hs < L" "m \<le> length hs"
    using send_relE [OF Suc.prems(1)] by metis
  obtain h hs' m' where hs: "hs = h # hs'" "m = Suc m'"
    using Suc.prems(2) t(8) by (cases hs; cases m) auto
  have k: "Suc k < 256" using Suc.prems(2) t by simp
  have ne: "s_tail_sequence r \<noteq> s_tail_sequence r + of_nat (Suc k)"
    using unat_seq_diff [OF k, of "s_tail_sequence r"] by fastforce
  define r1 where "r1 = r\<lparr>s_buff := (s_buff r)[nat (s_tail r) := null_item],
      s_storage_count := s_storage_count r - 1, s_tail := int (Suc (nat (s_tail r)) mod L),
      s_tail_sequence := s_tail_sequence r + 1\<rparr>"
  have rel1: "send_rel r1 L hs' m'" using send_drop [of r L h hs' m'] Suc.prems(1) hs r1_def by simp
  obtain d where d: "eb_get b h = Some d" using Suc.prems(5) hs by auto
  obtain b1 where b1: "sky_element_buffer_delete b h = Some (0, b1)" "eb_inv b1"
      "eb_get b1 = (eb_get b)(h := None)" "eb_cost b1 = eb_cost b" "element_count b1 = element_count b"
    using eb.delete_ok [OF Suc.prems(3) d] by blast
  have item: "item_at (s_buff r) (int t) = Some \<lparr>idx = h, sequence = s_tail_sequence r\<rparr>"
    using send_item [OF Suc.prems(1), of 0] hs t(1,2) by simp
  have step: "clean_tail_loop r b (s_tail_sequence r + of_nat (Suc k)) n =
      clean_tail_loop r1 b1 (s_tail_sequence r1 + of_nat k) (n + 1)"
    using ne item b1(1) t item_set_window [of "s_buff r" L t null_item] ring_wrap_succ [of L t]
    by (subst clean_tail_loop.simps) (simp add: r1_def algebra_simps)
  have "set hs' \<subseteq> dom (eb_get b1)" "h \<notin> set hs'" using Suc.prems(4,5) hs b1(3) by auto
  then obtain r' b' where IH:
    "clean_tail_loop r1 b1 (s_tail_sequence r1 + of_nat k) (n + 1) = Some (n + 1 + int k, r', b')"
    "send_rel r' L (drop k hs') (m' - k)" "s_tail_sequence r' = s_tail_sequence r1 + of_nat k"
    "pending_resends r' = pending_resends r1" "tx_sequence r' = tx_sequence r1"
    "eb_inv b'" "eb_get b' = eb_get b1 |` (- set (take k hs'))"
    "eb_cost b' = eb_cost b1" "element_count b' = element_count b1"
    using Suc.IH [OF rel1 _ b1(2)] Suc.prems(2,4) hs by fastforce
  have "eb_get b' = eb_get b |` (- set (take (Suc k) hs))"
    using IH(7) b1(3) hs by (auto simp: restrict_map_def)
  then show ?case using step IH b1 hs by (auto simp: r1_def pending_resends_def algebra_simps)
qed

lemma clean_tail_ok:
  assumes rel: "send_rel r L hs m" and k: "unat (s - s_tail_sequence r) \<le> m"
    and b: "eb_inv b" "distinct hs" "set hs \<subseteq> dom (eb_get b)"
  obtains r' b' where
    "sendRing_clean_tail_up_to r b s = Some (int (unat (s - s_tail_sequence r)), r', b')"
    "send_rel r' L (drop (unat (s - s_tail_sequence r)) hs) (m - unat (s - s_tail_sequence r))"
    "s_tail_sequence r' = s" "pending_resends r' = pending_resends r" "tx_sequence r' = tx_sequence r"
    "eb_inv b'" "eb_get b' = eb_get b |` (- set (take (unat (s - s_tail_sequence r)) hs))"
    "eb_cost b' = eb_cost b" "element_count b' = element_count b"
proof -
  have "m < 256" using rel by (simp add: send_rel_def)
  then have "\<not> s - s_tail_sequence r > tx_sequence r - s_tail_sequence r"
    using k rel by (simp add: send_rel_def word_less_nat_alt unat_of_nat)
  then show ?thesis
    using that clean_tail_loop_ok [OF rel k b, of 0] by (auto simp: sendRing_clean_tail_up_to_def seq_of_diff)
qed

lemma clean_tail_invalid:
  assumes rel: "send_rel r L hs m" and k: "m < unat (s - s_tail_sequence r)"
  shows "sendRing_clean_tail_up_to r b s = Some (SKY_RET_RING_INVALID_ACKNOWLEDGE, r, b)"
proof -
  have "m < 256" using rel by (simp add: send_rel_def)
  then have "s - s_tail_sequence r > tx_sequence r - s_tail_sequence r"
    using k rel by (simp add: send_rel_def word_less_nat_alt unat_of_nat)
  then show ?thesis by (simp add: sendRing_clean_tail_up_to_def)
qed

section \<open>Transmission\<close>

lemma read_new_empty:
  "send_rel r L hs (length hs) \<Longrightarrow>
   sendRing_read_new_packet_to_tx r b = Some (Inl SKY_RET_RING_EMPTY, r)"
  by (simp add: sendRing_read_new_packet_to_tx_def send_count)

lemma read_new_ok:
  assumes rel: "send_rel r L hs m" and m: "m < length hs" and b: "eb_inv b" "eb_get b (hs ! m) = Some d"
    and len: "length d \<le> 281"
  obtains r' where "sendRing_read_new_packet_to_tx r b = Some (Inr (d, tx_sequence r), r')"
    "send_rel r' L hs (Suc m)" "s_tail_sequence r' = s_tail_sequence r"
    "pending_resends r' = pending_resends r" "tx_sequence r' = tx_sequence r + 1"
    "resend_count r' = resend_count r"
proof -
  obtain t where t: "t < L" "s_tail r = int t" "tx_head r = int ((t + m) mod L)" "s_length r = int L"
      "4 \<le> L" "L \<le> 256"
    using send_relE [OF rel] by metis
  define r' where "r' = r\<lparr>tx_head := int (Suc (t + m) mod L), tx_sequence := tx_sequence r + 1\<rparr>"
  have "sendRing_read_new_packet_to_tx r b = Some (Inr (d, tx_sequence r), r')"
    using m len send_count [OF rel, of False] send_tx_item [OF rel m] eb.read_ok [OF b, of 281] t
    by (simp add: sendRing_read_new_packet_to_tx_def SKY_PAYLOAD_MAX_LEN_def ring_simps r'_def)
  moreover have "send_rel r' L hs (Suc m)" using rel m t by (auto simp: send_rel_def r'_def)
  ultimately show ?thesis using that by (simp add: r'_def pending_resends_def)
qed

lemma word_of_int_unat [simp]: "word_of_int (int (unat w)) = w"
  by simp

text \<open>Retransmission: the recalled packet is the one pushed with that sequence number.\<close>

lemma read_recall_ok:
  assumes rel: "send_rel r L hs m" and ne: "pending_resends r \<noteq> []"
    and k: "unat (hd (pending_resends r) - s_tail_sequence r) < m"
    and b: "eb_inv b" "eb_get b (hs ! unat (hd (pending_resends r) - s_tail_sequence r)) = Some d"
    and len: "length d \<le> 281"
  obtains r' where "sendRing_read_recall_packet_to_tx r b = Some (Inr (d, hd (pending_resends r)), r')"
    "sendRing_pop_resend_sequence r = (int (unat (hd (pending_resends r))), r')" "send_rel r' L hs m"
    "s_tail_sequence r' = s_tail_sequence r" "tx_sequence r' = tx_sequence r"
proof -
  let ?q = "hd (pending_resends r)" let ?k = "unat (?q - s_tail_sequence r)"
  obtain r' where r': "sendRing_pop_resend_sequence r = (int (unat ?q), r')" "send_rel r' L hs m"
      "s_tail_sequence r' = s_tail_sequence r" "tx_sequence r' = tx_sequence r" "s_buff r' = s_buff r"
    using pop_resend_rel [OF rel ne] by metis
  have kl: "?k < length hs" using k rel by (simp add: send_rel_def)
  have "sendRing_read_recall_packet_to_tx r b = Some (Inr (d, ?q), r')"
    using r' k len send_recall_index [OF r'(2), of ?q] send_item [OF r'(2) kl] eb.read_ok [OF b, of 281]
    by (simp add: sendRing_read_recall_packet_to_tx_def SKY_PAYLOAD_MAX_LEN_def)
  then show ?thesis using that r' by blast
qed

lemma read_recall_stale:
  assumes rel: "send_rel r L hs m" and ne: "pending_resends r \<noteq> []"
    and k: "m \<le> unat (hd (pending_resends r) - s_tail_sequence r)"
  obtains r' where "sendRing_read_recall_packet_to_tx r b = Some (Inl SKY_RET_RING_CANNOT_RECALL, r')"
    "sendRing_pop_resend_sequence r = (int (unat (hd (pending_resends r))), r')" "send_rel r' L hs m"
    "s_tail_sequence r' = s_tail_sequence r" "tx_sequence r' = tx_sequence r"
proof -
  let ?q = "hd (pending_resends r)"
  obtain r' where r': "sendRing_pop_resend_sequence r = (int (unat ?q), r')" "send_rel r' L hs m"
      "s_tail_sequence r' = s_tail_sequence r" "tx_sequence r' = tx_sequence r"
    using pop_resend_rel [OF rel ne] by metis
  have "sendRing_read_recall_packet_to_tx r b = Some (Inl SKY_RET_RING_CANNOT_RECALL, r')"
    using r' k send_recall_index [OF r'(2), of ?q]
    by (simp add: sendRing_read_recall_packet_to_tx_def ret_codes)
  then show ?thesis using that r' by blast
qed

text \<open>
  The packet the next transmission takes: the recalled one when the front of the resend list is a
  transmitted packet still in memory, else the first untransmitted one.
\<close>

definition next_tx :: "SkySendRing \<Rightarrow> bytes list \<Rightarrow> nat \<Rightarrow> bool \<Rightarrow> (bytes \<times> sky_arq_sequence_t) option" where
  "next_tx r ds m include_resend =
     (let p = pending_resends r; k = unat (hd p - s_tail_sequence r)
      in if include_resend \<and> p \<noteq> [] \<and> k < m then Some (ds ! k, hd p)
         else if m < length ds then Some (ds ! m, tx_sequence r)
         else None)"

lemma resend_count_pending:
  "send_rel r L hs m \<Longrightarrow> pending_resends r = [] \<longleftrightarrow> resend_count r = 0"
  by (auto simp: pending_resends_def send_rel_def)

lemma hd_pending: "send_rel r L hs m \<Longrightarrow> pending_resends r \<noteq> [] \<Longrightarrow> hd (pending_resends r) = resend_list r ! 0"
  by (cases "resend_list r") (auto simp: pending_resends_def hd_conv_nth send_rel_def)

lemma peek_next_tx:
  assumes rel: "send_rel r L hs m" and b: "eb_inv b" and h: "holds (eb_get b) hs ds"
  shows "sendRing_peek_next_tx_size_and_sequence r b rs =
     Some (case next_tx r ds m rs of
             Some (d, s) \<Rightarrow> (int (length d), Some s)
           | None \<Rightarrow> (SKY_RET_RING_EMPTY, None))"
proof -
  let ?p = "pending_resends r" let ?k = "unat (hd ?p - s_tail_sequence r)"
  have lens: "length hs = length ds" "m \<le> length hs" using rel holds_length [OF h] by (auto simp: send_rel_def)
  have item: "sky_element_buffer_get_data_length b (hs ! j) = Some (int (length (ds ! j)))" if "j < length hs" for j
    using eb.length_ok [OF b holds_nth [OF h that]] .
  note simps = sendRing_peek_next_tx_size_and_sequence_def next_tx_def Let_def send_count [OF rel]
    send_recall_index [OF rel] resend_count_pending [OF rel] hd_pending [OF rel] ret_codes
  consider "rs \<and> ?p \<noteq> [] \<and> ?k < m" | "\<not> (rs \<and> ?p \<noteq> [] \<and> ?k < m)" "m < length hs"
    | "\<not> (rs \<and> ?p \<noteq> [] \<and> ?k < m)" "m = length hs" using lens by linarith
  then show ?thesis
  proof cases
    case 1
    then have "?k < length hs" using lens by simp
    then show ?thesis
      using 1 lens send_item [OF rel, of ?k] item [of ?k] hd_pending [OF rel]
      by (auto simp: simps seq_of_diff)
  next
    case 2
    then show ?thesis using lens send_tx_item [OF rel 2(2)] item [of m] hd_pending [OF rel]
      by (auto simp: simps)
  next
    case 3
    then show ?thesis using lens hd_pending [OF rel] by (auto simp: simps)
  qed
qed

text \<open>Reading takes exactly the packet that peeking announces.\<close>

lemma read_to_tx_next:
  assumes rel: "send_rel r L hs m" and b: "eb_inv b" and h: "holds (eb_get b) hs ds"
    and len: "\<forall>d \<in> set ds. length d \<le> 281"
  obtains r' m' where
    "sendRing_read_to_tx r b rs = Some (case next_tx r ds m rs of
        Some v \<Rightarrow> Inr v | None \<Rightarrow> Inl SKY_RET_RING_EMPTY, r')"
    "send_rel r' L hs m'" "s_tail_sequence r' = s_tail_sequence r" "m \<le> m'"
    "\<And>d s. next_tx r ds m rs = Some (d, s) \<Longrightarrow> unat (s - s_tail_sequence r) < m' \<and>
        d = ds ! unat (s - s_tail_sequence r)"
    "next_tx r ds m rs = None \<Longrightarrow> m' = m"
proof -
  let ?p = "pending_resends r" let ?k = "unat (hd ?p - s_tail_sequence r)"
  have lens: "length hs = length ds" "m \<le> length hs" "m < 256"
    using rel holds_length [OF h] by (auto simp: send_rel_def)
  have txs: "tx_sequence r = s_tail_sequence r + of_nat m" using rel by (simp add: send_rel_def)
  have new: "\<exists>r'. sendRing_read_new_packet_to_tx r0 b = Some (if m < length ds
        then Inr (ds ! m, tx_sequence r) else Inl SKY_RET_RING_EMPTY, r') \<and>
        send_rel r' L hs (if m < length ds then Suc m else m) \<and> s_tail_sequence r' = s_tail_sequence r"
    if rel0: "send_rel r0 L hs m" "s_tail_sequence r0 = s_tail_sequence r" "tx_sequence r0 = tx_sequence r" for r0
  proof (cases "m < length ds")
    case True
    then have m: "m < length hs" using lens by simp
    have "length (ds ! m) \<le> 281" using len True by simp
    then obtain r' where "sendRing_read_new_packet_to_tx r0 b = Some (Inr (ds ! m, tx_sequence r0), r')"
        "send_rel r' L hs (Suc m)" "s_tail_sequence r' = s_tail_sequence r0"
      using read_new_ok [OF rel0(1) m b holds_nth [OF h m]] by blast
    then show ?thesis using True rel0 by auto
  next
    case False
    then show ?thesis using read_new_empty [of r0 L hs] rel0 lens by auto
  qed
  note result = that
  have fin: thesis if call: "sendRing_read_to_tx r b rs = sendRing_read_new_packet_to_tx r0 b"
      and r0: "send_rel r0 L hs m" "s_tail_sequence r0 = s_tail_sequence r" "tx_sequence r0 = tx_sequence r"
      and no: "\<not> (rs \<and> ?p \<noteq> [] \<and> ?k < m)" for r0
  proof -
    obtain r' where r': "sendRing_read_new_packet_to_tx r0 b = Some (if m < length ds
        then Inr (ds ! m, tx_sequence r) else Inl SKY_RET_RING_EMPTY, r')"
        "send_rel r' L hs (if m < length ds then Suc m else m)" "s_tail_sequence r' = s_tail_sequence r"
      using new [OF r0] by blast
    have nx: "next_tx r ds m rs = (if m < length ds then Some (ds ! m, tx_sequence r) else None)"
      using no by (auto simp: next_tx_def Let_def)
    show thesis
      by (rule result [OF _ r'(2,3)]) (use call r'(1) nx txs lens in \<open>auto simp: unat_of_nat split: if_splits\<close>)
  qed
  show ?thesis
  proof (cases "rs \<and> ?p \<noteq> []")
    case False
    then have "sendRing_read_to_tx r b rs = sendRing_read_new_packet_to_tx r b"
      using resend_count_pending [OF rel] by (auto simp: sendRing_read_to_tx_def)
    then show ?thesis using fin [OF _ rel refl refl] False by blast
  next
    case True
    then have cnt: "0 < resend_count r" using resend_count_pending [OF rel] by simp
    show ?thesis
    proof (cases "?k < m")
      case k: True
      then have kl: "?k < length hs" using lens by simp
      then have "length (ds ! ?k) \<le> 281" using len lens by simp
      then obtain r' where r': "sendRing_read_recall_packet_to_tx r b = Some (Inr (ds ! ?k, hd ?p), r')"
          "send_rel r' L hs m" "s_tail_sequence r' = s_tail_sequence r"
        using read_recall_ok [OF rel _ k b holds_nth [OF h kl]] True by blast
      have nx: "next_tx r ds m rs = Some (ds ! ?k, hd ?p)" using True k by (simp add: next_tx_def Let_def)
      show ?thesis
        by (rule that [OF _ r'(2,3)]) (use r'(1) nx True k cnt in \<open>auto simp: sendRing_read_to_tx_def\<close>)
    next
      case False
      then have k: "m \<le> ?k" by simp
      have ne: "?p \<noteq> []" using True by simp
      obtain r0 where r0:
          "sendRing_read_recall_packet_to_tx r b = Some (Inl SKY_RET_RING_CANNOT_RECALL, r0)"
          "send_rel r0 L hs m" "s_tail_sequence r0 = s_tail_sequence r" "tx_sequence r0 = tx_sequence r"
        using read_recall_stale [OF rel ne k] by blast
      then have "sendRing_read_to_tx r b rs = sendRing_read_new_packet_to_tx r0 b"
        using True cnt by (simp add: sendRing_read_to_tx_def)
      then show ?thesis using fin [OF _ r0(2,3,4)] False by blast
    qed
  qed
qed

end
