(* ===== verification/Rcv_Ring_Correct.thy ===== *)
theory Rcv_Ring_Correct
  imports Ring_Window
begin

text \<open>
  Correctness of the receive ring. \<open>rcv_rel r L W xs\<close> relates a ring of \<open>L\<close> slots with horizon
  \<open>W\<close> to the slots seen from the tail. The number of readable packets is a function of the slots:
  the head always stands behind the longest unbroken run of packets that keeps the horizon off
  the tail. A push fills one slot of the horizon window, a read takes the first slot away.
\<close>

section \<open>The ring as a list of slots\<close>

definition readable :: "nat \<Rightarrow> 'a option list \<Rightarrow> nat" where
  "readable W xs = length (takeWhile (\<lambda>x. x \<noteq> None) (take (length xs - W - 1) xs))"

definition rcv_at :: "SkyRcvRing \<Rightarrow> nat \<Rightarrow> nat \<Rightarrow> nat option list \<Rightarrow> nat \<Rightarrow> bool" where
  "rcv_at r L W xs n \<longleftrightarrow>
     W + 3 \<le> L \<and> L \<le> 256 \<and> W \<le> 64 \<and> r_length r = int L \<and> horizon_width r = int W \<and>
     length (r_buff r) = L \<and> length xs = L \<and> (\<forall>h \<in> set (handles xs). h < 65530) \<and>
     (\<exists>t < L. r_tail r = int t \<and> r_head r = int ((t + n) mod L) \<and>
        rotate t (r_buff r) = slots (r_tail_sequence r) xs) \<and>
     r_head_sequence r = r_tail_sequence r + of_nat n \<and> n \<le> readable W xs \<and>
     (\<forall>k. n + W < k \<and> k < L \<longrightarrow> xs ! k = None) \<and>
     r_storage_count r = int (length (handles xs))"

definition rcv_rel :: "SkyRcvRing \<Rightarrow> nat \<Rightarrow> nat \<Rightarrow> nat option list \<Rightarrow> bool" where
  "rcv_rel r L W xs \<longleftrightarrow> rcv_at r L W xs (readable W xs)"

lemma rcv_atE:
  assumes "rcv_at r L W xs n"
  obtains t where "t < L" "r_tail r = int t" "r_head r = int ((t + n) mod L)"
    "rotate t (r_buff r) = slots (r_tail_sequence r) xs" "length (r_buff r) = L" "length xs = L"
    "r_length r = int L" "horizon_width r = int W" "W + 3 \<le> L" "L \<le> 256" "W \<le> 64"
    "n \<le> readable W xs" "r_head_sequence r = r_tail_sequence r + of_nat n"
  using assms unfolding rcv_at_def by blast

lemma readable_bound: "W + 1 \<le> length xs \<Longrightarrow> readable W xs + W + 1 \<le> length xs"
  using length_takeWhile_le [of "\<lambda>x. x \<noteq> None" "take (length xs - W - 1) xs"]
  by (simp add: readable_def)

lemma readable_Some: "k < readable W xs \<Longrightarrow> xs ! k \<noteq> None"
proof -
  assume k: "k < readable W xs"
  then have "takeWhile (\<lambda>x. x \<noteq> None) (take (length xs - W - 1) xs) ! k = take (length xs - W - 1) xs ! k"
    unfolding readable_def by (rule takeWhile_nth)
  moreover have "takeWhile (\<lambda>x. x \<noteq> None) (take (length xs - W - 1) xs) ! k \<noteq> None"
    using k nth_mem set_takeWhileD unfolding readable_def by fastforce
  moreover have "k < length xs - W - 1"
    using k length_takeWhile_le [of "\<lambda>x. x \<noteq> None" "take (length xs - W - 1) xs"] by (simp add: readable_def)
  ultimately show ?thesis by simp
qed

lemma readable_stop:
  assumes "readable W xs + W + 1 < length xs"
  shows "xs ! readable W xs = None"
proof -
  have "readable W xs < length (take (length xs - W - 1) xs)" using assms by simp
  then have "\<not> take (length xs - W - 1) xs ! readable W xs \<noteq> None"
    unfolding readable_def by (rule nth_length_takeWhile)
  then show ?thesis using assms by simp
qed

lemma readable_ge:
  assumes "\<forall>k < n. xs ! k \<noteq> None" "n + W + 1 \<le> length xs"
  shows "n \<le> readable W xs"
proof (rule ccontr)
  assume "\<not> n \<le> readable W xs"
  then have "readable W xs < n" by simp
  then show False using readable_stop [of W xs] assms by auto
qed

lemma readable_step:
  assumes "n < readable W xs"
  shows "Suc n \<le> readable W xs" "xs ! n \<noteq> None"
  using assms readable_Some by auto

lemma slot_handle:
  assumes "rcv_at r L W xs n" "xs ! k = Some h" "k < L"
  shows "h < 65530"
proof -
  have "Some h \<in> set xs" using assms nth_mem [of k xs] by (simp add: rcv_at_def)
  then show ?thesis using assms(1) by (auto simp: rcv_at_def set_handles)
qed

section \<open>Advancing the head\<close>

lemma advance_head_loop_ok:
  assumes "rcv_at r L W xs n"
  shows "\<exists>r'. advance_head_loop r a = Some (a + int (readable W xs - n), r') \<and> rcv_rel r' L W xs \<and>
     r_tail_sequence r' = r_tail_sequence r"
  using assms
proof (induction "readable W xs - n" arbitrary: r n a)
  case 0
  obtain t where t: "t < L" "r_tail r = int t" "r_head r = int ((t + n) mod L)"
    "rotate t (r_buff r) = slots (r_tail_sequence r) xs" "length (r_buff r) = L" "length xs = L"
    "r_length r = int L" "horizon_width r = int W" "W + 3 \<le> L" "L \<le> 256" "n \<le> readable W xs"
    using rcv_atE [OF "0.prems"] by metis
  then have n: "n = readable W xs" using 0 by simp
  have nW: "n + W + 1 \<le> L" using readable_bound [of W xs] t n by simp
  have it: "item_at (r_buff r) (r_head r) = Some (slots (r_tail_sequence r) xs ! n)"
    using item_at_window [of "r_buff r" L n t] t nW by simp
  have stop: "advance_head_loop r a = Some (a, r)"
  proof (cases "n + W + 1 = L")
    case True
    have "ring_wrap (r_head r + horizon_width r + 1) (r_length r) = Some (int ((t + n + (W + 1)) mod L))"
      using ring_wrap_add [of L "W + 1" "t + n"] t by (simp add: algebra_simps)
    moreover have "(t + n + (W + 1)) mod L = t" using True t(1) by (metis add.assoc mod_add_self2 mod_less)
    ultimately show ?thesis using it t by (subst advance_head_loop.simps) simp
  next
    case False
    then have "xs ! n = None" using readable_stop [of W xs] n nW t by simp
    then have "idx (slots (r_tail_sequence r) xs ! n) = EB_NULL_IDX"
      using nW t by (simp add: slots_nth null_item_def)
    then show ?thesis using it by (subst advance_head_loop.simps) simp
  qed
  then show ?case using "0.prems" n by (simp add: rcv_rel_def)
next
  case (Suc d)
  obtain t where t: "t < L" "r_tail r = int t" "r_head r = int ((t + n) mod L)"
    "rotate t (r_buff r) = slots (r_tail_sequence r) xs" "length (r_buff r) = L" "length xs = L"
    "r_length r = int L" "horizon_width r = int W" "W + 3 \<le> L" "L \<le> 256"
    using rcv_atE [OF Suc.prems] by metis
  have n: "n < readable W xs" using Suc.hyps(2) by simp
  have nW: "n + W + 1 < L" using readable_bound [of W xs] t n by simp
  obtain h where h: "xs ! n = Some h" using readable_Some [OF n] by auto
  have hb: "h < 65530" using slot_handle [OF Suc.prems h] nW by simp
  have it: "item_at (r_buff r) (r_head r) = Some \<lparr>idx = h, sequence = r_tail_sequence r + of_nat n\<rparr>"
    using item_at_window [of "r_buff r" L n t] t nW h by (simp add: slots_nth)
  have wr: "ring_wrap (r_head r + horizon_width r + 1) (r_length r) = Some (int ((t + n + (W + 1)) mod L))"
    using ring_wrap_add [of L "W + 1" "t + n"] t by (simp add: algebra_simps)
  have nc: "(t + n + (W + 1)) mod L \<noteq> t"
    using nW t(1) cyc_dist_mod [of t L "n + (W + 1)"] by (auto simp: cyc_dist_def add.assoc)
  define r1 where "r1 = r\<lparr>r_head := int (Suc (t + n) mod L), r_head_sequence := r_head_sequence r + 1\<rparr>"
  have step: "advance_head_loop r a = advance_head_loop r1 (a + 1)"
    using it wr nc hb t ring_wrap_succ [of L "t + n"]
    by (subst advance_head_loop.simps) (simp add: r1_def eb_simps)
  have "rcv_at r1 L W xs (Suc n)" using Suc.prems n t by (auto simp: rcv_at_def r1_def algebra_simps)
  from Suc.hyps(1) [OF _ this, of "a + 1"] Suc.hyps(2) n show ?case
    unfolding step by (auto simp: r1_def of_nat_diff)
qed

lemma rcvRing_advance_head_ok:
  assumes "rcv_at r L W xs n"
  obtains r' where "rcvRing_advance_head r = Some (int (readable W xs - n), r')" "rcv_rel r' L W xs"
    "r_tail_sequence r' = r_tail_sequence r"
  using that advance_head_loop_ok [OF assms, of 0] by (auto simp: rcvRing_advance_head_def)

section \<open>Operations\<close>

lemma create_rcv_rel:
  assumes "W + 3 \<le> L" "L \<le> 256"
  obtains r where "sky_rcv_ring_create (int L) (int W) q = Some (Some r)"
    "rcv_rel r L (min W 64) (replicate L None)" "r_tail_sequence r = q"
proof -
  have rd: "readable w (replicate L (None :: nat option)) = 0" for w
    by (cases "L - w - 1") (simp_all add: readable_def)
  show ?thesis
    using that assms wipe_ring_no_buffer [of "replicate L \<lparr>idx = 0, sequence = 0\<rparr>" L] rd
    by (simp add: sky_rcv_ring_create_def sky_rcv_ring_wipe_def rcv_rel_def rcv_at_def ARQ_MAXIMUM_HORIZON_def)
qed

lemma rcv_wipe_ok:
  assumes rel: "rcv_rel r L W xs" and inv: "eb_inv b"
    and hs: "distinct (handles xs)" "set (handles xs) \<subseteq> dom (eb_get b)"
  obtains r' b' where "sky_rcv_ring_wipe r (Some b) q = Some (r', Some b')"
    "rcv_rel r' L W (replicate L None)" "r_tail_sequence r' = q" "eb_inv b'"
    "eb_get b' = eb_get b |` (- set (handles xs))" "eb_cost b' = eb_cost b"
    "element_count b' = element_count b"
proof -
  obtain t where t: "t < L" "r_tail r = int t" "rotate t (r_buff r) = slots (r_tail_sequence r) xs"
    "length (r_buff r) = L" "length xs = L" "r_length r = int L" "horizon_width r = int W" "W + 3 \<le> L"
    "L \<le> 256" "W \<le> 64"
    using rcv_atE [OF rel [unfolded rcv_rel_def]] by metis
  have h: "\<forall>h \<in> set (handles xs). h < 65530" using rel by (simp add: rcv_rel_def rcv_at_def)
  have rd: "readable W (replicate L (None :: nat option)) = 0"
    by (cases "L - W - 1") (simp_all add: readable_def)
  obtain b' where "wipe_items (r_buff r) (Some b) [0..<L] = Some (replicate L null_item, Some b')"
      "eb_inv b'" "eb_get b' = eb_get b |` (- set (handles xs))" "eb_cost b' = eb_cost b"
      "element_count b' = element_count b"
    using wipe_ring [OF inv t(3,4) hs(1) h hs(2)] by blast
  then show ?thesis using that t rd by (simp add: sky_rcv_ring_wipe_def rcv_rel_def rcv_at_def)
qed

lemma rcv_count:
  assumes "rcv_rel r L W xs"
  shows "rcvRing_count_readable_packets r = Some (int (readable W xs))"
proof (rule rcv_atE [OF assms [unfolded rcv_rel_def]])
  fix t assume t: "t < L" "r_tail r = int t" "r_head r = int ((t + readable W xs) mod L)" "length xs = L"
    "r_length r = int L" "W + 3 \<le> L" "L \<le> 256"
  then have "readable W xs < L" using readable_bound [of W xs] by simp
  then show ?thesis using t by (simp add: rcvRing_count_readable_packets_def ring_simps)
qed

lemma rcv_push_invalid:
  "\<lbrakk> rcv_rel r L W xs; W < unat (s - r_head_sequence r) \<rbrakk> \<Longrightarrow>
   rcvRing_push_rx_packet r b d s = Some (SKY_RET_RING_INVALID_SEQUENCE, r, b)"
  by (simp add: rcvRing_push_rx_packet_def rcv_rel_def rcv_at_def ring_simps Let_def)

text \<open>The slot a sequence number of the horizon window belongs to.\<close>

lemma rcv_slot:
  assumes rel: "rcv_rel r L W xs" and s: "unat (s - r_head_sequence r) \<le> W"
  obtains t where "t < L" "r_tail r = int t"
    "ring_wrap (r_head r + int (unat (s - r_head_sequence r))) (r_length r) =
       Some (int ((t + (readable W xs + unat (s - r_head_sequence r))) mod L))"
    "item_at (r_buff r) (int ((t + (readable W xs + unat (s - r_head_sequence r))) mod L)) =
       Some (slots (r_tail_sequence r) xs ! (readable W xs + unat (s - r_head_sequence r)))"
    "readable W xs + unat (s - r_head_sequence r) < L"
    "s = r_tail_sequence r + of_nat (readable W xs + unat (s - r_head_sequence r))"
proof -
  let ?n = "readable W xs" let ?d = "unat (s - r_head_sequence r)"
  obtain t where t: "t < L" "r_tail r = int t" "r_head r = int ((t + ?n) mod L)"
    "rotate t (r_buff r) = slots (r_tail_sequence r) xs" "length (r_buff r) = L" "length xs = L"
    "r_length r = int L" "horizon_width r = int W" "W + 3 \<le> L" "L \<le> 256" "W \<le> 64"
    "r_head_sequence r = r_tail_sequence r + of_nat ?n"
    using rcv_atE [OF rel [unfolded rcv_rel_def]] by metis
  have lt: "?n + ?d < L" using readable_bound [of W xs] t s by simp
  have "ring_wrap (r_head r + int ?d) (r_length r) = Some (int ((t + (?n + ?d)) mod L))"
    using ring_wrap_add [of L ?d "t + ?n"] t s by (simp add: add.assoc)
  moreover have "s = r_tail_sequence r + of_nat (?n + ?d)" using t(12) by simp
  ultimately show ?thesis using that t lt item_at_window [of "r_buff r" L "?n + ?d" t] by simp
qed

lemma rcv_push_duplicate:
  assumes rel: "rcv_rel r L W xs" and s: "unat (s - r_head_sequence r) \<le> W"
    and occ: "xs ! (readable W xs + unat (s - r_head_sequence r)) \<noteq> None"
  shows "rcvRing_push_rx_packet r b d s = Some (SKY_RET_RING_PACKET_ALREADY_IN, r, b)"
proof -
  obtain h where h: "xs ! (readable W xs + unat (s - r_head_sequence r)) = Some h" using occ by auto
  have len: "length xs = L" and hz: "horizon_width r = int W" using rel by (simp_all add: rcv_rel_def rcv_at_def)
  show ?thesis
  proof (rule rcv_slot [OF rel s])
    fix t assume t: "readable W xs + unat (s - r_head_sequence r) < L"
      "ring_wrap (r_head r + int (unat (s - r_head_sequence r))) (r_length r) =
       Some (int ((t + (readable W xs + unat (s - r_head_sequence r))) mod L))"
      "item_at (r_buff r) (int ((t + (readable W xs + unat (s - r_head_sequence r))) mod L)) =
       Some (slots (r_tail_sequence r) xs ! (readable W xs + unat (s - r_head_sequence r)))"
    have "h < 65530" using slot_handle [OF rel [unfolded rcv_rel_def] h t(1)] .
    then have "idx (slots (r_tail_sequence r) xs ! (readable W xs + unat (s - r_head_sequence r))) \<noteq> EB_NULL_IDX"
      using t(1) h len by (simp add: slots_nth eb_simps)
    then show ?thesis using t(2,3) s hz
      by (simp add: rcvRing_push_rx_packet_def Let_def int_less_uint not_less)
  qed
qed

lemma handles_update:
  "\<lbrakk> k < length xs; xs ! k = None \<rbrakk> \<Longrightarrow>
   handles (xs[k := Some i]) = handles (take k xs) @ i # handles (drop (Suc k) xs)"
  by (simp add: upd_conv_take_nth_drop)

lemma handles_split:
  "\<lbrakk> k < length xs; xs ! k = None \<rbrakk> \<Longrightarrow> handles xs = handles (take k xs) @ handles (drop (Suc k) xs)"
  by (subst id_take_nth_drop [of k xs]) auto

lemma rcv_free_slot:
  assumes rel: "rcv_rel r L W xs" and s: "unat (s - r_head_sequence r) \<le> W"
    and free: "xs ! (readable W xs + unat (s - r_head_sequence r)) = None"
  shows "\<exists>k. ring_wrap (r_head r + int (unat (s - r_head_sequence r))) (r_length r) = Some k \<and>
    (\<exists>it. item_at (r_buff r) k = Some it \<and> idx it = EB_NULL_IDX)"
proof (rule rcv_slot [OF rel s])
  fix t assume "readable W xs + unat (s - r_head_sequence r) < L"
    "ring_wrap (r_head r + int (unat (s - r_head_sequence r))) (r_length r) =
       Some (int ((t + (readable W xs + unat (s - r_head_sequence r))) mod L))"
    "item_at (r_buff r) (int ((t + (readable W xs + unat (s - r_head_sequence r))) mod L)) =
       Some (slots (r_tail_sequence r) xs ! (readable W xs + unat (s - r_head_sequence r)))"
  then show ?thesis using free rel by (simp add: slots_nth null_item_def rcv_rel_def rcv_at_def)
qed

lemma rcv_push_no_space:
  assumes rel: "rcv_rel r L W xs" and s: "unat (s - r_head_sequence r) \<le> W"
    and free: "xs ! (readable W xs + unat (s - r_head_sequence r)) = None"
    and st: "sky_element_buffer_store b d = Some (e, b)" "e < 0"
  shows "rcvRing_push_rx_packet r b d s = Some (e, r, b)"
proof -
  have "horizon_width r = int W" using rel by (simp add: rcv_rel_def rcv_at_def)
  then show ?thesis using rcv_free_slot [OF rel s free] s st
    by (auto simp: rcvRing_push_rx_packet_def Let_def int_less_uint)
qed

lemma rcv_push_ok:
  assumes rel: "rcv_rel r L W xs" and s: "unat (s - r_head_sequence r) \<le> W"
    and k: "k = readable W xs + unat (s - r_head_sequence r)" and free: "xs ! k = None"
    and st: "sky_element_buffer_store b d = Some (int i, b')" and i: "i < 65530"
  obtains r' where
    "rcvRing_push_rx_packet r b d s = Some (int (readable W (xs[k := Some i]) - readable W xs), r', b')"
    "rcv_rel r' L W (xs[k := Some i])" "r_tail_sequence r' = r_tail_sequence r"
    "readable W xs \<le> readable W (xs[k := Some i])"
proof -
  have len: "length xs = L" "length (r_buff r) = L" and hz: "horizon_width r = int W"
    and WL: "W + 3 \<le> L" using rel by (simp_all add: rcv_rel_def rcv_at_def)
  obtain t where t: "t < L" "r_tail r = int t"
    "ring_wrap (r_head r + int (unat (s - r_head_sequence r))) (r_length r) = Some (int ((t + k) mod L))"
    "item_at (r_buff r) (int ((t + k) mod L)) = Some (slots (r_tail_sequence r) xs ! k)"
    "k < L" "s = r_tail_sequence r + of_nat k"
    using rcv_slot [OF rel s] k by metis
  define r1 where "r1 = r\<lparr>r_buff := (r_buff r)[(t + k) mod L := \<lparr>idx = i, sequence = s\<rparr>],
      r_storage_count := r_storage_count r + 1\<rparr>"
  have item: "idx (slots (r_tail_sequence r) xs ! k) = EB_NULL_IDX"
    using t(5) free len by (simp add: slots_nth null_item_def)
  have push: "rcvRing_push_rx_packet r b d s =
      Option.bind (rcvRing_advance_head r1) (\<lambda>(a, ring). Some (a, ring, b'))"
    using t item st s hz len item_set_window [of "r_buff r" L "t + k"]
    by (simp add: rcvRing_push_rx_packet_def Let_def int_less_uint r1_def)
  have rot: "rotate t (r_buff r1) = slots (r_tail_sequence r) (xs[k := Some i])"
    using rotate_update [of k "r_buff r" t] t len slots_update_Some [of k xs "r_tail_sequence r" i] rel
    by (auto simp: r1_def rcv_rel_def rcv_at_def)
  have ge: "readable W xs \<le> readable W (xs[k := Some i])"
  proof (rule readable_ge)
    show "\<forall>j < readable W xs. xs[k := Some i] ! j \<noteq> None"
      using readable_Some [of _ W xs] t(5) len by (metis nth_list_update_eq nth_list_update_neq option.distinct(1))
    show "readable W xs + W + 1 \<le> length (xs[k := Some i])" using readable_bound [of W xs] len WL by simp
  qed
  have "rcv_at r1 L W (xs[k := Some i]) (readable W xs)"
  proof -
    have hk: "k < length xs" using t(5) len by simp
    have set_h: "\<forall>h \<in> set (handles (xs[k := Some i])). h < 65530"
      using rel i unfolding rcv_rel_def rcv_at_def handles_update [OF hk free] handles_split [OF hk free] by auto
    have cnt: "r_storage_count r1 = int (length (handles (xs[k := Some i])))"
      using rel unfolding rcv_rel_def rcv_at_def handles_update [OF hk free] handles_split [OF hk free]
      by (simp add: r1_def)
    have beyond: "\<forall>j. readable W xs + W < j \<and> j < L \<longrightarrow> xs[k := Some i] ! j = None"
      using rel k s by (auto simp: rcv_rel_def rcv_at_def nth_list_update)
    show ?thesis using rel t(1,2) rot ge set_h cnt beyond by (auto simp: rcv_rel_def rcv_at_def r1_def)
  qed
  then obtain r' where "rcvRing_advance_head r1 = Some (int (readable W (xs[k := Some i]) - readable W xs), r')"
      "rcv_rel r' L W (xs[k := Some i])" "r_tail_sequence r' = r_tail_sequence r1"
    by (rule rcvRing_advance_head_ok)
  then show ?thesis using that push ge by (simp add: r1_def)
qed

lemma rcv_read_empty:
  "\<lbrakk> rcv_rel r L W xs; readable W xs = 0 \<rbrakk> \<Longrightarrow>
   rcvRing_read_next_received r b mx = Some (SKY_RET_RING_EMPTY, [], r, b)"
  by (simp add: rcvRing_read_next_received_def rcv_count)

lemma rcv_tail_item:
  assumes rel: "rcv_rel r L W (Some h # xs)"
  shows "item_at (r_buff r) (r_tail r) = Some \<lparr>idx = h, sequence = r_tail_sequence r\<rparr>"
proof (rule rcv_atE [OF rel [unfolded rcv_rel_def]])
  fix t assume "t < L" "r_tail r = int t" "rotate t (r_buff r) = slots (r_tail_sequence r) (Some h # xs)"
    "length (r_buff r) = L"
  then show ?thesis using item_at_window [of "r_buff r" L 0 t] by simp
qed

lemma rcv_read_too_long:
  assumes rel: "rcv_rel r L W (Some h # xs)" and n: "0 < readable W (Some h # xs)"
    and b: "eb_inv b" "eb_get b h = Some d" and len: "mx < length d"
  shows "rcvRing_read_next_received r b mx = Some (SKY_RET_EBUFFER_TOO_LONG_PAYLOAD, [], r, b)"
  using n len rcv_count [OF rel] rcv_tail_item [OF rel] eb.read_ok [OF b, of mx]
  by (simp add: rcvRing_read_next_received_def)

lemma rcv_read_ok:
  assumes rel: "rcv_rel r L W (Some h # xs)" and n: "0 < readable W (Some h # xs)"
    and b: "eb_inv b" "eb_get b h = Some d" and len: "length d \<le> mx"
  obtains r' b' where "rcvRing_read_next_received r b mx = Some (SKY_RET_OK, d, r', b')"
    "rcv_rel r' L W (xs @ [None])" "r_tail_sequence r' = r_tail_sequence r + 1"
    "readable W (Some h # xs) - 1 \<le> readable W (xs @ [None])"
    "eb_inv b'" "eb_get b' = (eb_get b)(h := None)" "eb_cost b' = eb_cost b"
    "element_count b' = element_count b"
proof -
  let ?xs = "Some h # xs" let ?n = "readable W (Some h # xs)"
  obtain t where t: "t < L" "r_tail r = int t" "r_head r = int ((t + ?n) mod L)"
    "rotate t (r_buff r) = slots (r_tail_sequence r) ?xs" "length (r_buff r) = L" "length ?xs = L"
    "r_length r = int L" "horizon_width r = int W" "W + 3 \<le> L" "L \<le> 256"
    using rcv_atE [OF rel [unfolded rcv_rel_def]] by metis
  obtain b' where b': "sky_element_buffer_delete b h = Some (0, b')" "eb_inv b'"
      "eb_get b' = (eb_get b)(h := None)" "eb_cost b' = eb_cost b" "element_count b' = element_count b"
    using eb.delete_ok [OF b] by blast
  define r1 where "r1 = r\<lparr>r_buff := (r_buff r)[t := null_item], r_storage_count := r_storage_count r - 1,
      r_tail := int (Suc t mod L), r_tail_sequence := r_tail_sequence r + 1\<rparr>"
  have read: "rcvRing_read_next_received r b mx =
      Option.bind (rcvRing_advance_head r1) (\<lambda>(_, ring). Some (SKY_RET_OK, d, ring, b'))"
    using n len rcv_count [OF rel] rcv_tail_item [OF rel] eb.read_ok [OF b, of mx] b'(1) t
      item_set_window [of "r_buff r" L t null_item] ring_wrap_succ [of L t]
    by (simp add: rcvRing_read_next_received_def r1_def)
  have "rotate t (r_buff r1) = null_item # slots (r_tail_sequence r + 1) xs"
    using rotate_update [of 0 "r_buff r" t null_item] t by (simp add: r1_def)
  then have "rotate (Suc t) (r_buff r1) = slots (r_tail_sequence r + 1) (xs @ [None])"
    by (simp add: rotate_Suc slots_append)
  then have rot: "rotate (Suc t mod L) (r_buff r1) = slots (r_tail_sequence r + 1) (xs @ [None])"
    using rotate_mod_length [of "r_buff r1" L "Suc t"] t(5) by (simp add: r1_def)
  have ge: "?n - 1 \<le> readable W (xs @ [None])"
  proof (rule readable_ge)
    show "\<forall>k < ?n - 1. (xs @ [None]) ! k \<noteq> None"
      using readable_Some [of "Suc k" W ?xs for k] readable_bound [of W ?xs] t(6,9) by (fastforce simp: nth_append)
    show "?n - 1 + W + 1 \<le> length (xs @ [None])" using readable_bound [of W ?xs] t(6,9) by simp
  qed
  have beyond: "(xs @ [None]) ! k = None" if "?n - 1 + W < k" "k < L" for k
    using that rel n t(6) by (auto simp: rcv_rel_def rcv_at_def nth_append dest!: spec [of _ "Suc k"])
  have "Suc t mod L < L" using t(1) by (intro mod_less_divisor) linarith
  moreover have "(Suc t mod L + (?n - 1)) mod L = (t + ?n) mod L"
    using mod_add_left_eq [of "Suc t" L "?n - 1"] n by simp
  ultimately have "\<exists>u < L. r_tail r1 = int u \<and> r_head r1 = int ((u + (?n - 1)) mod L) \<and>
      rotate u (r_buff r1) = slots (r_tail_sequence r1) (xs @ [None])"
    using rot t(3) by (intro exI [of _ "Suc t mod L"]) (simp add: r1_def)
  moreover have "r_head_sequence r1 = r_tail_sequence r1 + of_nat (?n - 1)"
    using rel n by (simp add: rcv_rel_def rcv_at_def r1_def of_nat_diff algebra_simps)
  ultimately have "rcv_at r1 L W (xs @ [None]) (?n - 1)"
    using rel ge beyond t(6) by (auto simp: rcv_rel_def rcv_at_def r1_def)
  then obtain r' where "rcvRing_advance_head r1 = Some (int (readable W (xs @ [None]) - (?n - 1)), r')"
      "rcv_rel r' L W (xs @ [None])" "r_tail_sequence r' = r_tail_sequence r1"
    by (rule rcvRing_advance_head_ok)
  then show ?thesis using that read b' ge by (simp add: r1_def)
qed

section \<open>The horizon bitmap\<close>

lemma bitmap_loop_bits:
  assumes rel: "rcv_rel r L W xs" and "is": "\<forall>i \<in> set is. i < W" "\<forall>i \<in> set is. i < 16"
  shows "\<exists>mk. bitmap_loop r m is = Some mk \<and>
    (\<forall>i. bit mk i \<longleftrightarrow> bit m i \<or> (i \<in> set is \<and> xs ! (readable W xs + 1 + i) \<noteq> None))"
  using "is"
proof (induction "is" arbitrary: m)
  case Nil
  then show ?case by simp
next
  case (Cons i "is")
  let ?n = "readable W xs"
  obtain t where t: "t < L" "r_tail r = int t" "r_head r = int ((t + ?n) mod L)"
    "rotate t (r_buff r) = slots (r_tail_sequence r) xs" "length (r_buff r) = L" "length xs = L"
    "r_length r = int L" "W + 3 \<le> L" "L \<le> 256" "W \<le> 64"
    using rcv_atE [OF rel [unfolded rcv_rel_def]] by metis
  have lt: "?n + (1 + i) < L" using readable_bound [of W xs] t Cons.prems by simp
  have "ring_wrap (r_head r + 1 + int i) (r_length r) = Some (int ((t + (?n + (1 + i))) mod L))"
    using ring_wrap_add [of L "1 + i" "t + ?n"] t Cons.prems by (simp add: algebra_simps)
  moreover have "item_at (r_buff r) (int ((t + (?n + (1 + i))) mod L)) = Some (slots (r_tail_sequence r) xs ! (?n + (1 + i)))"
    using item_at_window [of "r_buff r" L "?n + (1 + i)" t] t lt by simp
  moreover have "idx (slots (r_tail_sequence r) xs ! (?n + (1 + i))) = EB_NULL_IDX \<longleftrightarrow> xs ! (?n + 1 + i) = None"
    using slots_nth [of "?n + (1 + i)" xs] lt t(6) slot_handle [OF rel [unfolded rcv_rel_def] _ lt]
    by (auto simp: null_item_def eb_simps split: option.splits)
  ultimately have step: "bitmap_loop r m (i # is) =
      bitmap_loop r (if xs ! (?n + 1 + i) \<noteq> None then m OR push_bit i 1 else m) is" by simp
  show ?case unfolding step
    using Cons.IH [of "if xs ! (?n + 1 + i) \<noteq> None then m OR push_bit i 1 else m"] Cons.prems
    by (auto simp: bit_simps split: if_splits)
qed

lemma horizon_bitmap:
  assumes rel: "rcv_rel r L W xs"
  obtains mk where "rcvRing_get_horizon_bitmap r = Some mk"
    "\<And>i. bit mk i \<longleftrightarrow> i < W \<and> i < 16 \<and> xs ! (readable W xs + 1 + i) \<noteq> None"
proof -
  have "horizon_width r = int W" using rel by (simp add: rcv_rel_def rcv_at_def)
  then have "rcvRing_get_horizon_bitmap r = bitmap_loop r 0 [0..<min W 16]"
    by (simp add: rcvRing_get_horizon_bitmap_def Let_def min_def)
  moreover have "\<forall>i \<in> set [0..<min W 16]. i < W" "\<forall>i \<in> set [0..<min W 16]. i < 16" by auto
  from bitmap_loop_bits [OF rel this, of 0] obtain mk where "bitmap_loop r 0 [0..<min W 16] = Some mk"
      "\<forall>i. bit mk i \<longleftrightarrow> bit (0 :: sky_arq_mask_t) i \<or> (i \<in> set [0..<min W 16] \<and> xs ! (readable W xs + 1 + i) \<noteq> None)"
    by blast
  ultimately show ?thesis by (intro that [of mk]) simp_all
qed

end
