(* ===== verification/Fifo_Spec.thy ===== *)
theory Fifo_Spec
  imports Sky_Prelude
begin

text \<open>
  The contract of a queue of packets: what the upper stack may expect of a channel without ARQ, in
  the sending and in the receiving direction. \<open>rep s xs\<close> says that the state \<open>s\<close> represents the
  queue \<open>xs\<close>. A push either appends the packet and returns a value that is not negative or
  returns an error and keeps the queue; a pop takes the oldest packet. The interpretations are in
  \<open>Reliable_VC_Correct\<close>.
\<close>

datatype fifo_op = Push bytes | Pop

text \<open>A run of operations with the accepted and the delivered packets.\<close>

fun fifo_run :: "('s \<Rightarrow> bytes \<Rightarrow> (int \<times> 's) option) \<Rightarrow> ('s \<Rightarrow> (bytes option \<times> 's) option) \<Rightarrow> 's \<Rightarrow> fifo_op list \<Rightarrow>
    (bytes list \<times> bytes list \<times> 's) option" where
  "fifo_run push pop s [] = Some ([], [], s)"
| "fifo_run push pop s (Push d # ops) = do {
     (ret, s') \<leftarrow> push s d;
     (acc, del, s'') \<leftarrow> fifo_run push pop s' ops;
     Some (if 0 \<le> ret then d # acc else acc, del, s'')
   }"
| "fifo_run push pop s (Pop # ops) = do {
     (r, s') \<leftarrow> pop s;
     (acc, del, s'') \<leftarrow> fifo_run push pop s' ops;
     Some (acc, (case r of None \<Rightarrow> del | Some d \<Rightarrow> d # del), s'')
   }"

lemma run_accepts: "fifo_run push pop s ops = Some (acc, del, s') \<Longrightarrow> length acc \<le> length ops"
  by (induction push pop s ops arbitrary: acc del s' rule: fifo_run.induct)
    (fastforce simp: bind_eq_Some_conv split: if_splits option.splits)+

locale packet_fifo =
  fixes rep :: "'s \<Rightarrow> bytes list \<Rightarrow> bool"
    and ok :: "bytes \<Rightarrow> bool"
    and push :: "'s \<Rightarrow> bytes \<Rightarrow> (int \<times> 's) option"
    and pop :: "'s \<Rightarrow> (bytes option \<times> 's) option"
  assumes push_rep: "\<lbrakk> rep s xs; ok d \<rbrakk> \<Longrightarrow>
      \<exists>ret s'. push s d = Some (ret, s') \<and> rep s' (if 0 \<le> ret then xs @ [d] else xs)"
    and pop_rep: "rep s (d # xs) \<Longrightarrow> \<exists>s'. pop s = Some (Some d, s') \<and> rep s' xs"
    and pop_empty: "rep s [] \<Longrightarrow> pop s = Some (None, s)"
begin

text \<open>Packets come out in the order they went in, none is lost, duplicated or altered.\<close>

lemma run_fifo:
  assumes "rep s xs" "\<forall>d. Push d \<in> set ops \<longrightarrow> ok d"
  shows "\<exists>acc del s' ys. fifo_run push pop s ops = Some (acc, del, s') \<and> rep s' ys \<and> xs @ acc = del @ ys"
  using assms
proof (induction ops arbitrary: s xs)
  case Nil
  then show ?case by auto
next
  case (Cons op ops)
  show ?case
  proof (cases op)
    case (Push d)
    then have "ok d" using Cons.prems by simp
    then obtain ret s1 where s1: "push s d = Some (ret, s1)" "rep s1 (if 0 \<le> ret then xs @ [d] else xs)"
      using push_rep [OF Cons.prems(1)] by blast
    moreover from Cons.IH [OF s1(2)] Cons.prems(2) obtain acc del s' ys where
      "fifo_run push pop s1 ops = Some (acc, del, s')" "rep s' ys"
      "(if 0 \<le> ret then xs @ [d] else xs) @ acc = del @ ys" by auto
    ultimately show ?thesis by (auto simp: Push split: if_splits)
  next
    case Pop
    show ?thesis
    proof (cases xs)
      case Nil
      then have "pop s = Some (None, s)" using pop_empty Cons.prems(1) by simp
      then show ?thesis using Cons.IH [OF Cons.prems(1)] Cons.prems(2) Pop Nil by auto
    next
      case (Cons d zs)
      then obtain s1 where s1: "pop s = Some (Some d, s1)" "rep s1 zs" using pop_rep Cons.prems(1) by blast
      then show ?thesis using Cons.IH [OF s1(2)] Cons.prems(2) Pop Cons by auto
    qed
  qed
qed

lemma run_pops:
  assumes "rep s xs" "length xs \<le> n"
  shows "\<exists>s'. fifo_run push pop s (replicate n Pop) = Some ([], xs, s') \<and> rep s' []"
  using assms
proof (induction n arbitrary: s xs)
  case (Suc n)
  show ?case
  proof (cases xs)
    case Nil
    then show ?thesis using Suc.IH [of s "[]"] Suc.prems(1) pop_empty by auto
  next
    case (Cons d zs)
    then obtain s1 where "pop s = Some (Some d, s1)" "rep s1 zs" using pop_rep Suc.prems(1) by blast
    then show ?thesis using Suc.IH [of s1 zs] Suc.prems(2) Cons by auto
  qed
qed simp

lemma run_append:
  "fifo_run push pop s (ops @ ops') = do {
     (acc, del, s1) \<leftarrow> fifo_run push pop s ops;
     (acc', del', s2) \<leftarrow> fifo_run push pop s1 ops';
     Some (acc @ acc', del @ del', s2)
   }"
  by (induction push pop s ops rule: fifo_run.induct)
    (auto split: option.splits bind_splits simp: bind_eq_Some_conv)

text \<open>Draining the queue delivers every accepted packet.\<close>

lemma run_drain:
  assumes "rep s []" "\<forall>d. Push d \<in> set ops \<longrightarrow> ok d"
  shows "\<exists>acc s'. fifo_run push pop s (ops @ replicate (length ops) Pop) = Some (acc, acc, s') \<and> rep s' []"
proof -
  obtain acc del s1 ys where r: "fifo_run push pop s ops = Some (acc, del, s1)" "rep s1 ys" "acc = del @ ys"
    using run_fifo [OF assms] by auto
  have "length acc \<le> length ops" using run_accepts [OF r(1)] .
  then have "length ys \<le> length ops" using r(3) by simp
  from run_pops [OF r(2) this] obtain s' where
    "fifo_run push pop s1 (replicate (length ops) Pop) = Some ([], ys, s')" "rep s' []" by blast
  then show ?thesis using r by (auto simp: run_append)
qed

end

end
