(* ===== verification/Reliable_VC_Correct.thy ===== *)
theory Reliable_VC_Correct
  imports Reliable_VC Send_Ring_Correct Rcv_Ring_Correct Fifo_Spec
begin

text \<open>
  Correctness of the virtual channel. The abstract view of a channel is the list of packets in the
  send ring (of which the first \<open>m\<close> have been transmitted) and the list of receive slots, each
  empty or a payload. Both rings share one element buffer; the channel invariant says that the
  handles in the two rings are exactly the payloads in the buffer.
\<close>

section \<open>Payloads behind handles\<close>

definition payloads :: "SkyElementBuffer \<Rightarrow> nat list \<Rightarrow> bytes list" where
  "payloads b hs = map (\<lambda>h. the (eb_get b h)) hs"

definition slot_payloads :: "SkyElementBuffer \<Rightarrow> nat option list \<Rightarrow> bytes option list" where
  "slot_payloads b xs = map (map_option (\<lambda>h. the (eb_get b h))) xs"

lemma payloads_simps [simp]:
  "payloads b [] = []" "payloads b (h # hs) = the (eb_get b h) # payloads b hs"
  "payloads b (hs @ hs') = payloads b hs @ payloads b hs'" "length (payloads b hs) = length hs"
  "slot_payloads b [] = []" "length (slot_payloads b xs) = length xs"
  "slot_payloads b (x # xs) = map_option (\<lambda>h. the (eb_get b h)) x # slot_payloads b xs"
  "slot_payloads b (xs @ ys) = slot_payloads b xs @ slot_payloads b ys"
  "slot_payloads b (replicate n None) = replicate n None"
  by (simp_all add: payloads_def slot_payloads_def)

lemma payloads_cong:
  "(\<And>h. h \<in> set hs \<Longrightarrow> eb_get b' h = eb_get b h) \<Longrightarrow> payloads b' hs = payloads b hs"
  by (simp add: payloads_def)

lemma slot_payloads_cong:
  "(\<And>h. h \<in> set (handles xs) \<Longrightarrow> eb_get b' h = eb_get b h) \<Longrightarrow> slot_payloads b' xs = slot_payloads b xs"
  by (auto simp: slot_payloads_def set_handles intro!: option.map_cong0)

lemma payloads_drop: "payloads b (drop k hs) = drop k (payloads b hs)"
  by (simp add: payloads_def drop_map)

lemma slot_payloads_nth: "k < length xs \<Longrightarrow> slot_payloads b xs ! k = map_option (\<lambda>h. the (eb_get b h)) (xs ! k)"
  by (simp add: slot_payloads_def)

lemma slot_payloads_update:
  "slot_payloads b (xs[k := Some i]) = (slot_payloads b xs)[k := Some (the (eb_get b i))]"
  by (simp add: slot_payloads_def map_update)

lemma readable_slot_payloads [simp]: "readable W (slot_payloads b xs) = readable W xs"
  by (simp add: readable_def slot_payloads_def take_map takeWhile_map comp_def)

lemma holds_payloads: "\<lbrakk> distinct hs; set hs \<subseteq> dom (eb_get b) \<rbrakk> \<Longrightarrow> holds (eb_get b) hs (payloads b hs)"
  by (induction hs) (auto simp: holds_Cons)

section \<open>The channel invariant\<close>

definition vc_rel :: "SkyVirtualChannel \<Rightarrow> nat \<Rightarrow> nat \<Rightarrow> nat \<Rightarrow> nat list \<Rightarrow> nat \<Rightarrow> nat option list \<Rightarrow> bool" where
  "vc_rel v Ls Lr W hs m xs \<longleftrightarrow>
     send_rel (sendRing v) Ls hs m \<and> rcv_rel (rcvRing v) Lr W xs \<and> eb_inv (elementBuffer v) \<and>
     distinct (hs @ handles xs) \<and> dom (eb_get (elementBuffer v)) = set (hs @ handles xs) \<and>
     6 \<le> Ls \<and> Ls \<le> 250 \<and> 6 \<le> Lr \<and> Lr \<le> 250 \<and>
     (\<forall>n \<le> 281. eb_cost (elementBuffer v) n \<le> MAX_CHAIN) \<and>
     element_count (elementBuffer v) = (Ls + Lr - 2) * eb_cost (elementBuffer v) SKY_PAYLOAD_MAX_LEN \<and>
     (\<forall>d \<in> set (payloads (elementBuffer v) hs). length d \<le> SKY_PAYLOAD_MAX_LEN) \<and>
     arq_state_flag v \<in> {ARQ_STATE_OFF, ARQ_STATE_IN_INIT, ARQ_STATE_ON}"

text \<open>The channel seen from outside: the packets to send and the receive slots.\<close>

definition vc_view :: "SkyVirtualChannel \<Rightarrow> nat \<Rightarrow> nat \<Rightarrow> nat \<Rightarrow> bytes list \<Rightarrow> nat \<Rightarrow> bytes option list \<Rightarrow> bool" where
  "vc_view v Ls Lr W ds m ps \<longleftrightarrow>
     (\<exists>hs xs. vc_rel v Ls Lr W hs m xs \<and> ds = payloads (elementBuffer v) hs \<and>
        ps = slot_payloads (elementBuffer v) xs)"

definition vc_inv :: "SkyVirtualChannel \<Rightarrow> bool" where
  "vc_inv v \<longleftrightarrow> (\<exists>Ls Lr W ds m ps. vc_view v Ls Lr W ds m ps)"

lemma vc_relD:
  assumes "vc_rel v Ls Lr W hs m xs"
  shows "send_rel (sendRing v) Ls hs m" "rcv_rel (rcvRing v) Lr W xs" "eb_inv (elementBuffer v)"
    "distinct hs" "distinct (handles xs)" "set hs \<inter> set (handles xs) = {}"
    "set hs \<subseteq> dom (eb_get (elementBuffer v))" "set (handles xs) \<subseteq> dom (eb_get (elementBuffer v))"
    "dom (eb_get (elementBuffer v)) = set hs \<union> set (handles xs)"
    "\<forall>d \<in> set (payloads (elementBuffer v) hs). length d \<le> SKY_PAYLOAD_MAX_LEN"
    "holds (eb_get (elementBuffer v)) hs (payloads (elementBuffer v) hs)"
  using assms holds_payloads [of hs "elementBuffer v"] by (auto simp: vc_rel_def)

text \<open>Only the rings, the buffer and the state flag matter to the view.\<close>

lemma vc_view_cong:
  assumes "vc_view v Ls Lr W ds m ps" "sendRing v' = sendRing v" "rcvRing v' = rcvRing v"
    "elementBuffer v' = elementBuffer v" "arq_state_flag v' \<in> {ARQ_STATE_OFF, ARQ_STATE_IN_INIT, ARQ_STATE_ON}"
  shows "vc_view v' Ls Lr W ds m ps"
  using assms unfolding vc_view_def vc_rel_def by metis

lemma need_max: "\<lbrakk> 12 \<le> u; n \<le> 281 \<rbrakk> \<Longrightarrow> need u n \<le> MAX_CHAIN"
proof -
  assume u: "12 \<le> u" and n: "n \<le> 281"
  have "u * (need u n - 1) < n + 2" using need_bounds(2) [of u n] u by simp
  moreover have "12 * (need u n - 1) \<le> u * (need u n - 1)" using u by simp
  ultimately show ?thesis unfolding MAX_CHAIN_def using n by linarith
qed

lemma need_pl_bound: "12 \<le> u \<Longrightarrow> need u 181 \<le> 16"
proof -
  assume u: "12 \<le> u"
  have "u * (need u 181 - 1) < 183" using need_bounds(2) [of u 181] u by simp
  moreover have "12 * (need u 181 - 1) \<le> u * (need u 181 - 1)" using u by simp
  ultimately show ?thesis by linarith
qed

section \<open>Wiping and creation\<close>

lemma restrict_both: "dom m = A \<union> B \<Longrightarrow> m |` (- A) |` (- B) = Map.empty"
  by (auto simp: restrict_map_def fun_eq_iff)

lemma vc_view_empty:
  assumes "send_rel (sendRing v) Ls [] 0" "rcv_rel (rcvRing v) Lr W (replicate Lr None)"
    "eb_inv (elementBuffer v)" "eb_get (elementBuffer v) = Map.empty"
    "6 \<le> Ls" "Ls \<le> 250" "6 \<le> Lr" "Lr \<le> 250" "\<forall>n \<le> 281. eb_cost (elementBuffer v) n \<le> MAX_CHAIN"
    "element_count (elementBuffer v) = (Ls + Lr - 2) * eb_cost (elementBuffer v) SKY_PAYLOAD_MAX_LEN"
    "arq_state_flag v \<in> {ARQ_STATE_OFF, ARQ_STATE_IN_INIT, ARQ_STATE_ON}"
  shows "vc_view v Ls Lr W [] 0 (replicate Lr None)"
  unfolding vc_view_def vc_rel_def
  by (intro exI [of _ "[]"] exI [of _ "replicate Lr None"]) (use assms in simp)

lemma eb_wipe_inv:
  assumes "eb_inv b"
  shows "eb_inv (sky_element_buffer_wipe b)" "eb_get (sky_element_buffer_wipe b) = Map.empty"
    "eb_cost (sky_element_buffer_wipe b) = eb_cost b" "element_count (sky_element_buffer_wipe b) = element_count b"
proof -
  have "eb_sizes b" using assms by (auto simp: eb_inv_def eb_wf_def)
  then have wf: "eb_wf (sky_element_buffer_wipe b) []" by (intro wipe_wf) (auto simp: eb_sizes_def)
  then show "eb_inv (sky_element_buffer_wipe b)" by (auto simp: eb_inv_def)
  show "eb_get (sky_element_buffer_wipe b) = Map.empty" using dom_eb_get [OF wf] by simp
  show "eb_cost (sky_element_buffer_wipe b) = eb_cost b" "element_count (sky_element_buffer_wipe b) = element_count b"
    by (simp_all add: sky_element_buffer_wipe_def eb_cost_def usable_def)
qed

text \<open>Wiping both rings, in either order, empties the buffer.\<close>

lemma wipe_send_rcv:
  assumes rel: "vc_rel v Ls Lr W hs m xs"
  obtains s b1 r b2 where
    "sky_send_ring_wipe (sendRing v) (Some (elementBuffer v)) 0 = Some (s, Some b1)"
    "sky_rcv_ring_wipe (rcvRing v) (Some b1) 0 = Some (r, Some b2)" "send_rel s Ls [] 0"
    "rcv_rel r Lr W (replicate Lr None)" "eb_inv b2" "eb_get b2 = Map.empty"
    "eb_cost b2 = eb_cost (elementBuffer v)" "element_count b2 = element_count (elementBuffer v)"
proof -
  note D = vc_relD [OF rel]
  obtain s b1 where s: "sky_send_ring_wipe (sendRing v) (Some (elementBuffer v)) 0 = Some (s, Some b1)"
      "send_rel s Ls [] 0" "eb_inv b1" "eb_get b1 = eb_get (elementBuffer v) |` (- set hs)"
      "eb_cost b1 = eb_cost (elementBuffer v)" "element_count b1 = element_count (elementBuffer v)"
    using send_wipe_ok [OF D(1,3,4,7)] by metis
  have sub: "set (handles xs) \<subseteq> dom (eb_get b1)" using s(4) D(6,8) by (auto simp: restrict_map_def)
  obtain r b2 where "sky_rcv_ring_wipe (rcvRing v) (Some b1) 0 = Some (r, Some b2)"
      "rcv_rel r Lr W (replicate Lr None)" "eb_inv b2" "eb_get b2 = eb_get b1 |` (- set (handles xs))"
      "eb_cost b2 = eb_cost b1" "element_count b2 = element_count b1"
    using rcv_wipe_ok [OF D(2) s(3) D(5) sub] by metis
  then show ?thesis using that s restrict_both [OF D(9)] by metis
qed

lemma wipe_rcv_send:
  assumes rel: "vc_rel v Ls Lr W hs m xs"
  obtains r b1 s b2 where
    "sky_rcv_ring_wipe (rcvRing v) (Some (elementBuffer v)) 0 = Some (r, Some b1)"
    "sky_send_ring_wipe (sendRing v) (Some b1) 0 = Some (s, Some b2)" "send_rel s Ls [] 0"
    "rcv_rel r Lr W (replicate Lr None)" "eb_inv b2" "eb_get b2 = Map.empty"
    "eb_cost b2 = eb_cost (elementBuffer v)" "element_count b2 = element_count (elementBuffer v)"
proof -
  note D = vc_relD [OF rel]
  obtain r b1 where r: "sky_rcv_ring_wipe (rcvRing v) (Some (elementBuffer v)) 0 = Some (r, Some b1)"
      "rcv_rel r Lr W (replicate Lr None)" "eb_inv b1"
      "eb_get b1 = eb_get (elementBuffer v) |` (- set (handles xs))"
      "eb_cost b1 = eb_cost (elementBuffer v)" "element_count b1 = element_count (elementBuffer v)"
    using rcv_wipe_ok [OF D(2,3,5,8)] by metis
  have sub: "set hs \<subseteq> dom (eb_get b1)" using r(4) D(6,7) by (auto simp: restrict_map_def)
  obtain s b2 where "sky_send_ring_wipe (sendRing v) (Some b1) 0 = Some (s, Some b2)"
      "send_rel s Ls [] 0" "eb_inv b2" "eb_get b2 = eb_get b1 |` (- set hs)"
      "eb_cost b2 = eb_cost b1" "element_count b2 = element_count b1"
    using send_wipe_ok [OF D(1) r(3) D(4) sub] by metis
  moreover have "eb_get b1 |` (- set hs) = Map.empty"
    using r(4) restrict_both [of _ "set (handles xs)" "set hs"] D(9) by (simp add: Un_commute)
  ultimately show ?thesis using that r by metis
qed

lemma wipe_to_off:
  assumes "vc_view v Ls Lr W ds m ps"
  obtains v' where "sky_vc_wipe_to_arq_off_state v = Some v'" "vc_view v' Ls Lr W [] 0 (replicate Lr None)"
    "arq_state_flag v' = ARQ_STATE_OFF" "handshake_send v' = 0" "need_recall v' = 0"
proof -
  obtain hs xs where rel: "vc_rel v Ls Lr W hs m xs" using assms by (auto simp: vc_view_def)
  obtain s b1 r b2 where w: "sky_send_ring_wipe (sendRing v) (Some (elementBuffer v)) 0 = Some (s, Some b1)"
    "sky_rcv_ring_wipe (rcvRing v) (Some b1) 0 = Some (r, Some b2)" "send_rel s Ls [] 0"
    "rcv_rel r Lr W (replicate Lr None)" "eb_inv b2"
    "eb_cost b2 = eb_cost (elementBuffer v)" "element_count b2 = element_count (elementBuffer v)"
    using wipe_send_rcv [OF rel] by metis
  note e = eb_wipe_inv [OF w(5)]
  obtain v' where v': "sky_vc_wipe_to_arq_off_state v = Some v'" "sendRing v' = s" "rcvRing v' = r"
      "elementBuffer v' = sky_element_buffer_wipe b2" "arq_state_flag v' = ARQ_STATE_OFF"
      "handshake_send v' = 0" "need_recall v' = 0"
    using w(1,2) by (simp add: sky_vc_wipe_to_arq_off_state_def)
  have "vc_view v' Ls Lr W [] 0 (replicate Lr None)"
    by (rule vc_view_empty) (use w e rel v' in \<open>simp_all add: vc_rel_def\<close>)
  then show ?thesis using that v' by blast
qed

lemma wipe_to_init:
  assumes "vc_view v Ls Lr W ds m ps"
  obtains v' where "sky_vc_wipe_to_arq_init_state ticks v = Some v'" "vc_view v' Ls Lr W [] 0 (replicate Lr None)"
    "arq_state_flag v' = ARQ_STATE_IN_INIT" "arq_session_identifier v' = word_of_int ticks"
    "handshake_send v' = 0" "last_tx_tick v' = ticks" "last_rx_tick v' = ticks"
proof -
  obtain hs xs where rel: "vc_rel v Ls Lr W hs m xs" using assms by (auto simp: vc_view_def)
  obtain s b1 r b2 where w: "sky_rcv_ring_wipe (rcvRing v) (Some (elementBuffer v)) 0 = Some (r, Some b1)"
    "sky_send_ring_wipe (sendRing v) (Some b1) 0 = Some (s, Some b2)" "send_rel s Ls [] 0"
    "rcv_rel r Lr W (replicate Lr None)" "eb_inv b2" "eb_get b2 = Map.empty"
    "eb_cost b2 = eb_cost (elementBuffer v)" "element_count b2 = element_count (elementBuffer v)"
    using wipe_rcv_send [OF rel] by metis
  obtain v' where v': "sky_vc_wipe_to_arq_init_state ticks v = Some v'" "sendRing v' = s" "rcvRing v' = r"
      "elementBuffer v' = b2" "arq_state_flag v' = ARQ_STATE_IN_INIT" "arq_session_identifier v' = word_of_int ticks"
      "handshake_send v' = 0" "last_tx_tick v' = ticks" "last_rx_tick v' = ticks"
    using w(1,2) by (simp add: sky_vc_wipe_to_arq_init_state_def sky_get_tick_time_def)
  have "vc_view v' Ls Lr W [] 0 (replicate Lr None)"
    by (rule vc_view_empty) (use w rel v' in \<open>simp_all add: vc_rel_def\<close>)
  then show ?thesis using that v' by blast
qed

lemma wipe_to_on:
  assumes "vc_view v Ls Lr W ds m ps"
  obtains v' where "sky_vc_wipe_to_arq_on_state ticks v q = Some v'" "vc_view v' Ls Lr W [] 0 (replicate Lr None)"
    "arq_state_flag v' = ARQ_STATE_ON" "arq_session_identifier v' = q"
    "handshake_send v' = 1" "last_tx_tick v' = ticks" "last_rx_tick v' = ticks"
proof -
  obtain hs xs where rel: "vc_rel v Ls Lr W hs m xs" using assms by (auto simp: vc_view_def)
  obtain s b1 r b2 where w: "sky_rcv_ring_wipe (rcvRing v) (Some (elementBuffer v)) 0 = Some (r, Some b1)"
    "sky_send_ring_wipe (sendRing v) (Some b1) 0 = Some (s, Some b2)" "send_rel s Ls [] 0"
    "rcv_rel r Lr W (replicate Lr None)" "eb_inv b2" "eb_get b2 = Map.empty"
    "eb_cost b2 = eb_cost (elementBuffer v)" "element_count b2 = element_count (elementBuffer v)"
    using wipe_rcv_send [OF rel] by metis
  obtain v' where v': "sky_vc_wipe_to_arq_on_state ticks v q = Some v'" "sendRing v' = s" "rcvRing v' = r"
      "elementBuffer v' = b2" "arq_state_flag v' = ARQ_STATE_ON" "arq_session_identifier v' = q"
      "handshake_send v' = 1" "last_tx_tick v' = ticks" "last_rx_tick v' = ticks"
    using w(1,2) by (simp add: sky_vc_wipe_to_arq_on_state_def sky_get_tick_time_def)
  have "vc_view v' Ls Lr W [] 0 (replicate Lr None)"
    by (rule vc_view_empty) (use w rel v' in \<open>simp_all add: vc_rel_def\<close>)
  then show ?thesis using that v' by blast
qed

lemma requirement_needed:
  "sky_element_buffer_element_requirement (int u + 4) (int n) = (if 0 < u then Some (int (need u n)) else None)"
proof (cases "0 < u")
  case True
  have "int n + 2 + int u - 1 = int (n + 1 + u)" by simp
  then show ?thesis using True sdiv_pos_int [of "n + 1 + u" u]
    by (simp add: sky_element_buffer_element_requirement_def need_def EB_LEN_BYTES_def Let_def)
qed (simp add: sky_element_buffer_element_requirement_def)

lemma sanitised_bounds:
  fixes c defines "c' \<equiv> sanitise_vc_config c"
  shows "6 \<le> rcv_ring_len c'" "rcv_ring_len c' \<le> 250" "6 \<le> send_ring_len c'" "send_ring_len c' \<le> 250"
    "12 \<le> usable_element_size c'" "usable_element_size c' \<le> 500"
    "conf_horizon_width c' \<le> rcv_ring_len c' - 3" "0 \<le> conf_horizon_width c' \<longleftrightarrow> 0 \<le> conf_horizon_width c"
  by (auto simp: c'_def sanitise_vc_config_def Let_def)

lemma vc_create_ok:
  assumes "0 \<le> conf_horizon_width c"
  defines "c' \<equiv> sanitise_vc_config c"
  obtains v where "sky_vc_create uninit c = Some (c', v)"
    "vc_view v (nat (send_ring_len c')) (nat (rcv_ring_len c')) (min (nat (conf_horizon_width c')) 64) [] 0
       (replicate (nat (rcv_ring_len c')) None)"
    "arq_state_flag v = ARQ_STATE_OFF" "handshake_send v = 0" "need_recall v = 0"
proof -
  note bd = sanitised_bounds [of c, folded c'_def]
  define Ls Lr W u where "Ls = nat (send_ring_len c')" and "Lr = nat (rcv_ring_len c')"
    and "W = nat (conf_horizon_width c')" and "u = nat (usable_element_size c')"
  have ints: "send_ring_len c' = int Ls" "rcv_ring_len c' = int Lr" "conf_horizon_width c' = int W"
      "usable_element_size c' = int u" "6 \<le> Ls" "Ls \<le> 250" "6 \<le> Lr" "Lr \<le> 250" "W + 3 \<le> Lr" "12 \<le> u" "u \<le> 500"
    using bd assms(1) by (auto simp: Ls_def Lr_def W_def u_def)
  obtain s where s: "sky_send_ring_create (int Ls) 0 = Some (Some s)" "send_rel s Ls [] 0"
    using create_send_rel [of Ls 0] ints by auto
  obtain r where r: "sky_rcv_ring_create (int Lr) (int W) 0 = Some (Some r)"
      "rcv_rel r Lr (min W 64) (replicate Lr None)"
    using create_rcv_rel [of W Lr 0] ints by auto
  define n where "n = (Lr + Ls - 2) * need u 181"
  have "need u 181 \<le> 16" "0 < need u 181" using need_pl_bound need_pos ints by simp_all
  moreover have "Lr + Ls - 2 \<le> 498" "0 < Lr + Ls - 2" using ints by simp_all
  ultimately have n: "0 < n" "n \<le> 498 * 16" unfolding n_def by (simp, intro mult_le_mono)
  have slots: "int Lr + int Ls - 2 = int (Lr + Ls - 2)" using ints by simp
  have req: "compute_required_element_count (int u + 4) (int Lr + int Ls - 2) (int SKY_PAYLOAD_MAX_LEN) = Some (int n)"
  proof -
    have "int (Lr + Ls - 2) * int (need u 181) = int n" by (simp only: n_def of_nat_mult)
    moreover have "c_int (int n) = Some (int n)" using n by simp
    ultimately show ?thesis using requirement_needed [of u 181] ints(10) unfolding slots
      by (simp only: compute_required_element_count_def SKY_PAYLOAD_MAX_LEN_def) simp
  qed
  obtain b where b: "sky_element_buffer_create uninit (int u) (int n) = Some b" "eb_wf b []"
      "usable b = u" "element_count b = n"
    using create_wf [of "int u" "int n" uninit] ints n by (auto simp: eb_simps)
  define v0 where "v0 = \<lparr>elementBuffer = b, sendRing = s, rcvRing = r, arq_state_flag = 0, handshake_send = 0,
      arq_session_identifier = 0, need_recall = 0, last_tx_tick = 0, last_rx_tick = 0,
      last_ctrl_send_tick = 0, unconfirmed_payloads = 0\<rparr>"
  have "vc_view v0 Ls Lr (min W 64) [] 0 (replicate Lr None)"
  proof (rule vc_view_empty)
    show "eb_inv (elementBuffer v0)" using b(2) by (auto simp: eb_inv_def v0_def)
    show "eb_get (elementBuffer v0) = Map.empty" using dom_eb_get [OF b(2)] by (simp add: v0_def)
  qed (use s r b ints need_max in \<open>auto simp: v0_def eb_cost_def n_def SKY_PAYLOAD_MAX_LEN_def ARQ_STATE_OFF_def add.commute\<close>)
  then obtain v where v: "sky_vc_wipe_to_arq_off_state v0 = Some v" "vc_view v Ls Lr (min W 64) [] 0 (replicate Lr None)"
      "arq_state_flag v = ARQ_STATE_OFF" "handshake_send v = 0" "need_recall v = 0"
    by (rule wipe_to_off)
  have "sky_vc_create uninit c = Some (c', v)"
    unfolding sky_vc_create_def c'_def [symmetric] Let_def ints(1-4)
    using s(1) r(1) req b(1) v(1) by (simp add: v0_def)
  then show ?thesis using that v by (simp add: Ls_def Lr_def W_def)
qed

lemma vc_create_negative_horizon:
  assumes "conf_horizon_width c < 0"
  shows "sky_vc_create uninit c = None"
proof -
  have "\<not> 0 \<le> conf_horizon_width (sanitise_vc_config c)" using sanitised_bounds(8) [of c] assms by simp
  then have "sky_rcv_ring_create (rcv_ring_len (sanitise_vc_config c)) (conf_horizon_width (sanitise_vc_config c)) 0 = Some None"
    by (simp add: sky_rcv_ring_create_def)
  then show ?thesis by (simp add: sky_vc_create_def Let_def bind_eq_None_conv split: option.splits)
qed

section \<open>Room in the element buffer\<close>

lemma sum_cost_bound:
  "(\<And>d. d \<in> set ds \<Longrightarrow> length d \<le> n) \<Longrightarrow> (\<Sum>d \<leftarrow> ds. eb_cost b (length d)) \<le> length ds * eb_cost b n"
  by (induction ds) (auto simp: eb_cost_def intro: add_mono need_mono)

lemma payloads_handles: "set (payloads b (handles xs)) = {d. Some d \<in> set (slot_payloads b xs)}"
  by (auto simp: payloads_def slot_payloads_def set_handles image_iff)
     (metis option.collapse option.discI option.map_disc_iff option.map_sel option.sel)+

lemma vc_room:
  assumes rel: "vc_rel v Ls Lr W hs m xs" and d: "length d \<le> SKY_PAYLOAD_MAX_LEN"
    and small: "\<forall>d. Some d \<in> set (slot_payloads (elementBuffer v) xs) \<longrightarrow> length d \<le> SKY_PAYLOAD_MAX_LEN"
    and cnt: "length hs + length (handles xs) < Ls + Lr - 2"
  shows "int (eb_cost (elementBuffer v) (length d)) \<le> free_elements (elementBuffer v)"
proof -
  let ?b = "elementBuffer v" let ?hs = "hs @ handles xs" let ?c = "eb_cost (elementBuffer v) SKY_PAYLOAD_MAX_LEN"
  note D = vc_relD [OF rel]
  have "eb.owns ?b ?hs (payloads ?b ?hs)"
    using rel holds_payloads [of ?hs ?b] by (simp add: eb.owns_def vc_rel_def)
  then have free: "free_elements ?b = int (element_count ?b) - int (\<Sum>d \<leftarrow> payloads ?b ?hs. eb_cost ?b (length d))"
    by (rule eb.owns_free)
  have "(\<Sum>d \<leftarrow> payloads ?b ?hs. eb_cost ?b (length d)) \<le> length (payloads ?b ?hs) * ?c"
    by (rule sum_cost_bound) (use D(10) small payloads_handles [of ?b xs] in auto)
  moreover have "eb_cost ?b (length d) \<le> ?c" using d by (simp add: eb_cost_def need_mono)
  moreover have "Suc (length hs + length (handles xs)) * ?c \<le> (Ls + Lr - 2) * ?c"
    using cnt by (intro mult_le_mono1) simp
  ultimately have "(\<Sum>d \<leftarrow> payloads ?b ?hs. eb_cost ?b (length d)) + eb_cost ?b (length d) \<le> element_count ?b"
    using rel by (simp add: vc_rel_def)
  then show ?thesis unfolding free by linarith
qed

section \<open>Sending\<close>

text \<open>The state after the rings and the buffer have changed, as long as the geometry is kept.\<close>

lemma vc_relI:
  assumes rel: "vc_rel v Ls Lr W hs m xs"
    and s: "send_rel (sendRing v') Ls hs' m'" and r: "rcv_rel (rcvRing v') Lr W xs'"
    and b: "eb_inv (elementBuffer v')" "eb_cost (elementBuffer v') = eb_cost (elementBuffer v)"
      "element_count (elementBuffer v') = element_count (elementBuffer v)"
    and hs: "distinct (hs' @ handles xs')" "dom (eb_get (elementBuffer v')) = set (hs' @ handles xs')"
      "\<forall>d \<in> set (payloads (elementBuffer v') hs'). length d \<le> SKY_PAYLOAD_MAX_LEN"
    and st: "arq_state_flag v' = arq_state_flag v"
  shows "vc_rel v' Ls Lr W hs' m' xs'"
  using assms by (simp add: vc_rel_def)

lemma vc_push_ok:
  assumes view: "vc_view v Ls Lr W ds m ps" and d: "length d \<le> SKY_PAYLOAD_MAX_LEN"
    and ring: "Suc (length ds) < Ls"
    and room: "int (eb_cost (elementBuffer v) (length d)) \<le> free_elements (elementBuffer v)"
  obtains v' where
    "sky_vc_push_packet_to_send v d = Some (int (unat (s_tail_sequence (sendRing v) + of_nat (length ds))), v')"
    "vc_view v' Ls Lr W (ds @ [d]) m ps" "s_tail_sequence (sendRing v') = s_tail_sequence (sendRing v)"
    "pending_resends (sendRing v') = pending_resends (sendRing v)" "arq_state_flag v' = arq_state_flag v"
    "rcvRing v' = rcvRing v"
proof -
  obtain hs xs where rel: "vc_rel v Ls Lr W hs m xs" and ds: "ds = payloads (elementBuffer v) hs"
    and ps: "ps = slot_payloads (elementBuffer v) xs" using view by (auto simp: vc_view_def)
  note D = vc_relD [OF rel]
  let ?b = "elementBuffer v"
  have len: "length d \<le> 65535" "eb_cost ?b (length d) \<le> MAX_CHAIN"
    using d rel by (simp_all add: vc_rel_def SKY_PAYLOAD_MAX_LEN_def)
  obtain i b' where b': "sky_element_buffer_store ?b d = Some (int i, b')" "eb_inv b'" "eb_get ?b i = None"
      "eb_get b' = (eb_get ?b)(i \<mapsto> d)" "eb_cost b' = eb_cost ?b" "element_count b' = element_count ?b"
    using eb.store_ok [OF D(3) len room] by blast
  have i: "i < 65530" using eb.handle_bound [OF b'(2), of i d] b'(4) by simp
  have ni: "i \<notin> set hs" "i \<notin> set (handles xs)" using b'(3) D(7,8) by auto
  have lhs: "Suc (length hs) < Ls" using ring ds by simp
  obtain s' where s': "sendRing_push_packet_to_send (sendRing v) ?b d =
       Some (int (unat (s_tail_sequence (sendRing v) + of_nat (length hs))), s', b')"
    "send_rel s' Ls (hs @ [i]) m" "s_tail_sequence s' = s_tail_sequence (sendRing v)"
    "pending_resends s' = pending_resends (sendRing v)"
    using send_push_ok [OF D(1) lhs b'(1) i] by metis
  define v' where "v' = v\<lparr>sendRing := s', elementBuffer := b'\<rparr>"
  have pay: "payloads b' hs = payloads ?b hs" "slot_payloads b' xs = slot_payloads ?b xs"
    using ni b'(4) by (auto intro: payloads_cong slot_payloads_cong)
  have "vc_rel v' Ls Lr W (hs @ [i]) m xs"
    by (rule vc_relI [OF rel]) (use s' b' D ni pay d in \<open>auto simp: v'_def\<close>)
  then have "vc_view v' Ls Lr W (ds @ [d]) m ps"
    unfolding vc_view_def
    by (intro exI [of _ "hs @ [i]"] exI [of _ xs]) (use pay ds ps b'(4) in \<open>simp add: v'_def\<close>)
  moreover have "sky_vc_push_packet_to_send v d =
      Some (int (unat (s_tail_sequence (sendRing v) + of_nat (length ds))), v')"
    using d s'(1) ds by (simp add: sky_vc_push_packet_to_send_def v'_def)
  ultimately show ?thesis using that s' by (simp add: v'_def)
qed

lemma vc_push_refused:
  assumes view: "vc_view v Ls Lr W ds m ps"
  shows "SKY_PAYLOAD_MAX_LEN < length d \<Longrightarrow> sky_vc_push_packet_to_send v d = Some (SKY_RET_TOO_LONG_PAYLOAD, v)"
    "\<lbrakk> length d \<le> SKY_PAYLOAD_MAX_LEN; Suc (length ds) = Ls \<rbrakk> \<Longrightarrow>
       sky_vc_push_packet_to_send v d = Some (SKY_RET_RING_RING_FULL, v)"
    "\<lbrakk> length d \<le> SKY_PAYLOAD_MAX_LEN; Suc (length ds) < Ls;
       free_elements (elementBuffer v) < int (eb_cost (elementBuffer v) (length d)) \<rbrakk> \<Longrightarrow>
       sky_vc_push_packet_to_send v d = Some (SKY_RET_EBUFFER_NO_SPACE, v)"
proof -
  obtain hs xs where rel: "vc_rel v Ls Lr W hs m xs" and ds: "ds = payloads (elementBuffer v) hs"
    using view by (auto simp: vc_view_def)
  note D = vc_relD [OF rel]
  show "SKY_PAYLOAD_MAX_LEN < length d \<Longrightarrow> sky_vc_push_packet_to_send v d = Some (SKY_RET_TOO_LONG_PAYLOAD, v)"
    by (simp add: sky_vc_push_packet_to_send_def)
  show "sky_vc_push_packet_to_send v d = Some (SKY_RET_RING_RING_FULL, v)"
    if "length d \<le> SKY_PAYLOAD_MAX_LEN" "Suc (length ds) = Ls"
    using that ds send_push_full [OF D(1)] by (simp add: sky_vc_push_packet_to_send_def)
  show "sky_vc_push_packet_to_send v d = Some (SKY_RET_EBUFFER_NO_SPACE, v)"
    if "length d \<le> SKY_PAYLOAD_MAX_LEN" "Suc (length ds) < Ls"
      "free_elements (elementBuffer v) < int (eb_cost (elementBuffer v) (length d))"
  proof -
    have "sky_element_buffer_store (elementBuffer v) d = Some (SKY_RET_EBUFFER_NO_SPACE, elementBuffer v)"
      using eb.store_full [OF D(3), of d] that by (simp add: SKY_PAYLOAD_MAX_LEN_def)
    then show ?thesis using that ds send_push_no_space [OF D(1), of "elementBuffer v" d]
      by (simp add: sky_vc_push_packet_to_send_def ret_codes)
  qed
qed

text \<open>Acknowledging the packets before sequence \<open>s\<close>.\<close>

lemma vc_clean:
  assumes rel: "vc_rel v Ls Lr W hs m xs" and k: "k = unat (s - s_tail_sequence (sendRing v))" "k \<le> m"
  obtains s' b' where "sendRing_clean_tail_up_to (sendRing v) (elementBuffer v) s = Some (int k, s', b')"
    "vc_rel (v\<lparr>sendRing := s', elementBuffer := b'\<rparr>) Ls Lr W (drop k hs) (m - k) xs"
    "payloads b' (drop k hs) = drop k (payloads (elementBuffer v) hs)"
    "slot_payloads b' xs = slot_payloads (elementBuffer v) xs" "s_tail_sequence s' = s"
    "tx_sequence s' = tx_sequence (sendRing v)" "pending_resends s' = pending_resends (sendRing v)"
proof -
  note D = vc_relD [OF rel]
  let ?b = "elementBuffer v"
  obtain s' b' where c: "sendRing_clean_tail_up_to (sendRing v) ?b s = Some (int k, s', b')"
      "send_rel s' Ls (drop k hs) (m - k)" "s_tail_sequence s' = s"
      "pending_resends s' = pending_resends (sendRing v)" "tx_sequence s' = tx_sequence (sendRing v)"
      "eb_inv b'" "eb_get b' = eb_get ?b |` (- set (take k hs))" "eb_cost b' = eb_cost ?b"
      "element_count b' = element_count ?b"
    using clean_tail_ok [OF D(1) k(2) [unfolded k(1)] D(3,4,7)] unfolding k(1) by metis
  have tk: "set (take k hs) \<union> set (drop k hs) = set hs" by (metis append_take_drop_id set_append)
  have td: "set (take k hs) \<inter> set (drop k hs) = {}" using D(4) by (simp add: set_take_disj_set_drop_if_distinct)
  have pay: "payloads b' (drop k hs) = payloads ?b (drop k hs)" "slot_payloads b' xs = slot_payloads ?b xs"
    using c(7) td D(6) set_take_subset [of k hs]
    by (auto simp: restrict_map_def intro!: payloads_cong slot_payloads_cong)
  have "vc_rel (v\<lparr>sendRing := s', elementBuffer := b'\<rparr>) Ls Lr W (drop k hs) (m - k) xs"
  proof (rule vc_relI [OF rel])
    show "distinct (drop k hs @ handles xs)" using D(4,5,6) set_drop_subset [of k hs] by auto
    have "dom (eb_get b') = (set hs \<union> set (handles xs)) - set (take k hs)" using c(7) D(9) by auto
    also have "\<dots> = set (drop k hs) \<union> set (handles xs)" using tk td D(6) by blast
    finally show "dom (eb_get (elementBuffer (v\<lparr>sendRing := s', elementBuffer := b'\<rparr>))) = set (drop k hs @ handles xs)"
      by simp
    show "\<forall>d \<in> set (payloads (elementBuffer (v\<lparr>sendRing := s', elementBuffer := b'\<rparr>)) (drop k hs)). length d \<le> SKY_PAYLOAD_MAX_LEN"
      using D(10) pay(1) by (auto simp: payloads_drop dest: in_set_dropD)
  qed (use c D in simp_all)
  then show ?thesis using that c pay by (simp add: payloads_drop)
qed

lemma read_monotonic_ok:
  assumes view: "vc_view v Ls Lr W ds m ps" and m: "m < length ds"
  obtains v' where
    "sky_vc_read_packet_for_tx_monotonic v = Some (Inr (ds ! m, s_tail_sequence (sendRing v) + of_nat m), v')"
    "vc_view v' Ls Lr W (drop (Suc m) ds) 0 ps"
    "s_tail_sequence (sendRing v') = s_tail_sequence (sendRing v) + of_nat (Suc m)"
    "arq_state_flag v' = arq_state_flag v" "rcvRing v' = rcvRing v"
proof -
  obtain hs xs where rel: "vc_rel v Ls Lr W hs m xs" and ds: "ds = payloads (elementBuffer v) hs"
    and ps: "ps = slot_payloads (elementBuffer v) xs" using view by (auto simp: vc_view_def)
  note D = vc_relD [OF rel]
  let ?b = "elementBuffer v" let ?q = "s_tail_sequence (sendRing v)"
  have mh: "m < length hs" using m ds by simp
  have "ds ! m \<in> set (payloads ?b hs)" using m ds by simp
  then have "length (ds ! m) \<le> 281" using D(10) by (fastforce simp: SKY_PAYLOAD_MAX_LEN_def)
  moreover have "eb_get ?b (hs ! m) = Some (ds ! m)" using holds_nth [OF D(11) mh] ds by simp
  ultimately obtain s1 where s1: "sendRing_read_new_packet_to_tx (sendRing v) ?b =
        Some (Inr (ds ! m, tx_sequence (sendRing v)), s1)" "send_rel s1 Ls hs (Suc m)"
      "s_tail_sequence s1 = ?q" "tx_sequence s1 = tx_sequence (sendRing v) + 1"
    using read_new_ok [OF D(1) mh D(3)] by metis
  have tx: "tx_sequence (sendRing v) = ?q + of_nat m" using D(1) by (simp add: send_rel_def)
  have L: "Suc m < 256" using D(1) m ds by (simp add: send_rel_def)
  have rel1: "vc_rel (v\<lparr>sendRing := s1\<rparr>) Ls Lr W hs (Suc m) xs"
    by (rule vc_relI [OF rel]) (use s1 D in auto)
  have k: "Suc m = unat (tx_sequence s1 - s_tail_sequence (sendRing (v\<lparr>sendRing := s1\<rparr>)))"
    using unat_seq_diff [OF L, of ?q] s1(3,4) tx by (simp add: algebra_simps)
  obtain s2 b2 where c: "sendRing_clean_tail_up_to s1 ?b (tx_sequence s1) = Some (int (Suc m), s2, b2)"
      "vc_rel (v\<lparr>sendRing := s2, elementBuffer := b2\<rparr>) Ls Lr W (drop (Suc m) hs) 0 xs"
      "payloads b2 (drop (Suc m) hs) = drop (Suc m) (payloads ?b hs)"
      "slot_payloads b2 xs = slot_payloads ?b xs" "s_tail_sequence s2 = tx_sequence s1"
    using vc_clean [OF rel1 k order_refl] by (simp del: of_nat_Suc) blast
  have "sky_vc_read_packet_for_tx_monotonic v =
      Some (Inr (ds ! m, ?q + of_nat m), v\<lparr>sendRing := s2, elementBuffer := b2\<rparr>)"
    using s1(1) c(1) tx by (simp add: sky_vc_read_packet_for_tx_monotonic_def sendRing_read_to_tx_def)
  moreover have "vc_view (v\<lparr>sendRing := s2, elementBuffer := b2\<rparr>) Ls Lr W (drop (Suc m) ds) 0 ps"
    using c ds ps unfolding vc_view_def by fastforce
  ultimately show ?thesis using that c(5) s1(4) tx by (simp add: algebra_simps)
qed

lemma read_monotonic_empty:
  assumes "vc_view v Ls Lr W ds (length ds) ps"
  shows "sky_vc_read_packet_for_tx_monotonic v = Some (Inl SKY_RET_RING_EMPTY, v)"
proof -
  obtain hs xs where rel: "vc_rel v Ls Lr W hs (length ds) xs" and ds: "ds = payloads (elementBuffer v) hs"
    using assms by (auto simp: vc_view_def)
  then have "send_rel (sendRing v) Ls hs (length hs)" using vc_relD(1) [OF rel] ds by simp
  then show ?thesis
    using read_new_empty [of "sendRing v" Ls hs "elementBuffer v"]
    by (simp add: sky_vc_read_packet_for_tx_monotonic_def sendRing_read_to_tx_def)
qed

section \<open>Receiving\<close>

lemma vc_count_readable:
  "vc_view v Ls Lr W ds m ps \<Longrightarrow> sky_vc_count_readable_rcv_packets v = Some (int (readable W ps))"
  using rcv_count vc_relD(2) by (fastforce simp: vc_view_def sky_vc_count_readable_rcv_packets_def)

lemma vc_read_ok:
  assumes view: "vc_view v Ls Lr W ds m (Some d # ps)" and n: "0 < readable W (Some d # ps)"
    and len: "length d \<le> mx"
  obtains v' where "sky_vc_read_next_received v mx = Some (SKY_RET_OK, d, v')"
    "vc_view v' Ls Lr W ds m (ps @ [None])" "sendRing v' = sendRing v" "arq_state_flag v' = arq_state_flag v"
    "r_tail_sequence (rcvRing v') = r_tail_sequence (rcvRing v) + 1"
proof -
  let ?b = "elementBuffer v"
  obtain hs xs0 where rel0: "vc_rel v Ls Lr W hs m xs0" and ds: "ds = payloads ?b hs"
    and ps0: "Some d # ps = slot_payloads ?b xs0" using view by (auto simp: vc_view_def)
  obtain h xs where xs: "xs0 = Some h # xs" and ps: "ps = slot_payloads ?b xs" and hd: "the (eb_get ?b h) = d"
    using ps0 by (cases xs0) (auto simp: map_option_case split: option.splits)
  have rel: "vc_rel v Ls Lr W hs m (Some h # xs)" using rel0 xs by simp
  note D = vc_relD [OF rel]
  have gh: "eb_get ?b h = Some d" using D(8) hd by auto
  have n': "0 < readable W (Some h # xs)" using n ps0 xs readable_slot_payloads [of W ?b xs0] by simp
  obtain r' b' where r': "rcvRing_read_next_received (rcvRing v) ?b mx = Some (SKY_RET_OK, d, r', b')"
      "rcv_rel r' Lr W (xs @ [None])" "r_tail_sequence r' = r_tail_sequence (rcvRing v) + 1"
      "eb_inv b'" "eb_get b' = (eb_get ?b)(h := None)" "eb_cost b' = eb_cost ?b"
      "element_count b' = element_count ?b"
    using rcv_read_ok [OF D(2) n' D(3) gh len] by metis
  have nh: "h \<notin> set hs" "h \<notin> set (handles xs)" using D(5,6) by auto
  have pay: "payloads b' hs = payloads ?b hs" "slot_payloads b' xs = slot_payloads ?b xs"
    using nh r'(5) by (auto intro: payloads_cong slot_payloads_cong)
  define v' where "v' = v\<lparr>rcvRing := r', elementBuffer := b'\<rparr>"
  have "vc_rel v' Ls Lr W hs m (xs @ [None])"
    by (rule vc_relI [OF rel]) (use r' D nh pay in \<open>auto simp: v'_def\<close>)
  then have "vc_view v' Ls Lr W ds m (ps @ [None])"
    unfolding vc_view_def
    by (intro exI [of _ hs] exI [of _ "xs @ [None]"]) (use pay ds ps in \<open>simp add: v'_def\<close>)
  then show ?thesis using that r'(1,3) by (simp add: sky_vc_read_next_received_def v'_def)
qed

lemma vc_read_empty:
  "\<lbrakk> vc_view v Ls Lr W ds m ps; readable W ps = 0 \<rbrakk> \<Longrightarrow>
   sky_vc_read_next_received v mx = Some (SKY_RET_RING_EMPTY, [], v)"
  using rcv_read_empty vc_relD(2)
  by (fastforce simp: vc_view_def sky_vc_read_next_received_def)

lemma vc_read_too_long:
  assumes view: "vc_view v Ls Lr W ds m (Some d # ps)" and n: "0 < readable W (Some d # ps)"
    and len: "mx < length d"
  shows "sky_vc_read_next_received v mx = Some (SKY_RET_EBUFFER_TOO_LONG_PAYLOAD, [], v)"
proof -
  let ?b = "elementBuffer v"
  obtain hs xs0 where rel0: "vc_rel v Ls Lr W hs m xs0" and ps0: "Some d # ps = slot_payloads ?b xs0"
    using view by (auto simp: vc_view_def)
  obtain h xs where xs: "xs0 = Some h # xs" and hd: "the (eb_get ?b h) = d"
    using ps0 by (cases xs0) (auto simp: map_option_case split: option.splits)
  note D = vc_relD [OF rel0 [unfolded xs]]
  have gh: "eb_get ?b h = Some d" using D(8) hd by auto
  have "0 < readable W (Some h # xs)" using n ps0 xs readable_slot_payloads [of W ?b xs0] by simp
  from rcv_read_too_long [OF D(2) this D(3) gh len] show ?thesis
    by (simp add: sky_vc_read_next_received_def)
qed

text \<open>
  Storing a packet in slot \<open>k\<close> of the receive window. The result is the number of packets that
  became readable.
\<close>

lemma vc_rx_store:
  assumes view: "vc_view v Ls Lr W ds m ps" and d: "length d \<le> 281"
    and s: "unat (s - r_head_sequence (rcvRing v)) \<le> W"
    and k: "k = readable W ps + unat (s - r_head_sequence (rcvRing v))" and free: "ps ! k = None"
    and room: "int (eb_cost (elementBuffer v) (length d)) \<le> free_elements (elementBuffer v)"
  obtains r' b' where "rcvRing_push_rx_packet (rcvRing v) (elementBuffer v) d s =
      Some (int (readable W (ps[k := Some d]) - readable W ps), r', b')"
    "vc_view (v\<lparr>rcvRing := r', elementBuffer := b'\<rparr>) Ls Lr W ds m (ps[k := Some d])"
    "r_tail_sequence r' = r_tail_sequence (rcvRing v)" "k < Lr" "readable W ps \<le> readable W (ps[k := Some d])"
proof -
  let ?b = "elementBuffer v"
  obtain hs xs where rel: "vc_rel v Ls Lr W hs m xs" and ds: "ds = payloads ?b hs"
    and ps: "ps = slot_payloads ?b xs" using view by (auto simp: vc_view_def)
  note D = vc_relD [OF rel]
  have len: "length d \<le> 65535" "eb_cost ?b (length d) \<le> MAX_CHAIN"
    using d rel by (simp_all add: vc_rel_def)
  obtain i b' where b': "sky_element_buffer_store ?b d = Some (int i, b')" "eb_inv b'" "eb_get ?b i = None"
      "eb_get b' = (eb_get ?b)(i \<mapsto> d)" "eb_cost b' = eb_cost ?b" "element_count b' = element_count ?b"
    using eb.store_ok [OF D(3) len room] by blast
  have i: "i < 65530" using eb.handle_bound [OF b'(2), of i d] b'(4) by simp
  have ni: "i \<notin> set hs" "i \<notin> set (handles xs)" using b'(3) D(7,8) by auto
  have k': "k = readable W xs + unat (s - r_head_sequence (rcvRing v))" using k ps by simp
  have kL: "k < Lr" using rcv_slot [OF D(2) s] k' by metis
  have lx: "length xs = Lr" using D(2) by (simp add: rcv_rel_def rcv_at_def)
  then have fx: "xs ! k = None" using free ps kL by (simp add: slot_payloads_nth)
  obtain r' where r': "rcvRing_push_rx_packet (rcvRing v) ?b d s =
        Some (int (readable W (xs[k := Some i]) - readable W xs), r', b')"
      "rcv_rel r' Lr W (xs[k := Some i])" "r_tail_sequence r' = r_tail_sequence (rcvRing v)"
      "readable W xs \<le> readable W (xs[k := Some i])"
    using rcv_push_ok [OF D(2) s k' fx b'(1) i] by metis
  have pay: "payloads b' hs = payloads ?b hs" "slot_payloads b' xs = slot_payloads ?b xs"
    using ni b'(4) by (auto intro: payloads_cong slot_payloads_cong)
  have psk: "slot_payloads b' (xs[k := Some i]) = ps[k := Some d]"
    using pay b'(4) ps by (simp add: slot_payloads_update)
  have rd: "readable W (xs[k := Some i]) = readable W (ps[k := Some d])" "readable W xs = readable W ps"
    using psk ps readable_slot_payloads by metis+
  have hk: "k < length xs" using kL lx by simp
  have hset: "set (handles (xs[k := Some i])) = insert i (set (handles xs))"
    "distinct (handles (xs[k := Some i]))"
    using ni(2) D(5) unfolding handles_update [OF hk fx] handles_split [OF hk fx] by auto
  have "vc_rel (v\<lparr>rcvRing := r', elementBuffer := b'\<rparr>) Ls Lr W hs m (xs[k := Some i])"
    by (rule vc_relI [OF rel]) (use r' b' D ni pay hset in auto)
  then have "vc_view (v\<lparr>rcvRing := r', elementBuffer := b'\<rparr>) Ls Lr W ds m (ps[k := Some d])"
    unfolding vc_view_def
    by (intro exI [of _ hs] exI [of _ "xs[k := Some i]"]) (use pay psk ds in simp)
  then show ?thesis using that r' kL rd by simp
qed

text \<open>The refusals leave the channel as it is.\<close>

lemma vc_rx_refused:
  assumes view: "vc_view v Ls Lr W ds m ps" and d: "length d \<le> 281"
  shows "W < unat (s - r_head_sequence (rcvRing v)) \<Longrightarrow>
      rcvRing_push_rx_packet (rcvRing v) (elementBuffer v) d s =
        Some (SKY_RET_RING_INVALID_SEQUENCE, rcvRing v, elementBuffer v)"
    "\<lbrakk> unat (s - r_head_sequence (rcvRing v)) \<le> W; ps ! (readable W ps + unat (s - r_head_sequence (rcvRing v))) \<noteq> None \<rbrakk> \<Longrightarrow>
      rcvRing_push_rx_packet (rcvRing v) (elementBuffer v) d s =
        Some (SKY_RET_RING_PACKET_ALREADY_IN, rcvRing v, elementBuffer v)"
    "\<lbrakk> unat (s - r_head_sequence (rcvRing v)) \<le> W; ps ! (readable W ps + unat (s - r_head_sequence (rcvRing v))) = None;
       free_elements (elementBuffer v) < int (eb_cost (elementBuffer v) (length d)) \<rbrakk> \<Longrightarrow>
      rcvRing_push_rx_packet (rcvRing v) (elementBuffer v) d s =
        Some (SKY_RET_EBUFFER_NO_SPACE, rcvRing v, elementBuffer v)"
proof -
  let ?b = "elementBuffer v"
  obtain hs xs where rel: "vc_rel v Ls Lr W hs m xs" and ps: "ps = slot_payloads ?b xs"
    using view by (auto simp: vc_view_def)
  note D = vc_relD [OF rel]
  have lx: "length xs = Lr" using D(2) by (simp add: rcv_rel_def rcv_at_def)
  have slot: "ps ! (readable W ps + unat (s - r_head_sequence (rcvRing v))) = None \<longleftrightarrow>
      xs ! (readable W xs + unat (s - r_head_sequence (rcvRing v))) = None"
    if "unat (s - r_head_sequence (rcvRing v)) \<le> W"
    by (rule rcv_slot [OF D(2) that]) (use ps lx in \<open>simp add: slot_payloads_nth\<close>)
  show "rcvRing_push_rx_packet (rcvRing v) ?b d s = Some (SKY_RET_RING_INVALID_SEQUENCE, rcvRing v, ?b)"
    if "W < unat (s - r_head_sequence (rcvRing v))"
    using rcv_push_invalid [OF D(2) that] .
  show "rcvRing_push_rx_packet (rcvRing v) ?b d s = Some (SKY_RET_RING_PACKET_ALREADY_IN, rcvRing v, ?b)"
    if "unat (s - r_head_sequence (rcvRing v)) \<le> W" "ps ! (readable W ps + unat (s - r_head_sequence (rcvRing v))) \<noteq> None"
    using rcv_push_duplicate [OF D(2) that(1), of ?b d] that slot [OF that(1)] by simp
  show "rcvRing_push_rx_packet (rcvRing v) ?b d s = Some (SKY_RET_EBUFFER_NO_SPACE, rcvRing v, ?b)"
    if "unat (s - r_head_sequence (rcvRing v)) \<le> W" "ps ! (readable W ps + unat (s - r_head_sequence (rcvRing v))) = None"
      "free_elements ?b < int (eb_cost ?b (length d))"
  proof -
    have "sky_element_buffer_store ?b d = Some (SKY_RET_EBUFFER_NO_SPACE, ?b)"
      using eb.store_full [OF D(3), of d] that(3) d by simp
    then show ?thesis using rcv_push_no_space [OF D(2) that(1), of ?b d] that(2) slot [OF that(1)]
      by (simp add: ret_codes)
  qed
qed

lemma vc_rx_any:
  assumes view: "vc_view v Ls Lr W ds m ps" and d: "length d \<le> 281"
  obtains (stored) k r' b' where "k = readable W ps + unat (s - r_head_sequence (rcvRing v))"
      "unat (s - r_head_sequence (rcvRing v)) \<le> W" "k < Lr" "ps ! k = None"
      "rcvRing_push_rx_packet (rcvRing v) (elementBuffer v) d s =
         Some (int (readable W (ps[k := Some d]) - readable W ps), r', b')"
      "vc_view (v\<lparr>rcvRing := r', elementBuffer := b'\<rparr>) Ls Lr W ds m (ps[k := Some d])"
      "r_tail_sequence r' = r_tail_sequence (rcvRing v)" "readable W ps \<le> readable W (ps[k := Some d])"
    | (refused) e where "e < 0"
      "rcvRing_push_rx_packet (rcvRing v) (elementBuffer v) d s = Some (e, rcvRing v, elementBuffer v)"
proof -
  let ?k = "readable W ps + unat (s - r_head_sequence (rcvRing v))"
  note R = vc_rx_refused [OF view d, of s]
  consider "W < unat (s - r_head_sequence (rcvRing v))"
    | "unat (s - r_head_sequence (rcvRing v)) \<le> W" "ps ! ?k \<noteq> None"
    | "unat (s - r_head_sequence (rcvRing v)) \<le> W" "ps ! ?k = None"
      "free_elements (elementBuffer v) < int (eb_cost (elementBuffer v) (length d))"
    | "unat (s - r_head_sequence (rcvRing v)) \<le> W" "ps ! ?k = None"
      "int (eb_cost (elementBuffer v) (length d)) \<le> free_elements (elementBuffer v)"
    by linarith
  then show ?thesis
  proof cases
    case 4
    from vc_rx_store [OF view d 4(1) refl 4(2,3)] obtain r' b' where
      "rcvRing_push_rx_packet (rcvRing v) (elementBuffer v) d s =
         Some (int (readable W (ps[?k := Some d]) - readable W ps), r', b')"
      "vc_view (v\<lparr>rcvRing := r', elementBuffer := b'\<rparr>) Ls Lr W ds m (ps[?k := Some d])"
      "r_tail_sequence r' = r_tail_sequence (rcvRing v)" "?k < Lr" "readable W ps \<le> readable W (ps[?k := Some d])"
      by metis
    then show ?thesis using stored [OF refl] 4(1,2) by blast
  qed (use R refused in \<open>auto simp: ret_codes\<close>)
qed

text \<open>A channel without ARQ keeps the receive slots contiguous: it is a queue.\<close>

lemma readable_contiguous:
  assumes "length xs + j = L" "W + 1 \<le> L"
  shows "readable W (map Some xs @ replicate j None) = min (length xs) (L - W - 1)"
proof -
  have "takeWhile (\<lambda>x. x \<noteq> None) (take n (map Some xs @ replicate j None)) = map Some (take n xs)" for n
    by (cases "n - length xs"; cases j) (auto simp: takeWhile_append take_map)
  then have "readable W (map Some xs @ replicate j None) =
      length (map Some (take (length (map Some xs @ replicate j (None :: 'a option)) - W - 1) xs))"
    unfolding readable_def by (simp only:)
  then show ?thesis using assms by simp
qed

definition rx_queue :: "SkyVirtualChannel \<Rightarrow> bytes list \<Rightarrow> bool" where
  "rx_queue v xs \<longleftrightarrow> (\<exists>Ls Lr W ds m. vc_view v Ls Lr W ds m (map Some xs @ replicate (Lr - length xs) None) \<and>
     length xs \<le> Lr - W)"

definition tx_queue :: "SkyVirtualChannel \<Rightarrow> bytes list \<Rightarrow> bool" where
  "tx_queue v xs \<longleftrightarrow> (\<exists>Ls Lr W ps. vc_view v Ls Lr W xs 0 ps)"

definition vc_pop_received :: "SkyVirtualChannel \<Rightarrow> (bytes option \<times> SkyVirtualChannel) option" where
  "vc_pop_received v = do {
     (ret, bs, v') \<leftarrow> sky_vc_read_next_received v 65535;
     Some (if ret = SKY_RET_OK then Some bs else None, v')
   }"

definition vc_pop_to_send :: "SkyVirtualChannel \<Rightarrow> (bytes option \<times> SkyVirtualChannel) option" where
  "vc_pop_to_send v = do {
     (r, v') \<leftarrow> sky_vc_read_packet_for_tx_monotonic v;
     Some (case r of Inr (bs, _) \<Rightarrow> Some bs | Inl _ \<Rightarrow> None, v')
   }"

lemma vc_view_lengths:
  assumes "vc_view v Ls Lr W ds m ps"
  shows "length ps = Lr" "W + 3 \<le> Lr" "length ds < Ls" "m \<le> length ds" "Lr \<le> 250" "Ls \<le> 250" "W \<le> 64"
    "r_head_sequence (rcvRing v) = r_tail_sequence (rcvRing v) + of_nat (readable W ps)"
    "tx_sequence (sendRing v) = s_tail_sequence (sendRing v) + of_nat m"
  using assms by (auto simp: vc_view_def vc_rel_def send_rel_def rcv_rel_def rcv_at_def)

lemma vc_view_payload_bound:
  assumes "vc_view v Ls Lr W ds m ps"
  shows "d \<in> set ds \<Longrightarrow> length d \<le> SKY_PAYLOAD_MAX_LEN" "Some d \<in> set ps \<Longrightarrow> length d \<le> 65535"
proof -
  obtain hs xs where rel: "vc_rel v Ls Lr W hs m xs" and ds: "ds = payloads (elementBuffer v) hs"
    and ps: "ps = slot_payloads (elementBuffer v) xs" using assms by (auto simp: vc_view_def)
  note D = vc_relD [OF rel]
  show "d \<in> set ds \<Longrightarrow> length d \<le> SKY_PAYLOAD_MAX_LEN" using D(10) ds by simp
  assume "Some d \<in> set ps"
  then have "d \<in> set (payloads (elementBuffer v) (handles xs))" using ps payloads_handles by simp
  then obtain h where "h \<in> set (handles xs)" "d = the (eb_get (elementBuffer v) h)" by (auto simp: payloads_def)
  then have "eb_get (elementBuffer v) h = Some d" using D(8) by auto
  from eb_inv_get [OF D(3) this] show "length d \<le> 65535"
    using length_chain_payload chain_len_bound by metis
qed

interpretation rxq: packet_fifo rx_queue "\<lambda>d. length d \<le> 281" sky_vc_push_rx_packet_monotonic vc_pop_received
proof (unfold_locales, goal_cases)
  case (1 v xs d)
  then obtain Ls Lr W ds m where view: "vc_view v Ls Lr W ds m (map Some xs @ replicate (Lr - length xs) None)"
    and le: "length xs \<le> Lr - W" by (auto simp: rx_queue_def)
  note L = vc_view_lengths [OF view]
  let ?ps = "map Some xs @ replicate (Lr - length xs) None"
  have n: "readable W ?ps = min (length xs) (Lr - W - 1)"
    using L le by (intro readable_contiguous) auto
  show ?case
  proof (cases rule: vc_rx_any [OF view 1(2), of "r_head_sequence (rcvRing v)", case_names stored refused])
    case (stored k r' b')
    then have k: "k = length xs" using n le L(2) by (auto simp: min_def nth_append split: if_splits)
    have "replicate (Lr - length xs) None = None # replicate (Lr - Suc (length xs)) (None :: bytes option)"
      using stored(3) k by (simp add: Suc_diff_Suc flip: replicate_Suc)
    then have "?ps[k := Some d] = map Some (xs @ [d]) @ replicate (Lr - length (xs @ [d])) None"
      using k by (simp add: list_update_append)
    moreover have "length (xs @ [d]) \<le> Lr - W" using stored(1) k n L(2) by (simp add: min_def split: if_splits)
    ultimately have "rx_queue (v\<lparr>rcvRing := r', elementBuffer := b'\<rparr>) (xs @ [d])"
      using stored(6) unfolding rx_queue_def by metis
    then show ?thesis using stored(5) by (simp add: sky_vc_push_rx_packet_monotonic_def)
  next
    case (refused e)
    have "v\<lparr>rcvRing := rcvRing v, elementBuffer := elementBuffer v\<rparr> = v" by simp
    then show ?thesis using refused 1(1) by (simp add: sky_vc_push_rx_packet_monotonic_def)
  qed
next
  case (2 v d xs)
  then obtain Ls Lr W ds m where view: "vc_view v Ls Lr W ds m (map Some (d # xs) @ replicate (Lr - length (d # xs)) None)"
    and le: "length (d # xs) \<le> Lr - W" by (auto simp: rx_queue_def)
  note L = vc_view_lengths [OF view]
  let ?ps = "map Some xs @ replicate (Lr - length (d # xs)) None"
  have v1: "vc_view v Ls Lr W ds m (Some d # ?ps)" using view by simp
  have "readable W (Some d # ?ps) = min (length (d # xs)) (Lr - W - 1)"
    using L le readable_contiguous [of "d # xs" "Lr - length (d # xs)" Lr W] by simp
  then have n: "0 < readable W (Some d # ?ps)" using L(2) by simp
  have len: "length d \<le> 65535" by (rule vc_view_payload_bound(2) [OF v1]) simp
  obtain v' where v': "sky_vc_read_next_received v 65535 = Some (SKY_RET_OK, d, v')"
      "vc_view v' Ls Lr W ds m (?ps @ [None])"
    using vc_read_ok [OF v1 n len] by metis
  have "?ps @ [None] = map Some xs @ replicate (Lr - length xs) None"
    using le L(2) by (simp add: replicate_append_same Suc_diff_Suc flip: replicate_Suc)
  then have "rx_queue v' xs" using v'(2) le unfolding rx_queue_def by (metis Suc_leD length_Cons)
  then show ?case using v'(1) by (simp add: vc_pop_received_def)
next
  case (3 v)
  then obtain Ls Lr W ds m where view: "vc_view v Ls Lr W ds m (replicate Lr None)"
    by (auto simp: rx_queue_def)
  have "readable W (replicate Lr (None :: bytes option)) = 0" by (cases "Lr - W - 1") (simp_all add: readable_def)
  then show ?case using vc_read_empty [OF view] by (simp add: vc_pop_received_def ret_codes)
qed

interpretation txq: packet_fifo tx_queue "\<lambda>d. True" sky_vc_push_packet_to_send vc_pop_to_send
proof (unfold_locales, goal_cases)
  case (1 v xs d)
  then obtain Ls Lr W ps where view: "vc_view v Ls Lr W xs 0 ps" by (auto simp: tx_queue_def)
  note R = vc_push_refused [OF view, of d]
  consider "SKY_PAYLOAD_MAX_LEN < length d" | "length d \<le> SKY_PAYLOAD_MAX_LEN" "Suc (length xs) = Ls"
    | "length d \<le> SKY_PAYLOAD_MAX_LEN" "Suc (length xs) < Ls"
      "free_elements (elementBuffer v) < int (eb_cost (elementBuffer v) (length d))"
    | "length d \<le> SKY_PAYLOAD_MAX_LEN" "Suc (length xs) < Ls"
      "int (eb_cost (elementBuffer v) (length d)) \<le> free_elements (elementBuffer v)"
    using vc_view_lengths(3) [OF view] by linarith
  then show ?case
  proof cases
    case 4
    from vc_push_ok [OF view 4] obtain v' where
      "sky_vc_push_packet_to_send v d = Some (int (unat (s_tail_sequence (sendRing v) + of_nat (length xs))), v')"
      "vc_view v' Ls Lr W (xs @ [d]) 0 ps" by metis
    then show ?thesis by (auto simp: tx_queue_def)
  qed (use R 1(1) in \<open>auto simp: ret_codes\<close>)
next
  case (2 v d xs)
  then obtain Ls Lr W ps where view: "vc_view v Ls Lr W (d # xs) 0 ps" by (auto simp: tx_queue_def)
  then obtain v' where "sky_vc_read_packet_for_tx_monotonic v = Some (Inr (d, s_tail_sequence (sendRing v)), v')"
      "vc_view v' Ls Lr W xs 0 ps"
    using read_monotonic_ok [OF view] by auto
  then show ?case by (auto simp: vc_pop_to_send_def tx_queue_def)
next
  case (3 v)
  then obtain Ls Lr W ps where "vc_view v Ls Lr W [] (length ([] :: bytes list)) ps" by (auto simp: tx_queue_def)
  from read_monotonic_empty [OF this] show ?case by (simp add: vc_pop_to_send_def)
qed

end
