(* ===== verification/Mac.thy ===== *)
theory Mac
  imports Reliable_VC
begin

text \<open>
  \<open>src/mac.c\<close>: time division duplexing. The cycle is own window, gap, peer window, tail, and
  starts at \<open>T0\<close>. The MAC's pointer to its configuration is the argument \<open>c\<close>. Times are
  \<open>int32_t\<close> ticks; sums are checked for signed overflow.
\<close>

section \<open>Model\<close>

definition SKY_NUM_VIRTUAL_CHANNELS :: nat where "SKY_NUM_VIRTUAL_CHANNELS = 4"

record SkyMACConfig =
  maximum_window_length_ticks :: int
  minimum_window_length_ticks :: int
  gap_constant_ticks :: int
  tail_constant_ticks :: int
  shift_threshold_ticks :: int
  idle_timeout_ticks :: int
  window_adjust_increment_ticks :: int
  carrier_sense_ticks :: int
  unauthenticated_mac_updates :: byte
  window_adjustment_period :: int
  mac_idle_frames_per_window :: nat

record SkyMAC =
  T0 :: sky_tick_t
  my_window_length :: sky_tick_t
  peer_window_length :: sky_tick_t
  last_belief_update :: sky_tick_t
  window_adjust_counter :: int
  vc_round_robin_start :: nat
  window_on :: bool
  unused_window_time :: bool
  frames_sent_in_current_window_per_vc :: "u16 list"
  total_frames_sent_in_current_window :: u16

definition c_add :: "int \<Rightarrow> int \<Rightarrow> int option" where "c_add a b = c_int (a + b)"
definition c_sub :: "int \<Rightarrow> int \<Rightarrow> int option" where "c_sub a b = c_int (a - b)"

definition get_mac_cycle :: "SkyMACConfig \<Rightarrow> SkyMAC \<Rightarrow> sky_tick_t option" where
  "get_mac_cycle c mac = do {
     a \<leftarrow> c_add (my_window_length mac) (gap_constant_ticks c);
     b \<leftarrow> c_add a (peer_window_length mac);
     c_add b (tail_constant_ticks c)
   }"

definition wrap_tdd_cycle :: "SkyMACConfig \<Rightarrow> SkyMAC \<Rightarrow> sky_tick_t \<Rightarrow> sky_tick_t option" where
  "wrap_tdd_cycle c mac ticks = do { m \<leftarrow> get_mac_cycle c mac; positive_modulo ticks m }"

text \<open>The sanitised configuration is written back; \<open>carrier_sense_ticks\<close> is an \<open>int16_t\<close>.\<close>

definition sanitise_mac_config :: "SkyMACConfig \<Rightarrow> SkyMACConfig option" where
  "sanitise_mac_config c0 = do {
     let c1 = (if minimum_window_length_ticks c0 > maximum_window_length_ticks c0
               then c0\<lparr>maximum_window_length_ticks := minimum_window_length_ticks c0\<rparr> else c0);
     let c2 = (if mac_idle_frames_per_window c1 > 3 then c1\<lparr>mac_idle_frames_per_window := 3\<rparr> else c1);
     let c3 = (if idle_timeout_ticks c2 < 5000 \<or> idle_timeout_ticks c2 > 90000
               then c2\<lparr>idle_timeout_ticks := 25000\<rparr> else c2);
     lim \<leftarrow> c_add (minimum_window_length_ticks c3) (gap_constant_ticks c3);
     let c4 = (if carrier_sense_ticks c3 \<ge> lim then c3\<lparr>carrier_sense_ticks := to_i16 lim\<rparr> else c3);
     let c5 = (if window_adjustment_period c4 < 1 then c4\<lparr>window_adjustment_period := 1\<rparr> else c4);
     Some (if window_adjustment_period c5 > 4 then c5\<lparr>window_adjustment_period := 4\<rparr> else c5)
   }"

definition sky_mac_create :: "SkyMACConfig \<Rightarrow> (SkyMACConfig \<times> SkyMAC) option" where
  "sky_mac_create config = do {
     c \<leftarrow> sanitise_mac_config config;
     Some (c, \<lparr>T0 = 0, my_window_length = minimum_window_length_ticks c,
               peer_window_length = minimum_window_length_ticks c,
               last_belief_update = MOD_TIME_TICKS - 300000, window_adjust_counter = 0,
               vc_round_robin_start = 0, window_on = False, unused_window_time = False,
               frames_sent_in_current_window_per_vc = replicate SKY_NUM_VIRTUAL_CHANNELS 0,
               total_frames_sent_in_current_window = 0\<rparr>)
   }"

definition mac_shift_windowing :: "SkyMAC \<Rightarrow> sky_tick_t \<Rightarrow> SkyMAC option" where
  "mac_shift_windowing mac t_shift = do {
     s \<leftarrow> (if t_shift > 0 then Some t_shift else c_int (- t_shift));
     d \<leftarrow> c_sub (T0 mac) s;
     t \<leftarrow> wrap_time_ticks d;
     Some (mac\<lparr>T0 := t\<rparr>)
   }"

text \<open>\<open>mac->T0 = wrap_time_ticks(now - get_mac_cycle(mac))\<close>\<close>

definition start_cycle_now :: "SkyMACConfig \<Rightarrow> SkyMAC \<Rightarrow> sky_tick_t \<Rightarrow> SkyMAC option" where
  "start_cycle_now c mac now = do {
     m \<leftarrow> get_mac_cycle c mac;
     d \<leftarrow> c_sub now m;
     t \<leftarrow> wrap_time_ticks d;
     Some (mac\<lparr>T0 := t\<rparr>)
   }"

definition mac_expand_window :: "SkyMACConfig \<Rightarrow> SkyMAC \<Rightarrow> sky_tick_t \<Rightarrow> SkyMAC option" where
  "mac_expand_window c mac now = do {
     w \<leftarrow> c_add (my_window_length mac) (window_adjust_increment_ticks c);
     start_cycle_now c (mac\<lparr>my_window_length :=
       (if w > maximum_window_length_ticks c then maximum_window_length_ticks c else w)\<rparr>) now
   }"

definition mac_shrink_window :: "SkyMACConfig \<Rightarrow> SkyMAC \<Rightarrow> sky_tick_t \<Rightarrow> SkyMAC option" where
  "mac_shrink_window c mac now = do {
     w \<leftarrow> c_sub (my_window_length mac) (window_adjust_increment_ticks c);
     start_cycle_now c (mac\<lparr>my_window_length :=
       (if w < minimum_window_length_ticks c then minimum_window_length_ticks c else w)\<rparr>) now
   }"

text \<open>\<open>wrap_tdd_cycle(mac, wrap_time_ticks(now - start))\<close>\<close>

definition cycle_offset :: "SkyMACConfig \<Rightarrow> SkyMAC \<Rightarrow> sky_tick_t \<Rightarrow> sky_tick_t \<Rightarrow> int option" where
  "cycle_offset c mac now start = do {
     d \<leftarrow> c_sub now start;
     w \<leftarrow> wrap_time_ticks d;
     wrap_tdd_cycle c mac w
   }"

definition mac_time_to_own_window :: "SkyMACConfig \<Rightarrow> SkyMAC \<Rightarrow> sky_tick_t \<Rightarrow> int option" where
  "mac_time_to_own_window c mac now = do {
     dt \<leftarrow> cycle_offset c mac now (T0 mac);
     if dt < my_window_length mac then Some 0
     else do { m \<leftarrow> get_mac_cycle c mac; c_sub m dt }
   }"

definition mac_own_window_remaining :: "SkyMACConfig \<Rightarrow> SkyMAC \<Rightarrow> sky_tick_t \<Rightarrow> int option" where
  "mac_own_window_remaining c mac now = do {
     dt \<leftarrow> cycle_offset c mac now (T0 mac);
     c_sub (my_window_length mac) dt
   }"

definition mac_peer_window_remaining :: "SkyMACConfig \<Rightarrow> SkyMAC \<Rightarrow> sky_tick_t \<Rightarrow> int option" where
  "mac_peer_window_remaining c mac now = do {
     a \<leftarrow> c_add (T0 mac) (my_window_length mac);
     peer_window_starts \<leftarrow> c_add a (gap_constant_ticks c);
     dt \<leftarrow> cycle_offset c mac now peer_window_starts;
     c_sub (peer_window_length mac) dt
   }"

definition mac_can_send :: "SkyMACConfig \<Rightarrow> SkyMAC \<Rightarrow> sky_tick_t \<Rightarrow> bool option" where
  "mac_can_send c mac now = map_option (\<lambda>r. r > 0) (mac_own_window_remaining c mac now)"

definition reset_frame_counts :: "SkyMAC \<Rightarrow> SkyMAC" where
  "reset_frame_counts mac =
     mac\<lparr>total_frames_sent_in_current_window := 0,
         frames_sent_in_current_window_per_vc := replicate SKY_NUM_VIRTUAL_CHANNELS 0\<rparr>"

definition mac_update_belief ::
    "SkyMACConfig \<Rightarrow> SkyMAC \<Rightarrow> sky_tick_t \<Rightarrow> sky_tick_t \<Rightarrow> sky_tick_t \<Rightarrow> sky_tick_t \<Rightarrow> SkyMAC option" where
  "mac_update_belief c mac now receive_time peer_mac_length0 peer_mac_remaining0 = do {
     let peer_mac_length =
       (if peer_mac_length0 < minimum_window_length_ticks c then minimum_window_length_ticks c
        else if peer_mac_length0 > maximum_window_length_ticks c then maximum_window_length_ticks c
        else peer_mac_length0);
     let peer_mac_remaining =
       (if peer_mac_remaining0 > peer_mac_length then peer_mac_length else peer_mac_remaining0);
     now1 \<leftarrow> (if now < receive_time
             then do { d \<leftarrow> c_sub now receive_time; w \<leftarrow> wrap_time_ticks d; c_add receive_time w }
             else Some now);
     let mac1 = mac\<lparr>last_belief_update := now, peer_window_length := peer_mac_length\<rparr>;
     cycle \<leftarrow> get_mac_cycle c mac1;
     back \<leftarrow> c_sub (tail_constant_ticks c) cycle;
     a \<leftarrow> c_add receive_time peer_mac_remaining;
     implied_t0 \<leftarrow> c_add a back;
     minimum_t0 \<leftarrow> c_add now1 back;
     t \<leftarrow> wrap_time_ticks (if implied_t0 < minimum_t0 then minimum_t0 else implied_t0);
     Some (reset_frame_counts (mac1\<lparr>T0 := t\<rparr>))
   }"

definition mac_reset :: "SkyMACConfig \<Rightarrow> SkyMAC \<Rightarrow> sky_tick_t \<Rightarrow> SkyMAC option" where
  "mac_reset c mac now =
     start_cycle_now c
       (mac\<lparr>window_adjust_counter := 0, my_window_length := minimum_window_length_ticks c\<rparr>) now"

definition sky_mac_carrier_sensed :: "SkyMACConfig \<Rightarrow> SkyMAC \<Rightarrow> sky_tick_t \<Rightarrow> SkyMAC option" where
  "sky_mac_carrier_sensed c mac now = do {
     ticks_to_own_window_priori \<leftarrow> mac_time_to_own_window c mac now;
     if ticks_to_own_window_priori \<le> carrier_sense_ticks c then do {
       cycle \<leftarrow> get_mac_cycle c mac;
       d \<leftarrow> c_sub now cycle;
       e \<leftarrow> c_add d (carrier_sense_ticks c);
       t \<leftarrow> wrap_time_ticks e;
       Some (mac\<lparr>T0 := t\<rparr>)
     }
     else Some mac
   }"

definition mac_idle_frame_needed :: "SkyMACConfig \<Rightarrow> SkyMAC \<Rightarrow> sky_tick_t \<Rightarrow> bool option" where
  "mac_idle_frame_needed c mac now =
     (if mac_idle_frames_per_window c = 0 then Some False
      else do {
        t \<leftarrow> ticks_since now (last_belief_update mac);
        if t > idle_timeout_ticks c then Some False
        else Some (unat (total_frames_sent_in_current_window mac) < mac_idle_frames_per_window c)
      })"

definition mac_set_frame_fields ::
    "SkyHeaderLayout \<Rightarrow> SkyMACConfig \<Rightarrow> SkyMAC \<Rightarrow> SkyTransmitFrame \<Rightarrow> sky_tick_t \<Rightarrow> SkyTransmitFrame option" where
  "mac_set_frame_fields ly c mac tx_frame now = do {
     r \<leftarrow> mac_own_window_remaining c mac now;
     let remaining = (if r < 1 then 1 else r);
     sky_frame_add_extension_mac_tdd_control ly tx_frame (word_of_int (my_window_length mac)) (word_of_int remaining)
   }"

end
