(* ===== verification/Sky_Handle.thy ===== *)
theory Sky_Handle
  imports Mac
begin

text \<open>
  The protocol instance: \<open>skylink/conf.h\<close> (configuration), \<open>skylink/diag.h\<close> and \<open>src/diag.c\<close>
  (diagnostics counters), \<open>skylink/hmac.h\<close> (authentication state) and \<open>struct sky_all\<close> of
  \<open>skylink/skylink.h\<close>. The diagnostics counters are \<open>uint16_t\<close> and wrap.
\<close>

section \<open>Diagnostics\<close>

record SkyVCDiagnostics =
  vc_arq_retransmits :: u16
  vc_tx_frames :: u16
  vc_rx_frames :: u16

record SkyDiagnostics =
  rx_frames :: u16
  rx_bytes :: u16
  rx_fec_ok :: u16
  rx_fec_fail :: u16
  rx_fec_octs :: u16
  rx_fec_errs :: u16
  rx_hmac_fail :: u16
  rx_arq_resets :: u16
  tx_frames :: u16
  tx_bytes :: u16
  vc_stats :: "SkyVCDiagnostics list"

definition sky_diag_create :: SkyDiagnostics where
  "sky_diag_create =
     \<lparr>rx_frames = 0, rx_bytes = 0, rx_fec_ok = 0, rx_fec_fail = 0, rx_fec_octs = 0, rx_fec_errs = 0,
      rx_hmac_fail = 0, rx_arq_resets = 0, tx_frames = 0, tx_bytes = 0,
      vc_stats = replicate SKY_NUM_VIRTUAL_CHANNELS
                   \<lparr>vc_arq_retransmits = 0, vc_tx_frames = 0, vc_rx_frames = 0\<rparr>\<rparr>"

definition sky_diag_clear :: "SkyDiagnostics \<Rightarrow> SkyDiagnostics" where
  "sky_diag_clear d = sky_diag_create"

definition count_hmac_fail :: "SkyDiagnostics \<Rightarrow> SkyDiagnostics" where
  "count_hmac_fail d = d\<lparr>rx_hmac_fail := rx_hmac_fail d + 1\<rparr>"

definition count_vc_rx_frame :: "SkyDiagnostics \<Rightarrow> nat \<Rightarrow> SkyDiagnostics option" where
  "count_vc_rx_frame d vc = do {
     st \<leftarrow> nth_opt (vc_stats d) vc;
     sts \<leftarrow> upd_opt (vc_stats d) vc (st\<lparr>vc_rx_frames := vc_rx_frames st + 1\<rparr>);
     Some (d\<lparr>vc_stats := sts\<rparr>)
   }"

section \<open>Configuration and instance\<close>

record SkyHMACConfig =
  key_length :: int
  maximum_jump :: int
  conf_key :: bytes

record SkyConfig =
  conf_mac :: SkyMACConfig
  conf_hmac :: SkyHMACConfig
  conf_vc :: "SkyVCConfig list"
  conf_arq :: SkyARQConfig
  conf_identity :: bytes
  conf_identity_len :: nat

record SkyHMAC =
  hmac_key :: bytes
  sequence_tx :: "u16 list"
  sequence_rx :: "u16 list"
  vc_enforcement_need :: "byte list"

record SkyAll =
  sky_conf :: SkyConfig
  sky_diag :: SkyDiagnostics
  virtual_channels :: "SkyVirtualChannel list"
  sky_mac :: SkyMAC
  sky_hmac :: SkyHMAC

end
