(* ===== verification/Hmac.thy ===== *)
theory Hmac
  imports Sky_Handle
begin

text \<open>
  \<open>src/hmac.c\<close>: authentication of frames and their sequence numbers. The keyed BLAKE3 hash is the
  parameter \<open>hash\<close>: \<open>hash key msg i\<close> is byte \<open>i\<close> of its (extendable) output, of which
  \<open>blake3_hasher_finalize\<close> copies the first \<open>SKY_HMAC_LENGTH\<close>.
\<close>

section \<open>Model\<close>

type_synonym keyed_hash = "bytes \<Rightarrow> bytes \<Rightarrow> nat \<Rightarrow> byte"

definition BLAKE3_KEY_LEN :: int where "BLAKE3_KEY_LEN = 32"

definition digest :: "keyed_hash \<Rightarrow> bytes \<Rightarrow> bytes \<Rightarrow> bytes" where
  "digest hash key msg = map (hash key msg) [0..<SKY_HMAC_LENGTH]"

definition sky_hmac_create :: "SkyHMACConfig \<Rightarrow> SkyHMAC option" where
  "sky_hmac_create config =
     (if key_length config = BLAKE3_KEY_LEN
      then do {
        key \<leftarrow> read_bytes (conf_key config) 0 (nat (key_length config));
        Some \<lparr>hmac_key = key, sequence_tx = replicate SKY_NUM_VIRTUAL_CHANNELS 0,
              sequence_rx = replicate SKY_NUM_VIRTUAL_CHANNELS 0,
              vc_enforcement_need = replicate SKY_NUM_VIRTUAL_CHANNELS 0\<rparr>
      }
      else None)"

definition sky_hmac_get_next_tx_sequence :: "SkyHMAC \<Rightarrow> nat \<Rightarrow> (u16 \<times> SkyHMAC) option" where
  "sky_hmac_get_next_tx_sequence h vc =
     (if vc > SKY_NUM_VIRTUAL_CHANNELS then Some (0, h)
      else do {
        sq \<leftarrow> nth_opt (sequence_tx h) vc;
        stx \<leftarrow> upd_opt (sequence_tx h) vc (sq + 1);
        Some (sq, h\<lparr>sequence_tx := stx\<rparr>)
      })"

text \<open>The two loops over the channels: \<open>tx, rx\<close> pairs in channel order.\<close>

fun load_loop :: "SkyHMAC \<Rightarrow> u16 list \<Rightarrow> nat \<Rightarrow> nat \<Rightarrow> SkyHMAC option" where
  "load_loop h sequences vc 0 = Some h"
| "load_loop h sequences vc (Suc n) = do {
     t \<leftarrow> nth_opt sequences (2 * vc);
     r \<leftarrow> nth_opt sequences (2 * vc + 1);
     stx \<leftarrow> upd_opt (sequence_tx h) vc t;
     srx \<leftarrow> upd_opt (sequence_rx h) vc r;
     load_loop (h\<lparr>sequence_tx := stx, sequence_rx := srx\<rparr>) sequences (vc + 1) n
   }"

definition sky_hmac_load_sequences :: "SkyHMAC \<Rightarrow> u16 list \<Rightarrow> SkyHMAC option" where
  "sky_hmac_load_sequences h sequences = load_loop h sequences 0 SKY_NUM_VIRTUAL_CHANNELS"

fun dump_loop :: "SkyHMAC \<Rightarrow> nat \<Rightarrow> nat \<Rightarrow> u16 list option" where
  "dump_loop h vc 0 = Some []"
| "dump_loop h vc (Suc n) = do {
     t \<leftarrow> nth_opt (sequence_tx h) vc;
     r \<leftarrow> nth_opt (sequence_rx h) vc;
     rest \<leftarrow> dump_loop h (vc + 1) n;
     Some (t # r # rest)
   }"

definition sky_hmac_dump_sequences :: "SkyHMAC \<Rightarrow> u16 list option" where
  "sky_hmac_dump_sequences h = dump_loop h 0 SKY_NUM_VIRTUAL_CHANNELS"

definition sky_hmac_extend_with_authentication ::
    "keyed_hash \<Rightarrow> SkyHMAC \<Rightarrow> SkyTransmitFrame \<Rightarrow> (int \<times> SkyTransmitFrame) option" where
  "sky_hmac_extend_with_authentication hash h tx_frame =
     (if frame_len (tx_radio tx_frame) > SKY_FRAME_MAX_LEN - SKY_HMAC_LENGTH
      then Some (SKY_RET_FRAME_TOO_LONG_FOR_HMAC, tx_frame)
      else do {
        tx1 \<leftarrow> tx_set_flag 3 tx_frame;
        msg \<leftarrow> read_bytes (raw (tx_radio tx1)) 0 (frame_len (tx_radio tx1));
        tx2 \<leftarrow> put_bytes tx1 (digest hash (hmac_key h) msg);
        Some (SKY_RET_OK, tx2)
      })"

text \<open>
  The extension's length nibble is in its header byte; the test of the source is against
  \<open>sizeof(ExtHMACSequenceReset) + 1\<close>.
\<close>

definition sky_rx_process_ext_hmac_sequence_reset ::
    "SkyHMAC \<Rightarrow> SkyParsedFrame \<Rightarrow> nat \<Rightarrow> nat \<Rightarrow> SkyHMAC option" where
  "sky_rx_process_ext_hmac_sequence_reset h parsed ext vc = do {
     b \<leftarrow> nth_opt (p_raw parsed) ext;
     if unat (drop_bit 4 b) \<noteq> 2 + 1 then Some h
     else do {
       bs \<leftarrow> ext_body parsed ext 2;
       stx \<leftarrow> upd_opt (sequence_tx h) vc (sky_ntoh16 (load16 (bs ! 0) (bs ! 1)));
       Some (h\<lparr>sequence_tx := stx\<rparr>)
     }
   }"

text \<open>\<open>rx_hmac_fail++\<close>, \<open>vc_enforcement_need[vc] = 1\<close> and the return of an error code.\<close>

definition auth_reject :: "int \<Rightarrow> SkyAll \<Rightarrow> SkyHMAC \<Rightarrow> SkyParsedFrame \<Rightarrow> nat \<Rightarrow> (int \<times> SkyAll \<times> SkyParsedFrame) option" where
  "auth_reject code self h parsed vc = do {
     e \<leftarrow> upd_opt (vc_enforcement_need h) vc 1;
     Some (code, self\<lparr>sky_diag := count_hmac_fail (sky_diag self), sky_hmac := h\<lparr>vc_enforcement_need := e\<rparr>\<rparr>, parsed)
   }"

text \<open>The sequence test and what follows it, once the authentication code is known to be right.\<close>

definition check_sequence ::
    "SkyAll \<Rightarrow> SkyHMAC \<Rightarrow> SkyVCConfig \<Rightarrow> SkyParsedFrame \<Rightarrow> nat \<Rightarrow> u16 \<Rightarrow> (int \<times> SkyAll \<times> SkyParsedFrame) option" where
  "check_sequence self h vc_conf parsed vc frame_sequence = do {
     expected \<leftarrow> nth_opt (sequence_rx h) vc;
     let jump = frame_sequence - expected;
     if require_authentication vc_conf AND SKY_CONFIG_FLAG_REQUIRE_SEQUENCE \<noteq> 0 \<and>
        uint jump > maximum_jump (conf_hmac (sky_conf self))
     then auth_reject SKY_RET_EXCESSIVE_HMAC_JUMP self h parsed vc
     else do {
       srx \<leftarrow> upd_opt (sequence_rx h) vc (frame_sequence + 1);
       Some (SKY_RET_OK, self\<lparr>sky_hmac := h\<lparr>sequence_rx := srx\<rparr>\<rparr>,
             parsed\<lparr>payload_len := payload_len parsed - SKY_HMAC_LENGTH\<rparr>)
     }
   }"

definition sky_hmac_check_authentication ::
    "SkyHeaderLayout \<Rightarrow> keyed_hash \<Rightarrow> SkyAll \<Rightarrow> SkyRadioFrame \<Rightarrow> SkyParsedFrame \<Rightarrow>
     (int \<times> SkyAll \<times> SkyParsedFrame) option" where
  "sky_hmac_check_authentication ly hash self frame parsed0 = do {
     vc \<leftarrow> hdr_vc (p_hdr parsed0) 0;
     vc_conf \<leftarrow> nth_opt (conf_vc (sky_conf self)) vc;
     wire_sequence \<leftarrow> hdr_frame_sequence ly (p_hdr parsed0) 0;
     let frame_sequence = sky_ntoh16 wire_sequence;
     p_hdr' \<leftarrow> hdr_set_frame_sequence ly (p_hdr parsed0) 0 frame_sequence;
     let parsed = parsed0\<lparr>p_hdr := p_hdr'\<rparr>;
     authenticated \<leftarrow> flag_authenticated (p_hdr parsed) 0;
     if authenticated \<and> payload_len parsed < SKY_HMAC_LENGTH
     then Some (SKY_RET_FRAME_TOO_SHORT_FOR_HMAC, self\<lparr>sky_diag := count_hmac_fail (sky_diag self)\<rparr>, parsed)
     else if require_authentication vc_conf AND SKY_CONFIG_FLAG_REQUIRE_AUTHENTICATION = 0
     then Some (SKY_RET_OK, self,
                if authenticated then parsed\<lparr>payload_len := payload_len parsed - SKY_HMAC_LENGTH\<rparr> else parsed)
     else if \<not> authenticated then auth_reject SKY_RET_AUTH_MISSING self (sky_hmac self) parsed vc
     else do {
       msg \<leftarrow> read_bytes (raw frame) 0 (frame_len frame - SKY_HMAC_LENGTH);
       frame_hash \<leftarrow> read_bytes (raw frame) (frame_len frame - SKY_HMAC_LENGTH) SKY_HMAC_LENGTH;
       if frame_hash \<noteq> digest hash (hmac_key (sky_hmac self)) msg
       then auth_reject SKY_RET_AUTH_FAILED self (sky_hmac self) parsed vc
       else do {
         h \<leftarrow> (case hmac_reset parsed of
                 None \<Rightarrow> Some (sky_hmac self)
               | Some ext \<Rightarrow> sky_rx_process_ext_hmac_sequence_reset (sky_hmac self) parsed ext vc);
         check_sequence self h vc_conf parsed vc frame_sequence
       }
     }
   }"

end
