(* ===== verification/Reed_Solomon.thy ===== *)
theory Reed_Solomon
  imports Sky_Prelude
begin

text \<open>
  \<open>ext/libfec\<close>: the CCSDS (255,223) Reed-Solomon codec over GF(256) that \<open>fec.c\<close> calls. Field
  elements in polynomial form are bytes; in index (logarithm) form they are natural numbers below
  256, with \<open>A0 = 255\<close> for the logarithm of zero. The decoder is modelled the way \<open>fec.c\<close> calls it:
  without erasures (\<open>eras_pos = NULL\<close>, \<open>no_eras = 0\<close>).
\<close>

section \<open>Model\<close>

lemma mod255_decreases: "x div 256 + x mod 256 \<le> (x :: nat)"
  using div_mult_mod_eq [of x 256] by linarith

function mod255 :: "nat \<Rightarrow> nat" where
  "mod255 x = (if x \<ge> 255 then mod255 ((x - 255) div 256 + (x - 255) mod 256) else x)"
  by pat_completeness auto

termination
proof (relation "measure id", goal_cases)
  case (2 x)
  then show ?case using mod255_decreases [of "x - 255"] by simp
qed simp

declare mod255.simps [simp del]

definition CCSDS_alpha_to :: bytes where
  "CCSDS_alpha_to = [
     0x01, 0x02, 0x04, 0x08, 0x10, 0x20, 0x40, 0x80, 0x87, 0x89, 0x95, 0xad, 0xdd, 0x3d, 0x7a, 0xf4,
     0x6f, 0xde, 0x3b, 0x76, 0xec, 0x5f, 0xbe, 0xfb, 0x71, 0xe2, 0x43, 0x86, 0x8b, 0x91, 0xa5, 0xcd,
     0x1d, 0x3a, 0x74, 0xe8, 0x57, 0xae, 0xdb, 0x31, 0x62, 0xc4, 0x0f, 0x1e, 0x3c, 0x78, 0xf0, 0x67,
     0xce, 0x1b, 0x36, 0x6c, 0xd8, 0x37, 0x6e, 0xdc, 0x3f, 0x7e, 0xfc, 0x7f, 0xfe, 0x7b, 0xf6, 0x6b,
     0xd6, 0x2b, 0x56, 0xac, 0xdf, 0x39, 0x72, 0xe4, 0x4f, 0x9e, 0xbb, 0xf1, 0x65, 0xca, 0x13, 0x26,
     0x4c, 0x98, 0xb7, 0xe9, 0x55, 0xaa, 0xd3, 0x21, 0x42, 0x84, 0x8f, 0x99, 0xb5, 0xed, 0x5d, 0xba,
     0xf3, 0x61, 0xc2, 0x03, 0x06, 0x0c, 0x18, 0x30, 0x60, 0xc0, 0x07, 0x0e, 0x1c, 0x38, 0x70, 0xe0,
     0x47, 0x8e, 0x9b, 0xb1, 0xe5, 0x4d, 0x9a, 0xb3, 0xe1, 0x45, 0x8a, 0x93, 0xa1, 0xc5, 0x0d, 0x1a,
     0x34, 0x68, 0xd0, 0x27, 0x4e, 0x9c, 0xbf, 0xf9, 0x75, 0xea, 0x53, 0xa6, 0xcb, 0x11, 0x22, 0x44,
     0x88, 0x97, 0xa9, 0xd5, 0x2d, 0x5a, 0xb4, 0xef, 0x59, 0xb2, 0xe3, 0x41, 0x82, 0x83, 0x81, 0x85,
     0x8d, 0x9d, 0xbd, 0xfd, 0x7d, 0xfa, 0x73, 0xe6, 0x4b, 0x96, 0xab, 0xd1, 0x25, 0x4a, 0x94, 0xaf,
     0xd9, 0x35, 0x6a, 0xd4, 0x2f, 0x5e, 0xbc, 0xff, 0x79, 0xf2, 0x63, 0xc6, 0x0b, 0x16, 0x2c, 0x58,
     0xb0, 0xe7, 0x49, 0x92, 0xa3, 0xc1, 0x05, 0x0a, 0x14, 0x28, 0x50, 0xa0, 0xc7, 0x09, 0x12, 0x24,
     0x48, 0x90, 0xa7, 0xc9, 0x15, 0x2a, 0x54, 0xa8, 0xd7, 0x29, 0x52, 0xa4, 0xcf, 0x19, 0x32, 0x64,
     0xc8, 0x17, 0x2e, 0x5c, 0xb8, 0xf7, 0x69, 0xd2, 0x23, 0x46, 0x8c, 0x9f, 0xb9, 0xf5, 0x6d, 0xda,
     0x33, 0x66, 0xcc, 0x1f, 0x3e, 0x7c, 0xf8, 0x77, 0xee, 0x5b, 0xb6, 0xeb, 0x51, 0xa2, 0xc3, 0x00]"

definition CCSDS_index_of :: "nat list" where
  "CCSDS_index_of = [
     255, 0, 1, 99, 2, 198, 100, 106, 3, 205, 199, 188, 101, 126, 107, 42,
     4, 141, 206, 78, 200, 212, 189, 225, 102, 221, 127, 49, 108, 32, 43, 243,
     5, 87, 142, 232, 207, 172, 79, 131, 201, 217, 213, 65, 190, 148, 226, 180,
     103, 39, 222, 240, 128, 177, 50, 53, 109, 69, 33, 18, 44, 13, 244, 56,
     6, 155, 88, 26, 143, 121, 233, 112, 208, 194, 173, 168, 80, 117, 132, 72,
     202, 252, 218, 138, 214, 84, 66, 36, 191, 152, 149, 249, 227, 94, 181, 21,
     104, 97, 40, 186, 223, 76, 241, 47, 129, 230, 178, 63, 51, 238, 54, 16,
     110, 24, 70, 166, 34, 136, 19, 247, 45, 184, 14, 61, 245, 164, 57, 59,
     7, 158, 156, 157, 89, 159, 27, 8, 144, 9, 122, 28, 234, 160, 113, 90,
     209, 29, 195, 123, 174, 10, 169, 145, 81, 91, 118, 114, 133, 161, 73, 235,
     203, 124, 253, 196, 219, 30, 139, 210, 215, 146, 85, 170, 67, 11, 37, 175,
     192, 115, 153, 119, 150, 92, 250, 82, 228, 236, 95, 74, 182, 162, 22, 134,
     105, 197, 98, 254, 41, 125, 187, 204, 224, 211, 77, 140, 242, 31, 48, 220,
     130, 171, 231, 86, 179, 147, 64, 216, 52, 176, 239, 38, 55, 12, 17, 68,
     111, 120, 25, 154, 71, 116, 167, 193, 35, 83, 137, 251, 20, 93, 248, 151,
     46, 75, 185, 96, 15, 237, 62, 229, 246, 135, 165, 23, 58, 163, 60, 183]"

definition CCSDS_poly :: "nat list" where
  "CCSDS_poly = [
     0, 249, 59, 66, 4, 43, 126, 251, 97, 30, 3, 213, 50, 66, 170, 5,
     24, 5, 170, 66, 50, 213, 3, 30, 97, 251, 126, 43, 4, 66, 59, 249,
     0]"

definition NN :: nat where "NN = 255"
definition NROOTS :: nat where "NROOTS = 32"
definition FCR :: nat where "FCR = 112"
definition PRIM :: nat where "PRIM = 11"
definition IPRIM :: nat where "IPRIM = 116"
definition A0 :: nat where "A0 = NN"

text \<open>\<open>ALPHA_TO[MODNN(n)]\<close> and \<open>INDEX_OF[a]\<close>.\<close>

definition ALPHA_TO :: "nat \<Rightarrow> byte" where "ALPHA_TO n = CCSDS_alpha_to ! mod255 n"
definition INDEX_OF :: "byte \<Rightarrow> nat" where "INDEX_OF a = CCSDS_index_of ! unat a"
definition GENPOLY :: "nat \<Rightarrow> nat" where "GENPOLY j = CCSDS_poly ! j"

subsection \<open>Encoder (\<open>encode_rs.h\<close>)\<close>

text \<open>One round of the feedback shift register: \<open>parity\<close> after the input byte \<open>d\<close>.\<close>

definition encode_step :: "bytes \<Rightarrow> byte \<Rightarrow> bytes" where
  "encode_step parity d =
     (let feedback = INDEX_OF (d XOR parity ! 0)
      in if feedback \<noteq> A0
         then map (\<lambda>j. parity ! j XOR ALPHA_TO (feedback + GENPOLY (NROOTS - j))) [1..<NROOTS] @
              [ALPHA_TO (feedback + GENPOLY 0)]
         else map (\<lambda>j. parity ! j) [1..<NROOTS] @ [0])"

text \<open>The parity bytes of \<open>data\<close>, which holds the \<open>NN - NROOTS - PAD\<close> message bytes.\<close>

definition encode_rs_8 :: "bytes \<Rightarrow> bytes" where
  "encode_rs_8 data = foldl encode_step (replicate NROOTS 0) data"

subsection \<open>Decoder (\<open>decode_rs.h\<close>)\<close>

definition syndrome_step :: "bytes \<Rightarrow> byte \<Rightarrow> bytes" where
  "syndrome_step s d =
     map (\<lambda>i. if s ! i = 0 then d
              else d XOR ALPHA_TO (INDEX_OF (s ! i) + (FCR + i) * PRIM)) [0..<NROOTS]"

definition syndromes :: "bytes \<Rightarrow> bytes" where
  "syndromes data = foldl syndrome_step (replicate NROOTS (hd data)) (tl data)"

text \<open>
  Berlekamp-Massey. \<open>lambda\<close> is in polynomial form, \<open>b\<close> and the syndromes \<open>s\<close> in index form; one
  round is one iteration of the \<open>while\<close> loop with step number \<open>r\<close>.
\<close>

definition discrepancy :: "nat list \<Rightarrow> bytes \<Rightarrow> nat \<Rightarrow> byte" where
  "discrepancy s lambda r =
     foldl (\<lambda>d i. if lambda ! i \<noteq> 0 \<and> s ! (r - i - 1) \<noteq> A0
                  then d XOR ALPHA_TO (INDEX_OF (lambda ! i) + s ! (r - i - 1)) else d) 0 [0..<r]"

definition bm_step :: "nat list \<Rightarrow> bytes \<times> nat list \<times> nat \<Rightarrow> nat \<Rightarrow> bytes \<times> nat list \<times> nat" where
  "bm_step s st r =
     (case st of (lambda, b, el) \<Rightarrow>
        let discr_r = INDEX_OF (discrepancy s lambda r);
            shifted = A0 # take NROOTS b
        in if discr_r = A0 then (lambda, shifted, el)
           else let t = lambda ! 0 # map (\<lambda>i. if b ! i \<noteq> A0
                          then lambda ! (i + 1) XOR ALPHA_TO (discr_r + b ! i)
                          else lambda ! (i + 1)) [0..<NROOTS]
                in if 2 * el \<le> r - 1
                   then (t, map (\<lambda>i. if lambda ! i = 0 then A0
                                     else mod255 (INDEX_OF (lambda ! i) + NN - discr_r)) [0..<NROOTS + 1], r - el)
                   else (t, shifted, el))"

definition berlekamp_massey :: "nat list \<Rightarrow> bytes" where
  "berlekamp_massey s =
     (let lambda = 1 # replicate NROOTS 0
      in fst (foldl (bm_step s) (lambda, map INDEX_OF lambda, 0) [1..<NROOTS + 1]))"

text \<open>The degree computed while \<open>lambda\<close> (index form here) is converted.\<close>

definition deg_lambda :: "nat list \<Rightarrow> nat" where
  "deg_lambda lambda = foldl (\<lambda>d i. if lambda ! i \<noteq> A0 then i else d) 0 [0..<NROOTS + 1]"

text \<open>
  Chien search. One iteration advances every register below or at the degree and accumulates \<open>q\<close>.
  \<open>found\<close> are the pairs \<open>(root, loc)\<close> in the order they are stored; the search stops after
  \<open>deg\<close> roots or after \<open>NN\<close> iterations.
\<close>

definition chien_regs :: "nat \<Rightarrow> nat list \<Rightarrow> nat list" where
  "chien_regs deg reg =
     map (\<lambda>j. if 1 \<le> j \<and> j \<le> deg \<and> reg ! j \<noteq> A0 then mod255 (reg ! j + j) else reg ! j) [0..<NROOTS + 1]"

definition chien_q :: "nat \<Rightarrow> nat list \<Rightarrow> byte" where
  "chien_q deg reg =
     foldl (\<lambda>q j. if reg ! j \<noteq> A0 then q XOR ALPHA_TO (reg ! j) else q) 1 (rev [1..<deg + 1])"

function chien_search :: "nat \<Rightarrow> nat list \<Rightarrow> nat \<Rightarrow> nat \<Rightarrow> (nat \<times> nat) list \<Rightarrow> (nat \<times> nat) list" where
  "chien_search deg reg i k found =
     (if i \<le> NN
      then (let reg' = chien_regs deg reg
            in if chien_q deg reg' \<noteq> 0 then chien_search deg reg' (i + 1) (mod255 (k + IPRIM)) found
               else let found' = found @ [(i, k)]
                    in if length found' = deg then found'
                       else chien_search deg reg' (i + 1) (mod255 (k + IPRIM)) found')
      else found)"
  by pat_completeness auto

termination by (relation "measure (\<lambda>(_, _, i, _, _). NN + 1 - i)") (auto simp: NN_def)

declare chien_search.simps [simp del]

definition omega :: "nat list \<Rightarrow> nat list \<Rightarrow> nat \<Rightarrow> nat list" where
  "omega s lambda deg =
     map (\<lambda>i. INDEX_OF (foldl (\<lambda>tmp j. if s ! (i - j) \<noteq> A0 \<and> lambda ! j \<noteq> A0
                                         then tmp XOR ALPHA_TO (s ! (i - j) + lambda ! j) else tmp)
                                0 (rev [0..<i + 1]))) [0..<deg]"

text \<open>Forney: the numerators and the denominator for one root, and the corrected data.\<close>

definition forney_num1 :: "nat list \<Rightarrow> nat \<Rightarrow> byte" where
  "forney_num1 om root =
     foldl (\<lambda>n i. if om ! i \<noteq> A0 then n XOR ALPHA_TO (om ! i + i * root) else n) 0 (rev [0..<length om])"

definition forney_num2 :: "nat \<Rightarrow> byte" where
  "forney_num2 root = ALPHA_TO (root * (FCR - 1) + NN)"

definition forney_den :: "nat list \<Rightarrow> nat \<Rightarrow> nat \<Rightarrow> byte" where
  "forney_den lambda deg root =
     foldl (\<lambda>d i. if lambda ! (i + 1) \<noteq> A0 then d XOR ALPHA_TO (lambda ! (i + 1) + i * root) else d) 0
       (rev (filter even [0..<min deg (NROOTS - 1) + 1]))"

definition forney_fix :: "nat list \<Rightarrow> nat list \<Rightarrow> nat \<Rightarrow> nat \<Rightarrow> bytes \<Rightarrow> nat \<times> nat \<Rightarrow> bytes option" where
  "forney_fix lambda om deg pad data rl =
     (case rl of (root, loc) \<Rightarrow>
        let num1 = forney_num1 om root; num2 = forney_num2 root; den = forney_den lambda deg root
        in if num1 \<noteq> 0 \<and> loc \<ge> pad
           then Option.bind (nth_opt data (loc - pad))
                  (\<lambda>x. upd_opt data (loc - pad)
                         (x XOR ALPHA_TO (INDEX_OF num1 + INDEX_OF num2 + NN - INDEX_OF den)))
           else Some data)"

fun forney_loop :: "nat list \<Rightarrow> nat list \<Rightarrow> nat \<Rightarrow> nat \<Rightarrow> (nat \<times> nat) list \<Rightarrow> bytes \<Rightarrow> bytes option" where
  "forney_loop lambda om deg pad [] data = Some data"
| "forney_loop lambda om deg pad (rl # rls) data =
     Option.bind (forney_fix lambda om deg pad data rl) (forney_loop lambda om deg pad rls)"

text \<open>
  The whole decoder on the \<open>NN - PAD\<close> received bytes: the return value (number of corrected
  symbols, or \<open>-1\<close>) and the corrected bytes.
\<close>

definition decode_rs_8 :: "bytes \<Rightarrow> int \<Rightarrow> (int \<times> bytes) option" where
  "decode_rs_8 data pad =
     (if pad < 0 \<or> pad > 222 then Some (- 1, data)
      else let syn = syndromes data; s = map INDEX_OF syn
           in if \<forall>x \<in> set syn. x = 0 then Some (0, data)
              else let lambda = map INDEX_OF (berlekamp_massey s);
                       deg = deg_lambda lambda;
                       found = chien_search deg lambda 1 (IPRIM - 1) []
                   in if deg \<noteq> length found then Some (- 1, data)
                      else map_option (\<lambda>d. (int (length found), d))
                             (forney_loop lambda (omega s lambda deg) deg (nat pad) (rev found) data))"

end
