(* ===== verification/Golay.thy ===== *)
theory Golay
  imports Sky_Prelude
begin

text \<open>
  \<open>ext/gr-satellites/golay24.c\<close>: the (24,12) Golay code that protects the length header of a frame.
  \<open>B(i)\<close> of the source is \<open>golay_B i\<close>; \<open>parity_bits\<close> is the loop that shifts one parity bit per row
  into a syndrome.
\<close>

section \<open>Model\<close>

definition golay_N :: nat where "golay_N = 12"

definition golay_H :: "u32 list" where
  "golay_H = [0x8008ed, 0x4001db, 0x2003b5, 0x100769, 0x80ed1, 0x40da3,
              0x20b47, 0x1068f, 0x8d1d, 0x4a3b, 0x2477, 0x1ffe]"

definition golay_B :: "nat \<Rightarrow> u32" where
  "golay_B i = golay_H ! i AND 0xfff"

definition popcount :: "'a::len word \<Rightarrow> nat" where
  "popcount w = length (filter (bit w) [0..<LENGTH('a)])"

definition builtin_parity :: "u32 \<Rightarrow> bool" where
  "builtin_parity w = odd (popcount w)"

definition parity_bits :: "u32 list \<Rightarrow> u32 \<Rightarrow> 'a::len word" where
  "parity_bits rows r = foldl (\<lambda>s h. push_bit 1 s OR of_bool (builtin_parity (h AND r))) 0 rows"

definition encode_golay24 :: "u32 \<Rightarrow> u32" where
  "encode_golay24 data =
     (let r = data AND 0xfff;
          s = parity_bits golay_H r
      in push_bit golay_N (0xFFF AND s) OR r)"

text \<open>Steps 3 and 6: the first row whose sum with the syndrome has weight at most two.\<close>

definition light_row :: "u16 \<Rightarrow> nat option" where
  "light_row s = List.find (\<lambda>i. popcount (ucast s XOR golay_B i) \<le> 2) [0..<golay_N]"

text \<open>Steps 1 to 7: the estimated error, or \<open>None\<close> when the word is uncorrectable.\<close>

definition golay_error :: "u32 \<Rightarrow> u32 option" where
  "golay_error r =
     (let s = (parity_bits golay_H r :: u16)
      in if popcount s \<le> 3 then Some (push_bit golay_N (ucast s))
         else case light_row s of
           Some i \<Rightarrow> Some (push_bit golay_N (ucast s XOR golay_B i) OR push_bit (golay_N - i - 1) 1)
         | None \<Rightarrow>
             (let q = (parity_bits (map golay_B [0..<golay_N]) (ucast s) :: u16)
              in if popcount q \<le> 3 then Some (ucast q)
                 else case light_row q of
                   Some i \<Rightarrow> Some (push_bit (2 * golay_N - i - 1) 1 OR (ucast q XOR golay_B i))
                 | None \<Rightarrow> None))"

definition decode_golay24 :: "u32 \<Rightarrow> int \<times> u32" where
  "decode_golay24 data =
     (case golay_error data of
        None \<Rightarrow> (- 1, data)
      | Some e \<Rightarrow> (int (popcount e), data XOR e))"

end
