(* ===== verification/Skylink_Tx.thy ===== *)
theory Skylink_Tx
  imports Hmac Fec Golay
begin

text \<open>
  \<open>src/skylink_tx.c\<close>: generation of frames. \<open>ticks\<close> is the value of the global tick counter during
  the call and \<open>frame\<close> the caller's frame, which the functions return updated.
\<close>

section \<open>Model\<close>

definition close_window :: "SkyMAC \<Rightarrow> SkyMAC" where
  "close_window m = m\<lparr>window_on := False, unused_window_time := False,
     frames_sent_in_current_window_per_vc := replicate SKY_NUM_VIRTUAL_CHANNELS 0,
     total_frames_sent_in_current_window := 0\<rparr>"

definition sky_tx_track_tdd_state :: "SkyMACConfig \<Rightarrow> SkyMAC \<Rightarrow> bool \<Rightarrow> bool \<Rightarrow> sky_tick_t \<Rightarrow> SkyMAC option" where
  "sky_tx_track_tdd_state c m can_send content_to_send now = do {
     let m1 = (if can_send \<and> \<not> content_to_send then m\<lparr>unused_window_time := True\<rparr> else m);
     m2 \<leftarrow> (if \<not> can_send \<and> window_on m1
           then map_option (\<lambda>k. m1\<lparr>window_adjust_counter := k\<rparr>)
                  (c_int (if unused_window_time m1 then window_adjust_counter m1 - 1
                          else window_adjust_counter m1 + 1))
           else Some m1);
     m3 \<leftarrow> (if can_send \<and> \<not> window_on m2 \<and> window_adjust_counter m2 \<le> - window_adjustment_period c
           then map_option (\<lambda>m. m\<lparr>window_adjust_counter := 0\<rparr>) (mac_shrink_window c m2 now) else Some m2);
     m4 \<leftarrow> (if can_send \<and> \<not> window_on m3 \<and> window_adjust_counter m3 \<ge> window_adjustment_period c
           then map_option (\<lambda>m. m\<lparr>window_adjust_counter := 0\<rparr>) (mac_expand_window c m3 now) else Some m3);
     Some (if \<not> can_send then close_window m4 else m4\<lparr>window_on := True\<rparr>)
   }"

definition sky_tx_extension_eval_hmac_reset ::
    "SkyHeaderLayout \<Rightarrow> SkyHMAC \<Rightarrow> SkyTransmitFrame \<Rightarrow> nat \<Rightarrow> (int \<times> SkyHMAC \<times> SkyTransmitFrame) option" where
  "sky_tx_extension_eval_hmac_reset ly h tx_frame vc = do {
     e \<leftarrow> nth_opt (vc_enforcement_need h) vc;
     if e \<noteq> 0 then Some (0, h, tx_frame)
     else do {
       es \<leftarrow> upd_opt (vc_enforcement_need h) vc 0;
       s \<leftarrow> nth_opt (sequence_rx h) vc;
       tx' \<leftarrow> sky_frame_add_extension_hmac_sequence_reset ly tx_frame (s + 3);
       Some (1, h\<lparr>vc_enforcement_need := es\<rparr>, tx')
     }
   }"

definition sky_tx_advance_vc_round_robin :: "SkyMAC \<Rightarrow> SkyMAC" where
  "sky_tx_advance_vc_round_robin m =
     m\<lparr>vc_round_robin_start := (vc_round_robin_start m + 1) mod SKY_NUM_VIRTUAL_CHANNELS\<rparr>"

text \<open>The loop of \<open>_sky_tx_pick_vc\<close> from offset \<open>i\<close>, with \<open>n\<close> channels left to look at.\<close>

fun pick_loop :: "SkyAll \<Rightarrow> sky_tick_t \<Rightarrow> nat \<Rightarrow> nat \<Rightarrow> nat option option" where
  "pick_loop self now i 0 = Some None"
| "pick_loop self now i (Suc n) = do {
     let vc = (vc_round_robin_start (sky_mac self) + i) mod SKY_NUM_VIRTUAL_CHANNELS;
     e \<leftarrow> nth_opt (vc_enforcement_need (sky_hmac self)) vc;
     if e \<noteq> 0 then Some (Some vc)
     else do {
       v \<leftarrow> nth_opt (virtual_channels self) vc;
       k \<leftarrow> nth_opt (frames_sent_in_current_window_per_vc (sky_mac self)) vc;
       content \<leftarrow> sky_vc_content_to_send v (conf_arq (sky_conf self)) now (unat k);
       if content then Some (Some vc) else pick_loop self now (i + 1) n
     }
   }"

text \<open>\<open>None\<close> inside stands for the return value \<open>-1\<close>: no need to transmit.\<close>

definition sky_tx_pick_vc :: "SkyAll \<Rightarrow> sky_tick_t \<Rightarrow> nat option option" where
  "sky_tx_pick_vc self now = do {
     r \<leftarrow> pick_loop self now 0 SKY_NUM_VIRTUAL_CHANNELS;
     case r of
       Some vc \<Rightarrow> Some (Some vc)
     | None \<Rightarrow> do {
         idle \<leftarrow> mac_idle_frame_needed (conf_mac (sky_conf self)) (sky_mac self) now;
         Some (if idle then Some 0 else None)
       }
   }"

fun check_all_timeouts :: "SkyVirtualChannel list \<Rightarrow> sky_tick_t \<Rightarrow> sky_tick_t \<Rightarrow> SkyVirtualChannel list option" where
  "check_all_timeouts [] now timeout = Some []"
| "check_all_timeouts (v # vs) now timeout = do {
     v' \<leftarrow> sky_vc_check_timeouts v now timeout;
     vs' \<leftarrow> check_all_timeouts vs now timeout;
     Some (v' # vs')
   }"

text \<open>
  The start of a frame: version and identity length, the identity, and a zeroed static header with
  the channel number.
\<close>

definition start_frame :: "SkyHeaderLayout \<Rightarrow> SkyConfig \<Rightarrow> SkyRadioFrame \<Rightarrow> nat \<Rightarrow> SkyTransmitFrame option" where
  "start_frame ly c frame0 vc = do {
     let frame = sky_frame_clear frame0;
     let il = conf_identity_len c;
     b1 \<leftarrow> upd_opt (raw frame) 0 (SKYLINK_FRAME_VERSION_BYTE OR of_nat il);
     idn \<leftarrow> read_bytes (conf_identity c) 0 il;
     b2 \<leftarrow> write_bytes b1 1 idn;
     let h = 1 + il;
     f \<leftarrow> nth_opt b2 h;
     b3 \<leftarrow> upd_opt b2 h ((f AND NOT 3) OR (of_nat vc AND 3));
     Some \<lparr>tx_radio = frame\<lparr>raw := b3, frame_len := h + hdr_sizeof ly\<rparr>, hdr = h, ptr = h + hdr_sizeof ly\<rparr>
   }"

text \<open>The end of a frame: the sequence number, in network byte order, and the authentication code.\<close>

definition finish_frame ::
    "SkyHeaderLayout \<Rightarrow> keyed_hash \<Rightarrow> SkyHMAC \<Rightarrow> SkyVCConfig \<Rightarrow> SkyTransmitFrame \<Rightarrow> nat \<Rightarrow>
     (SkyHMAC \<times> SkyTransmitFrame) option" where
  "finish_frame ly hash h vc_conf tx vc = do {
     (sq, h') \<leftarrow> sky_hmac_get_next_tx_sequence h vc;
     bs \<leftarrow> hdr_set_frame_sequence ly (raw (tx_radio tx)) (hdr tx) (sky_hton16 sq);
     let tx1 = tx\<lparr>tx_radio := (tx_radio tx)\<lparr>raw := bs\<rparr>\<rparr>;
     if require_authentication vc_conf AND SKY_CONFIG_FLAG_AUTHENTICATE_TX \<noteq> 0
     then do { (_, tx2) \<leftarrow> sky_hmac_extend_with_authentication hash h' tx1; Some (h', tx2) }
     else Some (h', tx1)
   }"

definition count_tx :: "SkyAll \<Rightarrow> nat \<Rightarrow> nat \<Rightarrow> SkyAll option" where
  "count_tx self vc n = do {
     k \<leftarrow> nth_opt (frames_sent_in_current_window_per_vc (sky_mac self)) vc;
     ks \<leftarrow> upd_opt (frames_sent_in_current_window_per_vc (sky_mac self)) vc (k + 1);
     let m = (sky_mac self)\<lparr>total_frames_sent_in_current_window :=
                              total_frames_sent_in_current_window (sky_mac self) + 1,
                            frames_sent_in_current_window_per_vc := ks\<rparr>;
     d \<leftarrow> count_vc_rx_frame (sky_diag self) vc;
     Some (self\<lparr>sky_mac := m, sky_diag := d\<lparr>tx_bytes := tx_bytes d + of_nat n, tx_frames := tx_frames d + 1\<rparr>\<rparr>)
   }"

text \<open>The second half of \<open>sky_tx\<close>: a channel has been picked and the window is open.\<close>

definition build_frame ::
    "SkyHeaderLayout \<Rightarrow> keyed_hash \<Rightarrow> sky_tick_t \<Rightarrow> SkyAll \<Rightarrow> SkyRadioFrame \<Rightarrow> nat \<Rightarrow>
     (int \<times> SkyAll \<times> SkyRadioFrame) option" where
  "build_frame ly hash now self0 frame vc = do {
     let self = self0\<lparr>sky_mac := sky_tx_advance_vc_round_robin (sky_mac self0)\<rparr>;
     vc_conf \<leftarrow> nth_opt (conf_vc (sky_conf self)) vc;
     tx0 \<leftarrow> start_frame ly (sky_conf self) frame vc;
     tx1 \<leftarrow> mac_set_frame_fields ly (conf_mac (sky_conf self)) (sky_mac self) tx0 now;
     (_, h, tx2) \<leftarrow> sky_tx_extension_eval_hmac_reset ly (sky_hmac self) tx1 vc;
     v \<leftarrow> nth_opt (virtual_channels self) vc;
     k \<leftarrow> nth_opt (frames_sent_in_current_window_per_vc (sky_mac self)) vc;
     (ret, v', tx3) \<leftarrow> sky_vc_fill_frame ly v (conf_arq (sky_conf self)) tx2 now (unat k);
     vs \<leftarrow> upd_opt (virtual_channels self) vc v';
     let self1 = self\<lparr>virtual_channels := vs, sky_hmac := h\<rparr>;
     if ret < 0 then Some (ret, self1, tx_radio tx3)
     else do {
       (h', tx4) \<leftarrow> finish_frame ly hash h vc_conf tx3 vc;
       self2 \<leftarrow> count_tx (self1\<lparr>sky_hmac := h'\<rparr>) vc (frame_len (tx_radio tx4));
       Some (1, self2, tx_radio tx4)
     }
   }"

definition sky_tx ::
    "SkyHeaderLayout \<Rightarrow> keyed_hash \<Rightarrow> sky_tick_t \<Rightarrow> SkyAll \<Rightarrow> SkyRadioFrame \<Rightarrow>
     (int \<times> SkyAll \<times> SkyRadioFrame) option" where
  "sky_tx ly hash ticks self0 frame = do {
     let now = sky_get_tick_time ticks;
     can_send \<leftarrow> mac_can_send (conf_mac (sky_conf self0)) (sky_mac self0) now;
     vs \<leftarrow> check_all_timeouts (virtual_channels self0) now (arq_timeout_ticks (conf_arq (sky_conf self0)));
     let self1 = self0\<lparr>virtual_channels := vs\<rparr>;
     vc \<leftarrow> sky_tx_pick_vc self1 now;
     m \<leftarrow> sky_tx_track_tdd_state (conf_mac (sky_conf self1)) (sky_mac self1) can_send (vc \<noteq> None) now;
     let self = self1\<lparr>sky_mac := m\<rparr>;
     case vc of
       None \<Rightarrow> Some (0, self, frame)
     | Some c \<Rightarrow> (if \<not> can_send then Some (0, self, frame) else build_frame ly hash now self frame c)
   }"

definition sky_tx_with_fec ::
    "SkyHeaderLayout \<Rightarrow> keyed_hash \<Rightarrow> sky_tick_t \<Rightarrow> SkyAll \<Rightarrow> SkyRadioFrame \<Rightarrow>
     (int \<times> SkyAll \<times> SkyRadioFrame) option" where
  "sky_tx_with_fec ly hash ticks self frame = do {
     (ret, self', frame') \<leftarrow> sky_tx ly hash ticks self frame;
     if ret = 1
     then (if frame_len frame' + RS_PARITYS \<le> RAW_SIZE
           then do { (_, coded) \<leftarrow> sky_fec_encode frame'; Some (ret, self', coded) }
           else None)
     else Some (ret, self', frame')
   }"

text \<open>
  The move by three bytes: \<open>raw[i + 3] = raw[i]\<close> for \<open>i\<close> from the length down to 1. Byte 0 is not
  moved.
\<close>

fun shift_right_loop :: "bytes \<Rightarrow> nat \<Rightarrow> bytes option" where
  "shift_right_loop bs 0 = Some bs"
| "shift_right_loop bs (Suc i) = do {
     b \<leftarrow> nth_opt bs (Suc i);
     bs' \<leftarrow> upd_opt bs (Suc i + 3) b;
     shift_right_loop bs' i
   }"

definition sky_tx_with_golay ::
    "SkyHeaderLayout \<Rightarrow> keyed_hash \<Rightarrow> sky_tick_t \<Rightarrow> SkyAll \<Rightarrow> SkyRadioFrame \<Rightarrow>
     (int \<times> SkyAll \<times> SkyRadioFrame) option" where
  "sky_tx_with_golay ly hash ticks self frame = do {
     (ret, self', frame') \<leftarrow> sky_tx_with_fec ly hash ticks self frame;
     if ret = 1
     then (if frame_len frame' + 3 \<le> RAW_SIZE
           then do {
             bs \<leftarrow> shift_right_loop (raw frame') (frame_len frame');
             let phy_header = encode_golay24 (of_nat (frame_len frame'));
             bs' \<leftarrow> write_bytes bs 0 [ucast (drop_bit 16 phy_header), ucast (drop_bit 8 phy_header), ucast phy_header];
             Some (ret, self', frame'\<lparr>raw := bs', frame_len := frame_len frame' + 3\<rparr>)
           }
           else None)
     else Some (ret, self', frame')
   }"

end
