(* ===== verification/Skylink_Rx.thy ===== *)
theory Skylink_Rx
  imports Hmac Fec Golay
begin

text \<open>
  \<open>src/skylink_rx.c\<close>: reception of frames. \<open>ticks\<close> is the value of the global tick counter during
  the call. The functions with an error correcting layer change the caller's frame in place and
  return it.
\<close>

section \<open>Model\<close>

definition SKY_GOLAY_PAYLOAD_LENGTH_MASK :: u32 where "SKY_GOLAY_PAYLOAD_LENGTH_MASK = 0x0FF"

definition filter_by_identity :: "SkyConfig \<Rightarrow> bytes \<Rightarrow> nat \<Rightarrow> bool option" where
  "filter_by_identity c identity identity_len = do {
     own \<leftarrow> read_bytes (conf_identity c) 0 identity_len;
     Some (identity = own \<and> conf_identity_len c = identity_len)
   }"

definition sky_rx_process_ext_mac_control ::
    "sky_tick_t \<Rightarrow> SkyAll \<Rightarrow> sky_tick_t \<Rightarrow> SkyParsedFrame \<Rightarrow> SkyAll option" where
  "sky_rx_process_ext_mac_control ticks self rx_time parsed =
     (case mac_tdd parsed of
        None \<Rightarrow> Some self
      | Some ext \<Rightarrow> do {
          authenticated \<leftarrow> flag_authenticated (p_hdr parsed) 0;
          if unauthenticated_mac_updates (conf_mac (sky_conf self)) = 0 \<and> \<not> authenticated then Some self
          else do {
            bs \<leftarrow> ext_body parsed ext 4;
            let w = sky_ntoh16 (load16 (bs ! 0) (bs ! 1));
            let r = sky_ntoh16 (load16 (bs ! 2) (bs ! 3));
            m \<leftarrow> mac_update_belief (conf_mac (sky_conf self)) (sky_mac self) (sky_get_tick_time ticks)
                   rx_time (uint w) (uint r);
            Some (self\<lparr>sky_mac := m\<rparr>)
          }
        })"

text \<open>
  The header of a received frame: validation of version and identity, and the parsed frame before
  its extensions are looked at. \<open>Inl\<close> is an error code.
\<close>

definition parse_header ::
    "SkyHeaderLayout \<Rightarrow> SkyConfig \<Rightarrow> SkyRadioFrame \<Rightarrow> SkyParsedFrame c_result option" where
  "parse_header ly c frame = do {
     b0 \<leftarrow> nth_opt (raw frame) 0;
     if b0 AND SKYLINK_FRAME_VERSION_BYTE \<noteq> SKYLINK_FRAME_VERSION_BYTE then Some (Inl SKY_RET_INVALID_VERSION)
     else do {
       let il = unat (b0 AND SKYLINK_FRAME_IDENTITY_MASK);
       if il = 0 \<or> il > SKY_MAX_IDENTITY_LEN then Some (Inl SKY_RET_INVALID_VERSION)
       else do {
         idn \<leftarrow> read_bytes (raw frame) 1 il;
         filtered \<leftarrow> filter_by_identity c idn il;
         if filtered then Some (Inl SKY_RET_FILTERED_BY_IDENTITY)
         else do {
           let header_start = 1 + il;
           h \<leftarrow> read_bytes (raw frame) header_start (hdr_sizeof ly);
           el \<leftarrow> hdr_extension_length ly h 0;
           let payload_start = header_start + hdr_sizeof ly + unat el;
           if payload_start > frame_len frame then Some (Inl SKY_RET_INVALID_EXT_LENGTH)
           else do {
             has_payload \<leftarrow> flag_has_payload h 0;
             Some (Inr \<lparr>p_raw = raw frame, p_identity_len = il, p_hdr = h, arq_sequence = None,
               arq_request = None, arq_ctrl = None, arq_handshake = None, mac_tdd = None,
               hmac_reset = None, p_payload = payload_start,
               payload_len = (if has_payload then frame_len frame - payload_start else 0)\<rparr>)
           }
         }
       }
     }
   }"

definition sky_rx ::
    "SkyHeaderLayout \<Rightarrow> keyed_hash \<Rightarrow> sky_tick_t \<Rightarrow> SkyAll \<Rightarrow> SkyRadioFrame \<Rightarrow> (int \<times> SkyAll) option" where
  "sky_rx ly hash ticks self0 frame =
     (if frame_len frame < SKY_FRAME_MIN_LEN then Some (SKY_RET_INVALID_PLAIN_LENGTH, self0)
      else do {
        let d = sky_diag self0;
        let self = self0\<lparr>sky_diag := d\<lparr>rx_frames := rx_frames d + 1,
                                        rx_bytes := rx_bytes d + of_nat (frame_len frame)\<rparr>\<rparr>;
        ph \<leftarrow> parse_header ly (sky_conf self) frame;
        case ph of
          Inl e \<Rightarrow> Some (e, self)
        | Inr parsed0 \<Rightarrow> do {
            (ret1, parsed1) \<leftarrow> sky_frame_parse_extension_headers ly frame parsed0;
            if ret1 < 0 then Some (ret1, self)
            else do {
              (ret2, self1, parsed) \<leftarrow> sky_hmac_check_authentication ly hash self frame parsed1;
              if ret2 < 0 then Some (ret2, self1)
              else do {
                self2 \<leftarrow> sky_rx_process_ext_mac_control ticks self1 (rx_time_ticks frame) parsed;
                vc \<leftarrow> hdr_vc (p_hdr parsed) 0;
                d2 \<leftarrow> count_vc_rx_frame (sky_diag self2) vc;
                v \<leftarrow> nth_opt (virtual_channels self2) vc;
                (ret, v') \<leftarrow> sky_vc_process_frame ticks v parsed (sky_get_tick_time ticks);
                vs \<leftarrow> upd_opt (virtual_channels self2) vc v';
                Some (ret, self2\<lparr>sky_diag := d2, virtual_channels := vs\<rparr>)
              }
            }
          }
      })"

definition sky_rx_with_fec ::
    "SkyHeaderLayout \<Rightarrow> keyed_hash \<Rightarrow> sky_tick_t \<Rightarrow> SkyAll \<Rightarrow> SkyRadioFrame \<Rightarrow>
     (int \<times> SkyAll \<times> SkyRadioFrame) option" where
  "sky_rx_with_fec ly hash ticks self frame =
     (if frame_len frame < SKY_FRAME_MIN_LEN + RS_PARITYS
      then Some (SKY_RET_INVALID_ENCODED_LENGTH, self, frame)
      else do {
        (ret, frame', d) \<leftarrow> sky_fec_decode frame (sky_diag self);
        let self' = self\<lparr>sky_diag := d\<rparr>;
        if ret < 0 then Some (ret, self', frame')
        else do { (ret', self'') \<leftarrow> sky_rx ly hash ticks self' frame'; Some (ret', self'', frame') }
      })"

text \<open>The loop \<open>raw[i] = raw[i + 3]\<close> for \<open>i\<close> below the length.\<close>

definition shift_left_three :: "bytes \<Rightarrow> nat \<Rightarrow> bytes option" where
  "shift_left_three bs n = Option.bind (read_bytes bs 3 n) (write_bytes bs 0)"

definition sky_rx_with_golay ::
    "SkyHeaderLayout \<Rightarrow> keyed_hash \<Rightarrow> sky_tick_t \<Rightarrow> SkyAll \<Rightarrow> SkyRadioFrame \<Rightarrow>
     (int \<times> SkyAll \<times> SkyRadioFrame) option" where
  "sky_rx_with_golay ly hash ticks self frame = do {
     b0 \<leftarrow> nth_opt (raw frame) 0;
     b1 \<leftarrow> nth_opt (raw frame) 1;
     b2 \<leftarrow> nth_opt (raw frame) 2;
     let (ret, coded_len) = decode_golay24 (push_bit 16 (ucast b0) OR push_bit 8 (ucast b1) OR ucast b2);
     if ret < 0
     then Some (SKY_RET_GOLAY_FAILED,
                self\<lparr>sky_diag := (sky_diag self)\<lparr>rx_fec_fail := rx_fec_fail (sky_diag self) + 1\<rparr>\<rparr>, frame)
     else do {
       let n = unat (coded_len AND SKY_GOLAY_PAYLOAD_LENGTH_MASK);
       let frame1 = frame\<lparr>frame_len := n\<rparr>;
       if n > RAW_SIZE then Some (SKY_RET_INVALID_ENCODED_LENGTH, self, frame1)
       else do {
         bs \<leftarrow> shift_left_three (raw frame1) n;
         sky_rx_with_fec ly hash ticks self (frame1\<lparr>raw := bs\<rparr>)
       }
     }
   }"

end
