(* ===== verification/Sky_Create.thy ===== *)
theory Sky_Create
  imports Hmac
begin

text \<open>
  \<open>sky_create\<close> of \<open>src/utilities.c\<close>: sanitising of the ARQ parameters and creation of the
  sub-layers. The configuration struct of the caller is changed in place and becomes the \<open>conf\<close> of
  the instance. \<open>uninit i\<close> is the memory that \<open>malloc\<close> returns for the pool of channel \<open>i\<close>.
\<close>

section \<open>Model\<close>

definition sanitise_arq_config :: "SkyARQConfig \<Rightarrow> SkyARQConfig" where
  "sanitise_arq_config a0 =
     (let a1 = (if arq_timeout_ticks a0 < 1000 \<or> arq_timeout_ticks a0 > 30000
                then a0\<lparr>arq_timeout_ticks := 10000\<rparr> else a0);
          a2 = (if idle_frame_threshold a1 < 100 \<or> idle_frame_threshold a1 > 10000
                then a1\<lparr>idle_frame_threshold := 1000\<rparr> else a1)
      in if arq_idle_frames_per_window a2 < 1 \<or> arq_idle_frames_per_window a2 > 4
         then a2\<lparr>arq_idle_frames_per_window := 1\<rparr> else a2)"

fun create_vcs :: "(nat \<Rightarrow> nat \<Rightarrow> byte) \<Rightarrow> nat \<Rightarrow> SkyVCConfig list \<Rightarrow> (SkyVCConfig list \<times> SkyVirtualChannel list) option" where
  "create_vcs uninit i [] = Some ([], [])"
| "create_vcs uninit i (c # cs) = do {
     (c', v) \<leftarrow> sky_vc_create (uninit i) c;
     (cs', vs) \<leftarrow> create_vcs uninit (i + 1) cs;
     Some (c' # cs', v # vs)
   }"

text \<open>\<open>Some None\<close> is the return of a null handle for an invalid identity length.\<close>

definition sky_create :: "(nat \<Rightarrow> nat \<Rightarrow> byte) \<Rightarrow> SkyConfig \<Rightarrow> SkyAll option option" where
  "sky_create uninit config =
     (if conf_identity_len config < 3 \<or> conf_identity_len config > 7 then Some None
      else do {
        (mc, m) \<leftarrow> sky_mac_create (conf_mac config);
        h \<leftarrow> sky_hmac_create (conf_hmac config);
        (vcs, vs) \<leftarrow> create_vcs uninit 0 (conf_vc config);
        Some (Some \<lparr>sky_conf = config\<lparr>conf_arq := sanitise_arq_config (conf_arq config), conf_mac := mc,
                                      conf_vc := vcs\<rparr>,
                    sky_diag = sky_diag_create, virtual_channels = vs, sky_mac = m, sky_hmac = h\<rparr>)
      })"

end
