(* ===== verification/Frame_Correct.thy ===== *)
theory Frame_Correct
  imports Frame
begin

text \<open>
  Correctness of frame encoding and parsing. The abstract view of a frame under construction is the
  bytes before the static header, the flags byte, the sequence field, the list of extensions (type
  and body) and the payload; every encoder acts on this view as an append. Parsing a frame with such
  a view finds exactly the extensions of the list.
\<close>

section \<open>Abstract view of a frame\<close>

type_synonym extension = "byte \<times> bytes"

definition ext_size :: "byte \<Rightarrow> nat option" where
  "ext_size ty =
     (if ty = EXTENSION_ARQ_SEQUENCE then Some 1 else if ty = EXTENSION_ARQ_REQUEST then Some 3
      else if ty = EXTENSION_ARQ_CTRL then Some 2 else if ty = EXTENSION_ARQ_HANDSHAKE then Some 5
      else if ty = EXTENSION_MAC_TDD_CONTROL then Some 4
      else if ty = EXTENSION_HMAC_SEQUENCE_RESET then Some 2 else None)"

definition ext_ok :: "extension \<Rightarrow> bool" where
  "ext_ok e \<longleftrightarrow> ext_size (fst e) = Some (length (snd e))"

definition enc_ext :: "extension \<Rightarrow> bytes" where
  "enc_ext e = (fst e OR push_bit 4 (of_nat (length (snd e)))) # snd e"

abbreviation enc_exts :: "extension list \<Rightarrow> bytes" where
  "enc_exts es \<equiv> concat (map enc_ext es)"

text \<open>The static header with flags byte \<open>f\<close>, sequence field \<open>sq\<close> and extension length \<open>n\<close>.\<close>

definition mk_hd :: "SkyHeaderLayout \<Rightarrow> byte \<Rightarrow> u16 \<Rightarrow> byte \<Rightarrow> bytes" where
  "mk_hd ly f sq n =
     (replicate (hdr_sizeof ly) 0)[0 := f, off_frame_sequence ly := mem16 sq ! 0,
        off_frame_sequence ly + 1 := mem16 sq ! 1, off_extension_length ly := n]"

definition frame_bytes :: "SkyHeaderLayout \<Rightarrow> bytes \<Rightarrow> byte \<Rightarrow> u16 \<Rightarrow> extension list \<Rightarrow> bytes \<Rightarrow> bytes" where
  "frame_bytes ly pre f sq es pl =
     pre @ mk_hd ly f sq (of_nat (length (enc_exts es))) @ enc_exts es @ pl"

definition radio_view :: "SkyHeaderLayout \<Rightarrow> SkyRadioFrame \<Rightarrow> bytes \<Rightarrow> byte \<Rightarrow> u16 \<Rightarrow> extension list \<Rightarrow> bytes \<Rightarrow> bool" where
  "radio_view ly frame pre f sq es pl \<longleftrightarrow>
     layout_ok ly \<and> length (raw frame) = RAW_SIZE \<and> frame_len frame \<le> RAW_SIZE \<and>
     frame_len frame = length (frame_bytes ly pre f sq es pl) \<and>
     take (frame_len frame) (raw frame) = frame_bytes ly pre f sq es pl"

definition tx_view :: "SkyHeaderLayout \<Rightarrow> SkyTransmitFrame \<Rightarrow> bytes \<Rightarrow> byte \<Rightarrow> u16 \<Rightarrow> extension list \<Rightarrow> bytes \<Rightarrow> bool" where
  "tx_view ly tx pre f sq es pl \<longleftrightarrow>
     radio_view ly (tx_radio tx) pre f sq es pl \<and> hdr tx = length pre \<and> ptr tx = frame_len (tx_radio tx)"

section \<open>Header fields\<close>

lemma length_enc_ext [simp]: "length (enc_ext e) = Suc (length (snd e))"
  by (simp add: enc_ext_def)

lemma length_mem16 [simp]: "length (mem16 s) = 2"
  by (simp add: mem16_def)

lemma length_mk_hd [simp]: "length (mk_hd ly f sq n) = hdr_sizeof ly"
  by (simp add: mk_hd_def)

lemma mk_hd_fields:
  assumes "layout_ok ly"
  shows "mk_hd ly f sq n ! 0 = f" "mk_hd ly f sq n ! off_extension_length ly = n"
    "mk_hd ly f sq n ! off_frame_sequence ly = mem16 sq ! 0"
    "mk_hd ly f sq n ! Suc (off_frame_sequence ly) = mem16 sq ! 1"
  using assms by (auto simp: mk_hd_def layout_ok_def nth_list_update)

lemma mk_hd_updates:
  assumes "layout_ok ly"
  shows "(mk_hd ly f sq n)[0 := f'] = mk_hd ly f' sq n"
    "(mk_hd ly f sq n)[off_extension_length ly := n'] = mk_hd ly f sq n'"
    "take (off_frame_sequence ly) (mk_hd ly f sq n) @ mem16 sq' @ drop (off_frame_sequence ly + 2) (mk_hd ly f sq n) =
       mk_hd ly f sq' n"
proof -
  show "(mk_hd ly f sq n)[0 := f'] = mk_hd ly f' sq n"
    "(mk_hd ly f sq n)[off_extension_length ly := n'] = mk_hd ly f sq n'"
    using assms by (auto simp: mk_hd_def layout_ok_def intro!: nth_equalityI simp: nth_list_update)
  show "take (off_frame_sequence ly) (mk_hd ly f sq n) @ mem16 sq' @ drop (off_frame_sequence ly + 2) (mk_hd ly f sq n) =
      mk_hd ly f sq' n" (is "?l = _")
  proof (rule nth_equalityI)
    show "length ?l = length (mk_hd ly f sq' n)" using assms by (auto simp: layout_ok_def)
    fix i assume "i < length ?l"
    then consider "i < off_frame_sequence ly" | "i = off_frame_sequence ly" | "i = Suc (off_frame_sequence ly)"
      | "off_frame_sequence ly + 2 \<le> i" "i < hdr_sizeof ly"
      using assms by (fastforce simp: layout_ok_def)
    then show "?l ! i = mk_hd ly f sq' n ! i"
      using assms by cases (auto simp: mk_hd_def layout_ok_def nth_append nth_list_update)
  qed
qed

section \<open>Encoders\<close>

lemma radio_viewE:
  assumes "radio_view ly frame pre f sq es pl"
  obtains rest where "raw frame = frame_bytes ly pre f sq es pl @ rest" "layout_ok ly"
    "length (raw frame) = RAW_SIZE" "frame_len frame = length (frame_bytes ly pre f sq es pl)"
    "frame_len frame \<le> RAW_SIZE" "0 < hdr_sizeof ly" "length rest = RAW_SIZE - frame_len frame"
proof -
  have "raw frame = frame_bytes ly pre f sq es pl @ drop (frame_len frame) (raw frame)"
    using assms by (metis append_take_drop_id radio_view_def)
  then show ?thesis using assms that by (auto simp: radio_view_def layout_ok_def)
qed

lemma radio_viewI:
  assumes "raw frame = frame_bytes ly pre f sq es pl @ rest" "layout_ok ly" "length (raw frame) = RAW_SIZE"
    "frame_len frame = length (frame_bytes ly pre f sq es pl)"
  shows "radio_view ly frame pre f sq es pl"
  using assms by (auto simp: radio_view_def)

lemma tx_viewE:
  assumes "tx_view ly tx pre f sq es pl"
  obtains rest where "raw (tx_radio tx) = frame_bytes ly pre f sq es pl @ rest" "layout_ok ly"
    "length (raw (tx_radio tx)) = RAW_SIZE" "frame_len (tx_radio tx) = length (frame_bytes ly pre f sq es pl)"
    "frame_len (tx_radio tx) \<le> RAW_SIZE" "0 < hdr_sizeof ly" "length rest = RAW_SIZE - frame_len (tx_radio tx)"
    "hdr tx = length pre" "ptr tx = frame_len (tx_radio tx)"
proof -
  have "radio_view ly (tx_radio tx) pre f sq es pl" "hdr tx = length pre" "ptr tx = frame_len (tx_radio tx)"
    using assms by (auto simp: tx_view_def)
  then show ?thesis using that by (elim radio_viewE) blast
qed

lemma length_frame_bytes:
  "length (frame_bytes ly pre f sq es pl) = length pre + hdr_sizeof ly + length (enc_exts es) + length pl"
  by (simp add: frame_bytes_def)

lemma header_bytes:
  assumes "raw frame = frame_bytes ly pre f sq es pl @ rest" "layout_ok ly"
  shows "nth_opt (raw frame) (length pre) = Some f"
    "hdr_extension_length ly (raw frame) (length pre) = Some (of_nat (length (enc_exts es)))"
    "upd_opt (raw frame) (length pre) f' = Some (frame_bytes ly pre f' sq es pl @ rest)"
    "hdr_set_frame_sequence ly (raw frame) (length pre) sq' = Some (frame_bytes ly pre f sq' es pl @ rest)"
proof -
  have p: "0 < hdr_sizeof ly" "off_extension_length ly < hdr_sizeof ly"
    "off_frame_sequence ly + 2 \<le> hdr_sizeof ly"
    using assms(2) by (auto simp: layout_ok_def)
  show "nth_opt (raw frame) (length pre) = Some f"
    using p mk_hd_fields [OF assms(2)] by (auto simp: assms(1) frame_bytes_def nth_append nth_opt_def)
  show "hdr_extension_length ly (raw frame) (length pre) = Some (of_nat (length (enc_exts es)))"
    using p mk_hd_fields [OF assms(2)]
    by (auto simp: assms(1) frame_bytes_def nth_append nth_opt_def hdr_extension_length_def)
  show "upd_opt (raw frame) (length pre) f' = Some (frame_bytes ly pre f' sq es pl @ rest)"
    using p mk_hd_updates(1) [OF assms(2), of f sq _ f']
    by (auto simp: assms(1) frame_bytes_def upd_opt_def list_update_append)
  show "hdr_set_frame_sequence ly (raw frame) (length pre) sq' = Some (frame_bytes ly pre f sq' es pl @ rest)"
    using p mk_hd_updates(3) [OF assms(2), of f sq _ sq']
    by (auto simp: assms(1) frame_bytes_def hdr_set_frame_sequence_def)
qed

lemma assert_no_payload_view:
  assumes "tx_view ly tx pre f sq es pl"
  shows "assert_no_payload tx = (if bit f 4 then None else Some ())"
proof -
  obtain rest where "raw (tx_radio tx) = frame_bytes ly pre f sq es pl @ rest" "layout_ok ly"
    using assms by (rule tx_viewE)
  from header_bytes(1) [OF this] show ?thesis
    using assms by (simp add: assert_no_payload_def flag_has_payload_def hdr_flag_def tx_view_def)
qed

lemma put_extension_view:
  assumes v: "tx_view ly tx pre f sq es []" and room: "frame_len (tx_radio tx) + 1 + length body \<le> RAW_SIZE"
  obtains tx' where "put_extension ly tx ty body = Some tx'" "tx_view ly tx' pre f sq (es @ [(ty, body)]) []"
    "frame_len (tx_radio tx') = frame_len (tx_radio tx) + 1 + length body"
proof -
  obtain rest where r: "raw (tx_radio tx) = frame_bytes ly pre f sq es [] @ rest" "layout_ok ly"
    "length (raw (tx_radio tx)) = RAW_SIZE" "frame_len (tx_radio tx) = length (frame_bytes ly pre f sq es [])"
    "0 < hdr_sizeof ly" "length rest = RAW_SIZE - frame_len (tx_radio tx)"
    using v by (rule tx_viewE)
  define hb where "hb = (ty OR push_bit 4 (of_nat (length body))) # body"
  define mid where "mid = pre @ mk_hd ly f sq (of_nat (length (enc_exts es))) @ enc_exts es @ hb @ drop (length hb) rest"
  have w: "write_bytes (raw (tx_radio tx)) (ptr tx) hb = Some mid"
    using r v room by (simp add: tx_view_def write_bytes_def frame_bytes_def mid_def hb_def)
  have off: "off_extension_length ly < hdr_sizeof ly" using r(2) by (simp add: layout_ok_def)
  have el: "hdr_extension_length ly mid (length pre) = Some (of_nat (length (enc_exts es)))"
    using off mk_hd_fields(2) [OF r(2)]
    by (auto simp: mid_def nth_append nth_opt_def hdr_extension_length_def)
  define bs' where "bs' = pre @ mk_hd ly f sq (of_nat (length (enc_exts es)) + of_nat (1 + length body)) @ enc_exts es @
     hb @ drop (length hb) rest"
  have st: "hdr_set_extension_length ly mid (length pre) (of_nat (length (enc_exts es)) + of_nat (1 + length body)) = Some bs'"
    using off mk_hd_updates(2) [OF r(2)]
    by (auto simp: mid_def bs'_def upd_opt_def hdr_set_extension_length_def list_update_append)
  define tx' where "tx' = tx\<lparr>tx_radio := (tx_radio tx)\<lparr>raw := bs', frame_len := frame_len (tx_radio tx) + 1 + length body\<rparr>,
                    ptr := ptr tx + 1 + length body\<rparr>"
  have p: "put_extension ly tx ty body = Some tx'"
    using w el st v by (simp add: put_extension_def hb_def tx'_def tx_view_def Let_def)
  have fb: "bs' = frame_bytes ly pre f sq (es @ [(ty, body)]) [] @ drop (length hb) rest"
    by (simp add: bs'_def frame_bytes_def hb_def enc_ext_def algebra_simps)
  have "length bs' = RAW_SIZE" using r room by (simp add: bs'_def hb_def length_frame_bytes)
  then have "radio_view ly (tx_radio tx') pre f sq (es @ [(ty, body)]) []"
    using fb r by (intro radio_viewI) (auto simp: tx'_def length_frame_bytes)
  then have "tx_view ly tx' pre f sq (es @ [(ty, body)]) []"
    using v by (simp add: tx_view_def tx'_def)
  moreover have "frame_len (tx_radio tx') = frame_len (tx_radio tx) + 1 + length body" by (simp add: tx'_def)
  ultimately show ?thesis using p that by blast
qed

lemma put_bytes_view:
  assumes v: "tx_view ly tx pre f sq es pl" and room: "frame_len (tx_radio tx) + length bs \<le> RAW_SIZE"
  obtains tx' where "put_bytes tx bs = Some tx'" "tx_view ly tx' pre f sq es (pl @ bs)"
    "frame_len (tx_radio tx') = frame_len (tx_radio tx) + length bs"
proof -
  obtain rest where r: "raw (tx_radio tx) = frame_bytes ly pre f sq es pl @ rest" "layout_ok ly"
    "length (raw (tx_radio tx)) = RAW_SIZE" "frame_len (tx_radio tx) = length (frame_bytes ly pre f sq es pl)"
    using v by (rule tx_viewE)
  define bs' where "bs' = frame_bytes ly pre f sq es (pl @ bs) @ drop (length bs) rest"
  have w: "write_bytes (raw (tx_radio tx)) (ptr tx) bs = Some bs'"
    using r v room by (simp add: tx_view_def write_bytes_def frame_bytes_def bs'_def)
  define tx' where "tx' = tx\<lparr>tx_radio := (tx_radio tx)\<lparr>raw := bs', frame_len := frame_len (tx_radio tx) + length bs\<rparr>,
                    ptr := ptr tx + length bs\<rparr>"
  have p: "put_bytes tx bs = Some tx'" using w by (simp add: put_bytes_def tx'_def)
  have "length bs' = RAW_SIZE" using length_write_bytes [OF w] r by simp
  then have "radio_view ly (tx_radio tx') pre f sq es (pl @ bs)"
    using r bs'_def by (intro radio_viewI) (auto simp: tx'_def length_frame_bytes)
  then have "tx_view ly tx' pre f sq es (pl @ bs)" using v by (simp add: tx_view_def tx'_def)
  moreover have "frame_len (tx_radio tx') = frame_len (tx_radio tx) + length bs" by (simp add: tx'_def)
  ultimately show ?thesis using p that by blast
qed

lemma tx_set_flag_view:
  assumes v: "tx_view ly tx pre f sq es pl"
  obtains tx' where "tx_set_flag i tx = Some tx'" "tx_view ly tx' pre (set_bit i f) sq es pl"
    "frame_len (tx_radio tx') = frame_len (tx_radio tx)"
proof -
  obtain rest where r: "raw (tx_radio tx) = frame_bytes ly pre f sq es pl @ rest" "layout_ok ly"
    "length (raw (tx_radio tx)) = RAW_SIZE" "frame_len (tx_radio tx) = length (frame_bytes ly pre f sq es pl)"
    using v by (rule tx_viewE)
  define bs' where "bs' = frame_bytes ly pre (set_bit i f) sq es pl @ rest"
  define tx' where "tx' = tx\<lparr>tx_radio := (tx_radio tx)\<lparr>raw := bs'\<rparr>\<rparr>"
  have p: "tx_set_flag i tx = Some tx'"
    using header_bytes(1,3) [OF r(1,2)] v by (simp add: tx_set_flag_def hdr_set_flag_def tx_view_def tx'_def bs'_def)
  have "length bs' = RAW_SIZE" using r by (simp add: bs'_def length_frame_bytes)
  then have "radio_view ly (tx_radio tx') pre (set_bit i f) sq es pl"
    using r bs'_def by (intro radio_viewI) (auto simp: tx'_def length_frame_bytes)
  then have "tx_view ly tx' pre (set_bit i f) sq es pl" using v by (simp add: tx_view_def tx'_def)
  moreover have "frame_len (tx_radio tx') = frame_len (tx_radio tx)" by (simp add: tx'_def)
  ultimately show ?thesis using p that by blast
qed

lemma set_frame_sequence_view:
  assumes v: "tx_view ly tx pre f sq es pl"
  obtains bs where "hdr_set_frame_sequence ly (raw (tx_radio tx)) (hdr tx) sq' = Some bs"
    "tx_view ly (tx\<lparr>tx_radio := (tx_radio tx)\<lparr>raw := bs\<rparr>\<rparr>) pre f sq' es pl"
proof -
  obtain rest where r: "raw (tx_radio tx) = frame_bytes ly pre f sq es pl @ rest" "layout_ok ly"
    "length (raw (tx_radio tx)) = RAW_SIZE" "frame_len (tx_radio tx) = length (frame_bytes ly pre f sq es pl)"
    using v by (rule tx_viewE)
  define bs where "bs = frame_bytes ly pre f sq' es pl @ rest"
  have p: "hdr_set_frame_sequence ly (raw (tx_radio tx)) (hdr tx) sq' = Some bs"
    using header_bytes(4) [OF r(1,2)] v by (simp add: tx_view_def bs_def)
  have "length bs = RAW_SIZE" using r by (simp add: bs_def length_frame_bytes)
  then have "radio_view ly ((tx_radio tx)\<lparr>raw := bs\<rparr>) pre f sq' es pl"
    using r bs_def by (intro radio_viewI) (auto simp: length_frame_bytes)
  then show ?thesis using v p that by (simp add: tx_view_def)
qed

text \<open>What an encoder does to the view: one extension is appended.\<close>

definition appends :: "SkyHeaderLayout \<Rightarrow> SkyTransmitFrame option \<Rightarrow> SkyTransmitFrame \<Rightarrow> bytes \<Rightarrow> byte \<Rightarrow> u16 \<Rightarrow>
    extension list \<Rightarrow> extension \<Rightarrow> bool" where
  "appends ly r tx pre f sq es e \<longleftrightarrow>
     (\<exists>tx'. r = Some tx' \<and> tx_view ly tx' pre f sq (es @ [e]) [] \<and>
        frame_len (tx_radio tx') = frame_len (tx_radio tx) + 1 + length (snd e))"

lemma put_extension_appends:
  assumes "tx_view ly tx pre f sq es []" "frame_len (tx_radio tx) + 1 + length body \<le> RAW_SIZE"
  shows "appends ly (put_extension ly tx ty body) tx pre f sq es (ty, body)"
  using put_extension_view [OF assms] by (metis appends_def snd_conv)

lemma length_mem32 [simp]: "length (mem32 w) = 4"
  by (simp add: mem32_def)

lemma RAW_SIZE_val: "RAW_SIZE = 229"
  by (simp add: RAW_SIZE_def SKY_FRAME_MAX_LEN_def)

lemma encoders_append:
  assumes v: "tx_view ly tx pre f sq es []" and f: "\<not> bit f 4" and n: "frame_len (tx_radio tx) < 175"
  shows "appends ly (sky_frame_add_extension_arq_sequence ly tx a) tx pre f sq es (EXTENSION_ARQ_SEQUENCE, [a])"
    "appends ly (sky_frame_add_extension_arq_request ly tx a mk) tx pre f sq es
       (EXTENSION_ARQ_REQUEST, a # mem16 (sky_hton16 mk))"
    "appends ly (sky_frame_add_extension_arq_ctrl ly tx a b) tx pre f sq es (EXTENSION_ARQ_CTRL, [a, b])"
    "appends ly (sky_frame_add_extension_arq_handshake ly tx a q) tx pre f sq es
       (EXTENSION_ARQ_HANDSHAKE, a # mem32 (sky_hton32 q))"
    "appends ly (sky_frame_add_extension_mac_tdd_control ly tx w r) tx pre f sq es
       (EXTENSION_MAC_TDD_CONTROL, mem16 (sky_hton16 w) @ mem16 (sky_hton16 r))"
    "appends ly (sky_frame_add_extension_hmac_sequence_reset ly tx u) tx pre f sq es
       (EXTENSION_HMAC_SEQUENCE_RESET, mem16 (sky_hton16 u))"
  using f n assert_no_payload_view [OF v] put_extension_appends [OF v]
  by (simp_all add: sky_frame_add_extension_arq_sequence_def sky_frame_add_extension_arq_request_def
        sky_frame_add_extension_arq_ctrl_def sky_frame_add_extension_arq_handshake_def
        sky_frame_add_extension_mac_tdd_control_def sky_frame_add_extension_hmac_sequence_reset_def
        SKY_PAYLOAD_MAX_LEN_def RAW_SIZE_val)

lemma extend_with_payload_view:
  assumes v: "tx_view ly tx pre f sq es []" and f: "\<not> bit f 4"
    and n: "frame_len (tx_radio tx) + length pl + SKY_HMAC_LENGTH \<le> RS_MSGLEN"
  obtains tx' where "sky_frame_extend_with_payload tx pl = Some (SKY_RET_OK, tx')"
    "tx_view ly tx' pre (set_bit 4 f) sq es pl"
proof -
  have "frame_len (tx_radio tx) + length pl \<le> RAW_SIZE" "\<not> sky_frame_get_space_left (tx_radio tx) < int (length pl)"
    using n by (auto simp: RAW_SIZE_val RS_MSGLEN_def SKY_HMAC_LENGTH_def sky_frame_get_space_left_def)
  moreover from put_bytes_view [OF v this(1)] obtain tx1 where t1: "put_bytes tx pl = Some tx1"
    "tx_view ly tx1 pre f sq es ([] @ pl)" by blast
  moreover from tx_set_flag_view [OF t1(2), of 4] obtain tx2 where "tx_set_flag 4 tx1 = Some tx2"
    "tx_view ly tx2 pre (set_bit 4 f) sq es ([] @ pl)" by blast
  ultimately show ?thesis
    using f assert_no_payload_view [OF v] that by (simp add: sky_frame_extend_with_payload_def)
qed

section \<open>Parsing\<close>

definition ext_lookup :: "SkyParsedFrame \<Rightarrow> byte \<Rightarrow> bytes option" where
  "ext_lookup p ty =
     (case ext_slot ty p of Some (Some e, n) \<Rightarrow> read_bytes (p_raw p) (e + 1) n | _ \<Rightarrow> None)"

definition same_frame :: "SkyParsedFrame \<Rightarrow> SkyParsedFrame \<Rightarrow> bool" where
  "same_frame p q \<longleftrightarrow> p_raw p = p_raw q \<and> p_identity_len p = p_identity_len q \<and> p_hdr p = p_hdr q \<and>
     p_payload p = p_payload q \<and> payload_len p = payload_len q"

lemmas extension_types = EXTENSION_ARQ_SEQUENCE_def EXTENSION_ARQ_REQUEST_def EXTENSION_ARQ_CTRL_def
  EXTENSION_ARQ_HANDSHAKE_def EXTENSION_MAC_TDD_CONTROL_def EXTENSION_HMAC_SEQUENCE_RESET_def

lemma ext_size_cases:
  assumes "ext_size ty = Some n"
  obtains "ty = 0" "n = 1" | "ty = 1" "n = 3" | "ty = 2" "n = 2" | "ty = 3" "n = 5" | "ty = 4" "n = 4"
    | "ty = 5" "n = 2"
  using assms by (auto simp: ext_size_def extension_types split: if_splits)

lemma ext_header_byte:
  assumes "ext_size ty = Some n"
  shows "(ty OR push_bit 4 (of_nat n)) AND 0x0f = ty" "unat (drop_bit 4 (ty OR push_bit 4 (of_nat n))) = n"
  using assms by (auto elim!: ext_size_cases)

lemma ext_slot_known:
  assumes "ext_size ty = Some n"
  obtains s where "ext_slot ty p = Some (s, n)"
  using assms by (auto elim!: ext_size_cases simp: ext_slot_def extension_types)

lemma ext_slot_set:
  assumes "ext_size ty = Some n"
  shows "ext_slot ty (ext_set_slot ty e p) = Some (Some e, n)"
    "ty' \<noteq> ty \<Longrightarrow> ext_slot ty' (ext_set_slot ty e p) = ext_slot ty' p" "same_frame (ext_set_slot ty e p) p"
  using assms
  by (auto elim!: ext_size_cases simp: ext_slot_def ext_set_slot_def extension_types same_frame_def)

lemma ext_lookup_set:
  assumes "ext_size ty = Some n"
  shows "ext_lookup (ext_set_slot ty e p) ty = read_bytes (p_raw p) (e + 1) n"
    "ty' \<noteq> ty \<Longrightarrow> ext_lookup (ext_set_slot ty e p) ty' = ext_lookup p ty'"
proof -
  have "p_raw (ext_set_slot ty e p) = p_raw p" using ext_slot_set(3) [OF assms] by (simp add: same_frame_def)
  then show "ext_lookup (ext_set_slot ty e p) ty = read_bytes (p_raw p) (e + 1) n"
    "ty' \<noteq> ty \<Longrightarrow> ext_lookup (ext_set_slot ty e p) ty' = ext_lookup p ty'"
    using ext_slot_set(1,2) [OF assms] by (auto simp: ext_lookup_def split: option.split prod.split)
qed

lemma ext_slot_lookup_None:
  "\<lbrakk> ext_size ty = Some n; ext_slot ty p = Some (None, n) \<rbrakk> \<Longrightarrow> ext_lookup p ty = None"
  by (simp add: ext_lookup_def)

lemma parse_ext_loop_exts:
  assumes "raw frame = A @ enc_exts es @ rest" "length A + length (enc_exts es) \<le> frame_len frame"
    "list_all ext_ok es" "distinct (map fst es)" "p_raw p = raw frame"
    "\<And>e. e \<in> set es \<Longrightarrow> ext_slot (fst e) p = Some (None, length (snd e))"
  shows "\<exists>p'. parse_ext_loop frame p (length A) (length A + length (enc_exts es)) = Some (SKY_RET_OK, p') \<and>
     same_frame p' p \<and>
     (\<forall>ty. ext_lookup p' ty = (case map_of es ty of Some b \<Rightarrow> Some b | None \<Rightarrow> ext_lookup p ty))"
  using assms
proof (induction es arbitrary: A p)
  case Nil
  then show ?case by (simp add: parse_ext_loop.simps same_frame_def)
next
  case (Cons e es)
  obtain ty body where e: "e = (ty, body)" by (cases e)
  have sz: "ext_size ty = Some (length body)" using Cons.prems(3) by (simp add: e ext_ok_def)
  define A' where "A' = A @ enc_ext e"
  define p1 where "p1 = ext_set_slot ty (length A) p"
  have raw': "raw frame = A' @ enc_exts es @ rest" using Cons.prems(1) by (simp add: A'_def)
  have len': "length A' = length A + 1 + length body" by (simp add: A'_def e)
  have same1: "same_frame p1 p" by (simp add: p1_def ext_slot_set(3) [OF sz])
  have hb: "nth_opt (raw frame) (length A) = Some (ty OR push_bit 4 (of_nat (length body)))"
    using Cons.prems(1) by (simp add: nth_opt_def e enc_ext_def)
  have slot: "ext_slot ty p = Some (None, length body)" using Cons.prems(6) [of e] by (simp add: e)
  have lk: "ext_lookup p ty = None" using ext_slot_lookup_None [OF sz slot] .
  have look: "read_bytes (p_raw p) (length A + 1) (length body) = Some body"
    using Cons.prems(1,5) by (simp add: e enc_ext_def read_bytes_def)
  have step: "parse_ext_loop frame p (length A) (length A + length (enc_exts (e # es))) =
      parse_ext_loop frame p1 (length A') (length A' + length (enc_exts es))"
    using hb slot ext_header_byte [OF sz] Cons.prems(2)
    by (subst parse_ext_loop.simps) (simp add: Let_def p1_def A'_def e add.assoc)
  have "\<exists>p'. parse_ext_loop frame p1 (length A') (length A' + length (enc_exts es)) = Some (SKY_RET_OK, p') \<and>
     same_frame p' p1 \<and>
     (\<forall>ty. ext_lookup p' ty = (case map_of es ty of Some b \<Rightarrow> Some b | None \<Rightarrow> ext_lookup p1 ty))"
  proof (rule Cons.IH [OF raw'])
    show "length A' + length (enc_exts es) \<le> frame_len frame" using Cons.prems(2) by (simp add: len' e)
    show "list_all ext_ok es" "distinct (map fst es)" using Cons.prems(3,4) by auto
    show "p_raw p1 = raw frame" using same1 Cons.prems(5) by (simp add: same_frame_def)
    show "ext_slot (fst x) p1 = Some (None, length (snd x))" if "x \<in> set es" for x
    proof -
      have "fst x \<noteq> ty" using that Cons.prems(4) e by auto
      then show ?thesis using ext_slot_set(2) [OF sz] Cons.prems(6) that by (simp add: p1_def)
    qed
  qed
  then obtain p' where p': "parse_ext_loop frame p1 (length A') (length A' + length (enc_exts es)) = Some (SKY_RET_OK, p')"
    "same_frame p' p1"
    "\<And>t. ext_lookup p' t = (case map_of es t of Some b \<Rightarrow> Some b | None \<Rightarrow> ext_lookup p1 t)" by blast
  have none: "map_of es ty = None" using Cons.prems(4) by (simp add: e map_of_eq_None_iff)
  have "ext_lookup p' t = (case map_of (e # es) t of Some b \<Rightarrow> Some b | None \<Rightarrow> ext_lookup p t)" for t
    using p'(3) [of t] ext_lookup_set [OF sz, where e = "length A" and p = p] look none
    by (cases "t = ty") (auto simp: p1_def e split: option.split)
  then show ?case using step p'(1,2) same1 by (auto simp: same_frame_def)
qed

text \<open>No extension has been found yet.\<close>

definition no_exts :: "SkyParsedFrame \<Rightarrow> bool" where
  "no_exts p \<longleftrightarrow> arq_sequence p = None \<and> arq_request p = None \<and> arq_ctrl p = None \<and>
     arq_handshake p = None \<and> mac_tdd p = None \<and> hmac_reset p = None"

lemma no_exts_slot: "\<lbrakk> no_exts p; ext_slot ty p = Some (s, n) \<rbrakk> \<Longrightarrow> s = None"
  by (auto simp: no_exts_def ext_slot_def split: if_splits)

lemma no_exts_lookup: "no_exts p \<Longrightarrow> ext_lookup p ty = None"
  by (auto simp: no_exts_def ext_lookup_def ext_slot_def)

lemma unat_of_nat_byte: "n < 256 \<Longrightarrow> unat (of_nat n :: byte) = n"
  by (simp add: unat_of_nat)

lemma parse_view:
  assumes v: "radio_view ly frame (b0 # idn) f sq es pl" and il: "unat (b0 AND SKYLINK_FRAME_IDENTITY_MASK) = length idn"
    and es: "list_all ext_ok es" "distinct (map fst es)" and p: "p_raw p = raw frame" "no_exts p"
    "p_hdr p = mk_hd ly f sq (of_nat (length (enc_exts es)))"
  obtains p' where "sky_frame_parse_extension_headers ly frame p = Some (SKY_RET_OK, p')" "same_frame p' p"
    "\<And>ty. ext_lookup p' ty = map_of es ty"
proof -
  from v obtain rest where r: "raw frame = frame_bytes ly (b0 # idn) f sq es pl @ rest" "layout_ok ly"
    "frame_len frame = length (frame_bytes ly (b0 # idn) f sq es pl)" "frame_len frame \<le> RAW_SIZE"
    by (rule radio_viewE)
  define A where "A = (b0 # idn) @ mk_hd ly f sq (of_nat (length (enc_exts es)))"
  have lenA: "length A = 1 + length idn + hdr_sizeof ly" by (simp add: A_def)
  have rawA: "raw frame = A @ enc_exts es @ (pl @ rest)" by (simp add: r(1) A_def frame_bytes_def)
  have off: "off_extension_length ly < hdr_sizeof ly" using r(2) by (simp add: layout_ok_def)
  have small: "length (enc_exts es) < 256" using r(3,4) by (simp add: length_frame_bytes RAW_SIZE_val)
  have el: "hdr_extension_length ly (p_hdr p) 0 = Some (of_nat (length (enc_exts es)))"
    using off mk_hd_fields(2) [OF r(2)] by (simp add: hdr_extension_length_def p(3))
  have slots: "ext_slot (fst e) p = Some (None, length (snd e))" if "e \<in> set es" for e
  proof -
    have "ext_size (fst e) = Some (length (snd e))" using es(1) that by (auto simp: list_all_iff ext_ok_def)
    from ext_slot_known [OF this, of p] obtain s where s: "ext_slot (fst e) p = Some (s, length (snd e))" .
    with no_exts_slot [OF p(2)] show ?thesis by blast
  qed
  have bound: "length A + length (enc_exts es) \<le> frame_len frame"
    using r(3) lenA by (simp add: length_frame_bytes)
  from parse_ext_loop_exts [OF rawA bound es p(1) slots]
  obtain p' where p': "parse_ext_loop frame p (length A) (length A + length (enc_exts es)) = Some (SKY_RET_OK, p')"
    "same_frame p' p"
    and lk: "\<forall>ty. ext_lookup p' ty = (case map_of es ty of Some b \<Rightarrow> Some b | None \<Rightarrow> ext_lookup p ty)" by blast
  have lk': "ext_lookup p' ty = map_of es ty" for ty
    using lk [rule_format, of ty] no_exts_lookup [OF p(2), of ty] by (cases "map_of es ty") simp_all
  have "nth_opt (raw frame) 0 = Some b0" by (simp add: r(1) frame_bytes_def nth_opt_def)
  then have "sky_frame_parse_extension_headers ly frame p = Some (SKY_RET_OK, p')"
    using el p'(1) bound lenA il small
    by (simp add: sky_frame_parse_extension_headers_def Let_def unat_of_nat_byte add.assoc)
  then show ?thesis using p'(2) lk' that by blast
qed

text \<open>Whatever the bytes of a received frame are, the pointers the parser stores lie inside the frame.\<close>

definition ptrs_inside :: "SkyRadioFrame \<Rightarrow> SkyParsedFrame \<Rightarrow> bool" where
  "ptrs_inside frame p \<longleftrightarrow> (\<forall>ty e n. ext_slot ty p = Some (Some e, n) \<longrightarrow> e + 1 + n \<le> frame_len frame)"

definition parse_codes :: "int set" where
  "parse_codes = {SKY_RET_OK, SKY_RET_INVALID_EXT_LENGTH, SKY_RET_INVALID_EXT_TYPE, SKY_RET_REDUNDANT_EXTENSIONS}"

lemma ext_slot_size:
  "ext_slot ty p = Some (s, n) \<Longrightarrow> ext_size ty = Some n"
  by (auto simp: ext_slot_def ext_size_def split: if_splits)

lemma parse_ext_loop_total:
  assumes "fin \<le> length (raw frame)" "ptrs_inside frame p"
  shows "\<exists>ret p'. parse_ext_loop frame p cursor fin = Some (ret, p') \<and> ret \<in> parse_codes \<and> same_frame p' p \<and>
     ptrs_inside frame p'"
  using assms
proof (induction frame p cursor fin rule: parse_ext_loop.induct)
  case (1 frame p cursor fin)
  have stop: "\<exists>ret' p'. Some (ret, p) = Some (ret', p') \<and> ret' \<in> parse_codes \<and> same_frame p' p \<and> ptrs_inside frame p'"
    if "ret \<in> parse_codes" for ret using that "1.prems"(2) by (auto simp: same_frame_def)
  show ?case
  proof (cases "cursor < fin")
    case False
    then show ?thesis using stop [of SKY_RET_OK] by (simp add: parse_ext_loop.simps parse_codes_def)
  next
    case True
    then have i: "cursor < length (raw frame)" using "1.prems"(1) by linarith
    define b where "b = raw frame ! cursor"
    define ty where "ty = b AND 0x0f"
    define len where "len = unat (drop_bit 4 b)"
    have b: "nth_opt (raw frame) cursor = Some b" using i by (simp add: b_def)
    have unf: "parse_ext_loop frame p cursor fin =
        (if cursor + 1 + len > frame_len frame then Some (SKY_RET_INVALID_EXT_LENGTH, p)
         else case ext_slot ty p of
                None \<Rightarrow> Some (SKY_RET_INVALID_EXT_TYPE, p)
              | Some (slot, sz) \<Rightarrow>
                  (if slot \<noteq> None then Some (SKY_RET_REDUNDANT_EXTENSIONS, p)
                   else if len \<noteq> sz then Some (SKY_RET_INVALID_EXT_LENGTH, p)
                   else parse_ext_loop frame (ext_set_slot ty cursor p) (cursor + 1 + len) fin))"
      using True b unfolding ty_def len_def
      by (subst parse_ext_loop.simps) (simp add: Let_def split: option.split)
    show ?thesis
    proof (cases "cursor + 1 + len \<le> frame_len frame \<and> ext_slot ty p = Some (None, len)")
      case False
      then show ?thesis unfolding unf using stop by (auto simp: parse_codes_def split: option.splits if_splits)
    next
      case ok: True
      have sz: "ext_size ty = Some len" using ok ext_slot_size by blast
      have ins: "ptrs_inside frame (ext_set_slot ty cursor p)"
        unfolding ptrs_inside_def
      proof (intro allI impI)
        fix ty' e n assume a: "ext_slot ty' (ext_set_slot ty cursor p) = Some (Some e, n)"
        show "e + 1 + n \<le> frame_len frame"
          using a ok ext_slot_set(1,2) [OF sz] "1.prems"(2) by (cases "ty' = ty") (auto simp: ptrs_inside_def)
      qed
      have "\<exists>ret p'. parse_ext_loop frame (ext_set_slot ty cursor p) (cursor + 1 + len) fin = Some (ret, p') \<and>
          ret \<in> parse_codes \<and> same_frame p' (ext_set_slot ty cursor p) \<and> ptrs_inside frame p'"
        using "1.IH" [OF True b ty_def len_def refl _ _ refl _ _ "1.prems"(1) ins] ok by auto
      then show ?thesis unfolding unf using ok ext_slot_set(3) [OF sz] by (auto simp: same_frame_def)
    qed
  qed
qed

lemma parse_total:
  assumes len: "frame_len frame \<le> length (raw frame)" "0 < length (raw frame)" and ly: "layout_ok ly"
    "length (p_hdr p) = hdr_sizeof ly" and p: "no_exts p"
  obtains ret p' where "sky_frame_parse_extension_headers ly frame p = Some (ret, p')" "ret \<in> parse_codes"
    "same_frame p' p" "ptrs_inside frame p'"
proof -
  have ins: "ptrs_inside frame p" using no_exts_slot [OF p] by (fastforce simp: ptrs_inside_def)
  have el: "hdr_extension_length ly (p_hdr p) 0 = Some (p_hdr p ! off_extension_length ly)"
    using ly by (simp add: hdr_extension_length_def layout_ok_def)
  define cursor where "cursor = 1 + unat (raw frame ! 0 AND SKYLINK_FRAME_IDENTITY_MASK) + hdr_sizeof ly"
  define fin where "fin = cursor + unat (p_hdr p ! off_extension_length ly)"
  have unf: "sky_frame_parse_extension_headers ly frame p =
      (if fin > frame_len frame then Some (SKY_RET_INVALID_EXT_LENGTH, p) else parse_ext_loop frame p cursor fin)"
    using el len(2) by (simp add: sky_frame_parse_extension_headers_def Let_def cursor_def fin_def)
  show ?thesis
  proof (cases "fin > frame_len frame")
    case True
    then show ?thesis using unf ins that by (auto simp: parse_codes_def same_frame_def)
  next
    case False
    then have "fin \<le> length (raw frame)" using len(1) by linarith
    from parse_ext_loop_total [OF this ins, of cursor] show ?thesis using False unf that by auto
  qed
qed

section \<open>Properties\<close>

lemma layouts_ok [simp]: "layout_ok layout_gcc" "layout_ok layout_packed"
  by (simp_all add: layout_ok_def layout_gcc_def layout_packed_def)

text \<open>A frame whose first bytes are given, padded with zeros to the size of the buffer.\<close>

definition padded_frame :: "bytes \<Rightarrow> SkyRadioFrame" where
  "padded_frame bs = \<lparr>rx_time_ticks = 0, frame_len = length bs, raw = bs @ replicate (RAW_SIZE - length bs) 0\<rparr>"

lemma layout_sizes [simp]: "hdr_sizeof layout_gcc = 7" "hdr_sizeof layout_packed = 4"
  by (simp_all add: layout_gcc_def layout_packed_def)

lemma radio_view_padded:
  assumes "layout_ok ly" "length (frame_bytes ly pre f sq es pl) \<le> RAW_SIZE"
  shows "radio_view ly (padded_frame (frame_bytes ly pre f sq es pl)) pre f sq es pl"
  using assms by (intro radio_viewI) (auto simp: padded_frame_def)

definition blank_parsed :: "bytes \<Rightarrow> bytes \<Rightarrow> SkyParsedFrame" where
  "blank_parsed r h = \<lparr>p_raw = r, p_identity_len = 0, p_hdr = h, arq_sequence = None, arq_request = None,
     arq_ctrl = None, arq_handshake = None, mac_tdd = None, hmac_reset = None, p_payload = 0, payload_len = 0\<rparr>"

text \<open>
  C32: every encoder of a header extension, called on a frame without payload that is short enough,
  passes its assertions and appends exactly one extension (type, length and body in network byte
  order) behind the extensions already there, with the frame length, the write pointer and the
  extension length of the static header all updated to match.
\<close>

theorem encoders_correct:
  assumes "tx_view ly tx pre f sq es []" "\<not> bit f 4" "frame_len (tx_radio tx) < 175"
  shows "appends ly (sky_frame_add_extension_arq_sequence ly tx a) tx pre f sq es (EXTENSION_ARQ_SEQUENCE, [a]) \<and>
    appends ly (sky_frame_add_extension_arq_request ly tx a mk) tx pre f sq es
       (EXTENSION_ARQ_REQUEST, a # mem16 (sky_hton16 mk)) \<and>
    appends ly (sky_frame_add_extension_arq_ctrl ly tx a b) tx pre f sq es (EXTENSION_ARQ_CTRL, [a, b]) \<and>
    appends ly (sky_frame_add_extension_arq_handshake ly tx a q) tx pre f sq es
       (EXTENSION_ARQ_HANDSHAKE, a # mem32 (sky_hton32 q)) \<and>
    appends ly (sky_frame_add_extension_mac_tdd_control ly tx w r) tx pre f sq es
       (EXTENSION_MAC_TDD_CONTROL, mem16 (sky_hton16 w) @ mem16 (sky_hton16 r)) \<and>
    appends ly (sky_frame_add_extension_hmac_sequence_reset ly tx u) tx pre f sq es
       (EXTENSION_HMAC_SEQUENCE_RESET, mem16 (sky_hton16 u))"
  using encoders_append [OF assms] by blast

theorem encoders_correct_witness:
  "\<exists>tx. tx_view layout_gcc tx [0x63, 1, 2, 3] 2 0 [] [] \<and>
     appends layout_gcc (sky_frame_add_extension_arq_sequence layout_gcc tx 9) tx [0x63, 1, 2, 3] 2 0 []
       (EXTENSION_ARQ_SEQUENCE, [9])"
proof -
  define frame where "frame = padded_frame (frame_bytes layout_gcc [0x63, 1, 2, 3] 2 0 [] [])"
  define tx where "tx = \<lparr>tx_radio = frame, hdr = 4, ptr = frame_len frame\<rparr>"
  have len: "length (frame_bytes layout_gcc [0x63, 1, 2, 3] 2 0 [] []) = 11"
    by (simp add: length_frame_bytes layout_gcc_def)
  have v: "tx_view layout_gcc tx [0x63, 1, 2, 3] 2 0 [] []"
    using radio_view_padded [of layout_gcc "[0x63, 1, 2, 3]" 2 0 "[]" "[]"] len
    by (simp add: tx_view_def tx_def frame_def RAW_SIZE_val)
  have "frame_len (tx_radio tx) < 175" using len by (simp add: tx_def frame_def padded_frame_def)
  moreover have "\<not> bit (2 :: byte) 4" by simp
  ultimately show ?thesis using encoders_correct [OF v] v by blast
qed

text \<open>
  C22: parsing inverts encoding. When a frame holds a list of well-formed extensions of distinct
  types, in any order, the parser accepts it and finds under each type exactly the body that was
  encoded, and nothing under the other types.
\<close>

theorem parse_inverts_encoding:
  assumes "radio_view ly frame (b0 # idn) f sq es pl" "unat (b0 AND SKYLINK_FRAME_IDENTITY_MASK) = length idn"
    "list_all ext_ok es" "distinct (map fst es)" "p_raw p = raw frame" "no_exts p"
    "p_hdr p = mk_hd ly f sq (of_nat (length (enc_exts es)))"
  shows "\<exists>p'. sky_frame_parse_extension_headers ly frame p = Some (SKY_RET_OK, p') \<and> same_frame p' p \<and>
    (\<forall>ty. ext_lookup p' ty = map_of es ty)"
  using parse_view [OF assms] by metis

theorem parse_inverts_encoding_witness:
  "let es = [(EXTENSION_ARQ_CTRL, [5, 6]), (EXTENSION_ARQ_SEQUENCE, [7])];
       bs = frame_bytes layout_gcc [0x63, 1, 2, 3] 2 0 es [];
       frame = padded_frame bs;
       p = blank_parsed (raw frame) (mk_hd layout_gcc 2 0 5)
   in \<exists>p'. sky_frame_parse_extension_headers layout_gcc frame p = Some (SKY_RET_OK, p') \<and>
        ext_lookup p' EXTENSION_ARQ_SEQUENCE = Some [7] \<and> ext_lookup p' EXTENSION_ARQ_CTRL = Some [5, 6] \<and>
        ext_lookup p' EXTENSION_ARQ_REQUEST = None"
proof -
  define es :: "extension list" where "es = [(EXTENSION_ARQ_CTRL, [5, 6]), (EXTENSION_ARQ_SEQUENCE, [7])]"
  define frame where "frame = padded_frame (frame_bytes layout_gcc [0x63, 1, 2, 3] 2 0 es [])"
  define p where "p = blank_parsed (raw frame) (mk_hd layout_gcc 2 0 5)"
  have v: "radio_view layout_gcc frame [0x63, 1, 2, 3] 2 0 es []"
    unfolding frame_def
    by (rule radio_view_padded) (auto simp: length_frame_bytes es_def RAW_SIZE_val)
  have "\<exists>p'. sky_frame_parse_extension_headers layout_gcc frame p = Some (SKY_RET_OK, p') \<and> same_frame p' p \<and>
    (\<forall>ty. ext_lookup p' ty = map_of es ty)"
    by (rule parse_inverts_encoding [OF v])
      (auto simp: es_def ext_ok_def ext_size_def extension_types no_exts_def p_def blank_parsed_def
        SKYLINK_FRAME_IDENTITY_MASK_def)
  then show ?thesis unfolding Let_def
    by (fold es_def, fold frame_def, fold p_def) (auto simp: es_def extension_types)
qed

text \<open>
  C23: memory safety of the parser. For any bytes in the frame, parsing returns one of four codes
  without leaving the frame buffer, and every extension it hands on lies, with its whole body,
  inside the received length.
\<close>

theorem parse_safe:
  assumes "frame_len frame \<le> length (raw frame)" "0 < length (raw frame)" "layout_ok ly"
    "length (p_hdr p) = hdr_sizeof ly" "no_exts p"
  shows "\<exists>ret p'. sky_frame_parse_extension_headers ly frame p = Some (ret, p') \<and> ret \<in> parse_codes \<and>
    (\<forall>ty e n. ext_slot ty p' = Some (Some e, n) \<longrightarrow> e + 1 + n \<le> frame_len frame)"
  using parse_total [OF assms] by (metis ptrs_inside_def)

theorem parse_safe_witness:
  "\<exists>ret p'. sky_frame_parse_extension_headers layout_packed (padded_frame [0x61, 9, 0, 0, 0, 2, 0x10, 0x10])
      (blank_parsed (raw (padded_frame [0x61, 9, 0, 0, 0, 2, 0x10, 0x10])) [0, 0, 0, 2]) = Some (ret, p') \<and>
    ret \<in> parse_codes"
proof -
  let ?f = "padded_frame [0x61, 9, 0, 0, 0, 2, 0x10, 0x10]"
  let ?p = "blank_parsed (raw ?f) [0, 0, 0, 2]"
  have "frame_len ?f \<le> length (raw ?f)" "0 < length (raw ?f)" "layout_ok layout_packed"
    "length (p_hdr ?p) = hdr_sizeof layout_packed" "no_exts ?p"
    by (simp_all add: padded_frame_def blank_parsed_def no_exts_def)
  from parse_safe [OF this] show ?thesis by blast
qed

end
