(* ===== verification/Mac_Correct.thy ===== *)
theory Mac_Correct
  imports Mac
begin

text \<open>
  Correctness of the TDD windowing. \<open>since c m now\<close> is the time since the cycle origin \<open>T0\<close> on the
  wrapping clock and \<open>phase\<close> the position in the cycle: own window, gap, peer window, tail. The
  invariant keeps the window lengths between the configured limits and the adjustment counter
  between plus and minus the adjustment period. \<open>mac_conf_ok\<close> states what the code needs of its
  configuration: ordered, non-negative parameters whose sum is far below the range of the clock.
\<close>

section \<open>Invariant and phase\<close>

definition mac_conf_ok :: "SkyMACConfig \<Rightarrow> bool" where
  "mac_conf_ok c \<longleftrightarrow>
     0 < minimum_window_length_ticks c \<and> minimum_window_length_ticks c \<le> maximum_window_length_ticks c \<and>
     maximum_window_length_ticks c \<le> 1000000 \<and> 0 \<le> gap_constant_ticks c \<and> gap_constant_ticks c \<le> 1000000 \<and>
     0 \<le> tail_constant_ticks c \<and> tail_constant_ticks c \<le> 1000000 \<and>
     0 \<le> window_adjust_increment_ticks c \<and> window_adjust_increment_ticks c \<le> 32767 \<and>
     0 \<le> carrier_sense_ticks c \<and> carrier_sense_ticks c \<le> minimum_window_length_ticks c + gap_constant_ticks c \<and>
     1 \<le> window_adjustment_period c \<and> window_adjustment_period c \<le> 4"

definition clock :: "sky_tick_t \<Rightarrow> bool" where
  "clock t \<longleftrightarrow> 0 \<le> t \<and> t < MOD_TIME_TICKS"

definition mac_inv :: "SkyMACConfig \<Rightarrow> SkyMAC \<Rightarrow> bool" where
  "mac_inv c m \<longleftrightarrow>
     clock (T0 m) \<and> clock (last_belief_update m) \<and>
     minimum_window_length_ticks c \<le> my_window_length m \<and> my_window_length m \<le> maximum_window_length_ticks c \<and>
     minimum_window_length_ticks c \<le> peer_window_length m \<and> peer_window_length m \<le> maximum_window_length_ticks c \<and>
     \<bar>window_adjust_counter m\<bar> \<le> window_adjustment_period c \<and>
     (window_on m \<longrightarrow> \<bar>window_adjust_counter m\<bar> < window_adjustment_period c) \<and>
     vc_round_robin_start m < SKY_NUM_VIRTUAL_CHANNELS \<and>
     length (frames_sent_in_current_window_per_vc m) = SKY_NUM_VIRTUAL_CHANNELS"

definition cycle_len :: "SkyMACConfig \<Rightarrow> SkyMAC \<Rightarrow> int" where
  "cycle_len c m = my_window_length m + gap_constant_ticks c + peer_window_length m + tail_constant_ticks c"

definition since :: "SkyMAC \<Rightarrow> sky_tick_t \<Rightarrow> int" where
  "since m now = (now - T0 m) mod MOD_TIME_TICKS"

definition phase :: "SkyMACConfig \<Rightarrow> SkyMAC \<Rightarrow> sky_tick_t \<Rightarrow> int" where
  "phase c m now = since m now mod cycle_len c m"

lemma clock_bounds: "clock t \<Longrightarrow> 0 \<le> t \<and> t < 16777216"
  by (simp add: clock_def MOD_TIME_TICKS_def)

lemma mac_bounds:
  assumes "mac_conf_ok c" "mac_inv c m"
  shows "0 < my_window_length m" "my_window_length m \<le> 1000000" "0 < peer_window_length m"
    "peer_window_length m \<le> 1000000" "0 \<le> gap_constant_ticks c" "gap_constant_ticks c \<le> 1000000"
    "0 \<le> tail_constant_ticks c" "tail_constant_ticks c \<le> 1000000" "0 < cycle_len c m" "cycle_len c m \<le> 4000000"
    "0 \<le> T0 m" "T0 m < 16777216" "my_window_length m < cycle_len c m"
  using assms by (auto simp: mac_conf_ok_def mac_inv_def cycle_len_def clock_def MOD_TIME_TICKS_def)

lemma get_mac_cycle_eq:
  assumes "mac_conf_ok c" "mac_inv c m"
  shows "get_mac_cycle c m = Some (cycle_len c m)"
  using mac_bounds [OF assms] by (simp add: get_mac_cycle_def c_add_def cycle_len_def)

lemma phase_bounds:
  assumes "mac_conf_ok c" "mac_inv c m"
  shows "0 \<le> phase c m now" "phase c m now < cycle_len c m" "0 \<le> since m now" "since m now < 16777216"
  using mac_bounds [OF assms] by (simp_all add: phase_def since_def MOD_TIME_TICKS_def)

lemma cycle_offset_eq:
  assumes "mac_conf_ok c" "mac_inv c m" "clock now" "- 5000000 \<le> s" "s \<le> 50000000"
  shows "cycle_offset c m now s = Some ((now - s) mod MOD_TIME_TICKS mod cycle_len c m)"
proof -
  have b: "0 \<le> (now - s) mod MOD_TIME_TICKS" "(now - s) mod MOD_TIME_TICKS < 16777216"
    by (simp_all add: MOD_TIME_TICKS_def)
  have "c_sub now s = Some (now - s)" "wrap_time_ticks (now - s) = Some ((now - s) mod MOD_TIME_TICKS)"
    using assms(4,5) clock_bounds [OF assms(3)] by (simp_all add: c_sub_def)
  moreover have "positive_modulo ((now - s) mod MOD_TIME_TICKS) (cycle_len c m) =
      Some ((now - s) mod MOD_TIME_TICKS mod cycle_len c m)"
    using b mac_bounds(9,10) [OF assms(1,2)] by (intro positive_modulo_mod) auto
  ultimately show ?thesis
    using get_mac_cycle_eq [OF assms(1,2)] by (simp add: cycle_offset_def wrap_tdd_cycle_def)
qed

lemma windows_by_phase:
  assumes "mac_conf_ok c" "mac_inv c m" "clock now"
  shows "mac_own_window_remaining c m now = Some (my_window_length m - phase c m now)"
    "mac_can_send c m now = Some (phase c m now < my_window_length m)"
    "mac_time_to_own_window c m now =
       Some (if phase c m now < my_window_length m then 0 else cycle_len c m - phase c m now)"
proof -
  have o: "cycle_offset c m now (T0 m) = Some (phase c m now)"
    using cycle_offset_eq [OF assms, of "T0 m"] mac_bounds [OF assms(1,2)] by (simp add: phase_def since_def)
  show "mac_own_window_remaining c m now = Some (my_window_length m - phase c m now)"
    using mac_bounds [OF assms(1,2)] phase_bounds [OF assms(1,2), of now]
    by (simp add: mac_own_window_remaining_def o c_sub_def)
  then show "mac_can_send c m now = Some (phase c m now < my_window_length m)"
    by (simp add: mac_can_send_def)
  show "mac_time_to_own_window c m now =
       Some (if phase c m now < my_window_length m then 0 else cycle_len c m - phase c m now)"
    using mac_bounds [OF assms(1,2)] phase_bounds [OF assms(1,2), of now] get_mac_cycle_eq [OF assms(1,2)]
    by (simp add: mac_time_to_own_window_def o c_sub_def)
qed

text \<open>As long as the clock has not wrapped past the origin, time and phase advance together.\<close>

lemma since_advance:
  assumes "0 \<le> d" "since m now + d < MOD_TIME_TICKS"
  shows "since m ((now + d) mod MOD_TIME_TICKS) = since m now + d"
proof -
  have "since m ((now + d) mod MOD_TIME_TICKS) = (since m now + d) mod MOD_TIME_TICKS"
    by (simp add: since_def mod_simps algebra_simps)
  also have "\<dots> = since m now + d"
    using assms by (intro mod_pos_pos_trivial) (auto simp: since_def MOD_TIME_TICKS_def)
  finally show ?thesis .
qed

lemma phase_advance:
  assumes "mac_conf_ok c" "mac_inv c m" "0 \<le> d" "since m now + d < MOD_TIME_TICKS"
    "phase c m now + d < cycle_len c m"
  shows "phase c m ((now + d) mod MOD_TIME_TICKS) = phase c m now + d"
proof -
  have "(since m now + d) mod cycle_len c m = (phase c m now + d) mod cycle_len c m"
    by (simp add: phase_def mod_simps)
  also have "\<dots> = phase c m now + d"
    using assms phase_bounds [OF assms(1,2), of now] by (intro mod_pos_pos_trivial) auto
  finally show ?thesis using since_advance [OF assms(3,4)] by (simp add: phase_def)
qed

lemma phase_advance_end:
  assumes "mac_conf_ok c" "mac_inv c m" "since m now + (cycle_len c m - phase c m now) < MOD_TIME_TICKS"
  shows "phase c m ((now + (cycle_len c m - phase c m now)) mod MOD_TIME_TICKS) = 0"
proof -
  have "since m ((now + (cycle_len c m - phase c m now)) mod MOD_TIME_TICKS) =
      since m now + (cycle_len c m - phase c m now)"
    using assms phase_bounds [OF assms(1,2), of now] by (intro since_advance) auto
  moreover have "since m now + (cycle_len c m - phase c m now) =
      cycle_len c m * (since m now div cycle_len c m + 1)"
    by (simp add: phase_def minus_mult_div_eq_mod [symmetric] algebra_simps)
  ultimately show ?thesis by (simp add: phase_def)
qed

section \<open>Operations\<close>

text \<open>Setting the origin \<open>d\<close> ticks before \<open>now\<close>.\<close>

lemma since_of_origin:
  assumes "T0 m = t mod MOD_TIME_TICKS" "0 \<le> now - t" "now - t < MOD_TIME_TICKS"
  shows "since m now = now - t"
  using assms by (simp add: since_def mod_simps)

lemma start_cycle_now_ok:
  assumes "mac_conf_ok c" "mac_inv c m" "clock now"
  obtains m' where "start_cycle_now c m now = Some m'" "m' = m\<lparr>T0 := (now - cycle_len c m) mod MOD_TIME_TICKS\<rparr>"
    "mac_inv c m'" "phase c m' now = 0"
proof -
  note b = mac_bounds [OF assms(1,2)] and n = clock_bounds [OF assms(3)]
  define m' where "m' = m\<lparr>T0 := (now - cycle_len c m) mod MOD_TIME_TICKS\<rparr>"
  have "start_cycle_now c m now = Some m'"
    using b n by (simp add: start_cycle_now_def get_mac_cycle_eq [OF assms(1,2)] c_sub_def m'_def)
  moreover have "mac_inv c m'" using assms(2) by (simp add: mac_inv_def m'_def clock_def MOD_TIME_TICKS_def)
  moreover have "phase c m' now = 0"
  proof -
    have "since m' now = now - (now - cycle_len c m)"
      by (rule since_of_origin) (use b in \<open>auto simp: m'_def MOD_TIME_TICKS_def\<close>)
    moreover have "cycle_len c m' = cycle_len c m" by (simp add: cycle_len_def m'_def)
    ultimately show ?thesis by (simp add: phase_def)
  qed
  ultimately show ?thesis using that m'_def by blast
qed

lemma set_window_inv:
  assumes "mac_inv c m" "minimum_window_length_ticks c \<le> w" "w \<le> maximum_window_length_ticks c"
  shows "mac_inv c (m\<lparr>my_window_length := w\<rparr>)"
  using assms by (simp add: mac_inv_def)

lemma resize_window_ok:
  assumes "mac_conf_ok c" "mac_inv c m" "clock now"
  shows "\<exists>m'. mac_expand_window c m now = Some m' \<and> mac_inv c m' \<and> phase c m' now = 0 \<and>
      my_window_length m' = min (maximum_window_length_ticks c) (my_window_length m + window_adjust_increment_ticks c) \<and>
      window_adjust_counter m' = window_adjust_counter m \<and> window_on m' = window_on m" (is "?E")
    "\<exists>m'. mac_shrink_window c m now = Some m' \<and> mac_inv c m' \<and> phase c m' now = 0 \<and>
      my_window_length m' = max (minimum_window_length_ticks c) (my_window_length m - window_adjust_increment_ticks c) \<and>
      window_adjust_counter m' = window_adjust_counter m \<and> window_on m' = window_on m" (is "?S")
proof -
  note b = mac_bounds [OF assms(1,2)]
  have i: "0 \<le> window_adjust_increment_ticks c" "window_adjust_increment_ticks c \<le> 32767"
    "minimum_window_length_ticks c \<le> my_window_length m" "my_window_length m \<le> maximum_window_length_ticks c"
    using assms by (auto simp: mac_conf_ok_def mac_inv_def)
  define u where "u = min (maximum_window_length_ticks c) (my_window_length m + window_adjust_increment_ticks c)"
  have "mac_inv c (m\<lparr>my_window_length := u\<rparr>)" using i by (intro set_window_inv [OF assms(2)]) (auto simp: u_def)
  from start_cycle_now_ok [OF assms(1) this assms(3)] obtain m1 where eqm1:
    "m1 = (m\<lparr>my_window_length := u\<rparr>)\<lparr>T0 := (now - cycle_len c (m\<lparr>my_window_length := u\<rparr>)) mod MOD_TIME_TICKS\<rparr>"
    and stm1: "start_cycle_now c (m\<lparr>my_window_length := u\<rparr>) now = Some m1" "mac_inv c m1" "phase c m1 now = 0" .
  then have m1: "my_window_length m1 = u" "window_adjust_counter m1 = window_adjust_counter m" "window_on m1 = window_on m"
    by simp_all
  have wu: "(if my_window_length m + window_adjust_increment_ticks c > maximum_window_length_ticks c
      then maximum_window_length_ticks c else my_window_length m + window_adjust_increment_ticks c) = u"
    by (simp add: u_def min_def)
  have "mac_expand_window c m now = Some m1"
    using stm1(1) b i by (simp add: mac_expand_window_def c_add_def wu)
  then show ?E using stm1 m1 u_def by blast
  define l where "l = max (minimum_window_length_ticks c) (my_window_length m - window_adjust_increment_ticks c)"
  have "mac_inv c (m\<lparr>my_window_length := l\<rparr>)" using i by (intro set_window_inv [OF assms(2)]) (auto simp: l_def)
  from start_cycle_now_ok [OF assms(1) this assms(3)] obtain m2 where eqm2:
    "m2 = (m\<lparr>my_window_length := l\<rparr>)\<lparr>T0 := (now - cycle_len c (m\<lparr>my_window_length := l\<rparr>)) mod MOD_TIME_TICKS\<rparr>"
    and stm2: "start_cycle_now c (m\<lparr>my_window_length := l\<rparr>) now = Some m2" "mac_inv c m2" "phase c m2 now = 0" .
  then have m2: "my_window_length m2 = l" "window_adjust_counter m2 = window_adjust_counter m" "window_on m2 = window_on m"
    by simp_all
  have wl: "(if my_window_length m - window_adjust_increment_ticks c < minimum_window_length_ticks c
      then minimum_window_length_ticks c else my_window_length m - window_adjust_increment_ticks c) = l"
    by (simp add: l_def max_def)
  have "mac_shrink_window c m now = Some m2"
    using stm2(1) b i by (simp add: mac_shrink_window_def c_sub_def wl)
  then show ?S using stm2 m2 l_def by blast
qed

lemma mac_reset_ok:
  assumes "mac_conf_ok c" "mac_inv c m" "clock now"
  obtains m' where "mac_reset c m now = Some m'" "mac_inv c m'" "phase c m' now = 0"
    "my_window_length m' = minimum_window_length_ticks c" "window_adjust_counter m' = 0"
proof -
  define m1 where "m1 = m\<lparr>window_adjust_counter := 0, my_window_length := minimum_window_length_ticks c\<rparr>"
  have "mac_inv c m1" using assms(1,2) by (simp add: mac_inv_def mac_conf_ok_def m1_def)
  from start_cycle_now_ok [OF assms(1) this assms(3)] obtain m' where
    m': "start_cycle_now c m1 now = Some m'" "mac_inv c m'" "phase c m' now = 0"
    and e: "m' = m1\<lparr>T0 := (now - cycle_len c m1) mod MOD_TIME_TICKS\<rparr>" .
  have "my_window_length m' = minimum_window_length_ticks c" "window_adjust_counter m' = 0"
    by (simp_all add: e m1_def)
  then show ?thesis using m' that by (simp add: mac_reset_def m1_def)
qed

text \<open>Moving the origin so that the own window opens \<open>d\<close> ticks from now.\<close>

lemma origin_ahead:
  assumes "mac_conf_ok c" "mac_inv c m" "T0 m = (now + d - cycle_len c m) mod MOD_TIME_TICKS"
    "0 \<le> d" "d \<le> cycle_len c m"
  shows "phase c m now = (if d = 0 then 0 else cycle_len c m - d)"
proof -
  note b = mac_bounds [OF assms(1,2)]
  have "since m now = now - (now + d - cycle_len c m)"
    by (rule since_of_origin) (use assms b in \<open>auto simp: MOD_TIME_TICKS_def\<close>)
  moreover have "d \<noteq> 0 \<Longrightarrow> (cycle_len c m - d) mod cycle_len c m = cycle_len c m - d"
    using assms(4,5) by (intro mod_pos_pos_trivial) auto
  ultimately show ?thesis by (simp only: phase_def) simp
qed

text \<open>A sensed carrier moves the window away when it is near, and leaves it alone when it is further away.\<close>

lemma carrier_sensed_ok:
  assumes "mac_conf_ok c" "mac_inv c m" "clock now"
  obtains m' t where "sky_mac_carrier_sensed c m now = Some m'" "mac_inv c m'" "mac_time_to_own_window c m now = Some t"
    "mac_time_to_own_window c m' now = Some (max t (carrier_sense_ticks c))"
    "m' = (if t \<le> carrier_sense_ticks c then m\<lparr>T0 := T0 m'\<rparr> else m)"
proof -
  note b = mac_bounds [OF assms(1,2)] and n = clock_bounds [OF assms(3)] and w = windows_by_phase [OF assms]
  have cs: "0 \<le> carrier_sense_ticks c"
    "carrier_sense_ticks c \<le> minimum_window_length_ticks c + gap_constant_ticks c"
    "minimum_window_length_ticks c \<le> my_window_length m" "minimum_window_length_ticks c \<le> peer_window_length m"
    using assms by (auto simp: mac_conf_ok_def mac_inv_def)
  obtain t0 where t0: "mac_time_to_own_window c m now = Some t0" using w(3) by blast
  show ?thesis
  proof (cases "t0 \<le> carrier_sense_ticks c")
    case False
    then have "sky_mac_carrier_sensed c m now = Some m" by (simp add: sky_mac_carrier_sensed_def t0)
    then show ?thesis using that [of m t0] assms(2) t0 False by simp
  next
    case True
    define m' where "m' = m\<lparr>T0 := (now - cycle_len c m + carrier_sense_ticks c) mod MOD_TIME_TICKS\<rparr>"
    have run: "sky_mac_carrier_sensed c m now = Some m'"
      using True b n cs
      by (simp add: sky_mac_carrier_sensed_def t0 get_mac_cycle_eq [OF assms(1,2)] c_sub_def c_add_def m'_def)
    have inv: "mac_inv c m'" using assms(2) by (simp add: mac_inv_def m'_def clock_def MOD_TIME_TICKS_def)
    have cyc: "cycle_len c m' = cycle_len c m" by (simp add: cycle_len_def m'_def)
    have "phase c m' now = (if carrier_sense_ticks c = 0 then 0 else cycle_len c m' - carrier_sense_ticks c)"
      by (rule origin_ahead [OF assms(1) inv]) (use cs b in \<open>auto simp: cyc m'_def algebra_simps cycle_len_def\<close>)
    moreover have "\<not> cycle_len c m' - carrier_sense_ticks c < my_window_length m'" "0 < my_window_length m'"
      using cs b by (simp_all add: cycle_len_def m'_def)
    ultimately have "mac_time_to_own_window c m' now = Some (carrier_sense_ticks c)"
      using windows_by_phase(3) [OF assms(1) inv assms(3)] by simp
    then show ?thesis using True by (intro that [OF run inv t0]) (simp_all add: m'_def)
  qed
qed

text \<open>The peer's announcement, clamped to the configured window limits.\<close>

definition believed_window :: "SkyMACConfig \<Rightarrow> int \<Rightarrow> int" where
  "believed_window c w = max (minimum_window_length_ticks c) (min (maximum_window_length_ticks c) w)"

definition believed_remaining :: "SkyMACConfig \<Rightarrow> int \<Rightarrow> int \<Rightarrow> int" where
  "believed_remaining c w r = min (believed_window c w) r"

text \<open>Ticks from \<open>now\<close> until the peer's window is over, for an announcement received at \<open>rt\<close>.\<close>

definition peer_time_left :: "SkyMACConfig \<Rightarrow> sky_tick_t \<Rightarrow> sky_tick_t \<Rightarrow> int \<Rightarrow> int \<Rightarrow> int" where
  "peer_time_left c now rt w r = max 0 (believed_remaining c w r - (now - rt) mod MOD_TIME_TICKS)"

lemma update_belief_ok:
  assumes "mac_conf_ok c" "mac_inv c m" "clock now" "clock rt" "0 \<le> w" "w < 65536" "0 \<le> r" "r < 65536"
  obtains m' where "mac_update_belief c m now rt w r = Some m'" "mac_inv c m'"
    "peer_window_length m' = believed_window c w" "my_window_length m' = my_window_length m"
    "mac_time_to_own_window c m' now = Some (peer_time_left c now rt w r + tail_constant_ticks c)"
    "since m' now + (peer_time_left c now rt w r + tail_constant_ticks c) = cycle_len c m'"
proof -
  note b = mac_bounds [OF assms(1,2)] and n = clock_bounds [OF assms(3)] and rtb = clock_bounds [OF assms(4)]
  define pw where "pw = believed_window c w"
  define pr where "pr = believed_remaining c w r"
  define now1 where "now1 = rt + (now - rt) mod MOD_TIME_TICKS"
  define m1 where "m1 = m\<lparr>last_belief_update := now, peer_window_length := pw\<rparr>"
  have lim: "minimum_window_length_ticks c \<le> pw" "pw \<le> maximum_window_length_ticks c" "0 \<le> pr" "pr \<le> pw"
    "minimum_window_length_ticks c > 0"
    using assms(1,7) by (auto simp: pw_def pr_def believed_window_def believed_remaining_def mac_conf_ok_def)
  have inv1: "mac_inv c m1" using assms(2,3) lim by (simp add: mac_inv_def m1_def)
  note b1 = mac_bounds [OF assms(1) inv1]
  have now1_bounds: "rt \<le> now1" "now1 < rt + 16777216" by (simp_all add: now1_def MOD_TIME_TICKS_def)
  have now1_eq: "now1 = (if now < rt then rt + (now - rt) mod MOD_TIME_TICKS else now)"
    using n rtb by (simp add: now1_def MOD_TIME_TICKS_def)
  define X where "X = max (rt + pr) now1 + tail_constant_ticks c - cycle_len c m1"
  define m' where "m' = reset_frame_counts (m1\<lparr>T0 := X mod MOD_TIME_TICKS\<rparr>)"
  have pl: "(if w < minimum_window_length_ticks c then minimum_window_length_ticks c
      else if w > maximum_window_length_ticks c then maximum_window_length_ticks c else w) = pw"
    using assms(1) by (auto simp: pw_def believed_window_def mac_conf_ok_def)
  have pm: "(if r > pw then pw else r) = pr" by (auto simp: pr_def believed_remaining_def pw_def)
  have mx: "(if rt + pr < now1
      then now1 + (tail_constant_ticks c - cycle_len c m1)
      else rt + pr + (tail_constant_ticks c - cycle_len c m1)) = X"
    by (auto simp: X_def)
  have stretch: "(if now < rt then do { d \<leftarrow> c_sub now rt; w \<leftarrow> wrap_time_ticks d; c_add rt w } else Some now) = Some now1"
    using n rtb now1_bounds by (auto simp: now1_eq c_sub_def c_add_def MOD_TIME_TICKS_def)
  have prb: "pr \<le> 1000000" using lim assms(1) by (auto simp: mac_conf_ok_def)
  have Xb: "- 2147483647 \<le> X" "X \<le> 2147483647" using b1 rtb now1_bounds lim prb by (auto simp: X_def)
  have steps: "get_mac_cycle c m1 = Some (cycle_len c m1)"
    "c_sub (tail_constant_ticks c) (cycle_len c m1) = Some (tail_constant_ticks c - cycle_len c m1)"
    "c_add rt pr = Some (rt + pr)"
    "c_add (rt + pr) (tail_constant_ticks c - cycle_len c m1) = Some (rt + pr + (tail_constant_ticks c - cycle_len c m1))"
    "c_add now1 (tail_constant_ticks c - cycle_len c m1) = Some (now1 + (tail_constant_ticks c - cycle_len c m1))"
    using b1 rtb now1_bounds lim prb get_mac_cycle_eq [OF assms(1) inv1] by (simp_all add: c_sub_def c_add_def)
  have run: "mac_update_belief c m now rt w r = Some m'"
    unfolding mac_update_belief_def Let_def pl pm stretch
    using Xb by (simp add: m1_def [symmetric] steps mx m'_def)
  have inv': "mac_inv c m'"
    using inv1 by (simp add: mac_inv_def m'_def reset_frame_counts_def clock_def MOD_TIME_TICKS_def)
  have fields: "cycle_len c m' = cycle_len c m1" "my_window_length m' = my_window_length m"
    "peer_window_length m' = pw" "T0 m' = X mod MOD_TIME_TICKS"
    by (simp_all add: cycle_len_def m'_def m1_def reset_frame_counts_def)
  define d where "d = peer_time_left c now rt w r + tail_constant_ticks c"
  have d_eq: "d = max (rt + pr) now1 - now1 + tail_constant_ticks c"
    by (auto simp: d_def peer_time_left_def pr_def now1_def)
  have now_cong: "(now + y) mod MOD_TIME_TICKS = (now1 + y) mod MOD_TIME_TICKS" for y
  proof -
    have "(now1 + y) mod MOD_TIME_TICKS = ((now - rt) mod MOD_TIME_TICKS + (rt + y)) mod MOD_TIME_TICKS"
      by (simp add: now1_def algebra_simps)
    also have "\<dots> = (now + y) mod MOD_TIME_TICKS" by (subst mod_add_left_eq) simp
    finally show ?thesis by simp
  qed
  have T0': "T0 m' = (now + d - cycle_len c m') mod MOD_TIME_TICKS"
    using now_cong [of "d - cycle_len c m'"] by (simp add: fields X_def d_eq algebra_simps)
  have d_bounds: "0 \<le> d" "d \<le> pw + tail_constant_ticks c" using b1 now1_bounds lim by (auto simp: d_eq)
  have gap: "pw + tail_constant_ticks c + my_window_length m \<le> cycle_len c m'"
    using b by (simp add: fields cycle_len_def m1_def)
  have sn: "since m' now = now - (now + d - cycle_len c m')"
    by (rule since_of_origin) (use T0' d_bounds gap b b1 in \<open>auto simp: fields MOD_TIME_TICKS_def\<close>)
  have "mac_time_to_own_window c m' now = Some d"
  proof (cases "d = 0")
    case True
    then have "phase c m' now = 0" using sn by (simp add: phase_def)
    then show ?thesis using windows_by_phase(3) [OF assms(1) inv' assms(3)] b True by (simp add: fields)
  next
    case False
    have "phase c m' now = cycle_len c m' - d"
      using origin_ahead [OF assms(1) inv' T0'] False d_bounds gap b by auto
    then show ?thesis using windows_by_phase(3) [OF assms(1) inv' assms(3)] d_bounds gap by (simp add: fields)
  qed
  then show ?thesis using run inv' fields that sn by (simp add: d_def pw_def)
qed

lemma mac_create_ok:
  assumes "0 < minimum_window_length_ticks c" "minimum_window_length_ticks c \<le> 1000000"
    "maximum_window_length_ticks c \<le> 1000000" "0 \<le> gap_constant_ticks c" "gap_constant_ticks c \<le> 1000000"
    "0 \<le> tail_constant_ticks c" "tail_constant_ticks c \<le> 1000000" "0 \<le> window_adjust_increment_ticks c"
    "window_adjust_increment_ticks c \<le> 32767" "0 \<le> carrier_sense_ticks c" "carrier_sense_ticks c \<le> 32767"
  obtains c' m where "sky_mac_create c = Some (c', m)" "mac_conf_ok c'" "mac_inv c' m"
    "minimum_window_length_ticks c' = minimum_window_length_ticks c" "5000 \<le> idle_timeout_ticks c'"
    "mac_idle_frames_per_window c' \<le> 3"
    "maximum_window_length_ticks c' = max (minimum_window_length_ticks c) (maximum_window_length_ticks c)"
proof -
  have "\<exists>c'. sanitise_mac_config c = Some c' \<and> mac_conf_ok c' \<and>
      minimum_window_length_ticks c' = minimum_window_length_ticks c \<and> 5000 \<le> idle_timeout_ticks c' \<and>
      mac_idle_frames_per_window c' \<le> 3 \<and>
      maximum_window_length_ticks c' = max (minimum_window_length_ticks c) (maximum_window_length_ticks c)"
    using assms by (auto simp: sanitise_mac_config_def c_add_def mac_conf_ok_def to_i16_def Let_def max_def)
  then obtain c' where c': "sanitise_mac_config c = Some c'" "mac_conf_ok c'"
    "minimum_window_length_ticks c' = minimum_window_length_ticks c" "5000 \<le> idle_timeout_ticks c'"
    "mac_idle_frames_per_window c' \<le> 3"
    "maximum_window_length_ticks c' = max (minimum_window_length_ticks c) (maximum_window_length_ticks c)" by blast
  then show ?thesis
    using that by (fastforce simp: sky_mac_create_def mac_inv_def clock_def MOD_TIME_TICKS_def mac_conf_ok_def
        SKY_NUM_VIRTUAL_CHANNELS_def)
qed

lemma idle_frame_needed_ok:
  assumes "mac_inv c m" "clock now"
  shows "mac_idle_frame_needed c m now =
    Some (0 < mac_idle_frames_per_window c \<and>
      (now - last_belief_update m) mod MOD_TIME_TICKS \<le> idle_timeout_ticks c \<and>
      unat (total_frames_sent_in_current_window m) < mac_idle_frames_per_window c)"
  using assms by (auto simp: mac_idle_frame_needed_def ticks_since_def mac_inv_def clock_def MOD_TIME_TICKS_def)

section \<open>Properties\<close>

text \<open>A configuration and a fresh instance for the witnesses.\<close>

definition sample_mac_conf :: SkyMACConfig where
  "sample_mac_conf = \<lparr>maximum_window_length_ticks = 1000, minimum_window_length_ticks = 250,
     gap_constant_ticks = 600, tail_constant_ticks = 80, shift_threshold_ticks = 0, idle_timeout_ticks = 25000,
     window_adjust_increment_ticks = 250, carrier_sense_ticks = 200, unauthenticated_mac_updates = 0,
     window_adjustment_period = 2, mac_idle_frames_per_window = 1\<rparr>"

definition sample_mac :: SkyMAC where
  "sample_mac = \<lparr>T0 = 0, my_window_length = 250, peer_window_length = 250, last_belief_update = 16477216,
     window_adjust_counter = 0, vc_round_robin_start = 0, window_on = False, unused_window_time = False,
     frames_sent_in_current_window_per_vc = [0, 0, 0, 0], total_frames_sent_in_current_window = 0\<rparr>"

lemma sample_mac_ok [simp]: "mac_conf_ok sample_mac_conf" "mac_inv sample_mac_conf sample_mac"
  by (simp_all add: mac_conf_ok_def mac_inv_def sample_mac_conf_def sample_mac_def clock_def MOD_TIME_TICKS_def
      SKY_NUM_VIRTUAL_CHANNELS_def)

lemma sample_mac_fields [simp]:
  "maximum_window_length_ticks sample_mac_conf = 1000" "minimum_window_length_ticks sample_mac_conf = 250"
  "gap_constant_ticks sample_mac_conf = 600" "tail_constant_ticks sample_mac_conf = 80"
  "carrier_sense_ticks sample_mac_conf = 200" "window_adjust_increment_ticks sample_mac_conf = 250"
  "my_window_length sample_mac = 250" "T0 sample_mac = 0" "peer_window_length sample_mac = 250"
  by (simp_all add: sample_mac_conf_def sample_mac_def)

lemma sample_mac_created: "sky_mac_create sample_mac_conf = Some (sample_mac_conf, sample_mac)"
  by (simp add: sky_mac_create_def sanitise_mac_config_def sample_mac_conf_def sample_mac_def c_add_def
      MOD_TIME_TICKS_def SKY_NUM_VIRTUAL_CHANNELS_def numeral_eq_Suc)

text \<open>
  the prediction of the own window is exact. When the MAC answers that the window opens in \<open>t\<close>
  ticks, it refuses to send at each of the \<open>t\<close> ticks before and allows it at tick \<open>t\<close>; with \<open>t = 0\<close>
  it allows sending now. (The clock must not wrap past the cycle origin in the meantime.)
\<close>

theorem own_window_prediction:
  assumes c: "mac_conf_ok c" "mac_inv c m" "clock now"
    and t: "mac_time_to_own_window c m now = Some t" and d: "0 \<le> d" "d \<le> t"
    and nowrap: "(now - T0 m) mod MOD_TIME_TICKS + t < MOD_TIME_TICKS"
  shows "mac_can_send c m ((now + d) mod MOD_TIME_TICKS) = Some (d = t)"
proof -
  note w = windows_by_phase [OF c] and pb = phase_bounds [OF c(1,2), of now] and b = mac_bounds [OF c(1,2)]
  have ck: "clock ((now + x) mod MOD_TIME_TICKS)" for x by (simp add: clock_def MOD_TIME_TICKS_def)
  note later = windows_by_phase(2) [OF c(1,2) ck]
  show ?thesis
  proof (cases "phase c m now < my_window_length m")
    case True
    then have "t = 0" "d = 0" using t w(3) d by auto
    moreover have "now mod MOD_TIME_TICKS = now" using c(3) by (simp add: clock_def)
    ultimately show ?thesis using w(2) True by simp
  next
    case False
    then have t_eq: "t = cycle_len c m - phase c m now" using t w(3) by simp
    have nw: "since m now + t < MOD_TIME_TICKS" using nowrap by (simp add: since_def)
    show ?thesis
    proof (cases "d = t")
      case True
      then have "phase c m ((now + d) mod MOD_TIME_TICKS) = 0"
        using phase_advance_end [OF c(1,2)] nw by (simp add: t_eq)
      then show ?thesis using later b True by simp
    next
      case False
      then have "phase c m ((now + d) mod MOD_TIME_TICKS) = phase c m now + d"
        using phase_advance [OF c(1,2), of d now] d nw t_eq by auto
      then show ?thesis using later False d \<open>\<not> phase c m now < my_window_length m\<close> by simp
    qed
  qed
qed

theorem own_window_prediction_witness:
  "mac_time_to_own_window sample_mac_conf sample_mac 1000 = Some 180 \<and>
   mac_can_send sample_mac_conf sample_mac 1179 = Some False \<and>
   mac_can_send sample_mac_conf sample_mac 1180 = Some True"
proof -
  have ck: "clock 1000" by (simp add: clock_def MOD_TIME_TICKS_def)
  have t: "mac_time_to_own_window sample_mac_conf sample_mac 1000 = Some 180"
    using windows_by_phase(3) [OF sample_mac_ok ck]
    by (simp add: phase_def since_def cycle_len_def MOD_TIME_TICKS_def)
  have nw: "(1000 - T0 sample_mac) mod MOD_TIME_TICKS + 180 < MOD_TIME_TICKS"
    by (simp add: MOD_TIME_TICKS_def)
  show ?thesis
    using t own_window_prediction [OF sample_mac_ok ck t _ _ nw, of 179]
      own_window_prediction [OF sample_mac_ok ck t _ _ nw, of 180] by (simp add: MOD_TIME_TICKS_def)
qed

text \<open>
  C33: after an announcement of the peer (window length and remaining time, received at tick \<open>rt\<close>) the
  own window opens exactly when the peer's window is over and the switching delay has passed, with
  the announced values clamped to the configured limits. The update never overflows.
\<close>

theorem update_belief_correct:
  assumes "mac_conf_ok c" "mac_inv c m" "clock now" "clock rt" "0 \<le> w" "w < 65536" "0 \<le> r" "r < 65536"
  shows "\<exists>m'. mac_update_belief c m now rt w r = Some m' \<and> mac_inv c m' \<and>
    peer_window_length m' = believed_window c w \<and>
    mac_time_to_own_window c m' now = Some (peer_time_left c now rt w r + tail_constant_ticks c)"
  using update_belief_ok [OF assms] by metis

theorem update_belief_correct_witness:
  "\<exists>m'. mac_update_belief sample_mac_conf sample_mac 5000 4990 400 100 = Some m' \<and>
     mac_time_to_own_window sample_mac_conf m' 5000 = Some 170"
  using update_belief_correct [of sample_mac_conf sample_mac 5000 4990 400 100]
  by (auto simp: clock_def MOD_TIME_TICKS_def peer_time_left_def believed_remaining_def believed_window_def)

text \<open>
  C21: time division between two stations with the same configuration. When station \<open>a\<close> announces its
  window with \<open>rem\<close> ticks left and station \<open>b\<close> takes the announcement in at its own time \<open>tb\<close>, then \<open>b\<close>
  does not send during the \<open>rem\<close> ticks that \<open>a\<close>'s window still lasts.
\<close>

theorem tdd_exclusive:
  assumes c: "mac_conf_ok c" "mac_inv c a" "mac_inv c b" "clock ta" "clock tb" "maximum_window_length_ticks c < 65536"
    and rem: "mac_own_window_remaining c a ta = Some rem" "0 < rem" and d: "0 \<le> d" "d < rem"
    and up: "mac_update_belief c b tb tb (my_window_length a) rem = Some b'"
  shows "mac_can_send c b' ((tb + d) mod MOD_TIME_TICKS) = Some False"
proof -
  note ba = mac_bounds [OF c(1,2)]
  have lim: "minimum_window_length_ticks c \<le> my_window_length a" "my_window_length a \<le> maximum_window_length_ticks c"
    using c(2) by (auto simp: mac_inv_def)
  have rem_le: "rem \<le> my_window_length a"
    using rem(1) windows_by_phase(1) [OF c(1,2,4)] phase_bounds(1) [OF c(1,2), of ta] by auto
  have left: "peer_time_left c tb tb (my_window_length a) rem = rem"
    using lim rem_le rem(2) by (auto simp: peer_time_left_def believed_remaining_def believed_window_def)
  have wb: "0 \<le> my_window_length a" "my_window_length a < 65536" "0 \<le> rem" "rem < 65536"
    using lim ba rem rem_le c(6) by auto
  from update_belief_ok [OF c(1,3,5,5) wb] obtain b1 where
    b1: "mac_update_belief c b tb tb (my_window_length a) rem = Some b1" "mac_inv c b1"
    "since b1 tb + (rem + tail_constant_ticks c) = cycle_len c b1" "peer_window_length b1 = my_window_length a"
    using lim unfolding left by (auto simp: believed_window_def)
  then have b': "mac_inv c b'" "since b' tb = cycle_len c b' - (rem + tail_constant_ticks c)"
    "peer_window_length b' = my_window_length a" using up by auto
  note bb = mac_bounds [OF c(1) b'(1)]
  have "since b' ((tb + d) mod MOD_TIME_TICKS) = since b' tb + d"
    by (rule since_advance) (use d b'(2) bb in \<open>auto simp: MOD_TIME_TICKS_def\<close>)
  moreover have "my_window_length b' \<le> since b' tb" using b'(2,3) rem_le bb by (simp add: cycle_len_def)
  moreover have "since b' tb + d < cycle_len c b'" using b'(2) d bb by simp
  ultimately have "\<not> phase c b' ((tb + d) mod MOD_TIME_TICKS) < my_window_length b'"
    using d bb by (simp add: phase_def)
  moreover have "clock ((tb + d) mod MOD_TIME_TICKS)" by (simp add: clock_def MOD_TIME_TICKS_def)
  ultimately show ?thesis using windows_by_phase(2) [OF c(1) b'(1)] by simp
qed

theorem tdd_exclusive_witness:
  "\<exists>b'. mac_own_window_remaining sample_mac_conf sample_mac 50 = Some 200 \<and>
     mac_update_belief sample_mac_conf sample_mac 7000 7000 250 200 = Some b' \<and>
     mac_can_send sample_mac_conf b' 7199 = Some False"
proof -
  have ck: "clock 50" "clock 7000" by (simp_all add: clock_def MOD_TIME_TICKS_def)
  have mx: "maximum_window_length_ticks sample_mac_conf < 65536" by (simp add: sample_mac_conf_def)
  have rem: "mac_own_window_remaining sample_mac_conf sample_mac 50 = Some 200"
    using windows_by_phase(1) [OF sample_mac_ok ck(1)]
    by (simp add: phase_def since_def cycle_len_def MOD_TIME_TICKS_def)
  obtain b' where b': "mac_update_belief sample_mac_conf sample_mac 7000 7000 250 200 = Some b'"
    using update_belief_ok [OF sample_mac_ok ck(2,2), of 250 200] by auto
  then have up: "mac_update_belief sample_mac_conf sample_mac 7000 7000 (my_window_length sample_mac) 200 = Some b'"
    by (simp add: sample_mac_def)
  show ?thesis
    using tdd_exclusive [OF sample_mac_ok(1) sample_mac_ok(2) sample_mac_ok(2) ck mx rem _ _ _ up, of 199] rem b'
    by (simp add: MOD_TIME_TICKS_def)
qed

text \<open>
  C34: sensing a carrier defers the own window when it is open or near, and never brings it closer. If the window would open
  within \<open>carrier_sense_ticks\<close> (zero for a window that is open) then it opens in exactly \<open>carrier_sense_ticks\<close> afterwards and
  only the origin of the cycle has moved; if it is further away nothing changes. So the window opens at the later of the two
  times, and with a positive \<open>carrier_sense_ticks\<close> a station in the middle of its window stops sending at once.
\<close>

theorem carrier_sense_defers:
  assumes "mac_conf_ok c" "mac_inv c m" "clock now"
  shows "\<exists>m' t. sky_mac_carrier_sensed c m now = Some m' \<and> mac_inv c m' \<and> mac_time_to_own_window c m now = Some t \<and>
    mac_time_to_own_window c m' now = Some (max t (carrier_sense_ticks c)) \<and>
    m' = (if t \<le> carrier_sense_ticks c then m\<lparr>T0 := T0 m'\<rparr> else m) \<and>
    mac_can_send c m' now = Some (t = 0 \<and> carrier_sense_ticks c = 0)"
proof -
  obtain m' t where m': "sky_mac_carrier_sensed c m now = Some m'" "mac_inv c m'" "mac_time_to_own_window c m now = Some t"
    "mac_time_to_own_window c m' now = Some (max t (carrier_sense_ticks c))"
    "m' = (if t \<le> carrier_sense_ticks c then m\<lparr>T0 := T0 m'\<rparr> else m)"
    by (rule carrier_sensed_ok [OF assms]) (rule that, assumption+)
  have "mac_can_send c m' now = Some (max t (carrier_sense_ticks c) = 0)"
    using windows_by_phase(2,3) [OF assms(1) m'(2) assms(3)] phase_bounds(2) [OF assms(1) m'(2), of now] m'(4)
    by (auto split: if_splits)
  moreover have "max t (carrier_sense_ticks c) = 0 \<longleftrightarrow> t = 0 \<and> carrier_sense_ticks c = 0"
    using windows_by_phase(3) [OF assms] phase_bounds(2) [OF assms(1,2), of now] m'(3) assms(1)
    by (auto simp: mac_conf_ok_def split: if_splits)
  ultimately show ?thesis using m' by auto
qed

text \<open>In the open window at tick 10 the sample station defers by 200 ticks; at tick 360 the window is 820 ticks away and stays there.\<close>

theorem carrier_sense_defers_witness:
  "(\<exists>m'. sky_mac_carrier_sensed sample_mac_conf sample_mac 10 = Some m' \<and>
     mac_time_to_own_window sample_mac_conf sample_mac 10 = Some 0 \<and> mac_time_to_own_window sample_mac_conf m' 10 = Some 200) \<and>
   sky_mac_carrier_sensed sample_mac_conf sample_mac 360 = Some sample_mac"
proof -
  have ck: "clock 10" "clock 360" by (simp_all add: clock_def MOD_TIME_TICKS_def)
  have t: "mac_time_to_own_window sample_mac_conf sample_mac 10 = Some 0" "mac_time_to_own_window sample_mac_conf sample_mac 360 = Some 820"
    using windows_by_phase(3) [OF sample_mac_ok ck(1)] windows_by_phase(3) [OF sample_mac_ok ck(2)]
    by (simp_all add: phase_def since_def cycle_len_def MOD_TIME_TICKS_def)
  show ?thesis
    using carrier_sense_defers [OF sample_mac_ok ck(1)] carrier_sense_defers [OF sample_mac_ok ck(2)] t by auto
qed

text \<open>
  growing, shrinking and resetting the window keep its length between the configured limits and
  move it by the configured increment; in each case the own window opens at that very tick, so the
  full new length remains.
\<close>

theorem window_resizing:
  assumes "mac_conf_ok c" "mac_inv c m" "clock now"
  shows "(\<exists>m'. mac_expand_window c m now = Some m' \<and> mac_inv c m' \<and>
      my_window_length m' = min (maximum_window_length_ticks c) (my_window_length m + window_adjust_increment_ticks c) \<and>
      mac_own_window_remaining c m' now = Some (my_window_length m')) \<and>
    (\<exists>m'. mac_shrink_window c m now = Some m' \<and> mac_inv c m' \<and>
      my_window_length m' = max (minimum_window_length_ticks c) (my_window_length m - window_adjust_increment_ticks c) \<and>
      mac_own_window_remaining c m' now = Some (my_window_length m')) \<and>
    (\<exists>m'. mac_reset c m now = Some m' \<and> mac_inv c m' \<and> my_window_length m' = minimum_window_length_ticks c \<and>
      mac_own_window_remaining c m' now = Some (my_window_length m'))"
proof -
  have full: "mac_own_window_remaining c m' now = Some (my_window_length m')"
    if "mac_inv c m'" "phase c m' now = 0" for m'
    using windows_by_phase(1) [OF assms(1) that(1) assms(3)] that(2) by simp
  obtain m3 where "mac_reset c m now = Some m3" "mac_inv c m3" "phase c m3 now = 0"
    "my_window_length m3 = minimum_window_length_ticks c"
    using mac_reset_ok [OF assms] by blast
  then show ?thesis using resize_window_ok [OF assms] full by blast
qed

theorem window_resizing_witness:
  "\<exists>m'. mac_expand_window sample_mac_conf sample_mac 9000 = Some m' \<and> my_window_length m' = 500 \<and>
     mac_own_window_remaining sample_mac_conf m' 9000 = Some 500"
proof -
  have "clock 9000" by (simp add: clock_def MOD_TIME_TICKS_def)
  from window_resizing [OF sample_mac_ok this] obtain m' where
    "mac_expand_window sample_mac_conf sample_mac 9000 = Some m'"
    "my_window_length m' = min (maximum_window_length_ticks sample_mac_conf)
       (my_window_length sample_mac + window_adjust_increment_ticks sample_mac_conf)"
    "mac_own_window_remaining sample_mac_conf m' 9000 = Some (my_window_length m')" by blast
  then show ?thesis by simp
qed

end
