(* ===== verification/VC_Frame_Correct.thy ===== *)
theory VC_Frame_Correct
  imports Reliable_VC_Correct Frame_Correct
begin

text \<open>
  The virtual channel at the frame level: \<open>sky_vc_fill_frame\<close> acts on the abstract views of channel and
  frame, and \<open>sky_vc_process_frame\<close> is safe for every parsed frame. Together they give the invariant
  of the channel over all its operations.
\<close>

section \<open>Clock and frame preconditions\<close>

definition ticks_ok :: "sky_tick_t \<Rightarrow> bool" where
  "ticks_ok t \<longleftrightarrow> 0 \<le> t \<and> t < MOD_TIME_TICKS"

definition vc_ticks :: "SkyVirtualChannel \<Rightarrow> bool" where
  "vc_ticks v \<longleftrightarrow> ticks_ok (last_tx_tick v) \<and> ticks_ok (last_rx_tick v) \<and> ticks_ok (last_ctrl_send_tick v)"

text \<open>Elapsed time on the wrapping clock.\<close>

definition elapsed :: "sky_tick_t \<Rightarrow> sky_tick_t \<Rightarrow> int" where
  "elapsed now t = (now - t) mod MOD_TIME_TICKS"

lemma ticks_since_elapsed: "\<lbrakk> ticks_ok now; ticks_ok t \<rbrakk> \<Longrightarrow> ticks_since now t = Some (elapsed now t)"
  by (simp add: ticks_since_def elapsed_def ticks_ok_def MOD_TIME_TICKS_def)

text \<open>
  A frame as the transmitter hands it to the channel: only the TDD and HMAC extensions, no payload
  yet, and no longer than the longest identity, the header and these two extensions make it.
\<close>

definition fresh_tx :: "SkyHeaderLayout \<Rightarrow> SkyTransmitFrame \<Rightarrow> bytes \<Rightarrow> byte \<Rightarrow> u16 \<Rightarrow> extension list \<Rightarrow> bool" where
  "fresh_tx ly tx pre f sq es \<longleftrightarrow>
     tx_view ly tx pre f sq es [] \<and> \<not> bit f 4 \<and> frame_len (tx_radio tx) \<le> 23 \<and>
     list_all ext_ok es \<and> distinct (map fst es) \<and>
     set (map fst es) \<subseteq> {EXTENSION_MAC_TDD_CONTROL, EXTENSION_HMAC_SEQUENCE_RESET}"

section \<open>The parts of \<open>sky_vc_fill_frame\<close>\<close>

definition handshake_exts :: "SkyVirtualChannel \<Rightarrow> extension list" where
  "handshake_exts v =
     (if 0 < handshake_send v
      then [(EXTENSION_ARQ_HANDSHAKE, ARQ_STATE_ON # mem32 (sky_hton32 (arq_session_identifier v)))] else [])"

lemma fill_handshake_ok:
  assumes v: "tx_view ly tx pre f sq es []" "\<not> bit f 4" "frame_len (tx_radio tx) \<le> 23"
  obtains tx' where
    "fill_handshake ly v tx = Some (of_bool (0 < handshake_send v),
       (if 0 < handshake_send v then v\<lparr>handshake_send := handshake_send v - 1\<rparr> else v), tx')"
    "tx_view ly tx' pre f sq (es @ handshake_exts v) []"
    "frame_len (tx_radio tx') = frame_len (tx_radio tx) + length (enc_exts (handshake_exts v))"
    "frame_len (tx_radio tx') \<le> 29"
proof (cases "0 < handshake_send v")
  case True
  have "frame_len (tx_radio tx) < 175" using v(3) by simp
  from encoders_append(4) [OF v(1,2) this, of ARQ_STATE_ON "arq_session_identifier v"]
  obtain tx' where "sky_frame_add_extension_arq_handshake ly tx ARQ_STATE_ON (arq_session_identifier v) = Some tx'"
    "tx_view ly tx' pre f sq (es @ handshake_exts v) []" "frame_len (tx_radio tx') = frame_len (tx_radio tx) + 6"
    using True by (auto simp: appends_def handshake_exts_def)
  then show ?thesis using that v(3) True by (simp add: fill_handshake_def handshake_exts_def)
next
  case False
  then show ?thesis using that [of tx] v by (simp add: fill_handshake_def handshake_exts_def)
qed

definition request_exts :: "SkyVirtualChannel \<Rightarrow> bool \<Rightarrow> sky_arq_mask_t \<Rightarrow> extension list" where
  "request_exts v idle_left mk =
     (if idle_left \<and> (mk \<noteq> 0 \<or> need_recall v \<noteq> 0)
      then [(EXTENSION_ARQ_REQUEST, r_head_sequence (rcvRing v) # mem16 (sky_hton16 mk))] else [])"

lemma fill_request_ok:
  assumes v: "tx_view ly tx pre f sq es []" "\<not> bit f 4" "frame_len (tx_radio tx) \<le> 29"
    and mk: "rcvRing_get_horizon_bitmap (rcvRing v) = Some mk"
  obtains tx' where
    "fill_request ly idle_left ret v tx = Some (if request_exts v idle_left mk = [] then ret else 1,
       (if request_exts v idle_left mk = [] then v else v\<lparr>need_recall := 0\<rparr>), tx')"
    "tx_view ly tx' pre f sq (es @ request_exts v idle_left mk) []" "frame_len (tx_radio tx') \<le> 33"
proof (cases "idle_left \<and> (mk \<noteq> 0 \<or> need_recall v \<noteq> 0)")
  case True
  have "frame_len (tx_radio tx) < 175" using v(3) by simp
  from encoders_append(2) [OF v(1,2) this, of "r_head_sequence (rcvRing v)" mk]
  obtain tx' where "sky_frame_add_extension_arq_request ly tx (r_head_sequence (rcvRing v)) mk = Some tx'"
    "tx_view ly tx' pre f sq (es @ request_exts v idle_left mk) []" "frame_len (tx_radio tx') = frame_len (tx_radio tx) + 4"
    using True by (auto simp: appends_def request_exts_def)
  then show ?thesis using that v(3) True mk by (simp add: fill_request_def request_exts_def)
next
  case False
  then show ?thesis using that [of tx] v mk by (auto simp: fill_request_def request_exts_def)
qed

text \<open>A control extension is due: the channel has been quiet too long, or there is something to send.\<close>

definition ctrl_due :: "SkyVirtualChannel \<Rightarrow> SkyARQConfig \<Rightarrow> bool \<Rightarrow> sky_tick_t \<Rightarrow> bool" where
  "ctrl_due v arq idle_left now \<longleftrightarrow>
     idle_left \<and> (elapsed now (last_ctrl_send_tick v) > idle_frame_threshold arq \<or>
       elapsed now (last_tx_tick v) > idle_frame_threshold arq \<or>
       elapsed now (last_rx_tick v) > idle_frame_threshold arq \<or> unconfirmed_payloads v > 0)"

definition ctrl_exts :: "SkyVirtualChannel \<Rightarrow> SkyARQConfig \<Rightarrow> bool \<Rightarrow> sky_tick_t \<Rightarrow> int \<Rightarrow> extension list" where
  "ctrl_exts v arq idle_left now n =
     (if ctrl_due v arq idle_left now \<or> n > 0
      then [(EXTENSION_ARQ_CTRL, [tx_sequence (sendRing v), r_head_sequence (rcvRing v)])] else [])"

lemma fill_ctrl_ok:
  assumes v: "tx_view ly tx pre f sq es []" "\<not> bit f 4" "frame_len (tx_radio tx) \<le> 33"
    and n: "sendRing_count_packets_to_send (sendRing v) True = Some n" and t: "vc_ticks v" "ticks_ok now"
  obtains tx' where
    "fill_ctrl ly arq idle_left now ret v tx = Some (if ctrl_exts v arq idle_left now n = [] then ret else 1,
       (if ctrl_exts v arq idle_left now n = [] then v else v\<lparr>last_ctrl_send_tick := now, unconfirmed_payloads := 0\<rparr>), tx')"
    "tx_view ly tx' pre f sq (es @ ctrl_exts v arq idle_left now n) []" "frame_len (tx_radio tx') \<le> 36"
proof -
  have ts: "ticks_since now (last_ctrl_send_tick v) = Some (elapsed now (last_ctrl_send_tick v))"
    "ticks_since now (last_tx_tick v) = Some (elapsed now (last_tx_tick v))"
    "ticks_since now (last_rx_tick v) = Some (elapsed now (last_rx_tick v))"
    using t by (simp_all add: vc_ticks_def ticks_since_elapsed)
  have unf: "fill_ctrl ly arq idle_left now ret v tx = (if ctrl_due v arq idle_left now \<or> n > 0 then do {
       tx' \<leftarrow> sky_frame_add_extension_arq_ctrl ly tx (tx_sequence (sendRing v)) (r_head_sequence (rcvRing v));
       Some (1, v\<lparr>last_ctrl_send_tick := now, unconfirmed_payloads := 0\<rparr>, tx')
     }
     else Some (ret, v, tx))"
    by (simp add: fill_ctrl_def n ts Let_def ctrl_due_def)
  show ?thesis
  proof (cases "ctrl_due v arq idle_left now \<or> n > 0")
    case True
    have "frame_len (tx_radio tx) < 175" using v(3) by simp
    from encoders_append(3) [OF v(1,2) this, of "tx_sequence (sendRing v)" "r_head_sequence (rcvRing v)"]
    obtain tx' where "sky_frame_add_extension_arq_ctrl ly tx (tx_sequence (sendRing v)) (r_head_sequence (rcvRing v)) = Some tx'"
      "tx_view ly tx' pre f sq (es @ ctrl_exts v arq idle_left now n) []"
      "frame_len (tx_radio tx') = frame_len (tx_radio tx) + 3"
      using True by (auto simp: appends_def ctrl_exts_def)
    then show ?thesis using that v(3) True by (simp add: unf ctrl_exts_def)
  next
    case False
    then show ?thesis using that [of tx] v by (simp add: unf ctrl_exts_def)
  qed
qed

text \<open>The ring operations used while filling, on the view of the channel.\<close>

lemma vc_peek:
  assumes "vc_view v Ls Lr W ds m ps"
  shows "sendRing_peek_next_tx_size_and_sequence (sendRing v) (elementBuffer v) rs =
     Some (case next_tx (sendRing v) ds m rs of
             Some (d, s) \<Rightarrow> (int (length d), Some s) | None \<Rightarrow> (SKY_RET_RING_EMPTY, None))"
proof -
  obtain hs xs where rel: "vc_rel v Ls Lr W hs m xs" and ds: "ds = payloads (elementBuffer v) hs"
    using assms by (auto simp: vc_view_def)
  note D = vc_relD [OF rel]
  show ?thesis unfolding ds by (rule peek_next_tx [OF D(1) D(3) D(11)])
qed

lemma vc_read_tx:
  assumes view: "vc_view v Ls Lr W ds m ps"
  obtains s' m' where
    "sendRing_read_to_tx (sendRing v) (elementBuffer v) rs = Some (case next_tx (sendRing v) ds m rs of
        Some x \<Rightarrow> Inr x | None \<Rightarrow> Inl SKY_RET_RING_EMPTY, s')"
    "vc_view (v\<lparr>sendRing := s'\<rparr>) Ls Lr W ds m' ps" "s_tail_sequence s' = s_tail_sequence (sendRing v)" "m \<le> m'"
    "\<And>d s. next_tx (sendRing v) ds m rs = Some (d, s) \<Longrightarrow> unat (s - s_tail_sequence (sendRing v)) < m' \<and>
       d = ds ! unat (s - s_tail_sequence (sendRing v))"
proof -
  obtain hs xs where rel: "vc_rel v Ls Lr W hs m xs" and ds: "ds = payloads (elementBuffer v) hs"
    and ps: "ps = slot_payloads (elementBuffer v) xs" using view by (auto simp: vc_view_def)
  note D = vc_relD [OF rel]
  have len: "\<forall>d \<in> set ds. length d \<le> 281" using D(10) by (fastforce simp: ds SKY_PAYLOAD_MAX_LEN_def)
  have h: "holds (eb_get (elementBuffer v)) hs ds" using D(11) ds by simp
  obtain s' m' where s': "sendRing_read_to_tx (sendRing v) (elementBuffer v) rs = Some (case next_tx (sendRing v) ds m rs of
        Some x \<Rightarrow> Inr x | None \<Rightarrow> Inl SKY_RET_RING_EMPTY, s')"
    "send_rel s' Ls hs m'" "s_tail_sequence s' = s_tail_sequence (sendRing v)" "m \<le> m'"
    "\<And>d s. next_tx (sendRing v) ds m rs = Some (d, s) \<Longrightarrow> unat (s - s_tail_sequence (sendRing v)) < m' \<and>
        d = ds ! unat (s - s_tail_sequence (sendRing v))"
    by (rule read_to_tx_next [OF D(1) D(3) h len, where rs = rs]) (rule that, assumption+)
  have "vc_rel (v\<lparr>sendRing := s'\<rparr>) Ls Lr W hs m' xs" by (rule vc_relI [OF rel]) (use s' D in auto)
  then have "vc_view (v\<lparr>sendRing := s'\<rparr>) Ls Lr W ds m' ps" using ds ps unfolding vc_view_def by fastforce
  with s' show ?thesis by (intro that)
qed

lemma vc_count_to_send:
  assumes "vc_view v Ls Lr W ds m ps"
  shows "sendRing_count_packets_to_send (sendRing v) rs =
    Some (int (length ds - m) + (if rs then int (length (pending_resends (sendRing v))) else 0))"
proof -
  obtain hs xs where rel: "vc_rel v Ls Lr W hs m xs" and ds: "ds = payloads (elementBuffer v) hs"
    using assms by (auto simp: vc_view_def)
  note D = vc_relD [OF rel]
  have "length (pending_resends (sendRing v)) = resend_count (sendRing v)"
    using D(1) by (simp add: pending_resends_def send_rel_def)
  then show ?thesis using send_count [OF D(1)] by (simp add: ds)
qed

lemma vc_bitmap:
  assumes "vc_view v Ls Lr W ds m ps"
  obtains mk where "rcvRing_get_horizon_bitmap (rcvRing v) = Some mk"
    "\<And>i. bit mk i \<longleftrightarrow> i < W \<and> i < 16 \<and> ps ! (readable W ps + 1 + i) \<noteq> None"
proof -
  obtain hs xs where rel: "vc_rel v Ls Lr W hs m xs" and ps: "ps = slot_payloads (elementBuffer v) xs"
    using assms by (auto simp: vc_view_def)
  note D = vc_relD [OF rel]
  obtain mk where mk: "rcvRing_get_horizon_bitmap (rcvRing v) = Some mk"
    "\<And>i. bit mk i \<longleftrightarrow> i < W \<and> i < 16 \<and> xs ! (readable W xs + 1 + i) \<noteq> None"
    by (rule horizon_bitmap [OF D(2)]) (rule that, assumption+)
  have len: "W + 3 \<le> length xs" "length xs = Lr" using D(2) by (auto simp: rcv_rel_def rcv_at_def)
  have "readable W xs + W + 1 \<le> length xs" using len by (intro readable_bound) simp
  then have iff: "i < W \<Longrightarrow> (ps ! (readable W ps + 1 + i) \<noteq> None) = (xs ! (readable W xs + 1 + i) \<noteq> None)" for i
    by (simp add: ps slot_payloads_nth)
  show ?thesis
  proof (rule that [OF mk(1)])
    show "bit mk i \<longleftrightarrow> i < W \<and> i < 16 \<and> ps ! (readable W ps + 1 + i) \<noteq> None" for i
      using mk(2) [of i] iff [of i] by (cases "i < W") simp_all
  qed
qed

lemma next_tx_payload:
  assumes "vc_view v Ls Lr W ds m ps" "next_tx (sendRing v) ds m rs = Some (d, s)"
  shows "length d \<le> SKY_PAYLOAD_MAX_LEN" "d \<in> set ds"
proof -
  have "m \<le> length ds" using vc_view_lengths [OF assms(1)] by simp
  then show "d \<in> set ds" using assms(2) by (auto simp: next_tx_def Let_def split: if_splits)
  then show "length d \<le> SKY_PAYLOAD_MAX_LEN" using vc_view_payload_bound(1) [OF assms(1)] by blast
qed

text \<open>
  Filling in the payload. The payload always fits: 36 bytes of header and extensions, 2 bytes of
  sequence extension, 181 bytes of payload and 4 bytes of authentication are the 223 bytes of a frame.
\<close>

lemma fill_payload_ok:
  assumes view: "vc_view v Ls Lr W ds m ps"
    and v: "tx_view ly tx pre f sq es []" "\<not> bit f 4" "frame_len (tx_radio tx) \<le> 36"
  obtains
    (quiet) "sendRing_count_packets_to_send (sendRing v) True = Some 0" "fill_payload ly ret v tx = Some (ret, v, tx)"
  | (stale) n where "sendRing_count_packets_to_send (sendRing v) True = Some n" "0 < n"
      "next_tx (sendRing v) ds m True = None" "fill_payload ly ret v tx = Some (SKY_RET_RING_EMPTY, v, tx)"
  | (sent) n d s s' m' tx' where "sendRing_count_packets_to_send (sendRing v) True = Some n" "0 < n"
      "next_tx (sendRing v) ds m True = Some (d, s)" "fill_payload ly ret v tx = Some (1, v\<lparr>sendRing := s'\<rparr>, tx')"
      "tx_view ly tx' pre (set_bit 4 f) sq (es @ [(EXTENSION_ARQ_SEQUENCE, [s])]) d"
      "frame_len (tx_radio tx') = frame_len (tx_radio tx) + 2 + length d"
      "vc_view (v\<lparr>sendRing := s'\<rparr>) Ls Lr W ds m' ps" "m \<le> m'"
      "s_tail_sequence s' = s_tail_sequence (sendRing v)"
      "unat (s - s_tail_sequence (sendRing v)) < m'" "d = ds ! unat (s - s_tail_sequence (sendRing v))"
proof -
  obtain n where n: "sendRing_count_packets_to_send (sendRing v) True = Some n" "0 \<le> n"
    using vc_count_to_send [OF view] by auto
  note peek = vc_peek [OF view, of True]
  show ?thesis
  proof (cases "n = 0")
    case True
    then show ?thesis using quiet n by (simp add: fill_payload_def)
  next
    case False
    then have pos: "0 < n" using n by simp
    show ?thesis
    proof (cases "next_tx (sendRing v) ds m True")
      case None
      then show ?thesis using stale n pos peek by (simp add: fill_payload_def ret_codes)
    next
      case (Some x)
      then obtain d s where ds: "next_tx (sendRing v) ds m True = Some (d, s)" by (cases x) auto
      have len: "length d \<le> 181" using next_tx_payload [OF view ds] by (simp add: SKY_PAYLOAD_MAX_LEN_def)
      have fits: "int (length d) + 1 + 1 \<le> sky_frame_get_space_left (tx_radio tx)"
        using len v(3) by (simp add: sky_frame_get_space_left_def RS_MSGLEN_def SKY_HMAC_LENGTH_def)
      have "frame_len (tx_radio tx) < 175" using v(3) by simp
      from encoders_append(1) [OF v(1,2) this, of s] obtain tx1 where
        tx1: "sky_frame_add_extension_arq_sequence ly tx s = Some tx1"
        "tx_view ly tx1 pre f sq (es @ [(EXTENSION_ARQ_SEQUENCE, [s])]) []"
        "frame_len (tx_radio tx1) = frame_len (tx_radio tx) + 2"
        by (auto simp: appends_def)
      have "frame_len (tx_radio tx1) + length d \<le> RAW_SIZE" using tx1(3) v(3) len by (simp add: RAW_SIZE_val)
      from put_bytes_view [OF tx1(2) this] obtain tx2 where tx2: "put_bytes tx1 d = Some tx2"
        "tx_view ly tx2 pre f sq (es @ [(EXTENSION_ARQ_SEQUENCE, [s])]) d"
        "frame_len (tx_radio tx2) = frame_len (tx_radio tx1) + length d" by auto
      from tx_set_flag_view [OF tx2(2), of 4] obtain tx3 where tx3: "tx_set_flag 4 tx2 = Some tx3"
        "tx_view ly tx3 pre (set_bit 4 f) sq (es @ [(EXTENSION_ARQ_SEQUENCE, [s])]) d"
        "frame_len (tx_radio tx3) = frame_len (tx_radio tx2)" by blast
      obtain s' m' where s': "sendRing_read_to_tx (sendRing v) (elementBuffer v) True = Some (Inr (d, s), s')"
        "vc_view (v\<lparr>sendRing := s'\<rparr>) Ls Lr W ds m' ps" "s_tail_sequence s' = s_tail_sequence (sendRing v)" "m \<le> m'"
        "unat (s - s_tail_sequence (sendRing v)) < m'" "d = ds ! unat (s - s_tail_sequence (sendRing v))"
        using vc_read_tx [OF view, of True] ds by (simp split: option.splits) blast
      have "fill_payload ly ret v tx = Some (1, v\<lparr>sendRing := s'\<rparr>, tx3)"
        using n(1) pos peek ds fits tx1(1) tx2(1) tx3(1) s'(1) by (simp add: fill_payload_def)
      then show ?thesis using sent [OF n(1) pos ds _ tx3(2) _ s'(2,4,3,5,6)] tx1(3) tx2(3) tx3(3) by simp
    qed
  qed
qed

section \<open>\<open>sky_vc_fill_frame\<close>\<close>

lemmas arq_states = ARQ_STATE_OFF_def ARQ_STATE_IN_INIT_def ARQ_STATE_ON_def

text \<open>Two channels that differ in ARQ bookkeeping only.\<close>

definition same_rings :: "SkyVirtualChannel \<Rightarrow> SkyVirtualChannel \<Rightarrow> bool" where
  "same_rings v v' \<longleftrightarrow> sendRing v' = sendRing v \<and> rcvRing v' = rcvRing v \<and> elementBuffer v' = elementBuffer v \<and>
     arq_state_flag v' = arq_state_flag v \<and> arq_session_identifier v' = arq_session_identifier v"

lemma vc_view_state: "vc_view v Ls Lr W ds m ps \<Longrightarrow> arq_state_flag v \<in> {ARQ_STATE_OFF, ARQ_STATE_IN_INIT, ARQ_STATE_ON}"
  by (auto simp: vc_view_def vc_rel_def)

lemma vc_view_same_rings:
  assumes "vc_view v Ls Lr W ds m ps" "same_rings v v'"
  shows "vc_view v' Ls Lr W ds m ps"
  using vc_view_cong [OF assms(1), of v'] assms(2) vc_view_state [OF assms(1)] by (simp add: same_rings_def)

lemma fill_off_ok:
  assumes view: "vc_view v Ls Lr W ds m ps" and off: "arq_state_flag v = ARQ_STATE_OFF"
    and tx: "fresh_tx ly tx pre f sq es" and m: "m < length ds" and ne: "ds ! m \<noteq> []"
  obtains v' tx' where "sky_vc_fill_frame ly v arq tx now k = Some (1, v', tx')"
    "tx_view ly tx' pre (set_bit 4 f) sq es (ds ! m)" "vc_view v' Ls Lr W (drop (Suc m) ds) 0 ps"
    "arq_state_flag v' = ARQ_STATE_OFF" "rcvRing v' = rcvRing v"
    "frame_len (tx_radio tx') = frame_len (tx_radio tx) + length (ds ! m)"
proof -
  have t: "tx_view ly tx pre f sq es []" "\<not> bit f 4" "frame_len (tx_radio tx) \<le> 23" using tx by (auto simp: fresh_tx_def)
  have nx: "next_tx (sendRing v) ds m False = Some (ds ! m, tx_sequence (sendRing v))" using m by (simp add: next_tx_def)
  have len: "length (ds ! m) \<le> 181" using next_tx_payload [OF view nx] by (simp add: SKY_PAYLOAD_MAX_LEN_def)
  have "frame_len (tx_radio tx) + length (ds ! m) \<le> RAW_SIZE" using t(3) len by (simp add: RAW_SIZE_val)
  from put_bytes_view [OF t(1) this] obtain tx1 where tx1: "put_bytes tx (ds ! m) = Some tx1"
    "tx_view ly tx1 pre f sq es (ds ! m)" "frame_len (tx_radio tx1) = frame_len (tx_radio tx) + length (ds ! m)" by auto
  from tx_set_flag_view [OF tx1(2), of 4] obtain tx2 where tx2: "tx_set_flag 4 tx1 = Some tx2"
    "tx_view ly tx2 pre (set_bit 4 f) sq es (ds ! m)" "frame_len (tx_radio tx2) = frame_len (tx_radio tx1)" by blast
  obtain v' where v': "sky_vc_read_packet_for_tx_monotonic v = Some (Inr (ds ! m, s_tail_sequence (sendRing v) + of_nat m), v')"
    "vc_view v' Ls Lr W (drop (Suc m) ds) 0 ps" "arq_state_flag v' = arq_state_flag v" "rcvRing v' = rcvRing v"
    using read_monotonic_ok [OF view m] by metis
  have "0 < length (ds ! m)" "int (length (ds ! m)) \<le> sky_frame_get_space_left (tx_radio tx)"
    using ne len t(3) by (auto simp: sky_frame_get_space_left_def RS_MSGLEN_def SKY_HMAC_LENGTH_def)
  then have "sky_vc_fill_frame ly v arq tx now k = Some (1, v', tx2)"
    using off vc_peek [OF view, of False] nx v'(1) tx1(1) tx2(1) by (simp add: sky_vc_fill_frame_def fill_arq_off_def)
  then show ?thesis using that v' tx2 tx1(3) off by simp
qed

text \<open>Without ARQ there is nothing to transmit when the queue is empty or its head has length zero.\<close>

lemma fill_off_nothing:
  assumes view: "vc_view v Ls Lr W ds m ps" and off: "arq_state_flag v = ARQ_STATE_OFF"
    and m: "length ds \<le> m \<or> ds ! m = []"
  shows "sky_vc_fill_frame ly v arq tx now k = Some (0, v, tx)"
  using vc_peek [OF view, of False] m off
  by (auto simp: sky_vc_fill_frame_def fill_arq_off_def next_tx_def ret_codes)

lemma fill_init_ok:
  assumes "arq_state_flag v = ARQ_STATE_IN_INIT" and tx: "fresh_tx ly tx pre f sq es"
    and idle: "int k < arq_idle_frames_per_window arq"
  obtains tx' where "sky_vc_fill_frame ly v arq tx now k = Some (1, v, tx')"
    "tx_view ly tx' pre f sq
      (es @ [(EXTENSION_ARQ_HANDSHAKE, ARQ_STATE_IN_INIT # mem32 (sky_hton32 (arq_session_identifier v)))]) []"
    "frame_len (tx_radio tx') = frame_len (tx_radio tx) + 6"
proof -
  have t: "tx_view ly tx pre f sq es []" "\<not> bit f 4" "frame_len (tx_radio tx) < 175" using tx by (auto simp: fresh_tx_def)
  from encoders_append(4) [OF t, of ARQ_STATE_IN_INIT "arq_session_identifier v"] show ?thesis
    using that assms(1) idle by (auto simp: sky_vc_fill_frame_def appends_def arq_states)
qed

definition on_exts :: "SkyVirtualChannel \<Rightarrow> SkyARQConfig \<Rightarrow> bool \<Rightarrow> sky_tick_t \<Rightarrow> sky_arq_mask_t \<Rightarrow> int \<Rightarrow> extension list" where
  "on_exts v arq idle_left now mk n =
     handshake_exts v @ request_exts v idle_left mk @ ctrl_exts v arq idle_left now n"

lemma ctrl_exts_cong:
  "same_rings v v' \<Longrightarrow> last_ctrl_send_tick v' = last_ctrl_send_tick v \<Longrightarrow> last_tx_tick v' = last_tx_tick v \<Longrightarrow>
   last_rx_tick v' = last_rx_tick v \<Longrightarrow> unconfirmed_payloads v' = unconfirmed_payloads v \<Longrightarrow>
   ctrl_exts v' arq idle_left now n = ctrl_exts v arq idle_left now n"
  by (auto simp: ctrl_exts_def ctrl_due_def same_rings_def)

lemma fill_on_ok:
  assumes view: "vc_view v Ls Lr W ds m ps" and on: "arq_state_flag v = ARQ_STATE_ON"
    and tx: "fresh_tx ly tx pre f sq es" and t: "vc_ticks v" "ticks_ok now"
    and mk: "rcvRing_get_horizon_bitmap (rcvRing v) = Some mk"
    and n: "sendRing_count_packets_to_send (sendRing v) True = Some n"
    and idle: "idle = (int k < arq_idle_frames_per_window arq)"
  obtains v3 tx3 where
    "sky_vc_fill_frame ly v arq tx now k = fill_payload ly (of_bool (on_exts v arq idle now mk n \<noteq> [])) v3 tx3"
    "same_rings v v3" "vc_ticks v3" "tx_view ly tx3 pre (set_bit 2 f) sq (es @ on_exts v arq idle now mk n) []"
    "frame_len (tx_radio tx3) \<le> 36" "handshake_send v3 = (if 0 < handshake_send v then handshake_send v - 1 else 0)"
proof -
  have tv: "tx_view ly tx pre f sq es []" "\<not> bit f 4" "frame_len (tx_radio tx) \<le> 23" using tx by (auto simp: fresh_tx_def)
  from tx_set_flag_view [OF tv(1), of 2] obtain tx0 where tx0: "tx_set_flag 2 tx = Some tx0"
    "tx_view ly tx0 pre (set_bit 2 f) sq es []" "frame_len (tx_radio tx0) = frame_len (tx_radio tx)" by blast
  have nb: "\<not> bit (set_bit 2 f) 4" using tv(2) by (simp add: bit_simps)
  have l0: "frame_len (tx_radio tx0) \<le> 23" using tx0(3) tv(3) by simp
  define v1 where "v1 = (if 0 < handshake_send v then v\<lparr>handshake_send := handshake_send v - 1\<rparr> else v)"
  from fill_handshake_ok [OF tx0(2) nb l0, of v] obtain tx1 where
    tx1: "fill_handshake ly v tx0 = Some (of_bool (0 < handshake_send v), v1, tx1)"
    "tx_view ly tx1 pre (set_bit 2 f) sq (es @ handshake_exts v) []" "frame_len (tx_radio tx1) \<le> 29"
    unfolding v1_def by blast
  have mk1: "rcvRing_get_horizon_bitmap (rcvRing v1) = Some mk" using mk by (simp add: v1_def)
  have r1: "request_exts v1 idle mk = request_exts v idle mk" by (simp add: v1_def request_exts_def)
  define v2 where "v2 = (if request_exts v idle mk = [] then v1 else v1\<lparr>need_recall := 0\<rparr>)"
  from fill_request_ok [OF tx1(2) nb tx1(3) mk1, of idle "of_bool (0 < handshake_send v)", unfolded r1] obtain tx2 where
    tx2: "fill_request ly idle (of_bool (0 < handshake_send v)) v1 tx1 =
      Some (if request_exts v idle mk = [] then of_bool (0 < handshake_send v) else 1, v2, tx2)"
    "tx_view ly tx2 pre (set_bit 2 f) sq ((es @ handshake_exts v) @ request_exts v idle mk) []"
    "frame_len (tx_radio tx2) \<le> 33"
    unfolding v2_def by blast
  have n2: "sendRing_count_packets_to_send (sendRing v2) True = Some n" using n by (simp add: v1_def v2_def)
  have t2: "vc_ticks v2" using t by (simp add: v1_def v2_def vc_ticks_def)
  have c2: "ctrl_exts v2 arq idle now n = ctrl_exts v arq idle now n"
    by (rule ctrl_exts_cong) (simp_all add: v1_def v2_def same_rings_def)
  define ret2 :: int where "ret2 = (if request_exts v idle mk = [] then of_bool (0 < handshake_send v) else 1)"
  define v3 where "v3 = (if ctrl_exts v arq idle now n = [] then v2
    else v2\<lparr>last_ctrl_send_tick := now, unconfirmed_payloads := 0\<rparr>)"
  from fill_ctrl_ok [OF tx2(2) nb tx2(3) n2 t2 t(2), of arq idle ret2, unfolded c2] obtain tx3 where
    tx3: "fill_ctrl ly arq idle now ret2 v2 tx2 = Some (if ctrl_exts v arq idle now n = [] then ret2 else 1, v3, tx3)"
    "tx_view ly tx3 pre (set_bit 2 f) sq (((es @ handshake_exts v) @ request_exts v idle mk) @ ctrl_exts v arq idle now n) []"
    "frame_len (tx_radio tx3) \<le> 36"
    unfolding v3_def by blast
  have ret: "(if ctrl_exts v arq idle now n = [] then ret2 else 1) = of_bool (on_exts v arq idle now mk n \<noteq> [])"
    by (auto simp: ret2_def on_exts_def handshake_exts_def)
  have "sky_vc_fill_frame ly v arq tx now k = fill_payload ly (of_bool (on_exts v arq idle now mk n \<noteq> [])) v3 tx3"
    using on tx0(1) tx1(1) tx2(1) tx3(1) ret
    by (simp add: sky_vc_fill_frame_def arq_states idle [symmetric] ret2_def)
  moreover have "same_rings v v3" "vc_ticks v3"
    using t by (auto simp: v1_def v2_def v3_def same_rings_def vc_ticks_def)
  moreover have "handshake_send v3 = (if 0 < handshake_send v then handshake_send v - 1 else 0)"
    by (auto simp: v1_def v2_def v3_def word_gt_0)
  ultimately show ?thesis using that tx3(2,3) by (simp add: on_exts_def)
qed

section \<open>\<open>sky_vc_process_frame\<close>\<close>

text \<open>The invariant of a channel with given ring lengths and window.\<close>

definition vc_ok :: "nat \<Rightarrow> nat \<Rightarrow> nat \<Rightarrow> SkyVirtualChannel \<Rightarrow> bool" where
  "vc_ok Ls Lr W v \<longleftrightarrow> (\<exists>ds m ps. vc_view v Ls Lr W ds m ps) \<and> vc_ticks v"

text \<open>What the channel may rely on in a parsed frame: its pointers stay inside the frame buffer.\<close>

definition parsed_ok :: "SkyParsedFrame \<Rightarrow> bool" where
  "parsed_ok p \<longleftrightarrow>
     (\<forall>ty e n. ext_slot ty p = Some (Some e, n) \<longrightarrow> e + 1 + n \<le> length (p_raw p)) \<and>
     p_payload p + payload_len p \<le> length (p_raw p) \<and> payload_len p \<le> 281"

lemma parsed_ok_body:
  assumes "parsed_ok p" "ext_slot ty p = Some (Some e, n)"
  obtains bs where "ext_body p e n = Some bs" "length bs = n"
  using assms by (force simp: parsed_ok_def ext_body_def)

lemma parsed_ok_payload:
  assumes "parsed_ok p"
  obtains d where "parsed_payload p = Some d" "length d = payload_len p" "length d \<le> 281"
  using assms by (force simp: parsed_ok_def parsed_payload_def)

lemma ext_slots_named:
  "ext_slot EXTENSION_ARQ_SEQUENCE p = Some (arq_sequence p, 1)" "ext_slot EXTENSION_ARQ_REQUEST p = Some (arq_request p, 3)"
  "ext_slot EXTENSION_ARQ_CTRL p = Some (arq_ctrl p, 2)" "ext_slot EXTENSION_ARQ_HANDSHAKE p = Some (arq_handshake p, 5)"
  "ext_slot EXTENSION_MAC_TDD_CONTROL p = Some (mac_tdd p, 4)" "ext_slot EXTENSION_HMAC_SEQUENCE_RESET p = Some (hmac_reset p, 2)"
  by (simp_all add: ext_slot_def extension_types)

lemma wipe_ticks:
  "ticks_ok ticks \<Longrightarrow> sky_vc_wipe_to_arq_on_state ticks v q = Some w \<Longrightarrow> vc_ticks w"
  "ticks_ok ticks \<Longrightarrow> sky_vc_wipe_to_arq_init_state ticks v = Some w \<Longrightarrow> vc_ticks w"
  "sky_vc_wipe_to_arq_off_state v = Some w \<Longrightarrow> vc_ticks w"
  by (auto simp: sky_vc_wipe_to_arq_on_state_def sky_vc_wipe_to_arq_init_state_def sky_vc_wipe_to_arq_off_state_def
      bind_eq_Some_conv vc_ticks_def ticks_ok_def MOD_TIME_TICKS_def sky_get_tick_time_def)

lemma handle_handshake_ok:
  assumes view: "vc_view v Ls Lr W ds m ps" and t: "vc_ticks v" "ticks_ok ticks"
  obtains ret v' where "sky_vc_handle_handshake ticks v st q = Some (ret, v')" "vc_ok Ls Lr W v'"
proof -
  obtain w where w: "sky_vc_wipe_to_arq_on_state ticks v q = Some w" "vc_view w Ls Lr W [] 0 (replicate Lr None)"
    "arq_state_flag w = ARQ_STATE_ON"
    by (rule wipe_to_on [OF view, of ticks q]) (rule that, assumption+)
  have acc: "vc_ok Ls Lr W (w\<lparr>handshake_send := 1\<rparr>)"
    using vc_view_cong [OF w(2), of "w\<lparr>handshake_send := 1\<rparr>"] w(3) wipe_ticks(1) [OF t(2) w(1)]
    by (auto simp: vc_ok_def vc_ticks_def)
  have keep: "vc_ok Ls Lr W (v\<lparr>handshake_send := x\<rparr>)" for x
    using vc_view_cong [OF view, of "v\<lparr>handshake_send := x\<rparr>"] vc_view_state [OF view] t(1)
    by (auto simp: vc_ok_def vc_ticks_def)
  have on: "vc_ok Ls Lr W (v\<lparr>arq_state_flag := ARQ_STATE_ON, handshake_send := 0\<rparr>)"
    using vc_view_cong [OF view, of "v\<lparr>arq_state_flag := ARQ_STATE_ON, handshake_send := 0\<rparr>"] t(1)
    by (auto simp: vc_ok_def vc_ticks_def)
  have self: "vc_ok Ls Lr W v" using view t(1) by (auto simp: vc_ok_def)
  have "\<exists>ret v'. sky_vc_handle_handshake ticks v st q = Some (ret, v') \<and> vc_ok Ls Lr W v'"
    using acc keep on self w(1) by (auto simp: sky_vc_handle_handshake_def Let_def)
  then show ?thesis using that by blast
qed

lemma process_handshake_ok:
  assumes "vc_ok Ls Lr W v" "ticks_ok ticks" "parsed_ok p"
  obtains v' where "process_handshake ticks v p = Some v'" "vc_ok Ls Lr W v'"
proof (cases "arq_handshake p")
  case None
  then show ?thesis using that assms by (simp add: process_handshake_def)
next
  case (Some e)
  obtain bs where bs: "ext_body p e 5 = Some bs"
    using parsed_ok_body [OF assms(3), of EXTENSION_ARQ_HANDSHAKE e 5] Some by (auto simp: ext_slots_named)
  obtain ds m ps where "vc_view v Ls Lr W ds m ps" "vc_ticks v" using assms(1) by (auto simp: vc_ok_def)
  then obtain ret v' where "sky_vc_handle_handshake ticks v (bs ! 0) (load32 (bs ! 1) (bs ! 2) (bs ! 3) (bs ! 4)) = Some (ret, v')"
    "vc_ok Ls Lr W v'"
    by (rule handle_handshake_ok [OF _ _ assms(2)])
  then show ?thesis using that Some bs by (simp add: process_handshake_def)
qed

text \<open>An acknowledgement drops the packets before the announced sequence, or nothing if it is not valid.\<close>

lemma update_tx_sync_ok:
  assumes view: "vc_view v Ls Lr W ds m ps" and t: "vc_ticks v" "ticks_ok now"
    and k: "k = unat (s - s_tail_sequence (sendRing v))"
  obtains v' where "sky_vc_update_tx_sync v s now = Some v'" "vc_ticks v'" "rcvRing v' = rcvRing v"
    "arq_state_flag v' = arq_state_flag v"
    "vc_view v' Ls Lr W (if k \<le> m then drop k ds else ds) (if k \<le> m then m - k else m) ps"
    "s_tail_sequence (sendRing v') = (if k \<le> m then s else s_tail_sequence (sendRing v))"
proof -
  obtain hs xs where rel: "vc_rel v Ls Lr W hs m xs" and ds: "ds = payloads (elementBuffer v) hs"
    and ps: "ps = slot_payloads (elementBuffer v) xs" using view by (auto simp: vc_view_def)
  note D = vc_relD [OF rel]
  show ?thesis
  proof (cases "k \<le> m")
    case True
    obtain s' b' where c: "sendRing_clean_tail_up_to (sendRing v) (elementBuffer v) s = Some (int k, s', b')"
      "vc_rel (v\<lparr>sendRing := s', elementBuffer := b'\<rparr>) Ls Lr W (drop k hs) (m - k) xs"
      "payloads b' (drop k hs) = drop k (payloads (elementBuffer v) hs)"
      "slot_payloads b' xs = slot_payloads (elementBuffer v) xs" "s_tail_sequence s' = s"
      by (rule vc_clean [OF rel k True]) (rule that, assumption+)
    define v1 where "v1 = v\<lparr>sendRing := s', elementBuffer := b'\<rparr>"
    have v1: "vc_view v1 Ls Lr W (drop k ds) (m - k) ps" using c(2-4) ds ps unfolding vc_view_def v1_def by fastforce
    define v' where "v' = (if 0 < k \<or> tx_sequence s' = s then v1\<lparr>last_tx_tick := now\<rparr> else v1)"
    have "sky_vc_update_tx_sync v s now = Some v'"
      using c(1) by (auto simp: sky_vc_update_tx_sync_def Let_def v'_def v1_def)
    moreover have "vc_view v' Ls Lr W (drop k ds) (m - k) ps"
      using v1 vc_view_cong [OF v1, of v'] vc_view_state [OF v1] by (simp add: v'_def)
    moreover have "vc_ticks v'" using t by (auto simp: vc_ticks_def v'_def v1_def)
    ultimately show ?thesis using that True c(5) by (simp add: v'_def v1_def)
  next
    case False
    have "sendRing_clean_tail_up_to (sendRing v) (elementBuffer v) s =
        Some (SKY_RET_RING_INVALID_ACKNOWLEDGE, sendRing v, elementBuffer v)"
      using False by (intro clean_tail_invalid [OF D(1)]) (simp add: k)
    then have "sky_vc_update_tx_sync v s now =
        Some (if tx_sequence (sendRing v) = s then v\<lparr>last_tx_tick := now\<rparr> else v)"
      by (simp add: sky_vc_update_tx_sync_def Let_def ret_codes)
    moreover have "vc_view (v\<lparr>last_tx_tick := now\<rparr>) Ls Lr W ds m ps"
      using vc_view_cong [OF view, of "v\<lparr>last_tx_tick := now\<rparr>"] vc_view_state [OF view] by simp
    ultimately show ?thesis using that False view t by (auto simp: vc_ticks_def)
  qed
qed

lemma update_rx_sync_ok:
  assumes "vc_view v Ls Lr W ds m ps" "vc_ticks v" "ticks_ok now"
  shows "vc_view (sky_vc_update_rx_sync v s now) Ls Lr W ds m ps" "vc_ticks (sky_vc_update_rx_sync v s now)"
    "same_rings v (sky_vc_update_rx_sync v s now)"
proof -
  show sr: "same_rings v (sky_vc_update_rx_sync v s now)"
    by (simp add: same_rings_def sky_vc_update_rx_sync_def Let_def)
  show "vc_view (sky_vc_update_rx_sync v s now) Ls Lr W ds m ps" by (rule vc_view_same_rings [OF assms(1) sr])
  show "vc_ticks (sky_vc_update_rx_sync v s now)"
    using assms(2,3) by (simp add: vc_ticks_def sky_vc_update_rx_sync_def Let_def)
qed

lemma process_ctrl_ok:
  assumes ok: "vc_ok Ls Lr W v" and t: "ticks_ok now" and p: "parsed_ok p"
  obtains v' where "process_ctrl v p now = Some v'" "vc_ok Ls Lr W v'" "arq_state_flag v' = arq_state_flag v"
proof (cases "arq_ctrl p")
  case None
  then show ?thesis using that ok by (simp add: process_ctrl_def)
next
  case (Some e)
  obtain bs where bs: "ext_body p e 2 = Some bs"
    using parsed_ok_body [OF p, of EXTENSION_ARQ_CTRL e 2] Some by (auto simp: ext_slots_named)
  obtain ds m ps where view: "vc_view v Ls Lr W ds m ps" "vc_ticks v" using ok by (auto simp: vc_ok_def)
  obtain v1 ds1 m1 where v1: "sky_vc_update_tx_sync v (bs ! 1) now = Some v1" "vc_ticks v1"
    "arq_state_flag v1 = arq_state_flag v" "vc_view v1 Ls Lr W ds1 m1 ps"
    by (rule update_tx_sync_ok [OF view t refl]) (rule that, assumption+)
  note r = update_rx_sync_ok [OF v1(4,2) t, of "bs ! 0"]
  show ?thesis
  proof (rule that)
    show "process_ctrl v p now = Some (sky_vc_update_rx_sync v1 (bs ! 0) now)"
      using Some bs v1(1) by (simp add: process_ctrl_def)
    show "vc_ok Ls Lr W (sky_vc_update_rx_sync v1 (bs ! 0) now)" using r(1,2) by (auto simp: vc_ok_def)
    show "arq_state_flag (sky_vc_update_rx_sync v1 (bs ! 0) now) = arq_state_flag v"
      using r(3) v1(3) by (simp add: same_rings_def)
  qed
qed

lemma schedule_view:
  assumes view: "vc_view v Ls Lr W ds m ps"
  obtains ret s' where "sendRing_schedule_resends_by_mask (sendRing v) s mk = Some (ret, s')"
    "vc_view (v\<lparr>sendRing := s'\<rparr>) Ls Lr W ds m ps"
proof -
  obtain hs xs where rel: "vc_rel v Ls Lr W hs m xs" and ds: "ds = payloads (elementBuffer v) hs"
    and ps: "ps = slot_payloads (elementBuffer v) xs" using view by (auto simp: vc_view_def)
  note D = vc_relD [OF rel]
  obtain ret s' where s': "sendRing_schedule_resends_by_mask (sendRing v) s mk = Some (ret, s')" "send_rel s' Ls hs m"
    by (rule schedule_by_mask_rel [OF D(1)]) (rule that, assumption+)
  have "vc_rel (v\<lparr>sendRing := s'\<rparr>) Ls Lr W hs m xs" by (rule vc_relI [OF rel]) (use s' D in auto)
  then have "vc_view (v\<lparr>sendRing := s'\<rparr>) Ls Lr W ds m ps" using ds ps unfolding vc_view_def by fastforce
  then show ?thesis using s'(1) that by blast
qed

lemma process_request_ok:
  assumes ok: "vc_ok Ls Lr W v" and p: "parsed_ok p"
  obtains v' where "process_request v p = Some v'" "vc_ok Ls Lr W v'"
proof (cases "arq_request p")
  case None
  then show ?thesis using that ok by (simp add: process_request_def)
next
  case (Some e)
  obtain bs where bs: "ext_body p e 3 = Some bs"
    using parsed_ok_body [OF p, of EXTENSION_ARQ_REQUEST e 3] Some by (auto simp: ext_slots_named)
  obtain ds m ps where view: "vc_view v Ls Lr W ds m ps" "vc_ticks v" using ok by (auto simp: vc_ok_def)
  obtain ret s' where s': "sendRing_schedule_resends_by_mask (sendRing v) (bs ! 0) (sky_ntoh16 (load16 (bs ! 1) (bs ! 2))) = Some (ret, s')"
    "vc_view (v\<lparr>sendRing := s'\<rparr>) Ls Lr W ds m ps"
    by (rule schedule_view [OF view(1)])
  show ?thesis
  proof (rule that)
    show "process_request v p = Some (v\<lparr>sendRing := s'\<rparr>)" using Some bs s'(1) by (simp add: process_request_def)
    show "vc_ok Ls Lr W (v\<lparr>sendRing := s'\<rparr>)" using s'(2) view(2) by (auto simp: vc_ok_def vc_ticks_def)
  qed
qed

lemma push_rx_ok:
  assumes ok: "vc_ok Ls Lr W v" and d: "length d \<le> 281" and t: "ticks_ok now"
  shows "\<exists>ret v'. sky_vc_push_rx_packet_monotonic v d = Some (ret, v') \<and> vc_ok Ls Lr W v'"
    "\<exists>ret v'. sky_vc_push_rx_packet v d s now = Some (ret, v') \<and> vc_ok Ls Lr W v'"
proof -
  obtain ds m ps where view: "vc_view v Ls Lr W ds m ps" "vc_ticks v" using ok by (auto simp: vc_ok_def)
  have push: "\<exists>ret r' b'. rcvRing_push_rx_packet (rcvRing v) (elementBuffer v) d q = Some (ret, r', b') \<and>
      vc_ok Ls Lr W (v\<lparr>rcvRing := r', elementBuffer := b'\<rparr>)" for q
  proof (rule vc_rx_any [OF view(1) d, where s = q], goal_cases)
    case (1 k r' b')
    then show ?case using view(2) by (fastforce simp: vc_ok_def vc_ticks_def)
  next
    case (2 e)
    have "v\<lparr>rcvRing := rcvRing v, elementBuffer := elementBuffer v\<rparr> = v" by simp
    then show ?case using 2 ok by metis
  qed
  show "\<exists>ret v'. sky_vc_push_rx_packet_monotonic v d = Some (ret, v') \<and> vc_ok Ls Lr W v'"
    using push [of "r_head_sequence (rcvRing v)"] by (auto simp: sky_vc_push_rx_packet_monotonic_def)
  obtain ret r' b' where p: "rcvRing_push_rx_packet (rcvRing v) (elementBuffer v) d s = Some (ret, r', b')"
    "vc_ok Ls Lr W (v\<lparr>rcvRing := r', elementBuffer := b'\<rparr>)" using push [of s] by blast
  then obtain ds' m' ps' where v1: "vc_view (v\<lparr>rcvRing := r', elementBuffer := b'\<rparr>) Ls Lr W ds' m' ps'"
    by (auto simp: vc_ok_def)
  define v1 where "v1 = v\<lparr>rcvRing := r', elementBuffer := b'\<rparr>"
  define v2 where "v2 = (if ret > 0 then v1\<lparr>last_rx_tick := now\<rparr> else v1)"
  define v3 where "v3 = v2\<lparr>unconfirmed_payloads := to_i16 (unconfirmed_payloads v2 + 1)\<rparr>"
  have "sky_vc_push_rx_packet v d s now = Some (ret, v3)"
    using p(1) by (simp add: sky_vc_push_rx_packet_def v3_def v2_def v1_def Let_def)
  moreover have "same_rings v1 v3" by (simp add: same_rings_def v3_def v2_def)
  then have "vc_view v3 Ls Lr W ds' m' ps'" using v1 vc_view_same_rings unfolding v1_def [symmetric] by blast
  moreover have "vc_ticks v3" using view(2) t by (auto simp: vc_ticks_def v3_def v2_def v1_def)
  ultimately show "\<exists>ret v'. sky_vc_push_rx_packet v d s now = Some (ret, v') \<and> vc_ok Ls Lr W v'"
    by (auto simp: vc_ok_def)
qed

lemma process_frame_ok:
  assumes ok: "vc_ok Ls Lr W v" and t: "ticks_ok ticks" "ticks_ok now" and p: "parsed_ok p"
  obtains ret v' where "sky_vc_process_frame ticks v p now = Some (ret, v')" "vc_ok Ls Lr W v'" "ret \<in> {0, - 1}"
proof -
  obtain v0 where v0: "process_handshake ticks v p = Some v0" "vc_ok Ls Lr W v0"
    by (rule process_handshake_ok [OF ok t(1) p])
  obtain d where d: "parsed_payload p = Some d" "length d \<le> 281"
    by (rule parsed_ok_payload [OF p]) (rule that, assumption+)
  obtain v1 where v1: "process_ctrl v0 p now = Some v1" "vc_ok Ls Lr W v1"
    by (rule process_ctrl_ok [OF v0(2) t(2) p])
  have st: "arq_state_flag v0 \<in> {ARQ_STATE_OFF, ARQ_STATE_IN_INIT, ARQ_STATE_ON}"
    using v0(2) vc_view_state unfolding vc_ok_def by blast
  have on: "\<exists>ret v'. (if payload_len p > 0 then
         (case arq_sequence p of
            None \<Rightarrow> Some (- 1, v1)
          | Some ext \<Rightarrow> do {
              bs \<leftarrow> ext_body p ext 1;
              payload \<leftarrow> parsed_payload p;
              (_, v2) \<leftarrow> sky_vc_push_rx_packet v1 payload (bs ! 0) now;
              v3 \<leftarrow> process_request v2 p;
              Some (0, v3)
            })
       else do { v3 \<leftarrow> process_request v1 p; Some (0, v3) }) = Some (ret, v') \<and> vc_ok Ls Lr W v' \<and> ret \<in> {0, - 1}"
  proof (cases "payload_len p > 0 \<and> arq_sequence p \<noteq> None")
    case True
    then obtain e where e: "arq_sequence p = Some e" by blast
    obtain bs where bs: "ext_body p e 1 = Some bs"
      using parsed_ok_body [OF p, of EXTENSION_ARQ_SEQUENCE e 1] e by (auto simp: ext_slots_named)
    obtain r v2 where v2: "sky_vc_push_rx_packet v1 d (bs ! 0) now = Some (r, v2)" "vc_ok Ls Lr W v2"
      using push_rx_ok(2) [OF v1(2) d(2) t(2)] by blast
    obtain v3 where "process_request v2 p = Some v3" "vc_ok Ls Lr W v3" by (rule process_request_ok [OF v2(2) p])
    then show ?thesis using True e bs d(1) v2(1) by simp
  next
    case False
    obtain v3 where "process_request v1 p = Some v3" "vc_ok Ls Lr W v3" by (rule process_request_ok [OF v1(2) p])
    then show ?thesis using False v1(2) by auto
  qed
  obtain r2 v2 where v2: "sky_vc_push_rx_packet_monotonic v0 d = Some (r2, v2)" "vc_ok Ls Lr W v2"
    using push_rx_ok(1) [OF v0(2) d(2) t(2)] by blast
  have "\<exists>ret v'. sky_vc_process_frame ticks v p now = Some (ret, v') \<and> vc_ok Ls Lr W v' \<and> ret \<in> {0, - 1}"
  proof (cases "arq_state_flag v0 = ARQ_STATE_ON")
    case True
    then show ?thesis using v0(1) v1(1) on by (simp add: sky_vc_process_frame_def arq_states)
  next
    case False
    then show ?thesis using v0 v2 d(1) st by (auto simp: sky_vc_process_frame_def)
  qed
  then show ?thesis using that by blast
qed

section \<open>\<open>sky_vc_fill_frame\<close> in every state\<close>

text \<open>The extensions a channel may add.\<close>

definition arq_exts :: "extension list \<Rightarrow> bool" where
  "arq_exts es \<longleftrightarrow> list_all ext_ok es \<and> distinct (map fst es) \<and>
     set (map fst es) \<subseteq> {EXTENSION_ARQ_SEQUENCE, EXTENSION_ARQ_REQUEST, EXTENSION_ARQ_CTRL, EXTENSION_ARQ_HANDSHAKE}"

lemma arq_exts_on:
  "arq_exts (on_exts v arq idle now mk n)" "arq_exts (on_exts v arq idle now mk n @ [(EXTENSION_ARQ_SEQUENCE, [s])])"
  by (auto simp: arq_exts_def on_exts_def handshake_exts_def request_exts_def ctrl_exts_def ext_ok_def ext_size_def
      extension_types)

text \<open>The flags a channel may set: payload present and ARQ on. Channel number and authentication stay.\<close>

definition flags_kept :: "byte \<Rightarrow> byte \<Rightarrow> bool" where
  "flags_kept f f' \<longleftrightarrow> (\<forall>i. i \<noteq> 2 \<and> i \<noteq> 4 \<longrightarrow> bit f' i = bit f i)"

lemma flags_kept_set: "flags_kept f f" "flags_kept f (set_bit 2 f)" "flags_kept f (set_bit 4 f)"
    "flags_kept f (set_bit 4 (set_bit 2 f))"
  by (auto simp: flags_kept_def bit_simps)

text \<open>A result that keeps the invariant of the channel and the view of the frame.\<close>

definition fill_result :: "nat \<Rightarrow> nat \<Rightarrow> nat \<Rightarrow> SkyHeaderLayout \<Rightarrow> bytes \<Rightarrow> byte \<Rightarrow> u16 \<Rightarrow> extension list \<Rightarrow>
    int \<times> SkyVirtualChannel \<times> SkyTransmitFrame \<Rightarrow> bool" where
  "fill_result Ls Lr W ly pre f sq es r \<longleftrightarrow> (case r of (ret, v', tx') \<Rightarrow>
     vc_ok Ls Lr W v' \<and> frame_len (tx_radio tx') \<le> 219 \<and> ret \<in> {0, 1, SKY_RET_RING_EMPTY} \<and>
     (\<exists>f' es' pl. tx_view ly tx' pre f' sq (es @ es') pl \<and> arq_exts es' \<and> flags_kept f f' \<and> (bit f' 4 \<or> pl = [])))"

lemma fill_resultI:
  assumes "vc_ok Ls Lr W v'" "tx_view ly tx' pre f' sq (es @ es') pl" "frame_len (tx_radio tx') \<le> 219" "arq_exts es'"
    "flags_kept f f'" "bit f' 4 \<or> pl = []" "ret \<in> {0, 1, SKY_RET_RING_EMPTY}"
  shows "fill_result Ls Lr W ly pre f sq es (ret, v', tx')"
  using assms unfolding fill_result_def by auto

lemma fill_result_unchanged:
  assumes "vc_ok Ls Lr W v" "fresh_tx ly tx pre f sq es"
  shows "fill_result Ls Lr W ly pre f sq es (0, v, tx)"
  by (rule fill_resultI [where es' = "[]" and f' = f and pl = "[]"])
    (use assms in \<open>auto simp: fresh_tx_def arq_exts_def flags_kept_def\<close>)

lemma bit_set_bit4 [simp]: "bit (set_bit 4 f :: byte) 4"
  by (simp add: bit_simps)

lemma fill_arq_off_ticks:
  assumes "fill_arq_off v tx = Some (ret, v', tx')"
  shows "vc_ticks v' = vc_ticks v"
proof -
  have "vc_ticks w = vc_ticks v" if rd: "sky_vc_read_packet_for_tx_monotonic v = Some (r, w)" for r w
  proof -
    obtain x q where x: "sendRing_read_to_tx (sendRing v) (elementBuffer v) False = Some (x, q)"
      using rd by (auto simp: sky_vc_read_packet_for_tx_monotonic_def bind_eq_Some_conv)
    show ?thesis
      using rd x by (cases x) (auto simp: sky_vc_read_packet_for_tx_monotonic_def bind_eq_Some_conv vc_ticks_def)
  qed
  note keep = this
  show ?thesis
  proof (cases "sky_vc_read_packet_for_tx_monotonic v")
    case None
    then show ?thesis using assms by (auto simp: fill_arq_off_def bind_eq_Some_conv split: if_splits)
  next
    case (Some a)
    then obtain r w where a: "sky_vc_read_packet_for_tx_monotonic v = Some (r, w)" by (cases a) auto
    show ?thesis
      using assms a keep [OF a] by (cases r) (auto simp: fill_arq_off_def bind_eq_Some_conv split: if_splits)
  qed
qed

lemma fill_off_result:
  assumes view: "vc_view v Ls Lr W ds m ps" "vc_ticks v" and off: "arq_state_flag v = ARQ_STATE_OFF"
    and tx: "fresh_tx ly tx pre f sq es"
  shows "\<exists>r. sky_vc_fill_frame ly v arq tx now k = Some r \<and> fill_result Ls Lr W ly pre f sq es r"
proof (cases "m < length ds \<and> ds ! m \<noteq> []")
  case True
  obtain v' tx' where r: "sky_vc_fill_frame ly v arq tx now k = Some (1, v', tx')"
    "tx_view ly tx' pre (set_bit 4 f) sq es (ds ! m)" "vc_view v' Ls Lr W (drop (Suc m) ds) 0 ps"
    "frame_len (tx_radio tx') = frame_len (tx_radio tx) + length (ds ! m)"
    using fill_off_ok [OF view(1) off tx] True by blast
  have "length (ds ! m) \<le> 181" using vc_view_payload_bound(1) [OF view(1)] True by (simp add: SKY_PAYLOAD_MAX_LEN_def)
  moreover have "vc_ticks v'"
    using fill_arq_off_ticks [of v tx 1 v' tx'] r(1) off view(2) by (simp add: sky_vc_fill_frame_def)
  ultimately have "fill_result Ls Lr W ly pre f sq es (1, v', tx')"
    using r tx by (intro fill_resultI [where es' = "[]" and f' = "set_bit 4 f" and pl = "ds ! m"])
      (auto simp: vc_ok_def fresh_tx_def arq_exts_def flags_kept_set)
  then show ?thesis using r(1) by blast
next
  case False
  then have "sky_vc_fill_frame ly v arq tx now k = Some (0, v, tx)"
    by (intro fill_off_nothing [OF view(1) off]) auto
  moreover have "vc_ok Ls Lr W v" using view by (auto simp: vc_ok_def)
  ultimately show ?thesis using fill_result_unchanged tx by blast
qed

lemma fill_init_result:
  assumes ok: "vc_ok Ls Lr W v" and init: "arq_state_flag v = ARQ_STATE_IN_INIT" and tx: "fresh_tx ly tx pre f sq es"
  shows "\<exists>r. sky_vc_fill_frame ly v arq tx now k = Some r \<and> fill_result Ls Lr W ly pre f sq es r"
proof (cases "int k < arq_idle_frames_per_window arq")
  case True
  let ?e = "(EXTENSION_ARQ_HANDSHAKE, ARQ_STATE_IN_INIT # mem32 (sky_hton32 (arq_session_identifier v)))"
  obtain tx' where r: "sky_vc_fill_frame ly v arq tx now k = Some (1, v, tx')"
    "tx_view ly tx' pre f sq (es @ [?e]) []" "frame_len (tx_radio tx') = frame_len (tx_radio tx) + 6"
    by (rule fill_init_ok [OF init tx True])
  have "fill_result Ls Lr W ly pre f sq es (1, v, tx')"
    using r ok tx by (intro fill_resultI [where es' = "[?e]" and f' = f and pl = "[]"])
      (auto simp: fresh_tx_def arq_exts_def flags_kept_set ext_ok_def ext_size_def extension_types)
  then show ?thesis using r(1) by blast
next
  case False
  then show ?thesis
    using fill_result_unchanged [OF ok tx] init by (simp add: sky_vc_fill_frame_def arq_states)
qed

lemma fill_on_result:
  assumes view: "vc_view v Ls Lr W ds m ps" and on: "arq_state_flag v = ARQ_STATE_ON"
    and tx: "fresh_tx ly tx pre f sq es" and t: "vc_ticks v" "ticks_ok now"
  shows "\<exists>r. sky_vc_fill_frame ly v arq tx now k = Some r \<and> fill_result Ls Lr W ly pre f sq es r"
proof -
  obtain mk where mk: "rcvRing_get_horizon_bitmap (rcvRing v) = Some mk" using vc_bitmap [OF view] by blast
  obtain n where n: "sendRing_count_packets_to_send (sendRing v) True = Some n" using vc_count_to_send [OF view] by blast
  define on_es where "on_es = on_exts v arq (int k < arq_idle_frames_per_window arq) now mk n"
  obtain v3 tx3 where r: "sky_vc_fill_frame ly v arq tx now k = fill_payload ly (of_bool (on_es \<noteq> [])) v3 tx3"
    "same_rings v v3" "vc_ticks v3" "tx_view ly tx3 pre (set_bit 2 f) sq (es @ on_es) []"
    "frame_len (tx_radio tx3) \<le> 36"
    unfolding on_es_def by (rule fill_on_ok [OF view on tx t mk n refl])
  have nb: "\<not> bit (set_bit 2 f) 4" using tx by (simp add: fresh_tx_def bit_simps)
  note view3 = vc_view_same_rings [OF view r(2)]
  have ok3: "vc_ok Ls Lr W v3" using view3 r(3) by (auto simp: vc_ok_def)
  have ae: "arq_exts on_es" "\<And>s. arq_exts (on_es @ [(EXTENSION_ARQ_SEQUENCE, [s])])"
    using arq_exts_on by (simp_all add: on_es_def)
  have keep: "fill_result Ls Lr W ly pre f sq es (ret, v3, tx3)" if "ret \<in> {0, 1, SKY_RET_RING_EMPTY}" for ret
    using r(4,5) ok3 that ae(1) flags_kept_set
    by (intro fill_resultI [where es' = on_es and f' = "set_bit 2 f" and pl = "[]"]) auto
  show ?thesis
  proof (rule fill_payload_ok [OF view3 r(4) nb r(5), where ret = "of_bool (on_es \<noteq> [])"])
    assume "fill_payload ly (of_bool (on_es \<noteq> [])) v3 tx3 = Some (of_bool (on_es \<noteq> []), v3, tx3)"
    then show ?thesis using keep [of "of_bool (on_es \<noteq> [])"] r(1) by auto
  next
    assume "fill_payload ly (of_bool (on_es \<noteq> [])) v3 tx3 = Some (SKY_RET_RING_EMPTY, v3, tx3)"
    then show ?thesis using keep [of SKY_RET_RING_EMPTY] r(1) by auto
  next
    fix d s s' m' tx'
    assume s: "next_tx (sendRing v3) ds m True = Some (d, s)"
      "fill_payload ly (of_bool (on_es \<noteq> [])) v3 tx3 = Some (1, v3\<lparr>sendRing := s'\<rparr>, tx')"
      "tx_view ly tx' pre (set_bit 4 (set_bit 2 f)) sq ((es @ on_es) @ [(EXTENSION_ARQ_SEQUENCE, [s])]) d"
      "frame_len (tx_radio tx') = frame_len (tx_radio tx3) + 2 + length d"
      "vc_view (v3\<lparr>sendRing := s'\<rparr>) Ls Lr W ds m' ps"
    have "length d \<le> 181" using next_tx_payload(1) [OF view3 s(1)] by (simp add: SKY_PAYLOAD_MAX_LEN_def)
    moreover have "vc_ok Ls Lr W (v3\<lparr>sendRing := s'\<rparr>)" using s(5) r(3) by (auto simp: vc_ok_def vc_ticks_def)
    ultimately have "fill_result Ls Lr W ly pre f sq es (1, v3\<lparr>sendRing := s'\<rparr>, tx')"
      using s(3,4) r(5) ae(2) flags_kept_set
      by (intro fill_resultI [where es' = "on_es @ [(EXTENSION_ARQ_SEQUENCE, [s])]"
            and f' = "set_bit 4 (set_bit 2 f)" and pl = d]) auto
    then show ?thesis using r(1) s(2) by auto
  qed
qed

text \<open>Filling never fails, in any state of the channel.\<close>

lemma fill_frame_ok:
  assumes "vc_ok Ls Lr W v" "fresh_tx ly tx pre f sq es" "ticks_ok now"
  shows "\<exists>r. sky_vc_fill_frame ly v arq tx now k = Some r \<and> fill_result Ls Lr W ly pre f sq es r"
proof -
  obtain ds m ps where view: "vc_view v Ls Lr W ds m ps" "vc_ticks v" using assms(1) by (auto simp: vc_ok_def)
  consider "arq_state_flag v = ARQ_STATE_OFF" | "arq_state_flag v = ARQ_STATE_IN_INIT" | "arq_state_flag v = ARQ_STATE_ON"
    using vc_view_state [OF view(1)] by blast
  then show ?thesis
    using fill_off_result [OF view _ assms(2)] fill_init_result [OF assms(1) _ assms(2)]
      fill_on_result [OF view(1) _ assms(2) view(2) assms(3)] by cases simp_all
qed

end
