(* ===== verification/VC_Machine.thy ===== *)
theory VC_Machine
  imports VC_Frame_Correct
begin

text \<open>
  The virtual channel as a state machine. An operation of the upper stack or of the link
  (\<open>vc_op\<close>) is executed by \<open>vc_exec\<close> with the functions of \<open>Reliable_VC\<close>; a channel is reachable when it
  comes out of \<open>sky_vc_create\<close> and any sequence of operations. The properties of this theory are the
  ones a user of the channel relies on.
\<close>

section \<open>Operations and reachability\<close>

datatype vc_op =
    PushPacket bytes
  | ReadPacket nat
  | Connect sky_tick_t
  | Disconnect
  | CheckTimeouts sky_tick_t sky_tick_t
  | FillFrame SkyTransmitFrame sky_tick_t nat
  | ProcessFrame sky_tick_t SkyParsedFrame

fun vc_exec :: "SkyHeaderLayout \<Rightarrow> SkyARQConfig \<Rightarrow> SkyVirtualChannel \<Rightarrow> vc_op \<Rightarrow> SkyVirtualChannel option" where
  "vc_exec ly arq v (PushPacket d) = map_option snd (sky_vc_push_packet_to_send v d)"
| "vc_exec ly arq v (ReadPacket n) = map_option (\<lambda>(_, _, v'). v') (sky_vc_read_next_received v n)"
| "vc_exec ly arq v (Connect ticks) = map_option snd (sky_vc_arq_connect ticks v)"
| "vc_exec ly arq v Disconnect = map_option snd (sky_vc_arq_disconnect v)"
| "vc_exec ly arq v (CheckTimeouts now timeout) = sky_vc_check_timeouts v now timeout"
| "vc_exec ly arq v (FillFrame tx now k) = map_option (\<lambda>(_, v', _). v') (sky_vc_fill_frame ly v arq tx now k)"
| "vc_exec ly arq v (ProcessFrame now p) = map_option snd (sky_vc_process_frame now v p now)"

text \<open>
  What the callers guarantee: ticks of the wrapping clock, frames as the transmitter prepares them,
  and parsed frames whose pointers stay inside the frame.
\<close>

fun vc_op_ok :: "SkyHeaderLayout \<Rightarrow> vc_op \<Rightarrow> bool" where
  "vc_op_ok ly (PushPacket d) = True"
| "vc_op_ok ly (ReadPacket n) = True"
| "vc_op_ok ly (Connect ticks) = ticks_ok ticks"
| "vc_op_ok ly Disconnect = True"
| "vc_op_ok ly (CheckTimeouts now timeout) = ticks_ok now"
| "vc_op_ok ly (FillFrame tx now k) = (ticks_ok now \<and> (\<exists>pre f sq es. fresh_tx ly tx pre f sq es))"
| "vc_op_ok ly (ProcessFrame now p) = (ticks_ok now \<and> parsed_ok p)"

inductive vc_reach :: "SkyHeaderLayout \<Rightarrow> SkyARQConfig \<Rightarrow> SkyVirtualChannel \<Rightarrow> bool"
  for ly :: SkyHeaderLayout and arq :: SkyARQConfig where
  created: "\<lbrakk> 0 \<le> conf_horizon_width c; sky_vc_create uninit c = Some (c', v) \<rbrakk> \<Longrightarrow> vc_reach ly arq v"
| step: "\<lbrakk> vc_reach ly arq v; vc_op_ok ly op; vc_exec ly arq v op = Some v' \<rbrakk> \<Longrightarrow> vc_reach ly arq v'"

section \<open>Every operation keeps the invariant\<close>

lemma push_ticks:
  assumes "sky_vc_push_packet_to_send v d = Some (ret, v')" "vc_ticks v"
  shows "vc_ticks v'"
  using assms by (auto simp: sky_vc_push_packet_to_send_def vc_ticks_def bind_eq_Some_conv split: if_splits)

lemma push_keeps:
  assumes "vc_ok Ls Lr W v"
  shows "\<exists>ret v'. sky_vc_push_packet_to_send v d = Some (ret, v') \<and> vc_ok Ls Lr W v'"
proof -
  obtain ds m ps where view: "vc_view v Ls Lr W ds m ps" "vc_ticks v" using assms by (auto simp: vc_ok_def)
  note R = vc_push_refused [OF view(1), of d]
  consider (refused) ret where "sky_vc_push_packet_to_send v d = Some (ret, v)"
    | (stored) "length d \<le> SKY_PAYLOAD_MAX_LEN" "Suc (length ds) < Ls"
      "int (eb_cost (elementBuffer v) (length d)) \<le> free_elements (elementBuffer v)"
    using R vc_view_lengths(3) [OF view(1)] by (meson not_le not_less_iff_gr_or_eq Suc_lessI leI)
  then show ?thesis
  proof cases
    case refused
    then show ?thesis using assms by blast
  next
    case stored
    obtain ret v' where "sky_vc_push_packet_to_send v d = Some (ret, v')" "vc_view v' Ls Lr W (ds @ [d]) m ps"
      by (rule vc_push_ok [OF view(1) stored]) (rule that, assumption+)
    then show ?thesis using push_ticks view(2) unfolding vc_ok_def by blast
  qed
qed

lemma readable_pos_Cons:
  assumes "0 < readable W ps"
  obtains d qs where "ps = Some d # qs"
  using assms by (cases ps) (auto simp: readable_def take_Cons' split: if_splits)

lemma read_keeps:
  assumes "vc_ok Ls Lr W v"
  shows "\<exists>ret bs v'. sky_vc_read_next_received v n = Some (ret, bs, v') \<and> vc_ok Ls Lr W v'"
proof -
  obtain ds m ps where view: "vc_view v Ls Lr W ds m ps" "vc_ticks v" using assms by (auto simp: vc_ok_def)
  show ?thesis
  proof (cases "readable W ps = 0")
    case True
    then show ?thesis using vc_read_empty [OF view(1) True] assms by blast
  next
    case False
    then obtain d qs where ps: "ps = Some d # qs" using readable_pos_Cons by blast
    have pos: "0 < readable W (Some d # qs)" using False ps by simp
    show ?thesis
    proof (cases "length d \<le> n")
      case True
      obtain v' where v': "sky_vc_read_next_received v n = Some (SKY_RET_OK, d, v')" "vc_view v' Ls Lr W ds m (qs @ [None])"
        by (rule vc_read_ok [OF view(1) [unfolded ps] pos True])
      have "vc_ticks v'"
        using v'(1) view(2) by (auto simp: sky_vc_read_next_received_def vc_ticks_def bind_eq_Some_conv)
      then show ?thesis using v' unfolding vc_ok_def by blast
    next
      case False
      then show ?thesis using vc_read_too_long [OF view(1) [unfolded ps] pos] assms by (meson not_le)
    qed
  qed
qed

text \<open>Every wipe restarts both sequence counters at zero.\<close>

lemma wipe_sequences:
  "sky_vc_wipe_to_arq_off_state v = Some w \<Longrightarrow> s_tail_sequence (sendRing w) = 0 \<and> r_tail_sequence (rcvRing w) = 0"
  "sky_vc_wipe_to_arq_init_state ticks v = Some w \<Longrightarrow> s_tail_sequence (sendRing w) = 0 \<and> r_tail_sequence (rcvRing w) = 0"
  "sky_vc_wipe_to_arq_on_state ticks v q = Some w \<Longrightarrow> s_tail_sequence (sendRing w) = 0 \<and> r_tail_sequence (rcvRing w) = 0"
  by (auto simp: sky_vc_wipe_to_arq_off_state_def sky_vc_wipe_to_arq_init_state_def sky_vc_wipe_to_arq_on_state_def
      sky_send_ring_wipe_def sky_rcv_ring_wipe_def bind_eq_Some_conv)

lemma wipe_resends:
  "sky_vc_wipe_to_arq_on_state ticks v q = Some w \<Longrightarrow> resend_count (sendRing w) = 0"
  "sky_vc_wipe_to_arq_init_state ticks v = Some w \<Longrightarrow> resend_count (sendRing w) = 0"
  by (auto simp: sky_vc_wipe_to_arq_init_state_def sky_vc_wipe_to_arq_on_state_def sky_send_ring_wipe_def bind_eq_Some_conv)

lemma wipe_keeps:
  assumes "vc_ok Ls Lr W v"
  shows "\<exists>v'. sky_vc_wipe_to_arq_off_state v = Some v' \<and> vc_ok Ls Lr W v'"
    "ticks_ok ticks \<Longrightarrow> \<exists>v'. sky_vc_wipe_to_arq_init_state ticks v = Some v' \<and> vc_ok Ls Lr W v'"
proof -
  obtain ds m ps where view: "vc_view v Ls Lr W ds m ps" using assms by (auto simp: vc_ok_def)
  obtain v1 where "sky_vc_wipe_to_arq_off_state v = Some v1" "vc_view v1 Ls Lr W [] 0 (replicate Lr None)"
    by (rule wipe_to_off [OF view])
  then show "\<exists>v'. sky_vc_wipe_to_arq_off_state v = Some v' \<and> vc_ok Ls Lr W v'"
    using wipe_ticks(3) unfolding vc_ok_def by blast
  obtain v2 where "sky_vc_wipe_to_arq_init_state ticks v = Some v2" "vc_view v2 Ls Lr W [] 0 (replicate Lr None)"
    by (rule wipe_to_init [OF view, of ticks])
  then show "ticks_ok ticks \<Longrightarrow> \<exists>v'. sky_vc_wipe_to_arq_init_state ticks v = Some v' \<and> vc_ok Ls Lr W v'"
    using wipe_ticks(2) unfolding vc_ok_def by blast
qed

lemma timeouts_keeps:
  assumes ok: "vc_ok Ls Lr W v" and t: "ticks_ok now"
  shows "\<exists>v'. sky_vc_check_timeouts v now timeout = Some v' \<and> vc_ok Ls Lr W v'"
proof -
  have "vc_ticks v" using ok by (simp add: vc_ok_def)
  then have "ticks_since now (last_tx_tick v) = Some (elapsed now (last_tx_tick v))"
    "ticks_since now (last_rx_tick v) = Some (elapsed now (last_rx_tick v))"
    using t by (simp_all add: vc_ticks_def ticks_since_elapsed)
  then show ?thesis using wipe_keeps(1) [OF ok] ok by (simp add: sky_vc_check_timeouts_def)
qed

lemma vc_exec_ok:
  assumes ok: "vc_ok Ls Lr W v" and op: "vc_op_ok ly op"
  shows "\<exists>v'. vc_exec ly arq v op = Some v' \<and> vc_ok Ls Lr W v'"
proof (cases op)
  case (PushPacket d)
  then show ?thesis using push_keeps [OF ok, of d] by auto
next
  case (ReadPacket n)
  then show ?thesis using read_keeps [OF ok, of n] by auto
next
  case (Connect ticks)
  then show ?thesis using wipe_keeps(2) [OF ok] op by (auto simp: sky_vc_arq_connect_def)
next
  case Disconnect
  then show ?thesis using wipe_keeps(1) [OF ok] by (auto simp: sky_vc_arq_disconnect_def)
next
  case (CheckTimeouts now timeout)
  then show ?thesis using timeouts_keeps [OF ok] op by auto
next
  case (FillFrame tx now k)
  then obtain pre f sq es where "fresh_tx ly tx pre f sq es" "ticks_ok now" using op by auto
  from fill_frame_ok [OF ok this, of arq k] FillFrame show ?thesis by (auto simp: fill_result_def)
next
  case (ProcessFrame now p)
  then have "ticks_ok now" "parsed_ok p" using op by auto
  then obtain ret v' where "sky_vc_process_frame now v p now = Some (ret, v')" "vc_ok Ls Lr W v'"
    using process_frame_ok [OF ok] by metis
  then show ?thesis using ProcessFrame by auto
qed

lemma vc_created_ok:
  assumes "0 \<le> conf_horizon_width c" "sky_vc_create uninit c = Some (c', v)"
  shows "\<exists>Ls Lr W. vc_ok Ls Lr W v"
proof -
  obtain w where w: "sky_vc_create uninit c = Some (sanitise_vc_config c, w)"
    "vc_view w (nat (send_ring_len (sanitise_vc_config c))) (nat (rcv_ring_len (sanitise_vc_config c)))
      (min (nat (conf_horizon_width (sanitise_vc_config c))) 64) [] 0 (replicate (nat (rcv_ring_len (sanitise_vc_config c))) None)"
    by (rule vc_create_ok [OF assms(1)])
  then have "w = v" using assms(2) by simp
  moreover have "vc_ticks v" using assms(2) by (auto simp: sky_vc_create_def bind_eq_Some_conv Let_def dest: wipe_ticks(3))
  ultimately show ?thesis using w(2) unfolding vc_ok_def by blast
qed

lemma vc_reach_ok: "vc_reach ly arq v \<Longrightarrow> \<exists>Ls Lr W. vc_ok Ls Lr W v"
proof (induction rule: vc_reach.induct)
  case (created c uninit c' v)
  then show ?case by (rule vc_created_ok)
next
  case (step v op v')
  then obtain Ls Lr W where "vc_ok Ls Lr W v" by blast
  from vc_exec_ok [OF this step.hyps(2), of arq] show ?case using step.hyps(3) by auto
qed

section \<open>Properties\<close>

definition sample_vc_conf :: SkyVCConfig where
  "sample_vc_conf = \<lparr>usable_element_size = 36, rcv_ring_len = 20, conf_horizon_width = 16, send_ring_len = 20,
     require_authentication = 0\<rparr>"

definition sample_arq_conf :: SkyARQConfig where
  "sample_arq_conf = \<lparr>arq_timeout_ticks = 10000, idle_frame_threshold = 1000, arq_idle_frames_per_window = 1\<rparr>"

lemma sample_vc:
  obtains v where "sky_vc_create (\<lambda>_. 0) sample_vc_conf = Some (sanitise_vc_config sample_vc_conf, v)"
    "vc_reach layout_gcc arq v" "vc_view v 20 20 16 [] 0 (replicate 20 None)" "arq_state_flag v = ARQ_STATE_OFF"
proof -
  have h: "0 \<le> conf_horizon_width sample_vc_conf" by (simp add: sample_vc_conf_def)
  obtain v where v: "sky_vc_create (\<lambda>_. 0) sample_vc_conf = Some (sanitise_vc_config sample_vc_conf, v)"
    "vc_view v (nat (send_ring_len (sanitise_vc_config sample_vc_conf))) (nat (rcv_ring_len (sanitise_vc_config sample_vc_conf)))
      (min (nat (conf_horizon_width (sanitise_vc_config sample_vc_conf))) 64) [] 0
      (replicate (nat (rcv_ring_len (sanitise_vc_config sample_vc_conf))) None)" "arq_state_flag v = ARQ_STATE_OFF"
    by (rule vc_create_ok [OF h]) (rule that, assumption+)
  moreover have "vc_view v 20 20 16 [] 0 (replicate 20 None)"
    using v(2) by (simp add: sample_vc_conf_def sanitise_vc_config_def Let_def)
  ultimately show ?thesis using that vc_reach.created [OF h v(1)] by blast
qed

lemma vc_reachE:
  assumes "vc_reach ly arq v"
  obtains Ls Lr W ds m ps where "vc_view v Ls Lr W ds m ps" "vc_ticks v"
  using vc_reach_ok [OF assms] unfolding vc_ok_def by blast

text \<open>
  C5: a channel never fails. In every state that a created channel can reach, every operation of the
  upper stack and of the link completes (no assertion fires and no access leaves a ring or the
  element buffer), whatever bytes a received frame carries, and afterwards the self-check of the
  shared element buffer answers yes and the ARQ state is one of the three defined ones.
\<close>

theorem channel_never_fails:
  assumes "vc_reach ly arq v" "vc_op_ok ly op"
  shows "\<exists>v'. vc_exec ly arq v op = Some v' \<and>
    sky_element_buffer_entire_buffer_is_ok (elementBuffer v') = Some True \<and>
    arq_state_flag v' \<in> {ARQ_STATE_OFF, ARQ_STATE_IN_INIT, ARQ_STATE_ON}"
proof -
  obtain Ls Lr W where "vc_ok Ls Lr W v" using vc_reach_ok [OF assms(1)] by blast
  from vc_exec_ok [OF this assms(2)] obtain v' where v': "vc_exec ly arq v op = Some v'" "vc_ok Ls Lr W v'" by blast
  then obtain ds m ps where view: "vc_view v' Ls Lr W ds m ps" by (auto simp: vc_ok_def)
  then have "eb_inv (elementBuffer v')" using vc_relD(3) by (auto simp: vc_view_def)
  then show ?thesis using v'(1) entire_buffer_ok vc_view_state [OF view] by blast
qed

theorem channel_never_fails_witness:
  "\<exists>c' v v'. sky_vc_create (\<lambda>_. 0) sample_vc_conf = Some (c', v) \<and>
     vc_exec layout_gcc sample_arq_conf v (PushPacket [1, 2, 3]) = Some v' \<and>
     sky_element_buffer_entire_buffer_is_ok (elementBuffer v') = Some True"
proof -
  obtain v where v: "sky_vc_create (\<lambda>_. 0) sample_vc_conf = Some (sanitise_vc_config sample_vc_conf, v)"
    "vc_reach layout_gcc sample_arq_conf v" by (rule sample_vc)
  from channel_never_fails [OF v(2), of "PushPacket [1, 2, 3]"] v(1) show ?thesis by auto
qed

text \<open>
  C6: without ARQ the sending direction of a channel is a queue. Whatever packets the upper stack
  pushes and whenever the link takes one (\<open>sky_vc_read_packet_for_tx_monotonic\<close>), the link gets
  exactly the packets that were accepted, unaltered and in order; draining the channel leaves none
  behind.
\<close>

theorem send_queue_refines_fifo:
  assumes "0 \<le> conf_horizon_width c" "sky_vc_create uninit c = Some (c', v)"
  shows "\<exists>acc v'. fifo_run sky_vc_push_packet_to_send vc_pop_to_send v (ops @ replicate (length ops) Pop) =
     Some (acc, acc, v') \<and> tx_queue v' []"
proof -
  have "tx_queue v []" using vc_create_ok [OF assms(1), of uninit] assms(2) unfolding tx_queue_def by fastforce
  then show ?thesis by (rule txq.run_drain) simp
qed

theorem send_queue_refines_fifo_witness:
  "\<exists>c' v acc v'. sky_vc_create (\<lambda>_. 0) sample_vc_conf = Some (c', v) \<and>
     fifo_run sky_vc_push_packet_to_send vc_pop_to_send v
       ([Push [1], Push [2, 3], Pop] @ replicate (length [Push [1], Push [2, 3], Pop]) Pop) = Some (acc, acc, v')"
proof -
  obtain v where v: "sky_vc_create (\<lambda>_. 0) sample_vc_conf = Some (sanitise_vc_config sample_vc_conf, v)"
    by (rule sample_vc)
  have "0 \<le> conf_horizon_width sample_vc_conf" by (simp add: sample_vc_conf_def)
  from send_queue_refines_fifo [OF this v, of "[Push [1], Push [2, 3], Pop]"] v show ?thesis by blast
qed

text \<open>
  C7: without ARQ the receiving direction of a channel is a queue too: the reader gets exactly the
  payloads that \<open>sky_vc_push_rx_packet_monotonic\<close> stored, unaltered and in the order of their
  arrival.
\<close>

theorem receive_queue_refines_fifo:
  assumes "0 \<le> conf_horizon_width c" "sky_vc_create uninit c = Some (c', v)"
    "\<forall>d. Push d \<in> set ops \<longrightarrow> length d \<le> 281"
  shows "\<exists>acc v'. fifo_run sky_vc_push_rx_packet_monotonic vc_pop_received v (ops @ replicate (length ops) Pop) =
     Some (acc, acc, v') \<and> rx_queue v' []"
proof -
  obtain Ls Lr W where "vc_view v Ls Lr W [] 0 (replicate Lr None)"
    using vc_create_ok [OF assms(1), of uninit] assms(2) by fastforce
  then have "rx_queue v []" unfolding rx_queue_def by fastforce
  then show ?thesis by (rule rxq.run_drain) (use assms(3) in blast)
qed

theorem receive_queue_refines_fifo_witness:
  "\<exists>c' v acc v'. sky_vc_create (\<lambda>_. 0) sample_vc_conf = Some (c', v) \<and>
     fifo_run sky_vc_push_rx_packet_monotonic vc_pop_received v
       ([Push [1], Pop, Push [2, 3]] @ replicate (length [Push [1], Pop, Push [2, 3]]) Pop) = Some (acc, acc, v')"
proof -
  obtain v where v: "sky_vc_create (\<lambda>_. 0) sample_vc_conf = Some (sanitise_vc_config sample_vc_conf, v)"
    by (rule sample_vc)
  have "0 \<le> conf_horizon_width sample_vc_conf" by (simp add: sample_vc_conf_def)
  from receive_queue_refines_fifo [OF this v, of "[Push [1], Pop, Push [2, 3]]"] v show ?thesis by auto
qed

text \<open>
  C25: the outcome of a push. A packet longer than 181 bytes or a push to a full ring is refused with
  its own code, a packet for which the element buffer has no room with another, and a refused push
  changes nothing. In every other case the packet is accepted: the number of packets to transmit
  grows by one and the result is the sequence number of the packet.
\<close>

theorem push_outcome:
  assumes "vc_reach ly arq v"
  shows "\<exists>ret v' n n'. sky_vc_push_packet_to_send v d = Some (ret, v') \<and>
    sky_vc_count_packets_to_tx v False = Some n \<and> sky_vc_count_packets_to_tx v' False = Some n' \<and>
    (if SKY_PAYLOAD_MAX_LEN < length d then ret = SKY_RET_TOO_LONG_PAYLOAD \<and> v' = v
     else if sky_vc_send_buffer_is_full v = Some True then ret = SKY_RET_RING_RING_FULL \<and> v' = v
     else if free_elements (elementBuffer v) < int (eb_cost (elementBuffer v) (length d))
     then ret = SKY_RET_EBUFFER_NO_SPACE \<and> v' = v
     else ret = uint (s_head_sequence (sendRing v)) \<and> n' = n + 1)"
proof -
  obtain Ls Lr W ds m ps where view: "vc_view v Ls Lr W ds m ps" by (rule vc_reachE [OF assms])
  note R = vc_push_refused [OF view, of d] and L = vc_view_lengths [OF view]
  have full: "sky_vc_send_buffer_is_full v = Some (Suc (length ds) = Ls)"
    using view send_is_full by (force simp: vc_view_def vc_rel_def sky_vc_send_buffer_is_full_def)
  have cnt: "sky_vc_count_packets_to_tx v False = Some (int (length ds - m))"
    using vc_count_to_send [OF view, of False] by (simp add: sky_vc_count_packets_to_tx_def)
  have hd: "s_head_sequence (sendRing v) = s_tail_sequence (sendRing v) + of_nat (length ds)"
    using view by (auto simp: vc_view_def vc_rel_def send_rel_def)
  consider (long) "SKY_PAYLOAD_MAX_LEN < length d" | (full) "length d \<le> SKY_PAYLOAD_MAX_LEN" "Suc (length ds) = Ls"
    | (room) "length d \<le> SKY_PAYLOAD_MAX_LEN" "Suc (length ds) < Ls"
      "free_elements (elementBuffer v) < int (eb_cost (elementBuffer v) (length d))"
    | (ok) "length d \<le> SKY_PAYLOAD_MAX_LEN" "Suc (length ds) < Ls"
      "int (eb_cost (elementBuffer v) (length d)) \<le> free_elements (elementBuffer v)"
    using L(3) by linarith
  then show ?thesis
  proof cases
    case ok
    obtain v' where v': "sky_vc_push_packet_to_send v d = Some (int (unat (s_tail_sequence (sendRing v) + of_nat (length ds))), v')"
      "vc_view v' Ls Lr W (ds @ [d]) m ps"
      by (rule vc_push_ok [OF view ok]) (rule that, assumption+)
    have "sky_vc_count_packets_to_tx v' False = Some (int (length ds - m) + 1)"
      using vc_count_to_send [OF v'(2), of False] L(4) by (simp add: sky_vc_count_packets_to_tx_def)
    then show ?thesis using v'(1) cnt full hd ok by simp
  qed (use R full cnt in simp_all)
qed

theorem push_outcome_witness:
  "\<exists>c' v ret v' n n'. sky_vc_create (\<lambda>_. 0) sample_vc_conf = Some (c', v) \<and>
     sky_vc_push_packet_to_send v (replicate 182 0) = Some (ret, v') \<and> ret = SKY_RET_TOO_LONG_PAYLOAD \<and> v' = v"
proof -
  obtain v where v: "sky_vc_create (\<lambda>_. 0) sample_vc_conf = Some (sanitise_vc_config sample_vc_conf, v)"
    "vc_reach layout_gcc sample_arq_conf v" by (rule sample_vc)
  from push_outcome [OF v(2), of "replicate 182 0"] v(1) show ?thesis
    by (auto simp: SKY_PAYLOAD_MAX_LEN_def)
qed

text \<open>
  C24: a filled frame is always well formed. In every state of the channel, and whatever is queued,
  filling a prepared frame succeeds with the result 0, 1 or "ring empty", never "no space": the
  extensions the channel adds are well formed and of distinct types, they and the payload fit into
  the 219 bytes that leave room for the authentication code, and of the header flags only "payload"
  and "ARQ" change.
\<close>

theorem fill_frame_outcome:
  assumes "vc_reach ly arq v" "fresh_tx ly tx pre f sq es" "ticks_ok now"
  shows "\<exists>ret v' tx' f' es' pl. sky_vc_fill_frame ly v arq tx now k = Some (ret, v', tx') \<and>
    ret \<in> {0, 1, SKY_RET_RING_EMPTY} \<and> frame_len (tx_radio tx') \<le> 219 \<and>
    tx_view ly tx' pre f' sq (es @ es') pl \<and> arq_exts es' \<and> flags_kept f f' \<and> (bit f' 4 \<or> pl = [])"
proof -
  obtain Ls Lr W where "vc_ok Ls Lr W v" using vc_reach_ok [OF assms(1)] by blast
  from fill_frame_ok [OF this assms(2,3), of arq k] obtain r where
    "sky_vc_fill_frame ly v arq tx now k = Some r" "fill_result Ls Lr W ly pre f sq es r" by blast
  then show ?thesis unfolding fill_result_def by (cases r) blast
qed

text \<open>An empty frame as the transmitter prepares it.\<close>

definition sample_tx :: "SkyTransmitFrame" where
  "sample_tx = \<lparr>tx_radio = padded_frame (frame_bytes layout_gcc [0x63, 1, 2, 3] 0 0 [] []), hdr = 4, ptr = 11\<rparr>"

lemma sample_tx_fresh: "fresh_tx layout_gcc sample_tx [0x63, 1, 2, 3] 0 0 []"
proof -
  have len: "length (frame_bytes layout_gcc [0x63, 1, 2, 3] 0 0 [] []) = 11" by (simp add: length_frame_bytes)
  have "radio_view layout_gcc (padded_frame (frame_bytes layout_gcc [0x63, 1, 2, 3] 0 0 [] [])) [0x63, 1, 2, 3] 0 0 [] []"
    by (rule radio_view_padded) (simp_all add: len RAW_SIZE_val)
  then show ?thesis using len by (simp add: fresh_tx_def tx_view_def sample_tx_def padded_frame_def)
qed

theorem fill_frame_outcome_witness:
  "\<exists>c' v ret v' tx'. sky_vc_create (\<lambda>_. 0) sample_vc_conf = Some (c', v) \<and>
     sky_vc_fill_frame layout_gcc v sample_arq_conf sample_tx 5 0 = Some (ret, v', tx') \<and>
     ret \<in> {0, 1, SKY_RET_RING_EMPTY} \<and> frame_len (tx_radio tx') \<le> 219"
proof -
  obtain v where v: "sky_vc_create (\<lambda>_. 0) sample_vc_conf = Some (sanitise_vc_config sample_vc_conf, v)"
    "vc_reach layout_gcc sample_arq_conf v" by (rule sample_vc)
  have "ticks_ok 5" by (simp add: ticks_ok_def MOD_TIME_TICKS_def)
  from fill_frame_outcome [OF v(2) sample_tx_fresh this, of 0] v(1) show ?thesis by blast
qed

lemma vc_ticks_since:
  assumes "vc_ticks v" "ticks_ok now"
  shows "ticks_since now (last_tx_tick v) = Some (elapsed now (last_tx_tick v))"
    "ticks_since now (last_rx_tick v) = Some (elapsed now (last_rx_tick v))"
    "ticks_since now (last_ctrl_send_tick v) = Some (elapsed now (last_ctrl_send_tick v))"
  using assms by (simp_all add: vc_ticks_def ticks_since_elapsed)

lemma vc_free_slots:
  "vc_view v Ls Lr W ds m ps \<Longrightarrow> sendRing_count_free_send_slots (sendRing v) = Some (int (Ls - 1 - length ds))"
  using send_free_slots by (force simp: vc_view_def vc_rel_def)

lemma vc_view_empty_counts:
  assumes "vc_view v Ls Lr W [] 0 (replicate Lr None)"
  shows "sky_vc_count_packets_to_tx v False = Some 0" "sky_vc_count_readable_rcv_packets v = Some 0"
    "sendRing_count_free_send_slots (sendRing v) = Some (int (Ls - 1))"
proof -
  show "sky_vc_count_packets_to_tx v False = Some 0"
    using vc_count_to_send [OF assms, of False] by (simp add: sky_vc_count_packets_to_tx_def)
  have "readable W (replicate Lr (None :: bytes option)) = 0" by (cases "Lr - W - 1") (simp_all add: readable_def)
  then show "sky_vc_count_readable_rcv_packets v = Some 0" using vc_count_readable [OF assms] by simp
  show "sendRing_count_free_send_slots (sendRing v) = Some (int (Ls - 1))"
    using vc_free_slots [OF assms] by simp
qed

text \<open>
  C28: the ARQ timeout. A connection that has not been confirmed in one of the two directions for more
  than the timeout, measured on the wrapping tick clock, is dropped: the channel is off and empty.
  Otherwise, and in particular when ARQ is off, the check changes nothing.
\<close>

theorem timeout_outcome:
  assumes "vc_reach ly arq v" "ticks_ok now"
  shows "\<exists>v'. sky_vc_check_timeouts v now timeout = Some v' \<and>
    (if arq_state_flag v \<noteq> ARQ_STATE_OFF \<and>
        (elapsed now (last_tx_tick v) > timeout \<or> elapsed now (last_rx_tick v) > timeout)
     then arq_state_flag v' = ARQ_STATE_OFF \<and> sky_vc_count_packets_to_tx v' False = Some 0 \<and>
       sky_vc_count_readable_rcv_packets v' = Some 0
     else v' = v)"
proof -
  obtain Ls Lr W ds m ps where view: "vc_view v Ls Lr W ds m ps" "vc_ticks v" by (rule vc_reachE [OF assms(1)])
  obtain v' where v': "sky_vc_wipe_to_arq_off_state v = Some v'" "vc_view v' Ls Lr W [] 0 (replicate Lr None)"
    "arq_state_flag v' = ARQ_STATE_OFF" by (rule wipe_to_off [OF view(1)]) (rule that, assumption+)
  show ?thesis
    using v'(1,3) vc_view_empty_counts(1,2) [OF v'(2)] vc_ticks_since [OF view(2) assms(2)]
    by (simp add: sky_vc_check_timeouts_def)
qed

theorem timeout_outcome_witness:
  "\<exists>c' v. sky_vc_create (\<lambda>_. 0) sample_vc_conf = Some (c', v) \<and> sky_vc_check_timeouts v 20000 10000 = Some v"
proof -
  obtain v where v: "sky_vc_create (\<lambda>_. 0) sample_vc_conf = Some (sanitise_vc_config sample_vc_conf, v)"
    "vc_reach layout_gcc sample_arq_conf v" "arq_state_flag v = ARQ_STATE_OFF"
    by (rule sample_vc) (rule that, assumption+)
  have "ticks_ok 20000" by (simp add: ticks_ok_def MOD_TIME_TICKS_def)
  from timeout_outcome [OF v(2) this, of 10000] v(1,3) show ?thesis by auto
qed

text \<open>
  C27: an acknowledgement. The peer announces the next sequence number it expects. If that number lies
  between the oldest packet in the ring and the next one to transmit, exactly the packets before it
  are released: the number of free slots grows by the distance, and the packets not yet transmitted
  are not touched. Any other number releases nothing.
\<close>

theorem acknowledge_outcome:
  assumes "vc_reach ly arq v" "ticks_ok now"
    "sendRing_count_free_send_slots (sendRing v) = Some n" "sky_vc_count_packets_to_tx v False = Some u"
  shows "\<exists>v'. sky_vc_update_tx_sync v s now = Some v' \<and> sky_vc_count_packets_to_tx v' False = Some u \<and>
    tx_sequence (sendRing v') = tx_sequence (sendRing v) \<and>
    (if s - s_tail_sequence (sendRing v) \<le> tx_sequence (sendRing v) - s_tail_sequence (sendRing v)
     then sendRing_count_free_send_slots (sendRing v') = Some (n + uint (s - s_tail_sequence (sendRing v))) \<and>
       s_tail_sequence (sendRing v') = s
     else sendRing_count_free_send_slots (sendRing v') = Some n \<and>
       s_tail_sequence (sendRing v') = s_tail_sequence (sendRing v))"
proof -
  obtain Ls Lr W ds m ps where view: "vc_view v Ls Lr W ds m ps" "vc_ticks v" by (rule vc_reachE [OF assms(1)])
  define k where "k = unat (s - s_tail_sequence (sendRing v))"
  note L = vc_view_lengths [OF view(1)]
  obtain v' where v': "sky_vc_update_tx_sync v s now = Some v'"
    "vc_view v' Ls Lr W (if k \<le> m then drop k ds else ds) (if k \<le> m then m - k else m) ps"
    "s_tail_sequence (sendRing v') = (if k \<le> m then s else s_tail_sequence (sendRing v))"
    by (rule update_tx_sync_ok [OF view assms(2) k_def]) (rule that, assumption+)
  have n: "n = int (Ls - 1 - length ds)" using vc_free_slots [OF view(1)] assms(3) by simp
  have u: "u = int (length ds - m)" using vc_count_to_send [OF view(1), of False] assms(4)
    by (simp add: sky_vc_count_packets_to_tx_def)
  have iff: "s - s_tail_sequence (sendRing v) \<le> tx_sequence (sendRing v) - s_tail_sequence (sendRing v) \<longleftrightarrow> k \<le> m"
    using L(3,4,6,9) by (simp add: word_le_nat_alt k_def unat_of_nat)
  have tx: "tx_sequence (sendRing v') = tx_sequence (sendRing v)"
    using vc_view_lengths(9) [OF v'(2)] L(9) v'(3) by (auto simp: k_def of_nat_diff)
  have "sky_vc_count_packets_to_tx v' False = Some u"
    using vc_count_to_send [OF v'(2), of False] u by (auto simp: sky_vc_count_packets_to_tx_def)
  moreover have "k \<le> m \<Longrightarrow> sendRing_count_free_send_slots (sendRing v') = Some (n + uint (s - s_tail_sequence (sendRing v)))"
    using vc_free_slots [OF v'(2)] n L(3,4) by (simp add: k_def)
  moreover have "\<not> k \<le> m \<Longrightarrow> sendRing_count_free_send_slots (sendRing v') = Some n" using vc_free_slots [OF v'(2)] n by simp
  ultimately show ?thesis using v'(1,3) tx unfolding iff by (cases "k \<le> m") auto
qed

theorem acknowledge_outcome_witness:
  "\<exists>c' v v'. sky_vc_create (\<lambda>_. 0) sample_vc_conf = Some (c', v) \<and> sky_vc_update_tx_sync v 7 5 = Some v' \<and>
     sky_vc_count_packets_to_tx v' False = Some 0"
proof -
  obtain v where v: "sky_vc_create (\<lambda>_. 0) sample_vc_conf = Some (sanitise_vc_config sample_vc_conf, v)"
    "vc_reach layout_gcc sample_arq_conf v" "vc_view v 20 20 16 [] 0 (replicate 20 None)"
    by (rule sample_vc) (rule that, assumption+)
  have "ticks_ok 5" by (simp add: ticks_ok_def MOD_TIME_TICKS_def)
  from acknowledge_outcome [OF v(2) this vc_view_empty_counts(3,1) [OF v(3)], of 7] v(1) show ?thesis by blast
qed

text \<open>\<open>sky_vc_content_to_send\<close> in the state \<open>ARQ_STATE_ON\<close>: there is a packet, or an extension to send.\<close>

lemma content_on:
  assumes view: "vc_view v Ls Lr W ds m ps" and t: "vc_ticks v" "ticks_ok now" and on: "arq_state_flag v = ARQ_STATE_ON"
    and mk: "rcvRing_get_horizon_bitmap (rcvRing v) = Some mk"
    and n: "sendRing_count_packets_to_send (sendRing v) True = Some n"
  shows "sky_vc_content_to_send v arq now k =
    Some (n > 0 \<or> on_exts v arq (int k < arq_idle_frames_per_window arq) now mk n \<noteq> [])"
  using on mk n vc_ticks_since [OF t]
  by (auto simp: sky_vc_content_to_send_def Let_def arq_states on_exts_def handshake_exts_def request_exts_def
      ctrl_exts_def ctrl_due_def word_gt_0)

text \<open>
  The two cases in which a channel reports content that a frame cannot take. Without ARQ the next packet is empty. With
  ARQ there are packets to send according to the counts, but the requests are for packets that have been acknowledged
  since and nothing new is queued, so the look at the next packet finds none.
\<close>

definition empty_head :: "SkyVirtualChannel \<Rightarrow> bool" where
  "empty_head v \<longleftrightarrow> arq_state_flag v = ARQ_STATE_OFF \<and>
     map_option fst (sendRing_peek_next_tx_size_and_sequence (sendRing v) (elementBuffer v) False) = Some 0"

definition stale_resends :: "SkyVirtualChannel \<Rightarrow> bool" where
  "stale_resends v \<longleftrightarrow> arq_state_flag v = ARQ_STATE_ON \<and> sendRing_count_packets_to_send (sendRing v) True \<noteq> Some 0 \<and>
     map_option fst (sendRing_peek_next_tx_size_and_sequence (sendRing v) (elementBuffer v) True) = Some SKY_RET_RING_EMPTY"

text \<open>What the answer \<open>b\<close> to the question for content means for the result of filling a frame with extensions \<open>new\<close> and payload \<open>pl\<close>.\<close>

definition fill_agrees :: "SkyVirtualChannel \<Rightarrow> bool \<Rightarrow> int \<Rightarrow> SkyVirtualChannel \<Rightarrow> extension list \<Rightarrow> bytes \<Rightarrow> bool" where
  "fill_agrees v b ret v' new pl \<longleftrightarrow>
     (if \<not> b then ret = 0 \<and> new = [] \<and> pl = [] \<and> same_rings v v'
      else if empty_head v then ret = 0 \<and> new = [] \<and> pl = [] \<and> v' = v
      else if stale_resends v then ret = SKY_RET_RING_EMPTY \<and> pl = [] \<and> same_rings v v'
      else ret = 1 \<and> (new \<noteq> [] \<or> pl \<noteq> []))"

lemma fill_off_agrees:
  assumes view: "vc_view v Ls Lr W ds m ps" and tx: "fresh_tx ly tx pre f sq es" and off: "arq_state_flag v = ARQ_STATE_OFF"
  shows "\<exists>b ret v' tx' f' new pl. sky_vc_content_to_send v arq now k = Some b \<and> sky_vc_fill_frame ly v arq tx now k = Some (ret, v', tx') \<and>
    tx_view ly tx' pre f' sq (es @ new) pl \<and> fill_agrees v b ret v' new pl"
proof -
  have b: "sky_vc_content_to_send v arq now k = Some (m < length ds)"
    using vc_count_to_send [OF view, of False] off by (simp add: sky_vc_content_to_send_def)
  have t: "tx_view ly tx pre f sq (es @ []) []" using tx by (simp add: fresh_tx_def)
  have e: "empty_head v \<longleftrightarrow> m < length ds \<and> ds ! m = []"
    using off vc_peek [OF view, of False] by (simp add: empty_head_def next_tx_def SKY_RET_RING_EMPTY_def)
  have s: "\<not> stale_resends v" using off by (simp add: stale_resends_def arq_states)
  show ?thesis
  proof (cases "m < length ds \<and> ds ! m \<noteq> []")
    case True
    then obtain v' tx' where "sky_vc_fill_frame ly v arq tx now k = Some (1, v', tx')" "tx_view ly tx' pre (set_bit 4 f) sq (es @ []) (ds ! m)"
      using fill_off_ok [OF view off tx] by (metis append_Nil2)
    moreover have "fill_agrees v True 1 v' [] (ds ! m)" using True e s by (simp add: fill_agrees_def)
    moreover have "sky_vc_content_to_send v arq now k = Some True" using b True by simp
    ultimately show ?thesis by blast
  next
    case False
    have "sky_vc_fill_frame ly v arq tx now k = Some (0, v, tx)" by (rule fill_off_nothing [OF view off]) (use False in auto)
    moreover have "fill_agrees v (m < length ds) 0 v [] []" using False e by (simp add: fill_agrees_def same_rings_def)
    ultimately show ?thesis using b t by blast
  qed
qed

lemma fill_init_agrees:
  assumes tx: "fresh_tx ly tx pre f sq es" and init: "arq_state_flag v = ARQ_STATE_IN_INIT"
  shows "\<exists>b ret v' tx' f' new pl. sky_vc_content_to_send v arq now k = Some b \<and> sky_vc_fill_frame ly v arq tx now k = Some (ret, v', tx') \<and>
    tx_view ly tx' pre f' sq (es @ new) pl \<and> fill_agrees v b ret v' new pl"
proof (cases "int k < arq_idle_frames_per_window arq")
  case True
  let ?h = "(EXTENSION_ARQ_HANDSHAKE, ARQ_STATE_IN_INIT # mem32 (sky_hton32 (arq_session_identifier v)))"
  obtain tx' where "sky_vc_fill_frame ly v arq tx now k = Some (1, v, tx')" "tx_view ly tx' pre f sq (es @ [?h]) []"
    by (rule fill_init_ok [OF init tx True])
  moreover have "sky_vc_content_to_send v arq now k = Some True" using init True by (simp add: sky_vc_content_to_send_def arq_states)
  moreover have "fill_agrees v True 1 v [?h] []" using init by (simp add: fill_agrees_def empty_head_def stale_resends_def arq_states)
  ultimately show ?thesis by blast
next
  case False
  then have "sky_vc_content_to_send v arq now k = Some False" "sky_vc_fill_frame ly v arq tx now k = Some (0, v, tx)"
    using init by (simp_all add: sky_vc_content_to_send_def sky_vc_fill_frame_def arq_states)
  moreover have "tx_view ly tx pre f sq (es @ []) []" using tx by (simp add: fresh_tx_def)
  moreover have "fill_agrees v False 0 v [] []" by (simp add: fill_agrees_def same_rings_def)
  ultimately show ?thesis by blast
qed

lemma fill_on_agrees:
  assumes view: "vc_view v Ls Lr W ds m ps" "vc_ticks v" and tx: "fresh_tx ly tx pre f sq es" and t: "ticks_ok now"
    and on: "arq_state_flag v = ARQ_STATE_ON"
  shows "\<exists>b ret v' tx' f' new pl. sky_vc_content_to_send v arq now k = Some b \<and> sky_vc_fill_frame ly v arq tx now k = Some (ret, v', tx') \<and>
    tx_view ly tx' pre f' sq (es @ new) pl \<and> fill_agrees v b ret v' new pl"
proof -
  obtain mk where mk: "rcvRing_get_horizon_bitmap (rcvRing v) = Some mk" using vc_bitmap [OF view(1)] by blast
  obtain n where n: "sendRing_count_packets_to_send (sendRing v) True = Some n" "0 \<le> n"
    using vc_count_to_send [OF view(1)] by auto
  define on_es where "on_es = on_exts v arq (int k < arq_idle_frames_per_window arq) now mk n"
  obtain v3 tx3 where r: "sky_vc_fill_frame ly v arq tx now k = fill_payload ly (of_bool (on_es \<noteq> [])) v3 tx3"
    "same_rings v v3" "vc_ticks v3" "tx_view ly tx3 pre (set_bit 2 f) sq (es @ on_es) []"
    "frame_len (tx_radio tx3) \<le> 36"
    unfolding on_es_def by (rule fill_on_ok [OF view(1) on tx view(2) t mk n(1) refl])
  have b: "sky_vc_content_to_send v arq now k = Some (n > 0 \<or> on_es \<noteq> [])"
    unfolding on_es_def by (rule content_on [OF view t on mk n(1)])
  have nb: "\<not> bit (set_bit 2 f) 4" using tx by (simp add: fresh_tx_def bit_simps)
  have n3: "sendRing_count_packets_to_send (sendRing v3) True = Some n" "sendRing v3 = sendRing v"
    using n(1) r(2) by (simp_all add: same_rings_def)
  have h: "\<not> empty_head v" using on by (simp add: empty_head_def arq_states)
  have st: "stale_resends v \<longleftrightarrow> n \<noteq> 0 \<and> next_tx (sendRing v) ds m True = None"
    using on n(1) vc_peek [OF view(1), of True] by (auto simp: stale_resends_def SKY_RET_RING_EMPTY_def split: option.splits)
  show ?thesis
  proof (rule fill_payload_ok [OF vc_view_same_rings [OF view(1) r(2)] r(4) nb r(5), where ret = "of_bool (on_es \<noteq> [])"])
    assume "sendRing_count_packets_to_send (sendRing v3) True = Some 0"
      "fill_payload ly (of_bool (on_es \<noteq> [])) v3 tx3 = Some (of_bool (on_es \<noteq> []), v3, tx3)"
    moreover from this(1) have "fill_agrees v (n > 0 \<or> on_es \<noteq> []) (of_bool (on_es \<noteq> [])) v3 on_es []"
      using n3 h st r(2) by (simp add: fill_agrees_def)
    ultimately show ?thesis using b r(1,4) by metis
  next
    fix n'
    assume "sendRing_count_packets_to_send (sendRing v3) True = Some n'" "0 < n'" "next_tx (sendRing v3) ds m True = None"
      "fill_payload ly (of_bool (on_es \<noteq> [])) v3 tx3 = Some (SKY_RET_RING_EMPTY, v3, tx3)"
    moreover from this(1-3) have "fill_agrees v (n > 0 \<or> on_es \<noteq> []) SKY_RET_RING_EMPTY v3 on_es []"
      using n3 h st r(2) by (simp add: fill_agrees_def)
    ultimately show ?thesis using b r(1,4) by metis
  next
    fix n' d q s' m' tx'
    assume a: "sendRing_count_packets_to_send (sendRing v3) True = Some n'" "0 < n'" "next_tx (sendRing v3) ds m True = Some (d, q)"
      "fill_payload ly (of_bool (on_es \<noteq> [])) v3 tx3 = Some (1, v3\<lparr>sendRing := s'\<rparr>, tx')"
      "tx_view ly tx' pre (set_bit 4 (set_bit 2 f)) sq ((es @ on_es) @ [(EXTENSION_ARQ_SEQUENCE, [q])]) d"
    then have "fill_agrees v (n > 0 \<or> on_es \<noteq> []) 1 (v3\<lparr>sendRing := s'\<rparr>) (on_es @ [(EXTENSION_ARQ_SEQUENCE, [q])]) d"
      using n3 h st by (simp add: fill_agrees_def)
    then show ?thesis using b r(1) a(4,5) unfolding append_assoc by metis
  qed
qed

text \<open>
  C29: the decision to transmit and the frame agree, in every state of the channel. A channel that reports no content fills
  a frame with result 0, puts no extension and no payload into it and keeps its rings. A channel that reports content
  fills with result 1 and puts an extension or a payload into the frame, with exactly two exceptions: without ARQ the next
  packet is empty, then the result is 0 and nothing changes; with ARQ all that is left are requests for packets that have been
  acknowledged since, then the result is the code of an empty ring, without a payload.
\<close>

theorem content_agrees_with_fill:
  assumes "vc_reach ly arq v" "fresh_tx ly tx pre f sq es" "ticks_ok now"
  shows "\<exists>b ret v' tx' f' new pl. sky_vc_content_to_send v arq now k = Some b \<and> sky_vc_fill_frame ly v arq tx now k = Some (ret, v', tx') \<and>
    tx_view ly tx' pre f' sq (es @ new) pl \<and>
    (if \<not> b then ret = 0 \<and> new = [] \<and> pl = [] \<and> same_rings v v'
     else if empty_head v then ret = 0 \<and> new = [] \<and> pl = [] \<and> v' = v
     else if stale_resends v then ret = SKY_RET_RING_EMPTY \<and> pl = [] \<and> same_rings v v'
     else ret = 1 \<and> (new \<noteq> [] \<or> pl \<noteq> []))"
proof -
  obtain Ls Lr W ds m ps where view: "vc_view v Ls Lr W ds m ps" "vc_ticks v" by (rule vc_reachE [OF assms(1)])
  consider "arq_state_flag v = ARQ_STATE_OFF" | "arq_state_flag v = ARQ_STATE_IN_INIT" | "arq_state_flag v = ARQ_STATE_ON"
    using vc_view_state [OF view(1)] by blast
  then show ?thesis unfolding fill_agrees_def [symmetric]
    using fill_off_agrees [OF view(1) assms(2)] fill_init_agrees [OF assms(2)] fill_on_agrees [OF view assms(2,3)] by cases
qed

theorem content_agrees_with_fill_witness:
  "\<exists>c' v v1 v' tx' f' new pl. sky_vc_create (\<lambda>_. 0) sample_vc_conf = Some (c', v) \<and>
     vc_exec layout_gcc sample_arq_conf v (Connect 5) = Some v1 \<and>
     sky_vc_content_to_send v1 sample_arq_conf 6 0 = Some True \<and>
     sky_vc_fill_frame layout_gcc v1 sample_arq_conf sample_tx 6 0 = Some (1, v', tx') \<and>
     tx_view layout_gcc tx' [0x63, 1, 2, 3] f' 0 new pl \<and> (new \<noteq> [] \<or> pl \<noteq> [])"
proof -
  obtain v where v: "sky_vc_create (\<lambda>_. 0) sample_vc_conf = Some (sanitise_vc_config sample_vc_conf, v)"
    "vc_reach layout_gcc sample_arq_conf v" "vc_view v 20 20 16 [] 0 (replicate 20 None)"
    by (rule sample_vc) (rule that, assumption+)
  have t: "ticks_ok 5" "ticks_ok 6" by (simp_all add: ticks_ok_def MOD_TIME_TICKS_def)
  obtain v1 where v1: "sky_vc_wipe_to_arq_init_state 5 v = Some v1" "arq_state_flag v1 = ARQ_STATE_IN_INIT"
    by (rule wipe_to_init [OF v(3), where ticks = 5]) (rule that, assumption+)
  have e: "vc_exec layout_gcc sample_arq_conf v (Connect 5) = Some v1" using v1(1) by (simp add: sky_vc_arq_connect_def)
  have "vc_reach layout_gcc sample_arq_conf v1" by (rule vc_reach.step [OF v(2) _ e]) (simp add: t)
  note c = content_agrees_with_fill [OF this sample_tx_fresh t(2), of 0]
  have "sky_vc_content_to_send v1 sample_arq_conf 6 0 = Some True" "\<not> empty_head v1" "\<not> stale_resends v1"
    using v1(2) by (simp_all add: sky_vc_content_to_send_def empty_head_def stale_resends_def arq_states sample_arq_conf_def)
  with c v(1) e show ?thesis by fastforce
qed

text \<open>A channel that holds no received packet accepts every packet that is not too long while the ring has a free slot.\<close>

lemma no_payloads_no_handles:
  assumes "slot_payloads b xs = replicate n None"
  shows "handles xs = []"
proof -
  have "set (map (map_option (\<lambda>h. the (eb_get b h))) xs) \<subseteq> {None}"
    using assms by (auto simp: slot_payloads_def simp del: set_map)
  then show ?thesis by (auto simp: handles_def filter_empty_conv)
qed

lemma push_next:
  assumes v: "vc_view v Ls Lr W ds m (replicate Lr None)" and d: "length d \<le> SKY_PAYLOAD_MAX_LEN" and ring: "Suc (length ds) < Ls"
  obtains v1 where "sky_vc_push_packet_to_send v d = Some (int (unat (s_tail_sequence (sendRing v) + of_nat (length ds))), v1)"
    "vc_view v1 Ls Lr W (ds @ [d]) m (replicate Lr None)" "arq_state_flag v1 = arq_state_flag v"
proof -
  obtain hs xs where rel: "vc_rel v Ls Lr W hs m xs" and xs: "slot_payloads (elementBuffer v) xs = replicate Lr None"
    and ds: "ds = payloads (elementBuffer v) hs" using v by (auto simp: vc_view_def)
  note hx = no_payloads_no_handles [OF xs]
  have L: "6 \<le> Ls" "6 \<le> Lr" using rel by (auto simp: vc_rel_def)
  have "length hs = length ds" by (simp add: ds)
  then have room: "int (eb_cost (elementBuffer v) (length d)) \<le> free_elements (elementBuffer v)"
    using L ring by (intro vc_room [OF rel d]) (auto simp: xs hx)
  from vc_push_ok [OF v d ring room] that show ?thesis by auto
qed

lemma push_first:
  assumes v: "vc_view v Ls Lr W [] 0 (replicate Lr None)" and d: "length d \<le> SKY_PAYLOAD_MAX_LEN"
  obtains v1 where "sky_vc_push_packet_to_send v d = Some (int (unat (s_tail_sequence (sendRing v))), v1)"
    "vc_view v1 Ls Lr W [d] 0 (replicate Lr None)" "arq_state_flag v1 = arq_state_flag v"
proof -
  have "Suc (length ([] :: bytes list)) < Ls" using v by (auto simp: vc_view_def vc_rel_def)
  from push_next [OF v d this] that show ?thesis by auto
qed

text \<open>
  A channel without ARQ with a packet of length zero at the head of its queue. The operations that do not start or end an
  ARQ session, which would empty the queue: everything but a connect, a disconnect and a frame with a handshake.
\<close>

fun without_session :: "vc_op \<Rightarrow> bool" where
  "without_session (Connect ticks) = False"
| "without_session Disconnect = False"
| "without_session (ProcessFrame now p) = (arq_handshake p = None)"
| "without_session op = True"

fun vc_run :: "SkyHeaderLayout \<Rightarrow> SkyARQConfig \<Rightarrow> SkyVirtualChannel \<Rightarrow> vc_op list \<Rightarrow> SkyVirtualChannel option" where
  "vc_run ly arq v [] = Some v"
| "vc_run ly arq v (op # ops) = Option.bind (vc_exec ly arq v op) (\<lambda>v'. vc_run ly arq v' ops)"

definition blocked :: "SkyVirtualChannel \<Rightarrow> bytes list \<Rightarrow> bool" where
  "blocked v ds \<longleftrightarrow> arq_state_flag v = ARQ_STATE_OFF \<and> tx_queue v ([] # ds)"

lemma blockedI: "vc_view v Ls Lr W ([] # ds) 0 ps \<Longrightarrow> arq_state_flag v = ARQ_STATE_OFF \<Longrightarrow> blocked v ds"
  by (auto simp: blocked_def tx_queue_def)

lemma blocked_transmits_nothing:
  assumes "blocked v ds"
  shows "sky_vc_content_to_send v arq now k = Some True" "sky_vc_fill_frame ly v arq tx now k = Some (0, v, tx)"
proof -
  obtain Ls Lr W ps where v: "vc_view v Ls Lr W ([] # ds) 0 ps" "arq_state_flag v = ARQ_STATE_OFF"
    using assms by (auto simp: blocked_def tx_queue_def)
  show "sky_vc_content_to_send v arq now k = Some True"
    using vc_count_to_send [OF v(1), of False] v(2) by (simp add: sky_vc_content_to_send_def)
  show "sky_vc_fill_frame ly v arq tx now k = Some (0, v, tx)" by (rule fill_off_nothing [OF v]) simp
qed

lemma blocked_push:
  assumes "blocked v ds"
  shows "\<exists>ret v' ds'. sky_vc_push_packet_to_send v d = Some (ret, v') \<and> blocked v' (ds @ ds') \<and> ds' = (if 0 \<le> ret then [d] else [])"
proof -
  obtain ret v' where p: "sky_vc_push_packet_to_send v d = Some (ret, v')" "tx_queue v' (if 0 \<le> ret then ([] # ds) @ [d] else [] # ds)"
    using txq.push_rep [of v "[] # ds" d] assms by (auto simp: blocked_def)
  have "arq_state_flag v' = arq_state_flag v"
    using p(1) by (auto simp: sky_vc_push_packet_to_send_def bind_eq_Some_conv split: if_splits)
  then show ?thesis using p assms by (auto simp: blocked_def)
qed

lemma blocked_read:
  assumes "blocked v ds"
  shows "\<exists>ret bs v'. sky_vc_read_next_received v n = Some (ret, bs, v') \<and> blocked v' ds"
proof -
  obtain Ls Lr W ps where v: "vc_view v Ls Lr W ([] # ds) 0 ps" "arq_state_flag v = ARQ_STATE_OFF"
    using assms by (auto simp: blocked_def tx_queue_def)
  show ?thesis
  proof (cases "readable W ps = 0")
    case True
    then show ?thesis using vc_read_empty [OF v(1) True] assms by blast
  next
    case False
    then obtain d qs where ps: "ps = Some d # qs" using readable_pos_Cons by blast
    have pos: "0 < readable W (Some d # qs)" using False ps by simp
    show ?thesis
    proof (cases "length d \<le> n")
      case True
      obtain v' where "sky_vc_read_next_received v n = Some (SKY_RET_OK, d, v')" "vc_view v' Ls Lr W ([] # ds) 0 (qs @ [None])"
        "arq_state_flag v' = arq_state_flag v" by (rule vc_read_ok [OF v(1) [unfolded ps] pos True])
      then show ?thesis using blockedI v(2) by metis
    next
      case False
      then show ?thesis using vc_read_too_long [OF v(1) [unfolded ps] pos] assms by (meson not_le)
    qed
  qed
qed

lemma blocked_process:
  assumes "blocked v ds" "parsed_ok p" "arq_handshake p = None"
  shows "\<exists>ret v'. sky_vc_process_frame now v p now = Some (ret, v') \<and> blocked v' ds"
proof -
  obtain Ls Lr W ps where v: "vc_view v Ls Lr W ([] # ds) 0 ps" "arq_state_flag v = ARQ_STATE_OFF"
    using assms by (auto simp: blocked_def tx_queue_def)
  obtain d where d: "parsed_payload p = Some d" "length d \<le> 281" by (rule parsed_ok_payload [OF assms(2)])
  have "\<exists>r v'. sky_vc_push_rx_packet_monotonic v d = Some (r, v') \<and> blocked v' ds"
    by (rule vc_rx_any [OF v(1) d(2), of "r_head_sequence (rcvRing v)"])
      (use v(2) assms(1) in \<open>auto simp: sky_vc_push_rx_packet_monotonic_def intro: blockedI\<close>)
  then show ?thesis using assms v(2) d(1) by (auto simp: sky_vc_process_frame_def process_handshake_def)
qed

lemma blocked_more: "blocked v ds \<Longrightarrow> \<exists>ds'. blocked v (ds @ ds')"
  by (metis append_Nil2)

lemma blocked_step:
  assumes "blocked v ds" "vc_op_ok ly op" "without_session op"
  shows "\<exists>v' ds'. vc_exec ly arq v op = Some v' \<and> blocked v' (ds @ ds')"
proof (cases op)
  case (PushPacket d)
  then show ?thesis using blocked_push [OF assms(1), of d] by auto
next
  case (ReadPacket n)
  then show ?thesis using blocked_read [OF assms(1), of n] by (auto intro: blocked_more)
next
  case (CheckTimeouts now timeout)
  then show ?thesis using assms(1) blocked_more by (simp add: sky_vc_check_timeouts_def blocked_def)
next
  case (FillFrame tx now k)
  then show ?thesis using blocked_more [OF assms(1)] blocked_transmits_nothing(2) [OF assms(1)] by simp
next
  case (ProcessFrame now p)
  then show ?thesis using blocked_process [OF assms(1), of p now] assms(2,3) by (auto intro: blocked_more)
qed (use assms(3) in simp_all)

lemma blocked_run:
  "\<lbrakk> blocked v ds; \<forall>op \<in> set ops. vc_op_ok ly op \<and> without_session op \<rbrakk> \<Longrightarrow>
   \<exists>v' ds'. vc_run ly arq v ops = Some v' \<and> blocked v' (ds @ ds')"
proof (induction ops arbitrary: v ds)
  case (Cons op ops)
  obtain v1 ds1 where "vc_exec ly arq v op = Some v1" "blocked v1 (ds @ ds1)"
    using blocked_step [OF Cons.prems(1)] Cons.prems(2) by (metis list.set_intros(1))
  then show ?case using Cons.IH [of v1 "ds @ ds1"] Cons.prems(2) by auto
qed (auto intro: blocked_more)

text \<open>
  C37: a packet of length zero blocks a channel without ARQ. Once it is at the head of the queue it stays there through any
  sequence of pushes, reads, timeout checks, filled frames and received frames without a handshake. After each such
  sequence the packets queued behind it are all still queued, in order; the channel reports content; and filling a frame
  returns 0 and leaves the channel and the frame as they are, so no packet of the queue is ever transmitted. (Starting or
  ending an ARQ session discards the whole queue.)
\<close>

theorem empty_packet_blocks_channel:
  assumes "arq_state_flag v = ARQ_STATE_OFF" "tx_queue v ([] # ds)" "\<forall>op \<in> set ops. vc_op_ok ly op \<and> without_session op"
  shows "\<exists>v' ds'. vc_run ly arq v ops = Some v' \<and> tx_queue v' ([] # ds @ ds') \<and>
    (\<forall>now k. sky_vc_content_to_send v' arq now k = Some True) \<and>
    (\<forall>tx now k. sky_vc_fill_frame ly v' arq tx now k = Some (0, v', tx))"
proof -
  have "blocked v ds" using assms(1,2) by (simp add: blocked_def)
  from blocked_run [OF this assms(3)] obtain v' ds' where v': "vc_run ly arq v ops = Some v'" "blocked v' (ds @ ds')" by blast
  then show ?thesis using blocked_transmits_nothing [OF v'(2)] by (auto simp: blocked_def)
qed

text \<open>
  A created channel accepts the empty packet and a packet behind it. A frame is filled, a third packet is pushed, and both
  packets still wait behind the empty one.
\<close>

theorem empty_packet_blocks_channel_witness:
  "\<exists>c' v v1 v2 v3 ds. sky_vc_create (\<lambda>_. 0) sample_vc_conf = Some (c', v) \<and>
     vc_exec layout_gcc sample_arq_conf v (PushPacket []) = Some v1 \<and> vc_exec layout_gcc sample_arq_conf v1 (PushPacket [1, 2, 3]) = Some v2 \<and>
     vc_run layout_gcc sample_arq_conf v2 [FillFrame sample_tx 5 0, PushPacket [4]] = Some v3 \<and>
     tx_queue v3 ([] # [1, 2, 3] # ds) \<and> sky_vc_content_to_send v3 sample_arq_conf 6 0 = Some True \<and>
     sky_vc_fill_frame layout_gcc v3 sample_arq_conf sample_tx 6 0 = Some (0, v3, sample_tx)"
proof -
  obtain v where v: "sky_vc_create (\<lambda>_. 0) sample_vc_conf = Some (sanitise_vc_config sample_vc_conf, v)"
    "vc_view v 20 20 16 [] 0 (replicate 20 None)" "arq_state_flag v = ARQ_STATE_OFF"
    by (rule sample_vc) (rule that, assumption+)
  obtain v1 where v1: "vc_exec layout_gcc sample_arq_conf v (PushPacket []) = Some v1" "vc_view v1 20 20 16 [[]] 0 (replicate 20 None)"
    "arq_state_flag v1 = ARQ_STATE_OFF"
    by (rule push_first [OF v(2), of "[]"]) (use v(3) in auto)
  obtain v2 where v2: "vc_exec layout_gcc sample_arq_conf v1 (PushPacket [1, 2, 3]) = Some v2"
    "vc_view v2 20 20 16 [[], [1, 2, 3]] 0 (replicate 20 None)" "arq_state_flag v2 = ARQ_STATE_OFF"
    by (rule push_next [OF v1(2), of "[1, 2, 3]"]) (use v1(3) in \<open>auto simp: SKY_PAYLOAD_MAX_LEN_def\<close>)
  have q: "tx_queue v2 ([] # [[1, 2, 3]])" using v2(2) by (auto simp: tx_queue_def)
  have "vc_op_ok layout_gcc (FillFrame sample_tx 5 0)" using sample_tx_fresh by (auto simp: ticks_ok_def MOD_TIME_TICKS_def)
  then have "\<forall>op \<in> set [FillFrame sample_tx 5 0, PushPacket [4]]. vc_op_ok layout_gcc op \<and> without_session op" by simp
  from empty_packet_blocks_channel [OF v2(3) q this, of sample_arq_conf] obtain v3 ds' where
    "vc_run layout_gcc sample_arq_conf v2 [FillFrame sample_tx 5 0, PushPacket [4]] = Some v3" "tx_queue v3 ([] # [1, 2, 3] # ds')"
    "sky_vc_content_to_send v3 sample_arq_conf 6 0 = Some True"
    "sky_vc_fill_frame layout_gcc v3 sample_arq_conf sample_tx 6 0 = Some (0, v3, sample_tx)" by auto
  then show ?thesis using v(1) v1(1) v2(1) by blast
qed

end
