(* ===== verification/Rx_Parse_Correct.thy ===== *)
theory Rx_Parse_Correct
  imports VC_Frame_Correct Mac_Correct Skylink_Rx
begin

text \<open>
  From the bytes of a frame to the parsed frame. A frame with an abstract view (\<open>radio_view\<close>) that
  passes the header checks of \<open>sky_rx\<close> is handed to the channel with exactly the extensions and the
  payload of the view (\<open>carries\<close>).
\<close>

section \<open>What a frame carries\<close>

definition carries :: "SkyParsedFrame \<Rightarrow> extension list \<Rightarrow> bytes \<Rightarrow> bool" where
  "carries p es pl \<longleftrightarrow> parsed_ok p \<and> (\<forall>ty. ext_lookup p ty = map_of es ty) \<and>
     parsed_payload p = Some pl \<and> payload_len p = length pl"

lemma carries_slot:
  assumes c: "carries p es pl" and s: "ext_slot ty p = Some (slot, n)"
  shows "case map_of es ty of None \<Rightarrow> slot = None | Some b \<Rightarrow> \<exists>e. slot = Some e \<and> ext_body p e n = Some b"
proof (cases slot)
  case None
  then have "ext_lookup p ty = None" using s by (simp add: ext_lookup_def)
  then show ?thesis using c None by (simp add: carries_def)
next
  case (Some e)
  then obtain b where "ext_body p e n = Some b"
    using parsed_ok_body c s unfolding carries_def by metis
  moreover have "ext_lookup p ty = ext_body p e n" using s Some by (simp add: ext_lookup_def ext_body_def)
  ultimately have "map_of es ty = Some b" using c by (simp add: carries_def)
  then show ?thesis using Some \<open>ext_body p e n = Some b\<close> by simp
qed

lemmas carries_named = carries_slot [OF _ ext_slots_named(1)] carries_slot [OF _ ext_slots_named(2)]
  carries_slot [OF _ ext_slots_named(3)] carries_slot [OF _ ext_slots_named(4)]

text \<open>
  What the receiver makes of the bytes of a frame: the steps of \<open>sky_rx\<close> from the bytes to the parsed
  frame that the channel processes, for a frame without authentication. \<open>None\<close>: the frame is dropped.
\<close>

definition hand_over :: "SkyHeaderLayout \<Rightarrow> SkyConfig \<Rightarrow> SkyRadioFrame \<Rightarrow> SkyParsedFrame option" where
  "hand_over ly c frame = do {
     ph \<leftarrow> parse_header ly c frame;
     case ph of
       Inl _ \<Rightarrow> None
     | Inr parsed0 \<Rightarrow> do {
         (ret, parsed) \<leftarrow> sky_frame_parse_extension_headers ly frame parsed0;
         if ret < 0 then None else Some parsed
       }
   }"

text \<open>The first bytes of every frame: version, identity length, identity.\<close>

definition frame_start :: "bytes \<Rightarrow> bytes" where
  "frame_start idn = (SKYLINK_FRAME_VERSION_BYTE OR of_nat (length idn)) # idn"

lemma identity_bits:
  "n \<le> 7 \<Longrightarrow> unat ((SKYLINK_FRAME_VERSION_BYTE OR of_nat n) AND SKYLINK_FRAME_IDENTITY_MASK) = n \<and>
     (SKYLINK_FRAME_VERSION_BYTE OR of_nat n) AND SKYLINK_FRAME_VERSION_BYTE = SKYLINK_FRAME_VERSION_BYTE"
proof -
  assume "n \<le> 7"
  then have "n \<in> {0, 1, 2, 3, 4, 5, 6, 7}" by auto
  then show ?thesis by (auto simp: SKYLINK_FRAME_VERSION_BYTE_def SKYLINK_FRAME_IDENTITY_MASK_def)
qed

lemma parse_header_view:
  assumes v: "radio_view ly frame (frame_start idn) f sq es pl" and il: "1 \<le> length idn" "length idn \<le> 7"
    and ph: "parse_header ly c frame = Some (Inr p)"
  shows "p_raw p = raw frame" "no_exts p" "p_hdr p = mk_hd ly f sq (of_nat (length (enc_exts es)))"
    "bit f 4 \<or> pl = [] \<Longrightarrow> payload_len p = length pl"
    "p_payload p = 1 + length idn + hdr_sizeof ly + length (enc_exts es)" "\<not> bit f 4 \<Longrightarrow> payload_len p = 0"
proof -
  from v obtain rest where r: "raw frame = frame_bytes ly (frame_start idn) f sq es pl @ rest" "layout_ok ly"
    "frame_len frame = length (frame_bytes ly (frame_start idn) f sq es pl)" "frame_len frame \<le> RAW_SIZE"
    by (rule radio_viewE)
  define H where "H = mk_hd ly f sq (of_nat (length (enc_exts es)))"
  have lay: "0 < hdr_sizeof ly" "off_extension_length ly < hdr_sizeof ly" using r(2) by (auto simp: layout_ok_def)
  have b0: "nth_opt (raw frame) 0 = Some (SKYLINK_FRAME_VERSION_BYTE OR of_nat (length idn))"
    by (simp add: r(1) frame_bytes_def frame_start_def nth_opt_def)
  have hd: "read_bytes (raw frame) (1 + length idn) (hdr_sizeof ly) = Some H"
    by (simp add: r(1) frame_bytes_def frame_start_def read_bytes_def H_def)
  have small: "length (enc_exts es) < 256" using r(3,4) by (simp add: length_frame_bytes RAW_SIZE_val)
  have el: "hdr_extension_length ly H 0 = Some (of_nat (length (enc_exts es)))"
    using lay mk_hd_fields(2) [OF r(2)] by (simp add: hdr_extension_length_def H_def)
  have fl: "flag_has_payload H 0 = Some (bit f 4)"
    using lay mk_hd_fields(1) [OF r(2)] by (simp add: flag_has_payload_def hdr_flag_def H_def)
  have len: "frame_len frame = 1 + length idn + hdr_sizeof ly + length (enc_exts es) + length pl"
    using r(3) by (simp add: length_frame_bytes frame_start_def)
  have p: "p = \<lparr>p_raw = raw frame, p_identity_len = length idn, p_hdr = H, arq_sequence = None,
      arq_request = None, arq_ctrl = None, arq_handshake = None, mac_tdd = None, hmac_reset = None,
      p_payload = 1 + length idn + hdr_sizeof ly + length (enc_exts es),
      payload_len = (if bit f 4 then length pl else 0)\<rparr>"
    using ph b0 hd el fl len identity_bits [OF il(2)] small
    by (auto simp: parse_header_def Let_def bind_eq_Some_conv unat_of_nat_byte split: if_splits)
  show "p_raw p = raw frame" "no_exts p" "p_hdr p = mk_hd ly f sq (of_nat (length (enc_exts es)))"
    "bit f 4 \<or> pl = [] \<Longrightarrow> payload_len p = length pl"
    "p_payload p = 1 + length idn + hdr_sizeof ly + length (enc_exts es)" "\<not> bit f 4 \<Longrightarrow> payload_len p = 0"
    by (auto simp: p no_exts_def H_def)
qed

lemma hand_over_carries:
  assumes v: "radio_view ly frame (frame_start idn) f sq es pl" and il: "1 \<le> length idn" "length idn \<le> 7"
    and es: "list_all ext_ok es" "distinct (map fst es)" and f: "bit f 4 \<or> pl = []"
    and h: "hand_over ly c frame = Some p"
  shows "carries p es pl"
proof -
  obtain y where y: "parse_header ly c frame = Some y" using h by (auto simp: hand_over_def bind_eq_Some_conv)
  then obtain p0 where ph: "parse_header ly c frame = Some (Inr p0)" using h by (cases y) (auto simp: hand_over_def)
  note P = parse_header_view [OF v il ph]
  have im: "unat ((SKYLINK_FRAME_VERSION_BYTE OR of_nat (length idn)) AND SKYLINK_FRAME_IDENTITY_MASK) = length idn"
    using identity_bits [OF il(2)] by blast
  obtain p' where p': "sky_frame_parse_extension_headers ly frame p0 = Some (SKY_RET_OK, p')" "same_frame p' p0"
    "\<And>ty. ext_lookup p' ty = map_of es ty"
    by (rule parse_view [OF v [unfolded frame_start_def] im es P(1,2,3)]) (rule that, assumption+)
  have "p' = p" using h ph p'(1) by (simp add: hand_over_def ret_codes)
  from v obtain rest where r: "raw frame = frame_bytes ly (frame_start idn) f sq es pl @ rest" "layout_ok ly"
    "frame_len frame = length (frame_bytes ly (frame_start idn) f sq es pl)" "frame_len frame \<le> RAW_SIZE"
    "length (raw frame) = RAW_SIZE" by (rule radio_viewE)
  have sf: "p_raw p = raw frame" "payload_len p = length pl" "p_payload p = p_payload p0"
    using p'(2) P(1) P(4) [OF f] by (auto simp: same_frame_def \<open>p' = p\<close>)
  have "parsed_payload p = Some pl"
    by (simp add: parsed_payload_def sf P(5) r(1) frame_bytes_def frame_start_def read_bytes_def)
  moreover have "parsed_ok p"
  proof -
    have "0 < length (raw frame)" "frame_len frame \<le> length (raw frame)" using r by (simp_all add: RAW_SIZE_val)
    moreover have "length (p_hdr p0) = hdr_sizeof ly" using P(3) by simp
    ultimately obtain ret p'' where "sky_frame_parse_extension_headers ly frame p0 = Some (ret, p'')" "ptrs_inside frame p''"
      using parse_total [OF _ _ r(2) _ P(2), of frame] by blast
    then have "ptrs_inside frame p" using p'(1) \<open>p' = p\<close> by simp
    then show ?thesis using sf P(5) r(3-5)
      by (fastforce simp: parsed_ok_def ptrs_inside_def length_frame_bytes frame_start_def RAW_SIZE_val)
  qed
  ultimately show ?thesis using p'(3) sf(2) by (simp add: carries_def \<open>p' = p\<close>)
qed

text \<open>
  A frame is dropped by the identity filter when it comes from the receiver itself. The identity field
  of the configuration is an array of \<open>SKY_MAX_IDENTITY_LEN\<close> bytes.
\<close>

definition other_identity :: "SkyConfig \<Rightarrow> bytes \<Rightarrow> bool" where
  "other_identity c idn \<longleftrightarrow> length (conf_identity c) = SKY_MAX_IDENTITY_LEN \<and>
     \<not> (conf_identity_len c = length idn \<and> take (length idn) (conf_identity c) = idn)"

lemma parse_header_ok:
  assumes v: "radio_view ly frame (frame_start idn) f sq es pl" and il: "1 \<le> length idn" "length idn \<le> 7"
    and c: "other_identity c idn"
  obtains p where "parse_header ly c frame = Some (Inr p)"
proof -
  from v obtain rest where r: "raw frame = frame_bytes ly (frame_start idn) f sq es pl @ rest" "layout_ok ly"
    "frame_len frame = length (frame_bytes ly (frame_start idn) f sq es pl)" "frame_len frame \<le> RAW_SIZE"
    by (rule radio_viewE)
  define H where "H = mk_hd ly f sq (of_nat (length (enc_exts es)))"
  have lay: "0 < hdr_sizeof ly" "off_extension_length ly < hdr_sizeof ly" using r(2) by (auto simp: layout_ok_def)
  have "nth_opt (raw frame) 0 = Some (SKYLINK_FRAME_VERSION_BYTE OR of_nat (length idn))"
    by (simp add: r(1) frame_bytes_def frame_start_def nth_opt_def)
  moreover have "read_bytes (raw frame) 1 (length idn) = Some idn"
    by (simp add: r(1) frame_bytes_def frame_start_def read_bytes_def)
  moreover have "filter_by_identity c idn (length idn) = Some False"
    using c il by (auto simp: filter_by_identity_def other_identity_def read_bytes_def SKY_MAX_IDENTITY_LEN_def)
  moreover have "read_bytes (raw frame) (1 + length idn) (hdr_sizeof ly) = Some H"
    by (simp add: r(1) frame_bytes_def frame_start_def read_bytes_def H_def)
  moreover have "hdr_extension_length ly H 0 = Some (of_nat (length (enc_exts es)))"
    using lay mk_hd_fields(2) [OF r(2)] by (simp add: hdr_extension_length_def H_def)
  moreover have "unat (of_nat (length (enc_exts es)) :: byte) = length (enc_exts es)"
    using r(3,4) by (intro unat_of_nat_byte) (simp add: length_frame_bytes RAW_SIZE_val)
  moreover have "1 + length idn + hdr_sizeof ly + length (enc_exts es) \<le> frame_len frame"
    using r(3) by (simp add: length_frame_bytes frame_start_def)
  moreover have "flag_has_payload H 0 = Some (bit f 4)"
    using lay mk_hd_fields(1) [OF r(2)] by (simp add: flag_has_payload_def hdr_flag_def H_def)
  moreover have "idn \<noteq> []" using il(1) by auto
  ultimately have "\<exists>p. parse_header ly c frame = Some (Inr p)"
    using identity_bits [OF il(2)] il(2) by (simp add: parse_header_def Let_def SKY_MAX_IDENTITY_LEN_def)
  then show ?thesis using that by blast
qed

lemma hand_over_ok:
  assumes v: "radio_view ly frame (frame_start idn) f sq es pl" and il: "1 \<le> length idn" "length idn \<le> 7"
    and c: "other_identity c idn" and es: "list_all ext_ok es" "distinct (map fst es)" and f: "bit f 4 \<or> pl = []"
  obtains p where "hand_over ly c frame = Some p" "carries p es pl"
proof -
  obtain p0 where ph: "parse_header ly c frame = Some (Inr p0)" by (rule parse_header_ok [OF v il c])
  note P = parse_header_view [OF v il ph]
  have im: "unat ((SKYLINK_FRAME_VERSION_BYTE OR of_nat (length idn)) AND SKYLINK_FRAME_IDENTITY_MASK) = length idn"
    using identity_bits [OF il(2)] by blast
  obtain p where "sky_frame_parse_extension_headers ly frame p0 = Some (SKY_RET_OK, p)"
    by (rule parse_view [OF v [unfolded frame_start_def] im es P(1,2,3)]) (rule that, assumption+)
  then have h: "hand_over ly c frame = Some p" using ph by (simp add: hand_over_def ret_codes)
  show ?thesis by (rule that [OF h hand_over_carries [OF v il es f h]])
qed

text \<open>A sample configuration, as a station with identity 9, 9, 9 has it.\<close>

definition sample_conf :: SkyConfig where
  "sample_conf =
     \<lparr>conf_mac = sample_mac_conf, conf_hmac = \<lparr>key_length = 32, maximum_jump = 32, conf_key = replicate 32 7\<rparr>,
      conf_vc = replicate SKY_NUM_VIRTUAL_CHANNELS
        \<lparr>usable_element_size = 36, rcv_ring_len = 20, conf_horizon_width = 16, send_ring_len = 20, require_authentication = 0\<rparr>,
      conf_arq = \<lparr>arq_timeout_ticks = 10000, idle_frame_threshold = 1000, arq_idle_frames_per_window = 1\<rparr>,
      conf_identity = replicate 7 9, conf_identity_len = 3\<rparr>"

end
