(* ===== verification/Arq_Link.thy ===== *)
theory Arq_Link
  imports VC_Machine Rx_Parse_Correct "HOL-Library.Sublist"
begin

text \<open>
  Two virtual channels joined by a lossy radio link while an ARQ session is set up and running. A step
  pushes a packet, reads a received one, or fills a frame whose bytes are either lost or received and
  processed by the peer, in any order. The theorem at the end is the promise of the ARQ: what one side
  reads is a prefix of what the other side accepted for sending.
\<close>

section \<open>One direction of the link\<close>

text \<open>
  \<open>S\<close> is the list of packets accepted by the sender so far. \<open>x\<close> of them have been acknowledged and
  \<open>m\<close> more transmitted; the receiver has delivered \<open>c\<close> packets to its reader and has the slots \<open>ps\<close>.
  Sequence numbers are these counters modulo 256.
\<close>

definition direction :: "bytes list \<Rightarrow> nat \<Rightarrow> nat \<Rightarrow> nat \<Rightarrow> nat \<Rightarrow> bytes option list \<Rightarrow> bool" where
  "direction S x m c W ps \<longleftrightarrow>
     x + m \<le> length S \<and> x \<le> c + readable W ps \<and> c + readable W ps \<le> x + m \<and>
     (\<forall>k < length ps. \<forall>d. ps ! k = Some d \<longrightarrow> c + k < x + m \<and> d = S ! (c + k))"

lemma directionI:
  assumes "x + m \<le> length S" "x \<le> c + readable W ps" "c \<le> x + m" "W + 1 \<le> length ps"
    "\<And>k d. k < length ps \<Longrightarrow> ps ! k = Some d \<Longrightarrow> c + k < x + m \<and> d = S ! (c + k)"
  shows "direction S x m c W ps"
proof -
  have "c + readable W ps \<le> x + m"
  proof (cases "readable W ps")
    case (Suc r)
    have "r < length ps" using readable_bound [OF assms(4)] Suc by simp
    moreover have "ps ! r \<noteq> None" using readable_Some [of r W ps] Suc by simp
    ultimately show ?thesis using assms(5) [of r] Suc by auto
  qed (use assms(3) in simp)
  then show ?thesis using assms unfolding direction_def by blast
qed

lemma directionD:
  assumes "direction S x m c W ps"
  shows "x + m \<le> length S" "x \<le> c + readable W ps" "c + readable W ps \<le> x + m" "c \<le> length S"
    "\<And>k d. k < length ps \<Longrightarrow> ps ! k = Some d \<Longrightarrow> c + k < x + m \<and> d = S ! (c + k)"
  using assms unfolding direction_def by auto

lemma direction_push: "direction S x m c W ps \<Longrightarrow> direction (S @ [d]) x m c W ps"
  unfolding direction_def by (auto simp: nth_append)

lemma direction_send: "\<lbrakk> direction S x m c W ps; m \<le> m'; x + m' \<le> length S \<rbrakk> \<Longrightarrow> direction S x m' c W ps"
  unfolding direction_def by fastforce

lemma direction_ack:
  assumes "direction S x m c W ps" "x + k = c + readable W ps"
  shows "direction S (x + k) (m - k) c W ps"
  using assms unfolding direction_def by auto

lemma direction_read:
  assumes d: "direction S x m c W (Some d # ps)" and r: "0 < readable W (Some d # ps)" and W: "W + 3 \<le> Suc (length ps)"
  shows "d = S ! c" "c < length S" "direction S x m (Suc c) W (ps @ [None])"
proof -
  note D = directionD [OF d]
  have c: "c < x + m \<and> d = S ! c" using D(5) [of 0 d] by simp
  then show "d = S ! c" "c < length S" using D(1) by auto
  have rest: "Suc c + k < x + m \<and> e = S ! (Suc c + k)" if k: "k < length (ps @ [None])" "(ps @ [None]) ! k = Some e" for k e
  proof -
    have "k < length ps" "ps ! k = Some e" using k by (auto simp: nth_append split: if_splits)
    then show ?thesis using D(5) [of "Suc k" e] by simp
  qed
  have "readable W (Some d # ps) - 1 \<le> readable W (ps @ [None])"
  proof (rule readable_ge)
    show "\<forall>k < readable W (Some d # ps) - 1. (ps @ [None]) ! k \<noteq> None"
    proof (intro allI impI)
      fix k assume k: "k < readable W (Some d # ps) - 1"
      then have "Suc k < length (Some d # ps)" using readable_bound [of W "Some d # ps"] W by simp
      then show "(ps @ [None]) ! k \<noteq> None" using readable_Some [of "Suc k" W "Some d # ps"] k by (simp add: nth_append)
    qed
    show "readable W (Some d # ps) - 1 + W + 1 \<le> length (ps @ [None])"
      using readable_bound [of W "Some d # ps"] W by simp
  qed
  then show "direction S x m (Suc c) W (ps @ [None])"
    using D(1,2) c W r rest by (intro directionI) auto
qed

text \<open>Positions in the stream are recovered from 8 bit sequence numbers.\<close>

lemma seq_offset:
  assumes "x \<le> h" "h \<le> x + m" "x \<le> j" "j \<le> x + m" "m + W < 256"
    and o: "unat (of_nat j - of_nat h :: 8 word) \<le> W"
  shows "h \<le> j \<and> unat (of_nat j - of_nat h :: 8 word) = j - h"
proof (cases "h \<le> j")
  case True
  then have e: "(of_nat j - of_nat h :: 8 word) = of_nat (j - h)" by (simp add: of_nat_diff)
  have "j - h < 256" using assms by linarith
  then show ?thesis using True unat_of_nat_byte [of "j - h"] unfolding e by blast
next
  case False
  then have e: "(of_nat j - of_nat h :: 8 word) = of_nat (256 - (h - j))"
  proof -
    have "h - j \<le> 256" using assms by linarith
    then have "(of_nat (256 - (h - j)) :: 8 word) = of_nat 256 - of_nat (h - j)" by (rule of_nat_diff)
    moreover have "(of_nat 256 :: 8 word) = 0" by simp
    ultimately show ?thesis using False by (simp add: of_nat_diff)
  qed
  have "h - j \<le> m" "0 < h - j" using assms False by linarith+
  then have "unat (of_nat j - of_nat h :: 8 word) = 256 - (h - j)" unfolding e by (simp add: unat_of_nat)
  then show ?thesis using o assms(5) \<open>h - j \<le> m\<close> by linarith
qed

lemma direction_store:
  assumes d: "direction S x m c W ps" and W: "W + 3 \<le> length ps" "m + W < 256"
    and j: "x \<le> j" "j < x + m" and o: "unat (of_nat j - of_nat (c + readable W ps) :: 8 word) \<le> W"
    and k: "k = readable W ps + unat (of_nat j - of_nat (c + readable W ps) :: 8 word)"
    and up: "readable W ps \<le> readable W (ps[k := Some (S ! j)])"
  shows "direction S x m c W (ps[k := Some (S ! j)])"
proof -
  note D = directionD [OF d]
  have "c + readable W ps \<le> j \<and> unat (of_nat j - of_nat (c + readable W ps) :: 8 word) = j - (c + readable W ps)"
    using seq_offset [OF D(2,3) j(1) _ W(2) o] j(2) by simp
  then have ck: "c + k = j" using k by linarith
  show ?thesis
  proof (rule directionI)
    show "x + m \<le> length S" "x \<le> c + readable W (ps[k := Some (S ! j)])" "c \<le> x + m"
      "W + 1 \<le> length (ps[k := Some (S ! j)])" using D W up by auto
    show "c + i < x + m \<and> e = S ! (c + i)" if "i < length (ps[k := Some (S ! j)])" "ps[k := Some (S ! j)] ! i = Some e" for i e
      using that D(5) [of i e] ck j by (cases "i = k") auto
  qed
qed

section \<open>Frames of a session\<close>

text \<open>What a frame filled by a channel that sets up or runs an ARQ session carries.\<close>

definition session_exts :: "SkyVirtualChannel \<Rightarrow> bytes list \<Rightarrow> nat \<Rightarrow> extension list \<Rightarrow> bytes \<Rightarrow> bool" where
  "session_exts v ds m es pl \<longleftrightarrow>
     (\<forall>b. map_of es EXTENSION_ARQ_HANDSHAKE = Some b \<longrightarrow> (\<exists>st. b = st # mem32 (sky_hton32 (arq_session_identifier v)))) \<and>
     (\<forall>b. map_of es EXTENSION_ARQ_CTRL = Some b \<longrightarrow> (\<exists>t. b = [t, r_head_sequence (rcvRing v)])) \<and>
     (\<forall>b. map_of es EXTENSION_ARQ_SEQUENCE = Some b \<longrightarrow>
        (\<exists>i < m. b = [s_tail_sequence (sendRing v) + of_nat i] \<and> pl = ds ! i))"

definition session_state :: "SkyVirtualChannel \<Rightarrow> bool" where
  "session_state v \<longleftrightarrow> arq_state_flag v \<in> {ARQ_STATE_IN_INIT, ARQ_STATE_ON} \<and> vc_ticks v"

text \<open>The steps of a channel keep its part in the session.\<close>

definition same_session :: "SkyVirtualChannel \<Rightarrow> SkyVirtualChannel \<Rightarrow> bool" where
  "same_session v v' \<longleftrightarrow> session_state v' \<and> arq_session_identifier v' = arq_session_identifier v"

lemma map_of_on_exts:
  "map_of (on_exts v arq idle now mk n) EXTENSION_ARQ_SEQUENCE = None"
  "map_of (on_exts v arq idle now mk n) EXTENSION_ARQ_HANDSHAKE \<in>
     {None, Some (ARQ_STATE_ON # mem32 (sky_hton32 (arq_session_identifier v)))}"
  "map_of (on_exts v arq idle now mk n) EXTENSION_ARQ_CTRL \<in>
     {None, Some [tx_sequence (sendRing v), r_head_sequence (rcvRing v)]}"
  by (auto simp: on_exts_def handshake_exts_def request_exts_def ctrl_exts_def extension_types)

lemma session_exts_on: "session_exts v ds m (on_exts v arq idle now mk n) pl"
  using map_of_on_exts [of v arq idle now mk n] unfolding session_exts_def by auto

lemma session_exts_on_payload:
  assumes "unat (s - s_tail_sequence (sendRing v)) < m" "pl = ds ! unat (s - s_tail_sequence (sendRing v))"
  shows "session_exts v ds m (on_exts v arq idle now mk n @ [(EXTENSION_ARQ_SEQUENCE, [s])]) pl"
proof -
  have "s = s_tail_sequence (sendRing v) + of_nat (unat (s - s_tail_sequence (sendRing v)))" by simp
  then have "\<exists>i < m. [s] = [s_tail_sequence (sendRing v) + of_nat i] \<and> pl = ds ! i" using assms by blast
  moreover have "EXTENSION_ARQ_HANDSHAKE \<noteq> EXTENSION_ARQ_SEQUENCE" "EXTENSION_ARQ_CTRL \<noteq> EXTENSION_ARQ_SEQUENCE"
    by (simp_all add: extension_types)
  ultimately show ?thesis
    using map_of_on_exts [of v arq idle now mk n] unfolding session_exts_def by (auto simp: map_add_def)
qed

text \<open>Such a frame and the channel behind it.\<close>

definition session_fill :: "nat \<Rightarrow> nat \<Rightarrow> nat \<Rightarrow> bytes list \<Rightarrow> nat \<Rightarrow> bytes option list \<Rightarrow> SkyHeaderLayout \<Rightarrow> bytes \<Rightarrow>
    u16 \<Rightarrow> extension list \<Rightarrow> SkyVirtualChannel \<Rightarrow> int \<times> SkyVirtualChannel \<times> SkyTransmitFrame \<Rightarrow> bool" where
  "session_fill Ls Lr W ds m ps ly pre sq es v r \<longleftrightarrow> (case r of (ret, v', tx') \<Rightarrow>
     \<exists>f' es' pl m'. vc_view v' Ls Lr W ds m' ps \<and> m \<le> m' \<and> rcvRing v' = rcvRing v \<and>
       s_tail_sequence (sendRing v') = s_tail_sequence (sendRing v) \<and> same_session v v' \<and>
       tx_view ly tx' pre f' sq (es @ es') pl \<and> (bit f' 4 \<or> pl = []) \<and> arq_exts es' \<and> session_exts v ds m' es' pl)"

lemma session_fillI:
  assumes "vc_view v' Ls Lr W ds m' ps" "m \<le> m'" "rcvRing v' = rcvRing v"
    "s_tail_sequence (sendRing v') = s_tail_sequence (sendRing v)" "same_session v v'"
    "tx_view ly tx' pre f' sq (es @ es') pl" "bit f' 4 \<or> pl = []" "arq_exts es'" "session_exts v ds m' es' pl"
  shows "session_fill Ls Lr W ds m ps ly pre sq es v (ret, v', tx')"
  using assms unfolding session_fill_def by (simp only: prod.case) blast

lemma fill_on_session:
  assumes view: "vc_view v Ls Lr W ds m ps" and on: "arq_state_flag v = ARQ_STATE_ON" and t: "vc_ticks v" "ticks_ok now"
    and tx: "fresh_tx ly tx pre f sq es"
  shows "\<exists>r. sky_vc_fill_frame ly v arq tx now k = Some r \<and> session_fill Ls Lr W ds m ps ly pre sq es v r"
proof -
  obtain mk where mk: "rcvRing_get_horizon_bitmap (rcvRing v) = Some mk" using vc_bitmap [OF view] by blast
  obtain n where n: "sendRing_count_packets_to_send (sendRing v) True = Some n" using vc_count_to_send [OF view] by blast
  define on_es where "on_es = on_exts v arq (int k < arq_idle_frames_per_window arq) now mk n"
  obtain v3 tx3 where r: "sky_vc_fill_frame ly v arq tx now k = fill_payload ly (of_bool (on_es \<noteq> [])) v3 tx3"
    "same_rings v v3" "vc_ticks v3" "tx_view ly tx3 pre (set_bit 2 f) sq (es @ on_es) []"
    "frame_len (tx_radio tx3) \<le> 36"
    unfolding on_es_def by (rule fill_on_ok [OF view on tx t mk n refl])
  have nb: "\<not> bit (set_bit 2 f) 4" using tx by (simp add: fresh_tx_def bit_simps)
  note view3 = vc_view_same_rings [OF view r(2)]
  have ae: "arq_exts on_es" "\<And>s. arq_exts (on_es @ [(EXTENSION_ARQ_SEQUENCE, [s])])"
    using arq_exts_on by (simp_all add: on_es_def)
  have ss: "same_session v v3" "same_session v (v3\<lparr>sendRing := q\<rparr>)" for q
    using r(2,3) on by (auto simp: same_session_def session_state_def same_rings_def vc_ticks_def)
  have sr: "sendRing v3 = sendRing v" "rcvRing v3 = rcvRing v" using r(2) by (simp_all add: same_rings_def)
  have keep: "session_fill Ls Lr W ds m ps ly pre sq es v (ret, v3, tx3)" for ret
    by (rule session_fillI [OF view3 _ _ _ ss(1) r(4) _ ae(1)])
      (simp_all add: sr on_es_def session_exts_on)
  show ?thesis
  proof (rule fill_payload_ok [OF view3 r(4) nb r(5), where ret = "of_bool (on_es \<noteq> [])"])
    assume "fill_payload ly (of_bool (on_es \<noteq> [])) v3 tx3 = Some (of_bool (on_es \<noteq> []), v3, tx3)"
    then show ?thesis using keep r(1) by auto
  next
    assume "fill_payload ly (of_bool (on_es \<noteq> [])) v3 tx3 = Some (SKY_RET_RING_EMPTY, v3, tx3)"
    then show ?thesis using keep r(1) by auto
  next
    fix d s s' m' tx'
    assume s: "fill_payload ly (of_bool (on_es \<noteq> [])) v3 tx3 = Some (1, v3\<lparr>sendRing := s'\<rparr>, tx')"
      "tx_view ly tx' pre (set_bit 4 (set_bit 2 f)) sq ((es @ on_es) @ [(EXTENSION_ARQ_SEQUENCE, [s])]) d"
      "vc_view (v3\<lparr>sendRing := s'\<rparr>) Ls Lr W ds m' ps" "m \<le> m'" "s_tail_sequence s' = s_tail_sequence (sendRing v3)"
      "unat (s - s_tail_sequence (sendRing v3)) < m'" "d = ds ! unat (s - s_tail_sequence (sendRing v3))"
    have "session_exts v ds m' (on_es @ [(EXTENSION_ARQ_SEQUENCE, [s])]) d"
      unfolding on_es_def by (rule session_exts_on_payload) (use s(6,7) sr in simp_all)
    then have "session_fill Ls Lr W ds m ps ly pre sq es v (1, v3\<lparr>sendRing := s'\<rparr>, tx')"
      by (intro session_fillI [OF s(3,4) _ _ ss(2) s(2) [unfolded append_assoc] _ ae(2)]) (simp_all add: sr s(5))
    then show ?thesis using r(1) s(1) by auto
  qed
qed

lemma fill_session:
  assumes view: "vc_view v Ls Lr W ds m ps" and ss: "session_state v" and t: "ticks_ok now"
    and tx: "fresh_tx ly tx pre f sq es"
  shows "\<exists>r. sky_vc_fill_frame ly v arq tx now k = Some r \<and> session_fill Ls Lr W ds m ps ly pre sq es v r"
proof (cases "arq_state_flag v = ARQ_STATE_ON")
  case True
  then show ?thesis using fill_on_session [OF view _ _ t tx] ss by (simp add: session_state_def)
next
  case False
  then have init: "arq_state_flag v = ARQ_STATE_IN_INIT" using ss by (simp add: session_state_def)
  have same: "same_session v v" using ss by (simp add: same_session_def)
  let ?e = "(EXTENSION_ARQ_HANDSHAKE, ARQ_STATE_IN_INIT # mem32 (sky_hton32 (arq_session_identifier v)))"
  show ?thesis
  proof (cases "int k < arq_idle_frames_per_window arq")
    case True
    obtain tx' where r: "sky_vc_fill_frame ly v arq tx now k = Some (1, v, tx')" "tx_view ly tx' pre f sq (es @ [?e]) []"
      by (rule fill_init_ok [OF init tx True])
    have "arq_exts [?e]" "session_exts v ds m [?e] []"
      by (auto simp: arq_exts_def ext_ok_def ext_size_def session_exts_def extension_types)
    then have "session_fill Ls Lr W ds m ps ly pre sq es v (1, v, tx')"
      by (intro session_fillI [OF view _ _ _ same r(2)]) simp_all
    then show ?thesis using r(1) by blast
  next
    case False
    then have f: "sky_vc_fill_frame ly v arq tx now k = Some (0, v, tx)"
      using init by (simp add: sky_vc_fill_frame_def arq_states)
    have tv: "tx_view ly tx pre f sq (es @ []) []" using tx by (simp add: fresh_tx_def)
    have "session_fill Ls Lr W ds m ps ly pre sq es v (0, v, tx)"
      by (intro session_fillI [OF view _ _ _ same tv]) (simp_all add: arq_exts_def session_exts_def)
    then show ?thesis using f by blast
  qed
qed

section \<open>Processing a frame of the session\<close>

lemma keeps_session:
  "sky_vc_update_tx_sync v s now = Some v' \<Longrightarrow> arq_session_identifier v' = arq_session_identifier v"
  "sky_vc_push_rx_packet v d s now = Some (ret, v') \<Longrightarrow>
     arq_session_identifier v' = arq_session_identifier v \<and> arq_state_flag v' = arq_state_flag v \<and> sendRing v' = sendRing v"
  by (auto simp: sky_vc_update_tx_sync_def sky_vc_push_rx_packet_def Let_def bind_eq_Some_conv split: if_splits)

text \<open>The handshake extension of the session never touches the rings.\<close>

lemma process_handshake_session:
  assumes view: "vc_view v Ls Lr W ds m ps" and ss: "session_state v" and c: "carries p es pl"
    and hs: "\<And>b. map_of es EXTENSION_ARQ_HANDSHAKE = Some b \<Longrightarrow> \<exists>st. b = st # mem32 (arq_session_identifier v)"
  obtains v' where "process_handshake ticks v p = Some v'" "vc_view v' Ls Lr W ds m ps" "same_session v v'"
    "sendRing v' = sendRing v" "rcvRing v' = rcvRing v"
proof (cases "map_of es EXTENSION_ARQ_HANDSHAKE")
  case None
  then have "arq_handshake p = None" using carries_slot [OF c ext_slots_named(4)] by simp
  then show ?thesis using that view ss by (simp add: process_handshake_def same_session_def)
next
  case (Some b)
  then obtain st where b: "b = st # mem32 (arq_session_identifier v)" using hs by blast
  obtain e where e: "arq_handshake p = Some e" "ext_body p e 5 = Some b"
    using carries_slot [OF c ext_slots_named(4)] Some by auto
  have q: "load32 (b ! 1) (b ! 2) (b ! 3) (b ! 4) = arq_session_identifier v"
    by (simp add: b mem32_def load32_mem)
  define v' where "v' = (if arq_state_flag v = ARQ_STATE_IN_INIT then v\<lparr>arq_state_flag := ARQ_STATE_ON, handshake_send := 0\<rparr>
    else v\<lparr>handshake_send := (if st = ARQ_STATE_IN_INIT then 1 else 0)\<rparr>)"
  have r: "process_handshake ticks v p = Some v'"
    using e q ss by (auto simp: process_handshake_def sky_vc_handle_handshake_def Let_def v'_def b session_state_def arq_states)
  have s: "same_session v v'" "sendRing v' = sendRing v" "rcvRing v' = rcvRing v"
    using ss by (auto simp: v'_def same_session_def session_state_def vc_ticks_def)
  have "vc_view v' Ls Lr W ds m ps"
    by (rule vc_view_cong [OF view]) (use ss in \<open>auto simp: v'_def session_state_def\<close>)
  then show ?thesis using that r s by blast
qed

text \<open>The control extension acknowledges packets.\<close>

lemma process_ctrl_session:
  assumes view: "vc_view v Ls Lr W ds m ps" and ss: "session_state v" and t: "ticks_ok now" and c: "carries p es pl"
    and ct: "\<And>b. map_of es EXTENSION_ARQ_CTRL = Some b \<Longrightarrow> \<exists>t. b = [t, s_tail_sequence (sendRing v) + of_nat h]"
    and h: "h \<le> m"
  obtains v' k where "process_ctrl v p now = Some v'" "vc_view v' Ls Lr W (drop k ds) (m - k) ps" "k = 0 \<or> k = h"
    "same_session v v'" "rcvRing v' = rcvRing v" "s_tail_sequence (sendRing v') = s_tail_sequence (sendRing v) + of_nat k"
    "arq_state_flag v' = arq_state_flag v"
proof (cases "map_of es EXTENSION_ARQ_CTRL")
  case None
  then have "arq_ctrl p = None" using carries_slot [OF c ext_slots_named(3)] by simp
  then show ?thesis using that [of v 0] view ss by (simp add: process_ctrl_def same_session_def)
next
  case (Some b)
  then obtain u where b: "b = [u, s_tail_sequence (sendRing v) + of_nat h]" using ct by blast
  obtain e where e: "arq_ctrl p = Some e" "ext_body p e 2 = Some b"
    using carries_slot [OF c ext_slots_named(3)] Some by auto
  have tk: "vc_ticks v" using ss by (simp add: session_state_def)
  have "h < 256" using h vc_view_lengths(3,4,6) [OF view] by simp
  then have hk: "h = unat (s_tail_sequence (sendRing v) + of_nat h - s_tail_sequence (sendRing v))"
    by (simp add: unat_of_nat)
  obtain v1 where v1: "sky_vc_update_tx_sync v (s_tail_sequence (sendRing v) + of_nat h) now = Some v1" "vc_ticks v1"
    "rcvRing v1 = rcvRing v" "arq_state_flag v1 = arq_state_flag v"
    "vc_view v1 Ls Lr W (if h \<le> m then drop h ds else ds) (if h \<le> m then m - h else m) ps"
    "s_tail_sequence (sendRing v1) =
       (if h \<le> m then s_tail_sequence (sendRing v) + of_nat h else s_tail_sequence (sendRing v))"
    by (rule update_tx_sync_ok [OF view tk t hk]) (rule that, assumption+)
  have view1: "vc_view v1 Ls Lr W (drop h ds) (m - h) ps" using v1(5) h by simp
  define v' where "v' = sky_vc_update_rx_sync v1 u now"
  note R = update_rx_sync_ok [OF view1 v1(2) t, of u, folded v'_def]
  have "process_ctrl v p now = Some v'" using e v1(1) by (simp add: process_ctrl_def b v'_def)
  moreover have "same_session v v'"
    using R(2,3) v1(4) keeps_session(1) [OF v1(1)] ss by (simp add: same_session_def session_state_def same_rings_def)
  ultimately show ?thesis using that [of v' h] R(1,3) v1(3,4,6) h by (simp add: same_rings_def)
qed

text \<open>A payload goes to its slot or is dropped.\<close>

lemma push_rx_session:
  assumes view: "vc_view v Ls Lr W ds m ps" and ss: "session_state v" and t: "ticks_ok now" and d: "length d \<le> 281"
  obtains ret v' ps' where "sky_vc_push_rx_packet v d s now = Some (ret, v')" "vc_view v' Ls Lr W ds m ps'"
    "same_session v v'" "sendRing v' = sendRing v" "r_tail_sequence (rcvRing v') = r_tail_sequence (rcvRing v)"
    "arq_state_flag v' = arq_state_flag v"
    "ps' = ps \<or> (let k = readable W ps + unat (s - r_head_sequence (rcvRing v))
       in unat (s - r_head_sequence (rcvRing v)) \<le> W \<and> ps' = ps[k := Some d] \<and> readable W ps \<le> readable W ps')"
proof -
  have "\<exists>ret r' b' ps'. rcvRing_push_rx_packet (rcvRing v) (elementBuffer v) d s = Some (ret, r', b') \<and>
      vc_view (v\<lparr>rcvRing := r', elementBuffer := b'\<rparr>) Ls Lr W ds m ps' \<and> r_tail_sequence r' = r_tail_sequence (rcvRing v) \<and>
      (ps' = ps \<or> (let k = readable W ps + unat (s - r_head_sequence (rcvRing v))
       in unat (s - r_head_sequence (rcvRing v)) \<le> W \<and> ps' = ps[k := Some d] \<and> readable W ps \<le> readable W ps'))"
  proof (rule vc_rx_any [OF view d, where s = s], goal_cases)
    case (1 k r' b')
    then show ?case unfolding Let_def by blast
  next
    case (2 e)
    have "v\<lparr>rcvRing := rcvRing v, elementBuffer := elementBuffer v\<rparr> = v" by simp
    then show ?case using 2 view by metis
  qed
  then obtain ret r' b' ps' where r: "rcvRing_push_rx_packet (rcvRing v) (elementBuffer v) d s = Some (ret, r', b')"
    "vc_view (v\<lparr>rcvRing := r', elementBuffer := b'\<rparr>) Ls Lr W ds m ps'" "r_tail_sequence r' = r_tail_sequence (rcvRing v)"
    "ps' = ps \<or> (let k = readable W ps + unat (s - r_head_sequence (rcvRing v))
       in unat (s - r_head_sequence (rcvRing v)) \<le> W \<and> ps' = ps[k := Some d] \<and> readable W ps \<le> readable W ps')" by blast
  define v1 where "v1 = v\<lparr>rcvRing := r', elementBuffer := b'\<rparr>"
  define v2 where "v2 = (if ret > 0 then v1\<lparr>last_rx_tick := now\<rparr> else v1)"
  define v3 where "v3 = v2\<lparr>unconfirmed_payloads := to_i16 (unconfirmed_payloads v2 + 1)\<rparr>"
  have p: "sky_vc_push_rx_packet v d s now = Some (ret, v3)"
    using r(1) by (simp add: sky_vc_push_rx_packet_def v3_def v2_def v1_def Let_def)
  have sr: "same_rings v1 v3" by (simp add: same_rings_def v3_def v2_def)
  have "vc_view v3 Ls Lr W ds m ps'" using r(2) sr vc_view_same_rings unfolding v1_def [symmetric] by blast
  moreover have "same_session v v3"
    using ss t by (auto simp: same_session_def session_state_def vc_ticks_def v3_def v2_def v1_def)
  moreover have "r_tail_sequence (rcvRing v3) = r_tail_sequence (rcvRing v)" "sendRing v3 = sendRing v"
    "arq_state_flag v3 = arq_state_flag v"
    using r(3) by (simp_all add: v3_def v2_def v1_def)
  ultimately show ?thesis using that p r(4) by blast
qed

text \<open>A retransmission request schedules packets and moves nothing.\<close>

lemma process_request_session:
  assumes view: "vc_view v Ls Lr W ds m ps" and ss: "session_state v" and p: "parsed_ok p"
  obtains v' where "process_request v p = Some v'" "vc_view v' Ls Lr W ds m ps" "same_session v v'"
    "rcvRing v' = rcvRing v" "s_tail_sequence (sendRing v') = s_tail_sequence (sendRing v)"
proof (cases "arq_request p")
  case None
  then show ?thesis using that view ss by (simp add: process_request_def same_session_def)
next
  case (Some e)
  obtain bs where bs: "ext_body p e 3 = Some bs"
    using parsed_ok_body [OF p, of EXTENSION_ARQ_REQUEST e 3] Some by (auto simp: ext_slots_named)
  obtain hs xs where rel: "vc_rel v Ls Lr W hs m xs" and ds: "ds = payloads (elementBuffer v) hs"
    and ps: "ps = slot_payloads (elementBuffer v) xs" using view by (auto simp: vc_view_def)
  note D = vc_relD [OF rel]
  obtain ret s' where s': "sendRing_schedule_resends_by_mask (sendRing v) (bs ! 0) (sky_ntoh16 (load16 (bs ! 1) (bs ! 2))) = Some (ret, s')"
    "send_rel s' Ls hs m" "s_tail_sequence s' = s_tail_sequence (sendRing v)"
    by (rule schedule_by_mask_rel [OF D(1)]) (rule that, assumption+)
  have "vc_rel (v\<lparr>sendRing := s'\<rparr>) Ls Lr W hs m xs" by (rule vc_relI [OF rel]) (use s' D in auto)
  then have "vc_view (v\<lparr>sendRing := s'\<rparr>) Ls Lr W ds m ps" using ds ps unfolding vc_view_def by fastforce
  moreover have "same_session v (v\<lparr>sendRing := s'\<rparr>)" using ss by (simp add: same_session_def session_state_def vc_ticks_def)
  ultimately show ?thesis using that [of "v\<lparr>sendRing := s'\<rparr>"] Some bs s'(1,3) by (simp add: process_request_def)
qed

lemma same_session_trans: "same_session a b \<Longrightarrow> same_session b c \<Longrightarrow> same_session a c"
  by (simp add: same_session_def)

lemma same_session_state: "same_session a b \<Longrightarrow> session_state b"
  by (simp add: same_session_def)

text \<open>
  The whole of \<open>sky_vc_process_frame\<close> for a frame of the peer: \<open>h\<close> is the number of packets the peer
  has received in order beyond the last acknowledgement.
\<close>

definition session_process :: "nat \<Rightarrow> nat \<Rightarrow> nat \<Rightarrow> bytes list \<Rightarrow> nat \<Rightarrow> bytes option list \<Rightarrow> nat \<Rightarrow> extension list \<Rightarrow> bytes \<Rightarrow>
    SkyVirtualChannel \<Rightarrow> SkyVirtualChannel \<Rightarrow> bool" where
  "session_process Ls Lr W ds m ps h es pl v v' \<longleftrightarrow>
     (\<exists>k ps'. vc_view v' Ls Lr W (drop k ds) (m - k) ps' \<and> same_session v v' \<and> (k = 0 \<or> k = h) \<and>
        s_tail_sequence (sendRing v') = s_tail_sequence (sendRing v) + of_nat k \<and>
        r_tail_sequence (rcvRing v') = r_tail_sequence (rcvRing v) \<and>
        (ps' = ps \<or> (\<exists>s. map_of es EXTENSION_ARQ_SEQUENCE = Some [s] \<and>
           (let i = readable W ps + unat (s - r_head_sequence (rcvRing v))
            in unat (s - r_head_sequence (rcvRing v)) \<le> W \<and> ps' = ps[i := Some pl] \<and> readable W ps \<le> readable W ps'))))"

lemma process_session:
  assumes view: "vc_view v Ls Lr W ds m ps" and ss: "session_state v" and t: "ticks_ok ticks" "ticks_ok now"
    and c: "carries p es pl" and h: "h \<le> m"
    and hs: "\<And>b. map_of es EXTENSION_ARQ_HANDSHAKE = Some b \<Longrightarrow> \<exists>st. b = st # mem32 (arq_session_identifier v)"
    and ct: "\<And>b. map_of es EXTENSION_ARQ_CTRL = Some b \<Longrightarrow> \<exists>t. b = [t, s_tail_sequence (sendRing v) + of_nat h]"
  shows "\<exists>ret v'. sky_vc_process_frame ticks v p now = Some (ret, v') \<and> session_process Ls Lr W ds m ps h es pl v v'"
proof -
  have p: "parsed_ok p" "payload_len p = length pl" "parsed_payload p = Some pl" "length pl \<le> 281"
    using c by (auto simp: carries_def parsed_ok_def)
  obtain v0 where v0: "process_handshake ticks v p = Some v0" "vc_view v0 Ls Lr W ds m ps" "same_session v v0"
    "sendRing v0 = sendRing v" "rcvRing v0 = rcvRing v"
    by (rule process_handshake_session [OF view ss c hs]) (assumption | rule that)+
  have ss0: "session_state v0" by (rule same_session_state [OF v0(3)])
  show ?thesis
  proof (cases "arq_state_flag v0 = ARQ_STATE_ON")
    case False
    then have "sky_vc_process_frame ticks v p now = Some (0, v0)"
      using v0(1) ss0 by (simp add: sky_vc_process_frame_def session_state_def arq_states)
    moreover have "session_process Ls Lr W ds m ps h es pl v v0"
      unfolding session_process_def by (intro exI [of _ 0] exI [of _ ps]) (use v0 in simp)
    ultimately show ?thesis by blast
  next
    case True
    have ct0: "\<And>b. map_of es EXTENSION_ARQ_CTRL = Some b \<Longrightarrow> \<exists>t. b = [t, s_tail_sequence (sendRing v0) + of_nat h]"
      using ct v0(4) by simp
    obtain v1 k where v1: "process_ctrl v0 p now = Some v1" "vc_view v1 Ls Lr W (drop k ds) (m - k) ps" "k = 0 \<or> k = h"
      "same_session v0 v1" "rcvRing v1 = rcvRing v0"
      "s_tail_sequence (sendRing v1) = s_tail_sequence (sendRing v0) + of_nat k"
      by (rule process_ctrl_session [OF v0(2) ss0 t(2) c ct0 h]) (assumption | rule that)+
    have ss1: "session_state v1" "same_session v v1"
      using same_session_state [OF v1(4)] same_session_trans [OF v0(3) v1(4)] by auto
    have seq: "s_tail_sequence (sendRing v1) = s_tail_sequence (sendRing v) + of_nat k" "rcvRing v1 = rcvRing v"
      using v1(5,6) v0(4,5) by simp_all
    show ?thesis
    proof (cases "0 < payload_len p \<and> arq_sequence p \<noteq> None")
      case False
      obtain v3 where v3: "process_request v1 p = Some v3" "vc_view v3 Ls Lr W (drop k ds) (m - k) ps" "same_session v1 v3"
        "rcvRing v3 = rcvRing v1" "s_tail_sequence (sendRing v3) = s_tail_sequence (sendRing v1)"
        by (rule process_request_session [OF v1(2) ss1(1) p(1)]) (rule that, assumption+)
      have "session_process Ls Lr W ds m ps h es pl v v1" "session_process Ls Lr W ds m ps h es pl v v3"
        unfolding session_process_def
        using v1(2,3) v3(2,4,5) seq ss1(2) same_session_trans [OF ss1(2) v3(3)] by metis+
      moreover have "sky_vc_process_frame ticks v p now = Some (if payload_len p > 0 then (- 1, v1) else (0, v3))"
        using False True v0(1) v1(1) v3(1) by (auto simp: sky_vc_process_frame_def arq_states)
      ultimately show ?thesis by (cases "payload_len p > 0") auto
    next
      case pay: True
      then obtain e where e: "arq_sequence p = Some e" by blast
      then obtain b where b: "map_of es EXTENSION_ARQ_SEQUENCE = Some b" "ext_body p e 1 = Some b"
        using carries_slot [OF c ext_slots_named(1)] by (cases "map_of es EXTENSION_ARQ_SEQUENCE") auto
      have "length b = 1" using b(2) by (auto simp: ext_body_def read_bytes_def split: if_splits)
      then obtain s where s: "b = [s]" by (cases b) auto
      obtain ret v2 ps' where v2: "sky_vc_push_rx_packet v1 pl s now = Some (ret, v2)" "vc_view v2 Ls Lr W (drop k ds) (m - k) ps'"
        "same_session v1 v2" "sendRing v2 = sendRing v1" "r_tail_sequence (rcvRing v2) = r_tail_sequence (rcvRing v1)"
        "ps' = ps \<or> (let k = readable W ps + unat (s - r_head_sequence (rcvRing v1))
           in unat (s - r_head_sequence (rcvRing v1)) \<le> W \<and> ps' = ps[k := Some pl] \<and> readable W ps \<le> readable W ps')"
        by (rule push_rx_session [OF v1(2) ss1(1) t(2) p(4)]) (rule that, assumption+)
      obtain v3 where v3: "process_request v2 p = Some v3" "vc_view v3 Ls Lr W (drop k ds) (m - k) ps'" "same_session v2 v3"
        "rcvRing v3 = rcvRing v2" "s_tail_sequence (sendRing v3) = s_tail_sequence (sendRing v2)"
        by (rule process_request_session [OF v2(2) same_session_state [OF v2(3)] p(1)]) (rule that, assumption+)
      have "sky_vc_process_frame ticks v p now = Some (0, v3)"
        using True pay e b(2) s p(3) v0(1) v1(1) v2(1) v3(1) by (simp add: sky_vc_process_frame_def arq_states)
      moreover have "same_session v v3" using same_session_trans ss1(2) v2(3) v3(3) by blast
      then have "session_process Ls Lr W ds m ps h es pl v v3"
        unfolding session_process_def
        by (intro exI [of _ k] exI [of _ ps']) (use v3(2,4,5) v2(4-6) v1(3) seq b(1) s in auto)
      ultimately show ?thesis by blast
    qed
  qed
qed

section \<open>The link\<close>

text \<open>A station is a channel with the packets it accepted for sending and the packets it delivered to its reader.\<close>

type_synonym station = "SkyVirtualChannel \<times> bytes list \<times> bytes list"

text \<open>
  The session starts when one station connects and the other takes up its handshake. \<open>swap\<close> makes every
  step available to both stations. The send window and the horizon of the peer together must not
  exceed the space of the 8 bit sequence numbers.
\<close>

inductive arq_link :: "SkyHeaderLayout \<Rightarrow> SkyARQConfig \<Rightarrow> station \<Rightarrow> station \<Rightarrow> bool"
  for ly :: SkyHeaderLayout and arq :: SkyARQConfig where
  start: "\<lbrakk> vc_reach ly arq a0; vc_reach ly arq b0;
     s_length (sendRing a0) + horizon_width (rcvRing b0) \<le> 256; s_length (sendRing b0) + horizon_width (rcvRing a0) \<le> 256;
     ticks_ok t; ticks_ok t'; sky_vc_arq_connect t a0 = Some (r, a);
     arq_state_flag b0 = ARQ_STATE_OFF \<or> arq_session_identifier b0 \<noteq> sky_hton32 (arq_session_identifier a);
     sky_vc_handle_handshake t' b0 ARQ_STATE_IN_INIT (sky_hton32 (arq_session_identifier a)) = Some (1, b) \<rbrakk>
   \<Longrightarrow> arq_link ly arq (a, [], []) (b, [], [])"
| push: "\<lbrakk> arq_link ly arq (a, Sa, Da) B; sky_vc_push_packet_to_send a d = Some (ret, a') \<rbrakk>
   \<Longrightarrow> arq_link ly arq (a', if 0 \<le> ret then Sa @ [d] else Sa, Da) B"
| read: "\<lbrakk> arq_link ly arq (a, Sa, Da) B; sky_vc_read_next_received a n = Some (ret, bs, a') \<rbrakk>
   \<Longrightarrow> arq_link ly arq (a', Sa, if ret = SKY_RET_OK then Da @ [bs] else Da) B"
| lost: "\<lbrakk> arq_link ly arq (a, Sa, Da) B; fresh_tx ly tx pre f sq es; ticks_ok now;
     sky_vc_fill_frame ly a arq tx now k = Some (ret, a', tx') \<rbrakk>
   \<Longrightarrow> arq_link ly arq (a', Sa, Da) B"
| received: "\<lbrakk> arq_link ly arq (a, Sa, Da) (b, Sb, Db); fresh_tx ly tx (frame_start idn) f sq es;
     1 \<le> length idn; length idn \<le> 7; ticks_ok now; sky_vc_fill_frame ly a arq tx now k = Some (ret, a', tx');
     hand_over ly c (tx_radio tx') = Some p; ticks_ok now'; sky_vc_process_frame now' b p now' = Some (ret', b') \<rbrakk>
   \<Longrightarrow> arq_link ly arq (a', Sa, Da) (b', Sb, Db)"
| swap: "arq_link ly arq A B \<Longrightarrow> arq_link ly arq B A"

definition link_inv :: "station \<Rightarrow> station \<Rightarrow> bool" where
  "link_inv A B \<longleftrightarrow> (case (A, B) of ((a, Sa, Da), (b, Sb, Db)) \<Rightarrow>
     session_state a \<and> session_state b \<and> arq_session_identifier b = sky_hton32 (arq_session_identifier a) \<and>
     prefix Db Sa \<and> prefix Da Sb \<and>
     (\<exists>Ls Lr W x m ps Ls' Lr' W' x' m' ps'.
        vc_view a Ls Lr W (drop x Sa) m ps \<and> vc_view b Ls' Lr' W' (drop x' Sb) m' ps' \<and> Ls + W' \<le> 256 \<and> Ls' + W \<le> 256 \<and>
        s_tail_sequence (sendRing a) = of_nat x \<and> r_tail_sequence (rcvRing a) = of_nat (length Da) \<and>
        s_tail_sequence (sendRing b) = of_nat x' \<and> r_tail_sequence (rcvRing b) = of_nat (length Db) \<and>
        direction Sa x m (length Db) W' ps' \<and> direction Sb x' m' (length Da) W ps))"

lemma link_invI:
  assumes "session_state a" "session_state b" "arq_session_identifier b = sky_hton32 (arq_session_identifier a)"
    "prefix Db Sa" "prefix Da Sb"
    "vc_view a Ls Lr W (drop x Sa) m ps" "vc_view b Ls' Lr' W' (drop x' Sb) m' ps'" "Ls + W' \<le> 256" "Ls' + W \<le> 256"
    "s_tail_sequence (sendRing a) = of_nat x" "r_tail_sequence (rcvRing a) = of_nat (length Da)"
    "s_tail_sequence (sendRing b) = of_nat x'" "r_tail_sequence (rcvRing b) = of_nat (length Db)"
    "direction Sa x m (length Db) W' ps'" "direction Sb x' m' (length Da) W ps"
  shows "link_inv (a, Sa, Da) (b, Sb, Db)"
  using assms unfolding link_inv_def by (simp only: prod.case) blast

lemma link_invE:
  assumes "link_inv (a, Sa, Da) (b, Sb, Db)"
  obtains Ls Lr W x m ps Ls' Lr' W' x' m' ps' where
    "session_state a" "session_state b" "arq_session_identifier b = sky_hton32 (arq_session_identifier a)"
    "prefix Db Sa" "prefix Da Sb"
    "vc_view a Ls Lr W (drop x Sa) m ps" "vc_view b Ls' Lr' W' (drop x' Sb) m' ps'" "Ls + W' \<le> 256" "Ls' + W \<le> 256"
    "s_tail_sequence (sendRing a) = of_nat x" "r_tail_sequence (rcvRing a) = of_nat (length Da)"
    "s_tail_sequence (sendRing b) = of_nat x'" "r_tail_sequence (rcvRing b) = of_nat (length Db)"
    "direction Sa x m (length Db) W' ps'" "direction Sb x' m' (length Da) W ps"
  using assms unfolding link_inv_def by (simp only: prod.case) blast

lemma hton32_hton32: "sky_hton32 (sky_hton32 w) = w"
  by (metis hton32_mem mem32_inj rev_rev_ident)

lemma link_inv_swap:
  assumes "link_inv A B"
  shows "link_inv B A"
proof -
  obtain a Sa Da b Sb Db where AB: "A = (a, Sa, Da)" "B = (b, Sb, Db)" by (cases A, cases B)
  from assms [unfolded AB] show ?thesis unfolding AB
    by (rule link_invE) (rule link_invI, (assumption | simp add: hton32_hton32)+)
qed

lemma vc_view_sizes:
  assumes "vc_view v Ls Lr W ds m ps"
  shows "s_length (sendRing v) = int Ls" "horizon_width (rcvRing v) = int W"
proof -
  obtain hs xs where "send_rel (sendRing v) Ls hs m" "rcv_rel (rcvRing v) Lr W xs"
    using assms by (auto simp: vc_view_def vc_rel_def)
  then show "s_length (sendRing v) = int Ls" "horizon_width (rcvRing v) = int W"
    by (simp_all add: send_rel_def rcv_rel_def rcv_at_def)
qed

lemma link_start:
  assumes "vc_reach ly arq a0" "vc_reach ly arq b0"
    "s_length (sendRing a0) + horizon_width (rcvRing b0) \<le> 256" "s_length (sendRing b0) + horizon_width (rcvRing a0) \<le> 256"
    "ticks_ok t" "ticks_ok t'" "sky_vc_arq_connect t a0 = Some (r, a)"
    "arq_state_flag b0 = ARQ_STATE_OFF \<or> arq_session_identifier b0 \<noteq> sky_hton32 (arq_session_identifier a)"
    "sky_vc_handle_handshake t' b0 ARQ_STATE_IN_INIT (sky_hton32 (arq_session_identifier a)) = Some (1, b)"
  shows "link_inv (a, [], []) (b, [], [])"
proof -
  obtain Ls Lr W ds m ps where A: "vc_view a0 Ls Lr W ds m ps" by (rule vc_reachE [OF assms(1)])
  obtain Ls' Lr' W' ds' m' ps' where B: "vc_view b0 Ls' Lr' W' ds' m' ps'" by (rule vc_reachE [OF assms(2)])
  have win: "Ls + W' \<le> 256" "Ls' + W \<le> 256"
    using vc_view_sizes [OF A] vc_view_sizes [OF B] assms(3,4) by linarith+
  obtain a1 where a1: "sky_vc_wipe_to_arq_init_state t a0 = Some a1" "vc_view a1 Ls Lr W [] 0 (replicate Lr None)"
    "arq_state_flag a1 = ARQ_STATE_IN_INIT"
    by (rule wipe_to_init [OF A, of t]) (rule that, assumption+)
  then have a: "a1 = a" using assms(7) by (simp add: sky_vc_arq_connect_def)
  obtain b1 where b1: "sky_vc_wipe_to_arq_on_state t' b0 (sky_hton32 (arq_session_identifier a)) = Some b1"
    "vc_view b1 Ls' Lr' W' [] 0 (replicate Lr' None)" "arq_state_flag b1 = ARQ_STATE_ON"
    "arq_session_identifier b1 = sky_hton32 (arq_session_identifier a)"
    by (rule wipe_to_on [OF B]) (rule that, assumption+)
  have b: "b = b1\<lparr>handshake_send := 1\<rparr>"
    using assms(8,9) b1(1) by (auto simp: sky_vc_handle_handshake_def Let_def split: if_splits)
  have bv: "vc_view b Ls' Lr' W' [] 0 (replicate Lr' None)"
    by (rule vc_view_cong [OF b1(2)]) (use b b1(3) in auto)
  have tk: "vc_ticks a" "vc_ticks b"
    using wipe_ticks(2) [OF assms(5) a1(1)] wipe_ticks(1) [OF assms(6) b1(1)] a b by (auto simp: vc_ticks_def)
  have rd: "readable w (replicate n (None :: bytes option)) = 0" for w n
    by (cases "n - w - 1") (simp_all add: readable_def)
  have dir: "direction [] 0 0 0 w (replicate n None)" for w n by (simp add: direction_def rd)
  show ?thesis
  proof (rule link_invI [where x = 0 and x' = 0 and m = 0 and m' = 0, OF _ _ _ _ _ _ _ win])
    show "session_state a" "session_state b" using tk a1(3) b1(3) a b by (auto simp: session_state_def)
    show "arq_session_identifier b = sky_hton32 (arq_session_identifier a)" using b b1(4) by simp
    show "vc_view a Ls Lr W (drop 0 []) 0 (replicate Lr None)" "vc_view b Ls' Lr' W' (drop 0 []) 0 (replicate Lr' None)"
      using a1(2) a bv by simp_all
    show "s_tail_sequence (sendRing a) = of_nat 0" "r_tail_sequence (rcvRing a) = of_nat (length [])"
      using wipe_sequences(2) [OF a1(1)] a by simp_all
    show "s_tail_sequence (sendRing b) = of_nat 0" "r_tail_sequence (rcvRing b) = of_nat (length [])"
      using wipe_sequences(3) [OF b1(1)] b by simp_all
  qed (simp_all add: dir)
qed

lemma link_push:
  assumes inv: "link_inv (a, Sa, Da) B" and p: "sky_vc_push_packet_to_send a d = Some (ret, a')"
  shows "link_inv (a', if 0 \<le> ret then Sa @ [d] else Sa, Da) B"
proof -
  obtain b Sb Db where B: "B = (b, Sb, Db)" by (cases B)
  from inv [unfolded B] obtain Ls Lr W x m ps Ls' Lr' W' x' m' ps' where
    I: "session_state a" "session_state b" "arq_session_identifier b = sky_hton32 (arq_session_identifier a)"
    "prefix Db Sa" "prefix Da Sb"
    "vc_view a Ls Lr W (drop x Sa) m ps" "vc_view b Ls' Lr' W' (drop x' Sb) m' ps'" "Ls + W' \<le> 256" "Ls' + W \<le> 256"
    "s_tail_sequence (sendRing a) = of_nat x" "r_tail_sequence (rcvRing a) = of_nat (length Da)"
    "s_tail_sequence (sendRing b) = of_nat x'" "r_tail_sequence (rcvRing b) = of_nat (length Db)"
    "direction Sa x m (length Db) W' ps'" "direction Sb x' m' (length Da) W ps"
    by (rule link_invE)
  show ?thesis
  proof (cases "length d \<le> SKY_PAYLOAD_MAX_LEN \<and> Suc (length (drop x Sa)) < Ls \<and>
      int (eb_cost (elementBuffer a) (length d)) \<le> free_elements (elementBuffer a)")
    case False
    have "a' = a \<and> ret < 0"
      using vc_push_refused [OF I(6), of d] False p vc_view_lengths(3) [OF I(6)]
      by (cases "length d \<le> SKY_PAYLOAD_MAX_LEN"; cases "Suc (length (drop x Sa)) < Ls")
        (auto simp: ret_codes not_le not_less)
    then show ?thesis using inv by simp
  next
    case True
    then have t: "length d \<le> SKY_PAYLOAD_MAX_LEN" "Suc (length (drop x Sa)) < Ls"
      "int (eb_cost (elementBuffer a) (length d)) \<le> free_elements (elementBuffer a)" by auto
    obtain a1 where a1:
      "sky_vc_push_packet_to_send a d = Some (int (unat (s_tail_sequence (sendRing a) + of_nat (length (drop x Sa)))), a1)"
      "vc_view a1 Ls Lr W (drop x Sa @ [d]) m ps" "s_tail_sequence (sendRing a1) = s_tail_sequence (sendRing a)"
      "arq_state_flag a1 = arq_state_flag a" "rcvRing a1 = rcvRing a"
      by (rule vc_push_ok [OF I(6) t]) (rule that, assumption+)
    then have e: "a1 = a'" "0 \<le> ret" using p by auto
    have ss: "session_state a'" using push_ticks [OF p] I(1) a1(4) e by (simp add: session_state_def)
    have sid: "arq_session_identifier a' = arq_session_identifier a"
      using p by (auto simp: sky_vc_push_packet_to_send_def bind_eq_Some_conv split: if_splits)
    have "x \<le> length Sa" using directionD(1) [OF I(14)] by simp
    then have v: "vc_view a' Ls Lr W (drop x (Sa @ [d])) m ps" using a1(2) e by simp
    have "link_inv (a', Sa @ [d], Da) (b, Sb, Db)"
      by (rule link_invI [OF ss I(2) _ _ I(5) v I(7-9) _ _ I(12,13) direction_push [OF I(14)] I(15)])
        (use I a1 e sid in \<open>simp_all add: prefix_prefix\<close>)
    then show ?thesis using e(2) B by simp
  qed
qed

lemma prefix_snoc_nth: "\<lbrakk> prefix D S; length D < length S \<rbrakk> \<Longrightarrow> prefix (D @ [S ! length D]) S"
  by (auto simp: prefix_def nth_append neq_Nil_conv)

lemma link_read:
  assumes inv: "link_inv (a, Sa, Da) B" and r: "sky_vc_read_next_received a n = Some (ret, bs, a')"
  shows "link_inv (a', Sa, if ret = SKY_RET_OK then Da @ [bs] else Da) B"
proof -
  obtain b Sb Db where B: "B = (b, Sb, Db)" by (cases B)
  from inv [unfolded B] obtain Ls Lr W x m ps Ls' Lr' W' x' m' ps' where
    I: "session_state a" "session_state b" "arq_session_identifier b = sky_hton32 (arq_session_identifier a)"
    "prefix Db Sa" "prefix Da Sb"
    "vc_view a Ls Lr W (drop x Sa) m ps" "vc_view b Ls' Lr' W' (drop x' Sb) m' ps'" "Ls + W' \<le> 256" "Ls' + W \<le> 256"
    "s_tail_sequence (sendRing a) = of_nat x" "r_tail_sequence (rcvRing a) = of_nat (length Da)"
    "s_tail_sequence (sendRing b) = of_nat x'" "r_tail_sequence (rcvRing b) = of_nat (length Db)"
    "direction Sa x m (length Db) W' ps'" "direction Sb x' m' (length Da) W ps"
    by (rule link_invE)
  have keep: "link_inv (a', Sa, if ret = SKY_RET_OK then Da @ [bs] else Da) B" if "a' = a" "ret \<noteq> SKY_RET_OK"
    using that inv by simp
  show ?thesis
  proof (cases "readable W ps = 0")
    case True
    then show ?thesis using keep vc_read_empty [OF I(6) True, of n] r by (auto simp: ret_codes)
  next
    case False
    then obtain d qs where ps: "ps = Some d # qs" using readable_pos_Cons by blast
    have pos: "0 < readable W (Some d # qs)" using False ps by simp
    show ?thesis
    proof (cases "length d \<le> n")
      case False
      then have "a' = a" "ret = SKY_RET_EBUFFER_TOO_LONG_PAYLOAD"
        using vc_read_too_long [OF I(6) [unfolded ps] pos, of n] r by auto
      then show ?thesis using keep by (auto simp: ret_codes)
    next
      case True
      obtain a1 where a1: "sky_vc_read_next_received a n = Some (SKY_RET_OK, d, a1)"
        "vc_view a1 Ls Lr W (drop x Sa) m (qs @ [None])" "sendRing a1 = sendRing a" "arq_state_flag a1 = arq_state_flag a"
        "r_tail_sequence (rcvRing a1) = r_tail_sequence (rcvRing a) + 1"
        by (rule vc_read_ok [OF I(6) [unfolded ps] pos True]) (rule that, assumption+)
      then have e: "a1 = a'" "ret = SKY_RET_OK" "bs = d" using r by auto
      have keeps: "vc_ticks a' = vc_ticks a" "arq_session_identifier a' = arq_session_identifier a"
        using r by (auto simp: sky_vc_read_next_received_def vc_ticks_def bind_eq_Some_conv)
      have "W + 3 \<le> Suc (length qs)" using vc_view_lengths(1,2) [OF I(6)] ps by simp
      note dr = direction_read [OF I(15) [unfolded ps] pos this]
      have "link_inv (a', Sa, Da @ [bs]) (b, Sb, Db)"
        by (rule link_invI [OF _ I(2) _ I(4) _ _ I(7-9) _ _ I(12-14)])
          (use I a1 e keeps dr prefix_snoc_nth [OF I(5)] in \<open>simp_all add: session_state_def\<close>)
      then show ?thesis using e(2) B by simp
    qed
  qed
qed

lemma link_lost:
  assumes inv: "link_inv (a, Sa, Da) B" and tx: "fresh_tx ly tx pre f sq es" and t: "ticks_ok now"
    and fl: "sky_vc_fill_frame ly a arq tx now k = Some (ret, a', tx')"
  shows "link_inv (a', Sa, Da) B"
proof -
  obtain b Sb Db where B: "B = (b, Sb, Db)" by (cases B)
  from inv [unfolded B] obtain Ls Lr W x m ps Ls' Lr' W' x' m' ps' where
    I: "session_state a" "session_state b" "arq_session_identifier b = sky_hton32 (arq_session_identifier a)"
    "prefix Db Sa" "prefix Da Sb"
    "vc_view a Ls Lr W (drop x Sa) m ps" "vc_view b Ls' Lr' W' (drop x' Sb) m' ps'" "Ls + W' \<le> 256" "Ls' + W \<le> 256"
    "s_tail_sequence (sendRing a) = of_nat x" "r_tail_sequence (rcvRing a) = of_nat (length Da)"
    "s_tail_sequence (sendRing b) = of_nat x'" "r_tail_sequence (rcvRing b) = of_nat (length Db)"
    "direction Sa x m (length Db) W' ps'" "direction Sb x' m' (length Da) W ps"
    by (rule link_invE)
  obtain f' es' pl m2 where F: "vc_view a' Ls Lr W (drop x Sa) m2 ps" "m \<le> m2" "rcvRing a' = rcvRing a"
    "s_tail_sequence (sendRing a') = s_tail_sequence (sendRing a)" "same_session a a'"
    using fill_session [OF I(6,1) t tx, of arq k] fl by (auto simp: session_fill_def)
  have "x + m2 \<le> length Sa" using vc_view_lengths(4) [OF F(1)] directionD(1) [OF I(14)] by simp
  note d2 = direction_send [OF I(14) F(2) this]
  have "link_inv (a', Sa, Da) (b, Sb, Db)"
    by (rule link_invI [OF same_session_state [OF F(5)] I(2) _ I(4,5) F(1) I(7-9) _ _ I(12,13) d2 I(15)])
      (use I F in \<open>simp_all add: same_session_def\<close>)
  then show ?thesis using B by simp
qed

text \<open>Extensions of the channel found among all extensions of a frame.\<close>

lemma frame_exts:
  assumes "fresh_tx ly tx pre f sq es" "arq_exts es'"
  shows "list_all ext_ok (es @ es')" "distinct (map fst (es @ es'))"
    "ty \<in> {EXTENSION_ARQ_SEQUENCE, EXTENSION_ARQ_REQUEST, EXTENSION_ARQ_CTRL, EXTENSION_ARQ_HANDSHAKE} \<Longrightarrow>
       map_of (es @ es') ty = map_of es' ty"
proof -
  show "list_all ext_ok (es @ es')" using assms by (simp add: fresh_tx_def arq_exts_def)
  have sub: "set (map fst es) \<subseteq> {EXTENSION_MAC_TDD_CONTROL, EXTENSION_HMAC_SEQUENCE_RESET}"
    "set (map fst es') \<subseteq> {EXTENSION_ARQ_SEQUENCE, EXTENSION_ARQ_REQUEST, EXTENSION_ARQ_CTRL, EXTENSION_ARQ_HANDSHAKE}"
    using assms by (simp_all only: fresh_tx_def arq_exts_def)
  have dis: "{EXTENSION_MAC_TDD_CONTROL, EXTENSION_HMAC_SEQUENCE_RESET} \<inter>
      {EXTENSION_ARQ_SEQUENCE, EXTENSION_ARQ_REQUEST, EXTENSION_ARQ_CTRL, EXTENSION_ARQ_HANDSHAKE} = {}"
    by (simp add: extension_types)
  have "set (map fst es) \<inter> set (map fst es') = {}" using sub dis by blast
  then show "distinct (map fst (es @ es'))" using assms by (simp add: fresh_tx_def arq_exts_def)
  assume "ty \<in> {EXTENSION_ARQ_SEQUENCE, EXTENSION_ARQ_REQUEST, EXTENSION_ARQ_CTRL, EXTENSION_ARQ_HANDSHAKE}"
  then have "ty \<notin> set (map fst es)" using sub(1) dis by blast
  then have "map_of es ty = None" by (simp add: map_of_eq_None_iff)
  then show "map_of (es @ es') ty = map_of es' ty" by (simp add: map_add_def split: option.split)
qed

lemma link_received:
  assumes inv: "link_inv (a, Sa, Da) (b, Sb, Db)" and tx: "fresh_tx ly tx (frame_start idn) f sq es"
    and il: "1 \<le> length idn" "length idn \<le> 7" and t: "ticks_ok now" "ticks_ok now'"
    and fl: "sky_vc_fill_frame ly a arq tx now k = Some (ret, a', tx')"
    and ho: "hand_over ly c (tx_radio tx') = Some p"
    and pr: "sky_vc_process_frame now' b p now' = Some (ret', b')"
  shows "link_inv (a', Sa, Da) (b', Sb, Db)"
proof -
  from inv obtain Ls Lr W x m ps Ls' Lr' W' x' m' ps' where
    I: "session_state a" "session_state b" "arq_session_identifier b = sky_hton32 (arq_session_identifier a)"
    "prefix Db Sa" "prefix Da Sb"
    "vc_view a Ls Lr W (drop x Sa) m ps" "vc_view b Ls' Lr' W' (drop x' Sb) m' ps'" "Ls + W' \<le> 256" "Ls' + W \<le> 256"
    "s_tail_sequence (sendRing a) = of_nat x" "r_tail_sequence (rcvRing a) = of_nat (length Da)"
    "s_tail_sequence (sendRing b) = of_nat x'" "r_tail_sequence (rcvRing b) = of_nat (length Db)"
    "direction Sa x m (length Db) W' ps'" "direction Sb x' m' (length Da) W ps"
    by (rule link_invE)
  obtain f' es' pl m2 where F: "vc_view a' Ls Lr W (drop x Sa) m2 ps" "m \<le> m2" "rcvRing a' = rcvRing a"
    "s_tail_sequence (sendRing a') = s_tail_sequence (sendRing a)" "same_session a a'"
    "tx_view ly tx' (frame_start idn) f' sq (es @ es') pl" "bit f' 4 \<or> pl = []" "arq_exts es'"
    "session_exts a (drop x Sa) m2 es' pl"
    using fill_session [OF I(6,1) t(1) tx, of arq k] fl by (auto simp: session_fill_def)
  have m2: "x + m2 \<le> length Sa" "m2 + W' < 256"
    using vc_view_lengths(3,4) [OF F(1)] directionD(1) [OF I(14)] I(8) by simp_all
  note d2 = direction_send [OF I(14) F(2) m2(1)]
  note E = frame_exts [OF tx F(8)]
  have "radio_view ly (tx_radio tx') (frame_start idn) f' sq (es @ es') pl" using F(6) by (simp add: tx_view_def)
  then have c: "carries p (es @ es') pl" by (rule hand_over_carries [OF _ il E(1,2) F(7) ho])
  define h where "h = length Da + readable W ps - x'"
  have h: "x' + h = length Da + readable W ps" "h \<le> m'" using directionD(2,3) [OF I(15)] by (auto simp: h_def)
  have head: "r_head_sequence (rcvRing a) = s_tail_sequence (sendRing b) + of_nat h"
    using vc_view_lengths(8) [OF I(6)] I(11,12) h(1) by (simp flip: of_nat_add)
  have "\<exists>r v. sky_vc_process_frame now' b p now' = Some (r, v) \<and>
      session_process Ls' Lr' W' (drop x' Sb) m' ps' h (es @ es') pl b v"
  proof (rule process_session [OF I(7,2) t(2) t(2) c h(2)])
    show "\<exists>st. bb = st # mem32 (arq_session_identifier b)" if "map_of (es @ es') EXTENSION_ARQ_HANDSHAKE = Some bb" for bb
      using that E(3) F(9) I(3) by (simp add: session_exts_def)
    show "\<exists>t. bb = [t, s_tail_sequence (sendRing b) + of_nat h]" if "map_of (es @ es') EXTENSION_ARQ_CTRL = Some bb" for bb
      using that E(3) F(9) head by (simp add: session_exts_def)
  qed
  then have "session_process Ls' Lr' W' (drop x' Sb) m' ps' h (es @ es') pl b b'" using pr by auto
  then obtain j qs where P: "vc_view b' Ls' Lr' W' (drop j (drop x' Sb)) (m' - j) qs" "same_session b b'" "j = 0 \<or> j = h"
    "s_tail_sequence (sendRing b') = s_tail_sequence (sendRing b) + of_nat j"
    "r_tail_sequence (rcvRing b') = r_tail_sequence (rcvRing b)"
    "qs = ps' \<or> (\<exists>s. map_of (es @ es') EXTENSION_ARQ_SEQUENCE = Some [s] \<and>
       (let i = readable W' ps' + unat (s - r_head_sequence (rcvRing b))
        in unat (s - r_head_sequence (rcvRing b)) \<le> W' \<and> qs = ps'[i := Some pl] \<and> readable W' ps' \<le> readable W' qs))"
    unfolding session_process_def by blast
  have ack: "direction Sb (x' + j) (m' - j) (length Da) W ps"
    using P(3) I(15) direction_ack [OF I(15) h(1)] by auto
  have fwd: "direction Sa x m2 (length Db) W' qs"
  proof (cases "qs = ps'")
    case True
    then show ?thesis using d2 by simp
  next
    case False
    then obtain s where s: "map_of es' EXTENSION_ARQ_SEQUENCE = Some [s]" "unat (s - r_head_sequence (rcvRing b)) \<le> W'"
      "qs = ps'[readable W' ps' + unat (s - r_head_sequence (rcvRing b)) := Some pl]" "readable W' ps' \<le> readable W' qs"
      using P(6) E(3) by (auto simp: Let_def)
    obtain i where i: "i < m2" "s = s_tail_sequence (sendRing a) + of_nat i" "pl = drop x Sa ! i"
      using F(9) s(1) by (auto simp: session_exts_def)
    have sj: "s = of_nat (x + i)" using i(2) I(10) by simp
    have hb: "r_head_sequence (rcvRing b) = of_nat (length Db + readable W' ps')"
      using vc_view_lengths(8) [OF I(7)] I(13) by simp
    have pl: "pl = Sa ! (x + i)" using i m2(1) by simp
    have W: "W' + 3 \<le> length ps'" using vc_view_lengths(1,2) [OF I(7)] by simp
    show ?thesis
      using direction_store [OF d2 W m2(2), of "x + i"] s(2-4) i(1) unfolding sj hb pl by simp
  qed
  show ?thesis
    by (rule link_invI [OF same_session_state [OF F(5)] same_session_state [OF P(2)] _ I(4,5) F(1) _ I(8,9) _ _ _ _ fwd ack])
      (use I F P in \<open>simp_all add: same_session_def add.commute\<close>)
qed

lemma arq_link_inv: "arq_link ly arq A B \<Longrightarrow> link_inv A B"
proof (induction rule: arq_link.induct)
  case (start a0 b0 t t' r a b)
  then show ?case by (rule link_start)
next
  case (push a Sa Da B d ret a')
  show ?case by (rule link_push [OF push.IH push.hyps(2)])
next
  case (read a Sa Da B n ret bs a')
  show ?case by (rule link_read [OF read.IH read.hyps(2)])
next
  case (lost a Sa Da B tx pre f sq es now k ret a' tx')
  show ?case by (rule link_lost [OF lost.IH lost.hyps(2-4)])
next
  case (received a Sa Da b Sb Db tx idn f sq es now k ret a' tx' c p now' ret' b')
  show ?case by (rule link_received [OF received.IH received.hyps(2-5,8,6,7,9)])
next
  case (swap A B)
  show ?case by (rule link_inv_swap [OF swap.IH])
qed

section \<open>Setting up a session\<close>

lemma process_keeps_flags:
  "process_ctrl v p now = Some v' \<Longrightarrow>
     arq_state_flag v' = arq_state_flag v \<and> arq_session_identifier v' = arq_session_identifier v"
  "process_request v p = Some v' \<Longrightarrow>
     arq_state_flag v' = arq_state_flag v \<and> arq_session_identifier v' = arq_session_identifier v"
  by (auto simp: process_ctrl_def process_request_def sky_vc_update_tx_sync_def sky_vc_update_rx_sync_def Let_def
      bind_eq_Some_conv split: option.splits if_splits)

text \<open>A handshake that turns a channel on, in a frame without payload.\<close>

lemma process_turned_on:
  assumes c: "carries p es []" and b: "map_of es EXTENSION_ARQ_HANDSHAKE = Some (st # mem32 q)"
    and h: "sky_vc_handle_handshake ticks v st q = Some (r, v0)" "arq_state_flag v0 = ARQ_STATE_ON" "vc_ok Ls Lr W v0"
    and t: "ticks_ok now"
  obtains ret v' where "sky_vc_process_frame ticks v p now = Some (ret, v')" "arq_state_flag v' = ARQ_STATE_ON"
    "arq_session_identifier v' = arq_session_identifier v0"
    "map_of es EXTENSION_ARQ_CTRL = None \<Longrightarrow> map_of es EXTENSION_ARQ_REQUEST = None \<Longrightarrow> v' = v0"
proof -
  have p: "parsed_ok p" "payload_len p = 0" using c by (auto simp: carries_def)
  obtain e where e: "arq_handshake p = Some e" "ext_body p e 5 = Some (st # mem32 q)"
    using carries_slot [OF c ext_slots_named(4)] b by auto
  then have h0: "process_handshake ticks v p = Some v0"
    using h(1) by (simp add: process_handshake_def mem32_def load32_mem)
  obtain v1 where v1: "process_ctrl v0 p now = Some v1" "vc_ok Ls Lr W v1" by (rule process_ctrl_ok [OF h(3) t p(1)])
  obtain v2 where v2: "process_request v1 p = Some v2" by (rule process_request_ok [OF v1(2) p(1)])
  have "sky_vc_process_frame ticks v p now = Some (0, v2)"
    using h0 h(2) v1(1) v2 p(2) by (simp add: sky_vc_process_frame_def arq_states)
  moreover have "v2 = v0" if "map_of es EXTENSION_ARQ_CTRL = None" "map_of es EXTENSION_ARQ_REQUEST = None"
  proof -
    have "arq_ctrl p = None" "arq_request p = None"
      using carries_slot [OF c ext_slots_named(3)] carries_slot [OF c ext_slots_named(2)] that by simp_all
    then show ?thesis using v1(1) v2 by (simp add: process_ctrl_def process_request_def)
  qed
  ultimately show ?thesis using that process_keeps_flags v1(1) v2 h(2) by metis
qed

text \<open>The first frame of a connecting station and the answer to it.\<close>

lemma connect_frame:
  assumes init: "arq_state_flag v = ARQ_STATE_IN_INIT" and idle: "0 < arq_idle_frames_per_window arq"
    and tx: "fresh_tx ly tx (frame_start idn) f sq es" and il: "length idn \<in> {1..7}" and c: "other_identity c idn"
  obtains tx' p es' where "sky_vc_fill_frame ly v arq tx now 0 = Some (1, v, tx')" "hand_over ly c (tx_radio tx') = Some p"
    "carries p es' []"
    "map_of es' EXTENSION_ARQ_HANDSHAKE = Some (ARQ_STATE_IN_INIT # mem32 (sky_hton32 (arq_session_identifier v)))"
    "map_of es' EXTENSION_ARQ_CTRL = None" "map_of es' EXTENSION_ARQ_REQUEST = None"
proof -
  let ?e = "(EXTENSION_ARQ_HANDSHAKE, ARQ_STATE_IN_INIT # mem32 (sky_hton32 (arq_session_identifier v)))"
  have i0: "int 0 < arq_idle_frames_per_window arq" using idle by simp
  obtain tx' where r: "sky_vc_fill_frame ly v arq tx now 0 = Some (1, v, tx')" "tx_view ly tx' (frame_start idn) f sq (es @ [?e]) []"
    by (rule fill_init_ok [OF init tx i0])
  have ae: "arq_exts [?e]" by (auto simp: arq_exts_def ext_ok_def ext_size_def extension_types)
  note E = frame_exts [OF tx ae]
  have rv: "radio_view ly (tx_radio tx') (frame_start idn) f sq (es @ [?e]) []" using r(2) by (simp add: tx_view_def)
  have len: "1 \<le> length idn" "length idn \<le> 7" using il by auto
  obtain p where p: "hand_over ly c (tx_radio tx') = Some p" "carries p (es @ [?e]) []"
    using hand_over_ok [OF rv len c E(1,2)] by auto
  show ?thesis by (rule that [OF r(1) p]) (use E(3) in \<open>simp_all add: extension_types\<close>)
qed

lemma answer_frame:
  assumes view: "vc_view v Ls Lr W [] 0 ps" and on: "arq_state_flag v = ARQ_STATE_ON" and t: "vc_ticks v" "ticks_ok now"
    and hs: "0 < handshake_send v" and rc: "resend_count (sendRing v) = 0"
    and tx: "fresh_tx ly tx (frame_start idn) f sq es" and il: "length idn \<in> {1..7}" and c: "other_identity c idn"
  obtains v' tx' p es' where "sky_vc_fill_frame ly v arq tx now k = Some (1, v', tx')" "same_rings v v'"
    "hand_over ly c (tx_radio tx') = Some p" "carries p es' []"
    "map_of es' EXTENSION_ARQ_HANDSHAKE = Some (ARQ_STATE_ON # mem32 (sky_hton32 (arq_session_identifier v)))"
proof -
  obtain mk where mk: "rcvRing_get_horizon_bitmap (rcvRing v) = Some mk" using vc_bitmap [OF view] by blast
  have n: "sendRing_count_packets_to_send (sendRing v) True = Some 0"
    using vc_count_to_send [OF view, of True] rc by (simp add: pending_resends_def)
  define on_es where "on_es = on_exts v arq (int k < arq_idle_frames_per_window arq) now mk 0"
  obtain v3 tx3 where r: "sky_vc_fill_frame ly v arq tx now k = fill_payload ly (of_bool (on_es \<noteq> [])) v3 tx3"
    "same_rings v v3" "vc_ticks v3" "tx_view ly tx3 (frame_start idn) (set_bit 2 f) sq (es @ on_es) []"
    unfolding on_es_def by (rule fill_on_ok [OF view on tx t mk n refl])
  have h: "map_of on_es EXTENSION_ARQ_HANDSHAKE = Some (ARQ_STATE_ON # mem32 (sky_hton32 (arq_session_identifier v)))"
    using hs by (simp add: on_es_def on_exts_def handshake_exts_def)
  then have ne: "on_es \<noteq> []" by auto
  have fill: "sky_vc_fill_frame ly v arq tx now k = Some (1, v3, tx3)"
    using r(1,2) n ne by (simp add: fill_payload_def same_rings_def)
  have ae: "arq_exts on_es" unfolding on_es_def by (rule arq_exts_on(1))
  note E = frame_exts [OF tx ae]
  have rv: "radio_view ly (tx_radio tx3) (frame_start idn) (set_bit 2 f) sq (es @ on_es) []" using r(4) by (simp add: tx_view_def)
  have len: "1 \<le> length idn" "length idn \<le> 7" using il by auto
  obtain p where "hand_over ly c (tx_radio tx3) = Some p" "carries p (es @ on_es) []"
    using hand_over_ok [OF rv len c E(1,2)] by auto
  then show ?thesis using that [OF fill r(2)] E(3) h by simp
qed

section \<open>Properties\<close>

text \<open>
  C1: the promise of the ARQ. Two stations set up a session and then push, read and exchange frames in
  any order; any frame may be lost, and what is received is parsed from the bytes that were sent. At
  every moment what each side has read is a prefix of what the other side accepted: nothing is lost
  in between, duplicated, altered or reordered. Required is only that the send window of each side and
  the receive horizon of the other fit together into the 8 bit sequence space.
\<close>

theorem arq_reliable:
  assumes "arq_link ly arq (a, Sa, Da) (b, Sb, Db)"
  shows "prefix Db Sa \<and> prefix Da Sb"
  using arq_link_inv [OF assms] by (auto simp: link_inv_def)

text \<open>Two sample stations at the start of a session.\<close>

lemma sample_session:
  obtains a b where "arq_link layout_gcc sample_arq_conf (a, [], []) (b, [], [])"
    "vc_view a 20 20 16 [] 0 (replicate 20 None)"
proof -
  obtain v where v: "vc_reach layout_gcc sample_arq_conf v" "vc_view v 20 20 16 [] 0 (replicate 20 None)"
    "arq_state_flag v = ARQ_STATE_OFF" by (rule sample_vc) (rule that, assumption+)
  obtain a where a: "sky_vc_wipe_to_arq_init_state 5 v = Some a" "vc_view a 20 20 16 [] 0 (replicate 20 None)"
    by (rule wipe_to_init [OF v(2), of 5]) (rule that, assumption+)
  obtain b where b: "sky_vc_wipe_to_arq_on_state 6 v (sky_hton32 (arq_session_identifier a)) = Some b"
    by (rule wipe_to_on [OF v(2)]) (rule that, assumption+)
  have "arq_link layout_gcc sample_arq_conf (a, [], []) (b\<lparr>handshake_send := 1\<rparr>, [], [])"
  proof (rule arq_link.start [OF v(1) v(1)])
    show "s_length (sendRing v) + horizon_width (rcvRing v) \<le> 256" using vc_view_sizes [OF v(2)] by simp
    then show "s_length (sendRing v) + horizon_width (rcvRing v) \<le> 256" .
    show "ticks_ok 5" "ticks_ok 6" by (simp_all add: ticks_ok_def MOD_TIME_TICKS_def)
    show "sky_vc_arq_connect 5 v = Some (SKY_RET_OK, a)" using a(1) by (simp add: sky_vc_arq_connect_def)
    show "sky_vc_handle_handshake 6 v ARQ_STATE_IN_INIT (sky_hton32 (arq_session_identifier a)) = Some (1, b\<lparr>handshake_send := 1\<rparr>)"
      using b v(3) by (simp add: sky_vc_handle_handshake_def)
  qed (simp add: v(3))
  then show ?thesis using that a(2) by blast
qed

theorem arq_reliable_witness:
  "\<exists>a b ret a'. arq_link layout_gcc sample_arq_conf (a, [], []) (b, [], []) \<and>
     sky_vc_push_packet_to_send a [1, 2, 3] = Some (ret, a') \<and>
     arq_link layout_gcc sample_arq_conf (a', if 0 \<le> ret then [[1, 2, 3]] else [], []) (b, [], []) \<and>
     prefix [] (if 0 \<le> ret then [[1 :: byte, 2, 3]] else [])"
proof -
  obtain a b where ab: "arq_link layout_gcc sample_arq_conf (a, [], []) (b, [], [])"
    "vc_view a 20 20 16 [] 0 (replicate 20 None)" by (rule sample_session)
  then have "vc_ticks a" using arq_link_inv [OF ab(1)] by (auto simp: link_inv_def session_state_def)
  then have "vc_ok 20 20 16 a" using ab(2) by (auto simp: vc_ok_def)
  from push_keeps [OF this, of "[1, 2, 3]"] obtain ret a' where p: "sky_vc_push_packet_to_send a [1, 2, 3] = Some (ret, a')"
    by blast
  have l: "arq_link layout_gcc sample_arq_conf (a', if 0 \<le> ret then [[1, 2, 3]] else [], []) (b, [], [])"
    using arq_link.push [OF ab(1) p] by (cases "0 \<le> ret") auto
  from arq_reliable [OF l] show ?thesis using ab(1) p l by blast
qed

text \<open>
  C26: a session is set up by two frames. A station that connects sends a frame with its session
  identifier; a station with ARQ off that receives it turns ARQ on, with empty rings, and answers in
  its next frame; the first station then has ARQ on, too, with the identifier it had chosen. The
  second one keeps the identifier in the other byte order, which its answer undoes.
\<close>

theorem handshake_establishes:
  assumes "vc_reach ly arq a0" "vc_reach ly arq b0" "arq_state_flag b0 = ARQ_STATE_OFF"
    "0 < arq_idle_frames_per_window arq" "ticks_ok t" "ticks_ok t1" "ticks_ok t2" "ticks_ok t3" "ticks_ok t4"
    "fresh_tx ly txa (frame_start ida) fa qa ea" "fresh_tx ly txb (frame_start idb) fb qb eb"
    "length ida \<in> {1..7}" "length idb \<in> {1..7}" "other_identity cb ida" "other_identity ca idb"
  shows "\<exists>a txa' p r b txb' b' p' r' a'.
    sky_vc_arq_connect t a0 = Some (SKY_RET_OK, a) \<and>
    sky_vc_fill_frame ly a arq txa t1 0 = Some (1, a, txa') \<and> hand_over ly cb (tx_radio txa') = Some p \<and>
    sky_vc_process_frame t2 b0 p t2 = Some (r, b) \<and>
    sky_vc_fill_frame ly b arq txb t3 0 = Some (1, b', txb') \<and> hand_over ly ca (tx_radio txb') = Some p' \<and>
    sky_vc_process_frame t4 a p' t4 = Some (r', a') \<and>
    arq_state_flag a' = ARQ_STATE_ON \<and> arq_state_flag b' = ARQ_STATE_ON \<and>
    arq_session_identifier a' = word_of_int t \<and> arq_session_identifier b' = sky_hton32 (word_of_int t)"
proof -
  obtain Ls Lr W ds m ps where A: "vc_view a0 Ls Lr W ds m ps" by (rule vc_reachE [OF assms(1)])
  obtain Ls' Lr' W' ds' m' ps' where B: "vc_view b0 Ls' Lr' W' ds' m' ps'" by (rule vc_reachE [OF assms(2)])
  obtain a where a: "sky_vc_wipe_to_arq_init_state t a0 = Some a" "vc_view a Ls Lr W [] 0 (replicate Lr None)"
    "arq_state_flag a = ARQ_STATE_IN_INIT" "arq_session_identifier a = word_of_int t"
    by (rule wipe_to_init [OF A, of t]) (rule that, assumption+)
  obtain txa' p es where f1: "sky_vc_fill_frame ly a arq txa t1 0 = Some (1, a, txa')" "hand_over ly cb (tx_radio txa') = Some p"
    "carries p es []" "map_of es EXTENSION_ARQ_HANDSHAKE = Some (ARQ_STATE_IN_INIT # mem32 (sky_hton32 (arq_session_identifier a)))"
    "map_of es EXTENSION_ARQ_CTRL = None" "map_of es EXTENSION_ARQ_REQUEST = None"
    by (rule connect_frame [OF a(3) assms(4,10,12,14)]) (rule that, assumption+)
  obtain b0' where w: "sky_vc_wipe_to_arq_on_state t2 b0 (sky_hton32 (arq_session_identifier a)) = Some b0'"
    "vc_view b0' Ls' Lr' W' [] 0 (replicate Lr' None)" "arq_state_flag b0' = ARQ_STATE_ON"
    "arq_session_identifier b0' = sky_hton32 (arq_session_identifier a)"
    by (rule wipe_to_on [OF B]) (rule that, assumption+)
  define b where "b = b0'\<lparr>handshake_send := 1\<rparr>"
  have bh: "sky_vc_handle_handshake t2 b0 ARQ_STATE_IN_INIT (sky_hton32 (arq_session_identifier a)) = Some (1, b)"
    using w(1) assms(3) by (simp add: sky_vc_handle_handshake_def b_def)
  have bv: "vc_view b Ls' Lr' W' [] 0 (replicate Lr' None)" "vc_ticks b" "arq_state_flag b = ARQ_STATE_ON"
    using vc_view_cong [OF w(2), of b] w(3) wipe_ticks(1) [OF assms(7) w(1)] by (auto simp: b_def vc_ticks_def)
  have b_ok: "vc_ok Ls' Lr' W' b" using bv by (auto simp: vc_ok_def)
  obtain r b1 where pb: "sky_vc_process_frame t2 b0 p t2 = Some (r, b1)"
    "map_of es EXTENSION_ARQ_CTRL = None \<Longrightarrow> map_of es EXTENSION_ARQ_REQUEST = None \<Longrightarrow> b1 = b"
    by (rule process_turned_on [OF f1(3,4) bh bv(3) b_ok assms(7)]) (rule that, assumption+)
  have b1: "b1 = b" by (rule pb(2) [OF f1(5,6)])
  have rc: "resend_count (sendRing b) = 0" "0 < handshake_send b" using wipe_resends(1) [OF w(1)] by (simp_all add: b_def)
  obtain b' txb' p' es' where f2: "sky_vc_fill_frame ly b arq txb t3 0 = Some (1, b', txb')" "same_rings b b'"
    "hand_over ly ca (tx_radio txb') = Some p'" "carries p' es' []"
    "map_of es' EXTENSION_ARQ_HANDSHAKE = Some (ARQ_STATE_ON # mem32 (sky_hton32 (arq_session_identifier b)))"
    by (rule answer_frame [OF bv(1,3,2) assms(8) rc(2,1) assms(11,13,15)]) (rule that, assumption+)
  define a1 where "a1 = a\<lparr>arq_state_flag := ARQ_STATE_ON, handshake_send := 0\<rparr>"
  have q: "sky_hton32 (arq_session_identifier b) = arq_session_identifier a" by (simp add: b_def w(4) hton32_hton32)
  have ah: "sky_vc_handle_handshake t4 a ARQ_STATE_ON (arq_session_identifier a) = Some (1, a1)"
    using a(3) by (simp add: sky_vc_handle_handshake_def Let_def a1_def arq_states)
  have a1: "vc_ok Ls Lr W a1" "arq_state_flag a1 = ARQ_STATE_ON"
    using vc_view_cong [OF a(2), of a1] wipe_ticks(2) [OF assms(5) a(1)] by (auto simp: a1_def vc_ok_def vc_ticks_def)
  obtain r' a' where pa: "sky_vc_process_frame t4 a p' t4 = Some (r', a')" "arq_state_flag a' = ARQ_STATE_ON"
    "arq_session_identifier a' = arq_session_identifier a1"
    by (rule process_turned_on [OF f2(4) f2(5) [unfolded q] ah a1(2,1) assms(9)]) (rule that, assumption+)
  have "sky_vc_arq_connect t a0 = Some (SKY_RET_OK, a)" using a(1) by (simp add: sky_vc_arq_connect_def)
  moreover have "arq_state_flag b' = ARQ_STATE_ON" "arq_session_identifier b' = sky_hton32 (word_of_int t)"
    using f2(2) bv(3) w(4) a(4) by (simp_all add: same_rings_def b_def)
  moreover have "arq_session_identifier a' = word_of_int t" using pa(3) a(4) by (simp add: a1_def)
  ultimately show ?thesis using f1(1,2) pb(1) [unfolded b1] f2(1,3) pa(1,2) by blast
qed

theorem handshake_establishes_witness:
  "\<exists>c' v a r' a' (b' :: SkyVirtualChannel) p'. sky_vc_create (\<lambda>_. 0) sample_vc_conf = Some (c', v) \<and> sky_vc_arq_connect 5 v = Some (SKY_RET_OK, a) \<and>
     sky_vc_process_frame 9 a p' 9 = Some (r', a') \<and> arq_state_flag a' = ARQ_STATE_ON \<and>
     arq_session_identifier a' = 5 \<and> arq_session_identifier b' = sky_hton32 5"
proof -
  obtain v where v: "sky_vc_create (\<lambda>_. 0) sample_vc_conf = Some (sanitise_vc_config sample_vc_conf, v)"
    "vc_reach layout_gcc sample_arq_conf v" "arq_state_flag v = ARQ_STATE_OFF"
    by (rule sample_vc) (rule that, assumption+)
  have fr: "fresh_tx layout_gcc sample_tx (frame_start [1, 2, 3]) 0 0 []"
    using sample_tx_fresh by (simp add: frame_start_def SKYLINK_FRAME_VERSION_BYTE_def)
  have oc: "other_identity sample_conf [1, 2, 3]"
    by (simp add: other_identity_def sample_conf_def SKY_MAX_IDENTITY_LEN_def)
  have t: "ticks_ok 5" "ticks_ok 6" "ticks_ok 7" "ticks_ok 8" "ticks_ok 9"
    by (simp_all add: ticks_ok_def MOD_TIME_TICKS_def)
  have il: "length [1 :: byte, 2, 3] \<in> {1..7}" "0 < arq_idle_frames_per_window sample_arq_conf"
    by (simp_all add: sample_arq_conf_def)
  from handshake_establishes [OF v(2,2,3) il(2) t fr fr il(1,1) oc oc] obtain a p' r' a' and b' :: SkyVirtualChannel where
    "sky_vc_arq_connect 5 v = Some (SKY_RET_OK, a)" "sky_vc_process_frame 9 a p' 9 = Some (r', a')"
    "arq_state_flag a' = ARQ_STATE_ON" "arq_session_identifier a' = word_of_int 5"
    "arq_session_identifier b' = sky_hton32 (word_of_int 5)" by blast
  then show ?thesis using v(1) by auto
qed

end
