(* ===== verification/Hmac_Correct.thy ===== *)
theory Hmac_Correct
  imports Rx_Parse_Correct
begin

text \<open>
  Correctness of the authentication layer. A frame extended by \<open>sky_hmac_extend_with_authentication\<close>
  is accepted by a receiver with the same key; an accepted frame carries the right code and an
  acceptable sequence number; an accepted frame is not accepted twice. The keyed hash is arbitrary
  throughout: nothing depends on properties of BLAKE3.
\<close>

section \<open>State\<close>

definition hmac_inv :: "SkyHMAC \<Rightarrow> bool" where
  "hmac_inv h \<longleftrightarrow> length (sequence_tx h) = SKY_NUM_VIRTUAL_CHANNELS \<and> length (sequence_rx h) = SKY_NUM_VIRTUAL_CHANNELS \<and>
     length (vc_enforcement_need h) = SKY_NUM_VIRTUAL_CHANNELS"

definition sky_lists_ok :: "SkyAll \<Rightarrow> bool" where
  "sky_lists_ok self \<longleftrightarrow> hmac_inv (sky_hmac self) \<and> length (conf_vc (sky_conf self)) = SKY_NUM_VIRTUAL_CHANNELS"

lemma hmac_create_inv: "sky_hmac_create c = Some h \<Longrightarrow> hmac_inv h"
  by (auto simp: sky_hmac_create_def hmac_inv_def bind_eq_Some_conv split: if_splits)

lemma length_digest [simp]: "length (digest hash key msg) = SKY_HMAC_LENGTH"
  by (simp add: digest_def)

lemma header_vc: "unat (f AND 3 :: byte) < SKY_NUM_VIRTUAL_CHANNELS"
proof -
  have "f AND 3 \<le> 3" by (rule word_and_le1)
  then show ?thesis by (simp add: word_le_nat_alt SKY_NUM_VIRTUAL_CHANNELS_def)
qed

section \<open>Sequence numbers\<close>

lemma load_loop_ok:
  assumes "hmac_inv h" "length sequences = 2 * SKY_NUM_VIRTUAL_CHANNELS" "vc + n = SKY_NUM_VIRTUAL_CHANNELS"
  shows "\<exists>h'. load_loop h sequences vc n = Some h' \<and> hmac_inv h' \<and> hmac_key h' = hmac_key h \<and>
    vc_enforcement_need h' = vc_enforcement_need h \<and>
    (\<forall>i < SKY_NUM_VIRTUAL_CHANNELS. sequence_tx h' ! i = (if vc \<le> i then sequences ! (2 * i) else sequence_tx h ! i) \<and>
       sequence_rx h' ! i = (if vc \<le> i then sequences ! (2 * i + 1) else sequence_rx h ! i))"
  using assms
proof (induction n arbitrary: h vc)
  case 0
  then show ?case by auto
next
  case (Suc n)
  define h1 where "h1 = h\<lparr>sequence_tx := (sequence_tx h)[vc := sequences ! (2 * vc)],
    sequence_rx := (sequence_rx h)[vc := sequences ! (2 * vc + 1)]\<rparr>"
  have vc: "vc < SKY_NUM_VIRTUAL_CHANNELS" using Suc.prems(3) by simp
  have inv: "hmac_inv h1" using Suc.prems(1) by (simp add: hmac_inv_def h1_def)
  have step: "load_loop h sequences vc (Suc n) = load_loop h1 sequences (vc + 1) n"
    using Suc.prems(1,2) vc by (simp add: hmac_inv_def h1_def)
  obtain h' where h': "load_loop h1 sequences (vc + 1) n = Some h'" "hmac_inv h'" "hmac_key h' = hmac_key h1"
    "vc_enforcement_need h' = vc_enforcement_need h1"
    "\<forall>i < SKY_NUM_VIRTUAL_CHANNELS. sequence_tx h' ! i = (if vc + 1 \<le> i then sequences ! (2 * i) else sequence_tx h1 ! i) \<and>
       sequence_rx h' ! i = (if vc + 1 \<le> i then sequences ! (2 * i + 1) else sequence_rx h1 ! i)"
    using Suc.IH [OF inv Suc.prems(2), of "vc + 1"] Suc.prems(3) by auto
  have "sequence_tx h' ! i = (if vc \<le> i then sequences ! (2 * i) else sequence_tx h ! i) \<and>
      sequence_rx h' ! i = (if vc \<le> i then sequences ! (2 * i + 1) else sequence_rx h ! i)"
    if "i < SKY_NUM_VIRTUAL_CHANNELS" for i
    using h'(5) that Suc.prems(1) by (cases "i = vc") (auto simp: h1_def hmac_inv_def not_le)
  then show ?case using step h'(1-4) by (simp add: h1_def)
qed

lemma dump_loop_ok:
  assumes "hmac_inv h" "vc + n = SKY_NUM_VIRTUAL_CHANNELS"
  shows "\<exists>sq. dump_loop h vc n = Some sq \<and> length sq = 2 * n \<and>
    (\<forall>i < n. sq ! (2 * i) = sequence_tx h ! (vc + i) \<and> sq ! (2 * i + 1) = sequence_rx h ! (vc + i))"
  using assms
proof (induction n arbitrary: vc)
  case (Suc n)
  then obtain sq where sq: "dump_loop h (vc + 1) n = Some sq" "length sq = 2 * n"
    "\<forall>i < n. sq ! (2 * i) = sequence_tx h ! (vc + 1 + i) \<and> sq ! (2 * i + 1) = sequence_rx h ! (vc + 1 + i)"
    using Suc.IH [of "vc + 1"] by auto
  have d: "dump_loop h vc (Suc n) = Some (sequence_tx h ! vc # sequence_rx h ! vc # sq)"
    using sq(1) Suc.prems by (simp add: hmac_inv_def)
  have "(sequence_tx h ! vc # sequence_rx h ! vc # sq) ! (2 * i) = sequence_tx h ! (vc + i) \<and>
      (sequence_tx h ! vc # sequence_rx h ! vc # sq) ! (2 * i + 1) = sequence_rx h ! (vc + i)" if "i < Suc n" for i
    using sq(3) that by (cases i) auto
  then show ?case using d sq(2) by simp
qed simp

lemma even_odd_cases: "j < 2 * n \<Longrightarrow> (\<exists>i < n. j = 2 * i) \<or> (\<exists>i < n. j = 2 * i + (1 :: nat))"
  by (metis add.commute mult_2 nat_mult_less_cancel_disj even_two_times_div_two odd_two_times_div_two_succ
      Suc_eq_plus1 add_lessD1 mult.commute less_mult_imp_div_less)

section \<open>Checking a frame\<close>

text \<open>The fields of the static header that the check looks at.\<close>

lemma header_reads:
  assumes "layout_ok ly"
  shows "hdr_vc (mk_hd ly f sq n) 0 = Some (unat (f AND 3))" "hdr_frame_sequence ly (mk_hd ly f sq n) 0 = Some sq"
    "hdr_set_frame_sequence ly (mk_hd ly f sq n) 0 sq' = Some (mk_hd ly f sq' n)"
    "flag_authenticated (mk_hd ly f sq n) 0 = Some (bit f 3)"
proof -
  have p: "0 < hdr_sizeof ly" "off_frame_sequence ly + 2 \<le> hdr_sizeof ly" using assms by (auto simp: layout_ok_def)
  note F = mk_hd_fields [OF assms, of f sq n]
  show "hdr_vc (mk_hd ly f sq n) 0 = Some (unat (f AND 3))" "flag_authenticated (mk_hd ly f sq n) 0 = Some (bit f 3)"
    using p F(1) by (simp_all add: hdr_vc_def flag_authenticated_def hdr_flag_def)
  show "hdr_frame_sequence ly (mk_hd ly f sq n) 0 = Some sq"
    using p F(3,4) by (simp add: hdr_frame_sequence_def mem16_def load16_mem)
  show "hdr_set_frame_sequence ly (mk_hd ly f sq n) 0 sq' = Some (mk_hd ly f sq' n)"
    using p mk_hd_updates(3) [OF assms, of f sq n sq'] by (simp add: hdr_set_frame_sequence_def write_bytes_def)
qed

text \<open>What the check may rely on: the header copy is complete and all offsets lie inside the frame.\<close>

definition check_pre :: "SkyHeaderLayout \<Rightarrow> SkyAll \<Rightarrow> SkyRadioFrame \<Rightarrow> SkyParsedFrame \<Rightarrow> bool" where
  "check_pre ly self frame p \<longleftrightarrow>
     layout_ok ly \<and> sky_lists_ok self \<and> length (p_hdr p) = hdr_sizeof ly \<and> p_raw p = raw frame \<and>
     frame_len frame \<le> length (raw frame) \<and> payload_len p \<le> frame_len frame \<and> parsed_ok p"

definition parsed_vc :: "SkyParsedFrame \<Rightarrow> nat" where
  "parsed_vc p = unat (p_hdr p ! 0 AND 3)"

definition parsed_sequence :: "SkyHeaderLayout \<Rightarrow> SkyParsedFrame \<Rightarrow> u16" where
  "parsed_sequence ly p = sky_ntoh16 (load16 (p_hdr p ! off_frame_sequence ly) (p_hdr p ! (off_frame_sequence ly + 1)))"

definition host_header :: "SkyHeaderLayout \<Rightarrow> SkyParsedFrame \<Rightarrow> SkyParsedFrame" where
  "host_header ly p = p\<lparr>p_hdr := take (off_frame_sequence ly) (p_hdr p) @ mem16 (parsed_sequence ly p) @
     drop (off_frame_sequence ly + 2) (p_hdr p)\<rparr>"

text \<open>The code at the end of the frame is the keyed hash of what precedes it.\<close>

definition code_ok :: "keyed_hash \<Rightarrow> bytes \<Rightarrow> SkyRadioFrame \<Rightarrow> bool" where
  "code_ok hash key frame \<longleftrightarrow>
     take SKY_HMAC_LENGTH (drop (frame_len frame - SKY_HMAC_LENGTH) (raw frame)) =
     digest hash key (take (frame_len frame - SKY_HMAC_LENGTH) (raw frame))"

text \<open>
  A reset extension is never applied: the parser hands on extensions of length 2 only, and the handler
  wants 3.
\<close>

definition reset_length_2 :: "SkyParsedFrame \<Rightarrow> bool" where
  "reset_length_2 p \<longleftrightarrow> (\<forall>e. hmac_reset p = Some e \<longrightarrow> e < length (p_raw p) \<and> unat (drop_bit 4 (p_raw p ! e)) = 2)"

lemma reset_ignored:
  "\<lbrakk> reset_length_2 p; hmac_reset p = Some e \<rbrakk> \<Longrightarrow> sky_rx_process_ext_hmac_sequence_reset h p e vc = Some h"
  by (simp add: sky_rx_process_ext_hmac_sequence_reset_def reset_length_2_def)

definition rejected :: "SkyAll \<Rightarrow> nat \<Rightarrow> SkyAll" where
  "rejected self vc = self\<lparr>sky_diag := count_hmac_fail (sky_diag self),
     sky_hmac := (sky_hmac self)\<lparr>vc_enforcement_need := (vc_enforcement_need (sky_hmac self))[vc := 1]\<rparr>\<rparr>"

lemma check_authentication_eq:
  assumes pre: "check_pre ly self frame p" and rs: "reset_length_2 p"
  defines "vc \<equiv> parsed_vc p" and "sq \<equiv> parsed_sequence ly p" and "p1 \<equiv> host_header ly p"
  defines "req \<equiv> require_authentication (conf_vc (sky_conf self) ! vc)" and "auth \<equiv> bit (p_hdr p ! 0) 3"
    and "h \<equiv> sky_hmac self"
  shows "sky_hmac_check_authentication ly hash self frame p = Some (
    if auth \<and> payload_len p < SKY_HMAC_LENGTH
    then (SKY_RET_FRAME_TOO_SHORT_FOR_HMAC, self\<lparr>sky_diag := count_hmac_fail (sky_diag self)\<rparr>, p1)
    else if req AND SKY_CONFIG_FLAG_REQUIRE_AUTHENTICATION = 0
    then (SKY_RET_OK, self, if auth then p1\<lparr>payload_len := payload_len p - SKY_HMAC_LENGTH\<rparr> else p1)
    else if \<not> auth then (SKY_RET_AUTH_MISSING, rejected self vc, p1)
    else if \<not> code_ok hash (hmac_key h) frame then (SKY_RET_AUTH_FAILED, rejected self vc, p1)
    else if req AND SKY_CONFIG_FLAG_REQUIRE_SEQUENCE \<noteq> 0 \<and>
       uint (sq - sequence_rx h ! vc) > maximum_jump (conf_hmac (sky_conf self))
    then (SKY_RET_EXCESSIVE_HMAC_JUMP, rejected self vc, p1)
    else (SKY_RET_OK, self\<lparr>sky_hmac := h\<lparr>sequence_rx := (sequence_rx h)[vc := sq + 1]\<rparr>\<rparr>,
          p1\<lparr>payload_len := payload_len p - SKY_HMAC_LENGTH\<rparr>))"
proof -
  have lay: "0 < length (p_hdr p)" "off_frame_sequence ly + 2 \<le> length (p_hdr p)" "1 \<le> off_frame_sequence ly"
    and L: "length (sequence_rx h) = SKY_NUM_VIRTUAL_CHANNELS" "length (vc_enforcement_need h) = SKY_NUM_VIRTUAL_CHANNELS"
      "length (conf_vc (sky_conf self)) = SKY_NUM_VIRTUAL_CHANNELS"
    and F: "frame_len frame \<le> length (raw frame)" "payload_len p \<le> frame_len frame"
    using pre by (auto simp: check_pre_def layout_ok_def sky_lists_ok_def hmac_inv_def h_def)
  have vc: "vc < SKY_NUM_VIRTUAL_CHANNELS" unfolding vc_def parsed_vc_def by (rule header_vc)
  have hd: "hdr_vc (p_hdr p) 0 = Some vc" "hdr_frame_sequence ly (p_hdr p) 0 =
      Some (load16 (p_hdr p ! off_frame_sequence ly) (p_hdr p ! (off_frame_sequence ly + 1)))"
    using lay by (simp_all add: hdr_vc_def vc_def parsed_vc_def hdr_frame_sequence_def)
  have st: "hdr_set_frame_sequence ly (p_hdr p) 0 sq = Some (p_hdr p1)"
    using lay by (simp add: hdr_set_frame_sequence_def p1_def host_header_def sq_def)
  have au: "flag_authenticated (p_hdr p1) 0 = Some auth"
    using lay by (simp add: flag_authenticated_def hdr_flag_def p1_def host_header_def auth_def nth_append nth_opt_def)
  have p1: "p\<lparr>p_hdr := p_hdr p1\<rparr> = p1" "payload_len p1 = payload_len p" "p_raw p1 = p_raw p" "hmac_reset p1 = hmac_reset p"
    by (simp_all add: p1_def host_header_def)
  have rs1: "reset_length_2 p1" using rs p1 by (simp add: reset_length_2_def)
  have rst: "(case hmac_reset p1 of None \<Rightarrow> Some h | Some e \<Rightarrow> sky_rx_process_ext_hmac_sequence_reset h p1 e vc) = Some h"
    using reset_ignored [OF rs1] by (simp split: option.split)
  have sq: "sky_ntoh16 (load16 (p_hdr p ! off_frame_sequence ly) (p_hdr p ! (off_frame_sequence ly + 1))) = sq"
    by (simp add: sq_def parsed_sequence_def)
  have rej: "auth_reject code self h p1 vc = Some (code, rejected self vc, p1)" for code
    using vc L by (simp add: auth_reject_def rejected_def h_def)
  have seqc: "check_sequence self h (conf_vc (sky_conf self) ! vc) p1 vc sq = Some (
      if req AND SKY_CONFIG_FLAG_REQUIRE_SEQUENCE \<noteq> 0 \<and>
         uint (sq - sequence_rx h ! vc) > maximum_jump (conf_hmac (sky_conf self))
      then (SKY_RET_EXCESSIVE_HMAC_JUMP, rejected self vc, p1)
      else (SKY_RET_OK, self\<lparr>sky_hmac := h\<lparr>sequence_rx := (sequence_rx h)[vc := sq + 1]\<rparr>\<rparr>,
            p1\<lparr>payload_len := payload_len p - SKY_HMAC_LENGTH\<rparr>))"
    using vc L p1(2) rej by (simp add: check_sequence_def Let_def req_def)
  have vcc: "nth_opt (conf_vc (sky_conf self)) vc = Some (conf_vc (sky_conf self) ! vc)" using vc L by simp
  define tag where "tag = do {
      msg \<leftarrow> read_bytes (raw frame) 0 (frame_len frame - SKY_HMAC_LENGTH);
      frame_hash \<leftarrow> read_bytes (raw frame) (frame_len frame - SKY_HMAC_LENGTH) SKY_HMAC_LENGTH;
      Some (frame_hash = digest hash (hmac_key h) msg)
    }"
  have unf: "sky_hmac_check_authentication ly hash self frame p =
      (if auth \<and> payload_len p1 < SKY_HMAC_LENGTH
       then Some (SKY_RET_FRAME_TOO_SHORT_FOR_HMAC, self\<lparr>sky_diag := count_hmac_fail (sky_diag self)\<rparr>, p1)
       else if req AND SKY_CONFIG_FLAG_REQUIRE_AUTHENTICATION = 0
       then Some (SKY_RET_OK, self, if auth then p1\<lparr>payload_len := payload_len p1 - SKY_HMAC_LENGTH\<rparr> else p1)
       else if \<not> auth then Some (SKY_RET_AUTH_MISSING, rejected self vc, p1)
       else do {
         good \<leftarrow> tag;
         if \<not> good then Some (SKY_RET_AUTH_FAILED, rejected self vc, p1)
         else check_sequence self h (conf_vc (sky_conf self) ! vc) p1 vc sq
       })"
    unfolding sky_hmac_check_authentication_def
    by (simp only: hd vcc sq st p1(1) au rst rej Let_def bind.simps h_def [symmetric] req_def tag_def bind_assoc)
  have tag: "tag = Some (code_ok hash (hmac_key h) frame)" if "SKY_HMAC_LENGTH \<le> payload_len p"
    using F that by (simp add: tag_def code_ok_def)
  show ?thesis unfolding unf p1(2) using tag seqc by auto
qed

section \<open>Extensions handed on by the parser\<close>

definition slot_lengths :: "bytes \<Rightarrow> SkyParsedFrame \<Rightarrow> bool" where
  "slot_lengths r p \<longleftrightarrow> (\<forall>ty e n. ext_slot ty p = Some (Some e, n) \<longrightarrow> e < length r \<and> unat (drop_bit 4 (r ! e)) = n)"

lemma parse_ext_loop_lengths:
  assumes "slot_lengths (raw frame) p" "parse_ext_loop frame p cursor fin = Some (ret, p')"
  shows "slot_lengths (raw frame) p'"
  using assms
proof (induction frame p cursor fin rule: parse_ext_loop.induct)
  case (1 frame p cursor fin)
  show ?case
  proof (cases "cursor < fin \<and> cursor < length (raw frame)")
    case False
    then show ?thesis using "1.prems"
      by (auto simp: parse_ext_loop.simps [of frame p cursor fin] nth_opt_def split: if_splits)
  next
    case True
    define b where "b = raw frame ! cursor"
    define ty where "ty = b AND 0x0f"
    define len where "len = unat (drop_bit 4 b)"
    have b: "nth_opt (raw frame) cursor = Some b" using True by (simp add: b_def)
    have unf: "parse_ext_loop frame p cursor fin =
        (if cursor + 1 + len > frame_len frame then Some (SKY_RET_INVALID_EXT_LENGTH, p)
         else case ext_slot ty p of
                None \<Rightarrow> Some (SKY_RET_INVALID_EXT_TYPE, p)
              | Some (slot, sz) \<Rightarrow>
                  (if slot \<noteq> None then Some (SKY_RET_REDUNDANT_EXTENSIONS, p)
                   else if len \<noteq> sz then Some (SKY_RET_INVALID_EXT_LENGTH, p)
                   else parse_ext_loop frame (ext_set_slot ty cursor p) (cursor + 1 + len) fin))"
      using True b unfolding ty_def len_def
      by (subst parse_ext_loop.simps) (simp add: Let_def split: option.split)
    show ?thesis
    proof (cases "cursor + 1 + len \<le> frame_len frame \<and> ext_slot ty p = Some (None, len)")
      case False
      then show ?thesis using "1.prems" unf by (auto split: option.splits if_splits)
    next
      case ok: True
      have sz: "ext_size ty = Some len" using ok ext_slot_size by blast
      have "slot_lengths (raw frame) (ext_set_slot ty cursor p)"
        unfolding slot_lengths_def
      proof (intro allI impI)
        fix t e n assume "ext_slot t (ext_set_slot ty cursor p) = Some (Some e, n)"
        then show "e < length (raw frame) \<and> unat (drop_bit 4 (raw frame ! e)) = n"
          using ext_slot_set(1,2) [OF sz] "1.prems"(1) True
          by (cases "t = ty") (auto simp: slot_lengths_def len_def b_def)
      qed
      moreover have "parse_ext_loop frame (ext_set_slot ty cursor p) (cursor + 1 + len) fin = Some (ret, p')"
        using "1.prems"(2) unf ok by simp
      ultimately show ?thesis
        using "1.IH" [OF _ b ty_def len_def refl _ _ refl] True ok by auto
    qed
  qed
qed

lemma parsed_lengths:
  assumes "no_exts p" "sky_frame_parse_extension_headers ly frame p = Some (ret, p')"
  shows "slot_lengths (raw frame) p'"
proof -
  have "slot_lengths (raw frame) p" using no_exts_slot [OF assms(1)] by (fastforce simp: slot_lengths_def)
  then show ?thesis using assms(2) parse_ext_loop_lengths
    by (auto simp: sky_frame_parse_extension_headers_def bind_eq_Some_conv Let_def split: if_splits)
qed

lemma slot_lengths_reset: "\<lbrakk> slot_lengths (raw frame) p; p_raw p = raw frame \<rbrakk> \<Longrightarrow> reset_length_2 p"
  using ext_slots_named(6) [of p] unfolding slot_lengths_def reset_length_2_def by metis

lemma hand_over_facts:
  assumes v: "radio_view ly frame (frame_start idn) f sq es pl" and il: "1 \<le> length idn" "length idn \<le> 7"
    and es: "list_all ext_ok es" "distinct (map fst es)" and f: "bit f 4 \<or> pl = []"
    and h: "hand_over ly c frame = Some p" and ok: "sky_lists_ok self"
  shows "check_pre ly self frame p" "reset_length_2 p" "p_hdr p = mk_hd ly f sq (of_nat (length (enc_exts es)))"
    "payload_len p = length pl"
proof -
  obtain y where y: "parse_header ly c frame = Some y" using h by (auto simp: hand_over_def bind_eq_Some_conv)
  then obtain p0 where ph: "parse_header ly c frame = Some (Inr p0)" using h by (cases y) (auto simp: hand_over_def)
  note P = parse_header_view [OF v il ph]
  obtain ret where ret: "sky_frame_parse_extension_headers ly frame p0 = Some (ret, p)"
    using h ph by (auto simp: hand_over_def bind_eq_Some_conv split: if_splits)
  have im: "unat ((SKYLINK_FRAME_VERSION_BYTE OR of_nat (length idn)) AND SKYLINK_FRAME_IDENTITY_MASK) = length idn"
    using identity_bits [OF il(2)] by blast
  obtain p' where "sky_frame_parse_extension_headers ly frame p0 = Some (SKY_RET_OK, p')" "same_frame p' p0"
    by (rule parse_view [OF v [unfolded frame_start_def] im es P(1,2,3)]) (rule that, assumption+)
  then have same: "same_frame p p0" using ret by simp
  note c = hand_over_carries [OF v il es f h]
  show hd: "p_hdr p = mk_hd ly f sq (of_nat (length (enc_exts es)))" "payload_len p = length pl"
    using same P(3) c by (auto simp: same_frame_def carries_def)
  have raw: "p_raw p = raw frame" using same P(1) by (simp add: same_frame_def)
  show "reset_length_2 p" by (rule slot_lengths_reset [OF parsed_lengths [OF P(2) ret] raw])
  show "check_pre ly self frame p"
    using v c ok hd raw by (auto simp: check_pre_def carries_def radio_view_def length_frame_bytes)
qed

text \<open>Extending a frame appends the code and sets the flag.\<close>

lemma extend_view:
  assumes v: "tx_view ly tx pre f sq es pl" and len: "frame_len (tx_radio tx) + SKY_HMAC_LENGTH \<le> SKY_FRAME_MAX_LEN"
  obtains tx' code where "sky_hmac_extend_with_authentication hash h tx = Some (SKY_RET_OK, tx')"
    "tx_view ly tx' pre (set_bit 3 f) sq es (pl @ code)" "length code = SKY_HMAC_LENGTH" "code_ok hash (hmac_key h) (tx_radio tx')"
    "frame_len (tx_radio tx') = frame_len (tx_radio tx) + SKY_HMAC_LENGTH"
proof -
  obtain tx1 where t1: "tx_set_flag 3 tx = Some tx1" "tx_view ly tx1 pre (set_bit 3 f) sq es pl"
    "frame_len (tx_radio tx1) = frame_len (tx_radio tx)" by (rule tx_set_flag_view [OF v])
  define msg where "msg = take (frame_len (tx_radio tx1)) (raw (tx_radio tx1))"
  define code where "code = digest hash (hmac_key h) msg"
  obtain rest where r: "raw (tx_radio tx1) = frame_bytes ly pre (set_bit 3 f) sq es pl @ rest"
    "length (raw (tx_radio tx1)) = RAW_SIZE" "frame_len (tx_radio tx1) = length (frame_bytes ly pre (set_bit 3 f) sq es pl)"
    using t1(2) by (rule tx_viewE)
  have room: "frame_len (tx_radio tx1) + length code \<le> RAW_SIZE"
    using t1(3) len by (simp add: code_def RAW_SIZE_def SKY_FRAME_MAX_LEN_def)
  obtain tx2 where t2: "put_bytes tx1 code = Some tx2" "tx_view ly tx2 pre (set_bit 3 f) sq es (pl @ code)"
    "frame_len (tx_radio tx2) = frame_len (tx_radio tx1) + length code" by (rule put_bytes_view [OF t1(2) room])
  have msg: "msg = frame_bytes ly pre (set_bit 3 f) sq es pl" using r by (simp add: msg_def)
  obtain rest2 where r2: "raw (tx_radio tx2) = frame_bytes ly pre (set_bit 3 f) sq es (pl @ code) @ rest2"
    using t2(2) by (rule tx_viewE)
  then have raw2: "raw (tx_radio tx2) = msg @ code @ rest2" by (simp add: msg frame_bytes_def)
  have len2: "frame_len (tx_radio tx2) = length msg + SKY_HMAC_LENGTH" using t2(3) r(3) msg by (simp add: code_def)
  have "code_ok hash (hmac_key h) (tx_radio tx2)"
    by (simp add: code_ok_def raw2 len2) (simp add: code_def)
  moreover have "sky_hmac_extend_with_authentication hash h tx = Some (SKY_RET_OK, tx2)"
    using len t1(1) t2(1) room r(2)
    by (simp add: sky_hmac_extend_with_authentication_def msg_def [symmetric] code_def [symmetric] SKY_FRAME_MAX_LEN_def
        SKY_HMAC_LENGTH_def)
  ultimately show ?thesis using that t2 t1(3) by (simp add: code_def)
qed

text \<open>Cutting the code off leaves the payload.\<close>

lemma carries_cut:
  assumes c: "carries p es (pl @ code)" and n: "length code = SKY_HMAC_LENGTH"
  shows "carries ((host_header ly p)\<lparr>payload_len := payload_len p - SKY_HMAC_LENGTH\<rparr>) es pl"
proof -
  let ?q = "(host_header ly p)\<lparr>payload_len := payload_len p - SKY_HMAC_LENGTH\<rparr>"
  have q: "p_raw ?q = p_raw p" "p_payload ?q = p_payload p" "payload_len ?q = length pl" "ext_slot ty ?q = ext_slot ty p" for ty
    using c n by (simp_all add: host_header_def carries_def ext_slot_def)
  have "parsed_payload p = Some (pl @ code)" "payload_len p = length pl + length code" "parsed_ok p"
    using c by (simp_all add: carries_def)
  then have "p_payload p + length (pl @ code) \<le> length (p_raw p)"
    "take (length (pl @ code)) (drop (p_payload p) (p_raw p)) = pl @ code"
    by (auto simp: parsed_payload_def read_bytes_def split: if_splits)
  then have "parsed_payload ?q = Some pl" using q
    by (simp add: parsed_payload_def) (metis append_eq_conv_conj length_append min.absorb1 le_add1 take_take)
  moreover have "parsed_ok ?q" using \<open>parsed_ok p\<close> q \<open>payload_len p = _\<close> by (simp add: parsed_ok_def)
  moreover have "ext_lookup ?q ty = ext_lookup p ty" for ty by (simp only: ext_lookup_def q)
  ultimately show ?thesis using c q(3) by (simp add: carries_def)
qed

lemma authenticated_accept:
  assumes v: "tx_view ly tx (frame_start idn) f sq es pl" and f: "bit f 4" and len: "frame_len (tx_radio tx) \<le> 219"
    and il: "length idn \<in> {1..7}" and es: "list_all ext_ok es" "distinct (map fst es)"
    and r: "other_identity (sky_conf self) idn" "sky_lists_ok self" "hmac_key (sky_hmac self) = hmac_key h"
      "uint (sky_ntoh16 sq - sequence_rx (sky_hmac self) ! unat (f AND 3)) \<le> maximum_jump (conf_hmac (sky_conf self))"
  shows "\<exists>tx' p self' p'. check_pre ly self (tx_radio tx') p \<and> reset_length_2 p \<and> parsed_vc p = unat (f AND 3) \<and>
    sky_hmac_extend_with_authentication hash h tx = Some (SKY_RET_OK, tx') \<and>
    hand_over ly (sky_conf self) (tx_radio tx') = Some p \<and>
    sky_hmac_check_authentication ly hash self (tx_radio tx') p = Some (SKY_RET_OK, self', p') \<and> carries p' es pl"
proof -
  have "frame_len (tx_radio tx) + SKY_HMAC_LENGTH \<le> SKY_FRAME_MAX_LEN"
    using len by (simp add: SKY_HMAC_LENGTH_def SKY_FRAME_MAX_LEN_def)
  then obtain tx' code where t: "sky_hmac_extend_with_authentication hash h tx = Some (SKY_RET_OK, tx')"
    "tx_view ly tx' (frame_start idn) (set_bit 3 f) sq es (pl @ code)" "length code = SKY_HMAC_LENGTH"
    "code_ok hash (hmac_key h) (tx_radio tx')"
    by (rule extend_view [OF v]) (rule that, assumption+)
  have rv: "radio_view ly (tx_radio tx') (frame_start idn) (set_bit 3 f) sq es (pl @ code)" using t(2) by (simp add: tx_view_def)
  have il': "1 \<le> length idn" "length idn \<le> 7" using il by auto
  have f3: "bit (set_bit 3 f) 4" "bit (set_bit 3 f) 3" "set_bit 3 f AND 3 = f AND (3 :: byte)"
    using f by (simp_all add: bit_simps set_bit_eq_or bit.conj_disj_distrib2)
  have f4: "bit (set_bit 3 f) 4 \<or> pl @ code = []" using f3(1) by blast
  obtain p where p: "hand_over ly (sky_conf self) (tx_radio tx') = Some p" "carries p es (pl @ code)"
    by (rule hand_over_ok [OF rv il' r(1) es f4])
  note H = hand_over_facts [OF rv il' es f4 p(1) r(2)]
  have lay: "layout_ok ly" using H(1) by (simp add: check_pre_def)
  note M = mk_hd_fields [OF lay, of "set_bit 3 f" sq "of_nat (length (enc_exts es))"]
  have hd: "p_hdr p ! 0 = set_bit 3 f" "parsed_vc p = unat (f AND 3)" "parsed_sequence ly p = sky_ntoh16 sq"
    using M f3(3) by (simp_all add: H(3) parsed_vc_def parsed_sequence_def mem16_def load16_mem)
  have "\<exists>self' q. sky_hmac_check_authentication ly hash self (tx_radio tx') p = Some (SKY_RET_OK, self', q) \<and>
      q = (host_header ly p)\<lparr>payload_len := payload_len p - SKY_HMAC_LENGTH\<rparr>"
    unfolding check_authentication_eq [OF H(1,2)]
    using t(3,4) r(3,4) H(4) f3(2) by (auto simp: hd not_less)
  moreover have "carries ((host_header ly p)\<lparr>payload_len := payload_len p - SKY_HMAC_LENGTH\<rparr>) es pl"
    using p(2) t(3) by (rule carries_cut)
  ultimately show ?thesis using t(1) p(1) H(1,2) hd(2) by blast
qed

section \<open>Properties\<close>

text \<open>
  saving and restoring the sequence numbers. Loading an array of the transmit and receive counters
  of all channels and dumping it again gives the same array, and loading a dump changes nothing.
\<close>

theorem sequences_roundtrip:
  assumes "hmac_inv h" "length sequences = 2 * SKY_NUM_VIRTUAL_CHANNELS"
  shows "(\<exists>h'. sky_hmac_load_sequences h sequences = Some h' \<and> sky_hmac_dump_sequences h' = Some sequences) \<and>
    (\<exists>sq. sky_hmac_dump_sequences h = Some sq \<and> sky_hmac_load_sequences h sq = Some h)"
proof
  obtain h' where h': "sky_hmac_load_sequences h sequences = Some h'" "hmac_inv h'"
    "\<forall>i < SKY_NUM_VIRTUAL_CHANNELS. sequence_tx h' ! i = sequences ! (2 * i) \<and> sequence_rx h' ! i = sequences ! (2 * i + 1)"
    using load_loop_ok [OF assms, of 0 SKY_NUM_VIRTUAL_CHANNELS] by (auto simp: sky_hmac_load_sequences_def)
  obtain sq where sq: "sky_hmac_dump_sequences h' = Some sq" "length sq = 2 * SKY_NUM_VIRTUAL_CHANNELS"
    "\<forall>i < SKY_NUM_VIRTUAL_CHANNELS. sq ! (2 * i) = sequence_tx h' ! i \<and> sq ! (2 * i + 1) = sequence_rx h' ! i"
    using dump_loop_ok [OF h'(2), of 0 SKY_NUM_VIRTUAL_CHANNELS] by (auto simp: sky_hmac_dump_sequences_def)
  have "sq = sequences"
    using sq(2,3) h'(3) assms(2) even_odd_cases [of _ SKY_NUM_VIRTUAL_CHANNELS] by (intro nth_equalityI) auto
  then show "\<exists>h'. sky_hmac_load_sequences h sequences = Some h' \<and> sky_hmac_dump_sequences h' = Some sequences"
    using h'(1) sq(1) by blast
next
  obtain sq where sq: "sky_hmac_dump_sequences h = Some sq" "length sq = 2 * SKY_NUM_VIRTUAL_CHANNELS"
    "\<forall>i < SKY_NUM_VIRTUAL_CHANNELS. sq ! (2 * i) = sequence_tx h ! i \<and> sq ! (2 * i + 1) = sequence_rx h ! i"
    using dump_loop_ok [OF assms(1), of 0 SKY_NUM_VIRTUAL_CHANNELS] by (auto simp: sky_hmac_dump_sequences_def)
  obtain h' where h': "sky_hmac_load_sequences h sq = Some h'" "hmac_inv h'" "hmac_key h' = hmac_key h"
    "vc_enforcement_need h' = vc_enforcement_need h"
    "\<forall>i < SKY_NUM_VIRTUAL_CHANNELS. sequence_tx h' ! i = sq ! (2 * i) \<and> sequence_rx h' ! i = sq ! (2 * i + 1)"
    using load_loop_ok [OF assms(1) sq(2), of 0 SKY_NUM_VIRTUAL_CHANNELS] by (auto simp: sky_hmac_load_sequences_def)
  have "sequence_tx h' = sequence_tx h" "sequence_rx h' = sequence_rx h"
    using sq(3) h'(2,5) assms(1) by (auto simp: hmac_inv_def intro!: nth_equalityI)
  then have "h' = h" using h'(3,4) by simp
  then show "\<exists>sq. sky_hmac_dump_sequences h = Some sq \<and> sky_hmac_load_sequences h sq = Some h" using sq(1) h'(1) by blast
qed

definition sample_hmac :: SkyHMAC where
  "sample_hmac = \<lparr>hmac_key = replicate 32 7, sequence_tx = [1, 2, 3, 4], sequence_rx = [5, 6, 7, 8],
     vc_enforcement_need = [0, 0, 0, 0]\<rparr>"

lemma sample_hmac_inv: "hmac_inv sample_hmac"
  by (simp add: hmac_inv_def sample_hmac_def SKY_NUM_VIRTUAL_CHANNELS_def)

theorem sequences_roundtrip_witness:
  "\<exists>h'. sky_hmac_load_sequences sample_hmac [9, 8, 7, 6, 5, 4, 3, 65535] = Some h' \<and>
     sky_hmac_dump_sequences h' = Some [9, 8, 7, 6, 5, 4, 3, 65535]"
  using sequences_roundtrip [OF sample_hmac_inv, of "[9, 8, 7, 6, 5, 4, 3, 65535]"]
  by (simp add: SKY_NUM_VIRTUAL_CHANNELS_def)

text \<open>A channel's requirements on received frames.\<close>

definition requires :: "SkyAll \<Rightarrow> SkyParsedFrame \<Rightarrow> byte \<Rightarrow> bool" where
  "requires self p flag \<longleftrightarrow> require_authentication (conf_vc (sky_conf self) ! parsed_vc p) AND flag \<noteq> 0"

lemma check_accepted:
  assumes pre: "check_pre ly self frame p" "reset_length_2 p" and req: "requires self p SKY_CONFIG_FLAG_REQUIRE_AUTHENTICATION"
    and c: "sky_hmac_check_authentication ly hash self frame p = Some (SKY_RET_OK, self', p')"
  shows "bit (p_hdr p ! 0) 3" "code_ok hash (hmac_key (sky_hmac self)) frame" "SKY_HMAC_LENGTH \<le> payload_len p"
    "requires self p SKY_CONFIG_FLAG_REQUIRE_SEQUENCE \<Longrightarrow>
      uint (parsed_sequence ly p - sequence_rx (sky_hmac self) ! parsed_vc p) \<le> maximum_jump (conf_hmac (sky_conf self))"
    "self' = self\<lparr>sky_hmac := (sky_hmac self)\<lparr>sequence_rx := (sequence_rx (sky_hmac self))[parsed_vc p := parsed_sequence ly p + 1]\<rparr>\<rparr>"
    "p' = (host_header ly p)\<lparr>payload_len := payload_len p - SKY_HMAC_LENGTH\<rparr>"
  using c req unfolding check_authentication_eq [OF pre] requires_def
  by (auto simp: ret_codes split: if_splits)

text \<open>
  C8: only authentic frames pass. When the channel of a frame requires authentication and the check
  accepts the frame, then the frame is flagged as authenticated, the code at its end is the keyed hash
  of everything before it, and, if the channel also requires it, the sequence number is at most the
  configured jump ahead of the expected one. The next expected number is then one past it, and exactly
  the code has been cut off the payload.
\<close>

theorem accepted_is_authentic:
  assumes "check_pre ly self frame p" "reset_length_2 p" "requires self p SKY_CONFIG_FLAG_REQUIRE_AUTHENTICATION"
    "sky_hmac_check_authentication ly hash self frame p = Some (SKY_RET_OK, self', p')"
  shows "bit (p_hdr p ! 0) 3 \<and> code_ok hash (hmac_key (sky_hmac self)) frame \<and>
    (requires self p SKY_CONFIG_FLAG_REQUIRE_SEQUENCE \<longrightarrow>
      uint (parsed_sequence ly p - sequence_rx (sky_hmac self) ! parsed_vc p) \<le> maximum_jump (conf_hmac (sky_conf self))) \<and>
    sequence_rx (sky_hmac self') ! parsed_vc p = parsed_sequence ly p + 1 \<and>
    payload_len p' + SKY_HMAC_LENGTH = payload_len p"
proof -
  note A = check_accepted [OF assms]
  have "parsed_vc p < length (sequence_rx (sky_hmac self))"
    using assms(1) header_vc by (simp add: check_pre_def sky_lists_ok_def hmac_inv_def parsed_vc_def)
  then show ?thesis using A by simp
qed

text \<open>
  C9: no replay. Where a channel requires authentication and sequence numbers, a frame that has been
  accepted is rejected when it arrives a second time, for every permitted jump below the whole number
  space.
\<close>

theorem replay_rejected:
  assumes "check_pre ly self frame p" "reset_length_2 p" "requires self p SKY_CONFIG_FLAG_REQUIRE_AUTHENTICATION"
    "requires self p SKY_CONFIG_FLAG_REQUIRE_SEQUENCE" "maximum_jump (conf_hmac (sky_conf self)) < 65535"
    "sky_hmac_check_authentication ly hash self frame p = Some (SKY_RET_OK, self', p')"
  shows "\<exists>self'' p''. sky_hmac_check_authentication ly hash self' frame p = Some (SKY_RET_EXCESSIVE_HMAC_JUMP, self'', p'')"
proof -
  note A = check_accepted [OF assms(1-3,6)]
  have vc: "parsed_vc p < length (sequence_rx (sky_hmac self))"
    using assms(1) header_vc by (simp add: check_pre_def sky_lists_ok_def hmac_inv_def parsed_vc_def)
  have pre: "check_pre ly self' frame p"
    using assms(1) A(5) by (simp add: check_pre_def sky_lists_ok_def hmac_inv_def)
  have seq: "parsed_sequence ly p - sequence_rx (sky_hmac self') ! parsed_vc p = - 1" using A(5) vc by simp
  have "uint (- 1 :: u16) = 65535" by (simp add: unsigned_minus_1_eq_mask mask_eq_exp_minus_1)
  then have "uint (parsed_sequence ly p - sequence_rx (sky_hmac self') ! parsed_vc p) > maximum_jump (conf_hmac (sky_conf self'))"
    unfolding seq using assms(5) A(5) by simp
  then show ?thesis
    using assms(3,4) A unfolding check_authentication_eq [OF pre assms(2)] requires_def by (simp add: not_less)
qed

text \<open>
  C10: authentication round trip. A frame with payload, extended with the code under a key, is parsed
  and accepted by every receiver with the same key that expects a sequence number close enough; the
  channel gets the payload that was in the frame before the extension.
\<close>

theorem authentication_roundtrip:
  assumes "tx_view ly tx (frame_start idn) f sq es pl" "bit f 4" "frame_len (tx_radio tx) \<le> 219"
    "length idn \<in> {1..7}" "list_all ext_ok es" "distinct (map fst es)"
    "other_identity (sky_conf self) idn" "sky_lists_ok self" "hmac_key (sky_hmac self) = hmac_key h"
    "uint (sky_ntoh16 sq - sequence_rx (sky_hmac self) ! unat (f AND 3)) \<le> maximum_jump (conf_hmac (sky_conf self))"
  shows "\<exists>tx' p self' p'. sky_hmac_extend_with_authentication hash h tx = Some (SKY_RET_OK, tx') \<and>
    hand_over ly (sky_conf self) (tx_radio tx') = Some p \<and>
    sky_hmac_check_authentication ly hash self (tx_radio tx') p = Some (SKY_RET_OK, self', p') \<and> carries p' es pl"
  using authenticated_accept [OF assms] by blast

text \<open>A receiver that requires authentication and sequence numbers, and a frame with a payload for it.\<close>

definition sample_sky :: SkyAll where
  "sample_sky = \<lparr>sky_conf = sample_conf\<lparr>conf_vc := map (\<lambda>c. c\<lparr>require_authentication := 7\<rparr>) (conf_vc sample_conf)\<rparr>,
     sky_diag = sky_diag_create, virtual_channels = [], sky_mac = sample_mac, sky_hmac = sample_hmac\<rparr>"

definition sample_payload_tx :: SkyTransmitFrame where
  "sample_payload_tx =
     \<lparr>tx_radio = padded_frame (frame_bytes layout_gcc (frame_start [1, 2, 3]) 16 (sky_hton16 6) [] [10, 20]), hdr = 4, ptr = 13\<rparr>"

lemma sample_payload_view:
  "tx_view layout_gcc sample_payload_tx (frame_start [1, 2, 3]) 16 (sky_hton16 6) [] [10, 20]"
  "frame_len (tx_radio sample_payload_tx) \<le> 219"
proof -
  have len: "length (frame_bytes layout_gcc (frame_start [1, 2, 3]) 16 (sky_hton16 6) [] [10, 20]) = 13"
    by (simp add: length_frame_bytes frame_start_def)
  have "radio_view layout_gcc (padded_frame (frame_bytes layout_gcc (frame_start [1, 2, 3]) 16 (sky_hton16 6) [] [10, 20]))
      (frame_start [1, 2, 3]) 16 (sky_hton16 6) [] [10, 20]"
    by (rule radio_view_padded) (simp_all add: len RAW_SIZE_val)
  then show "tx_view layout_gcc sample_payload_tx (frame_start [1, 2, 3]) 16 (sky_hton16 6) [] [10, 20]"
    "frame_len (tx_radio sample_payload_tx) \<le> 219"
    using len by (simp_all add: tx_view_def sample_payload_tx_def padded_frame_def frame_start_def)
qed

lemma sample_sky_facts:
  "other_identity (sky_conf sample_sky) [1, 2, 3]" "sky_lists_ok sample_sky" "hmac_key (sky_hmac sample_sky) = hmac_key sample_hmac"
  "uint (sky_ntoh16 (sky_hton16 6) - sequence_rx (sky_hmac sample_sky) ! unat (16 AND 3 :: byte)) \<le>
     maximum_jump (conf_hmac (sky_conf sample_sky))" "bit (16 :: byte) 4"
  using sample_hmac_inv
  by (simp_all add: other_identity_def sample_sky_def sample_conf_def sky_lists_ok_def SKY_MAX_IDENTITY_LEN_def
      wire_simps sample_hmac_def)

lemma sample_accept:
  obtains tx' p self' p' where "sky_hmac_extend_with_authentication (\<lambda>k m i. 42) sample_hmac sample_payload_tx = Some (SKY_RET_OK, tx')"
    "check_pre layout_gcc sample_sky (tx_radio tx') p" "reset_length_2 p"
    "sky_hmac_check_authentication layout_gcc (\<lambda>k m i. 42) sample_sky (tx_radio tx') p = Some (SKY_RET_OK, self', p')"
    "requires sample_sky p SKY_CONFIG_FLAG_REQUIRE_AUTHENTICATION" "requires sample_sky p SKY_CONFIG_FLAG_REQUIRE_SEQUENCE"
proof -
  have il: "length [1 :: byte, 2, 3] \<in> {1..7}" by simp
  from authenticated_accept [OF sample_payload_view(1) sample_sky_facts(5) sample_payload_view(2) il _ _ sample_sky_facts(1-4), of "\<lambda>k m i. 42"]
  obtain tx' p self' p' where a: "check_pre layout_gcc sample_sky (tx_radio tx') p" "reset_length_2 p"
    "parsed_vc p = unat (16 AND 3 :: byte)"
    "sky_hmac_extend_with_authentication (\<lambda>k m i. 42) sample_hmac sample_payload_tx = Some (SKY_RET_OK, tx')"
    "sky_hmac_check_authentication layout_gcc (\<lambda>k m i. 42) sample_sky (tx_radio tx') p = Some (SKY_RET_OK, self', p')"
    by auto
  have "requires sample_sky p SKY_CONFIG_FLAG_REQUIRE_AUTHENTICATION" "requires sample_sky p SKY_CONFIG_FLAG_REQUIRE_SEQUENCE"
    using a(3) by (simp_all add: requires_def sample_sky_def sample_conf_def SKY_NUM_VIRTUAL_CHANNELS_def
        SKY_CONFIG_FLAG_REQUIRE_AUTHENTICATION_def SKY_CONFIG_FLAG_REQUIRE_SEQUENCE_def)
  then show ?thesis using that a by blast
qed

theorem authentication_roundtrip_witness:
  "\<exists>tx' p self' p'. sky_hmac_extend_with_authentication (\<lambda>k m i. 42) sample_hmac sample_payload_tx = Some (SKY_RET_OK, tx') \<and>
    hand_over layout_gcc (sky_conf sample_sky) (tx_radio tx') = Some p \<and>
    sky_hmac_check_authentication layout_gcc (\<lambda>k m i. 42) sample_sky (tx_radio tx') p = Some (SKY_RET_OK, self', p') \<and>
    carries p' [] [10, 20]"
proof -
  have il: "length [1 :: byte, 2, 3] \<in> {1..7}" by simp
  show ?thesis
    by (rule authentication_roundtrip [OF sample_payload_view(1) sample_sky_facts(5) sample_payload_view(2) il _ _ sample_sky_facts(1-4)])
      simp_all
qed

theorem accepted_is_authentic_witness:
  "\<exists>tx' p self' p'. sky_hmac_extend_with_authentication (\<lambda>k m i. 42) sample_hmac sample_payload_tx = Some (SKY_RET_OK, tx') \<and>
    sky_hmac_check_authentication layout_gcc (\<lambda>k m i. 42) sample_sky (tx_radio tx') p = Some (SKY_RET_OK, self', p') \<and>
    code_ok (\<lambda>k m i. 42) (hmac_key sample_hmac) (tx_radio tx')"
proof -
  obtain tx' p self' p' where a: "sky_hmac_extend_with_authentication (\<lambda>k m i. 42) sample_hmac sample_payload_tx = Some (SKY_RET_OK, tx')"
    "check_pre layout_gcc sample_sky (tx_radio tx') p" "reset_length_2 p"
    "sky_hmac_check_authentication layout_gcc (\<lambda>k m i. 42) sample_sky (tx_radio tx') p = Some (SKY_RET_OK, self', p')"
    "requires sample_sky p SKY_CONFIG_FLAG_REQUIRE_AUTHENTICATION"
    by (rule sample_accept) (rule that, assumption+)
  from accepted_is_authentic [OF a(2,3,5,4)] show ?thesis using a(1,4) sample_sky_facts(3) by auto
qed

theorem replay_rejected_witness:
  "\<exists>(tx' :: SkyTransmitFrame) p self' p' self'' p''. sky_hmac_check_authentication layout_gcc (\<lambda>k m i. 42) sample_sky (tx_radio tx') p = Some (SKY_RET_OK, self', p') \<and>
    sky_hmac_check_authentication layout_gcc (\<lambda>k m i. 42) self' (tx_radio tx') p = Some (SKY_RET_EXCESSIVE_HMAC_JUMP, self'', p'')"
proof -
  obtain p self' p' and tx' :: SkyTransmitFrame where a: "check_pre layout_gcc sample_sky (tx_radio tx') p" "reset_length_2 p"
    "sky_hmac_check_authentication layout_gcc (\<lambda>k m i. 42) sample_sky (tx_radio tx') p = Some (SKY_RET_OK, self', p')"
    "requires sample_sky p SKY_CONFIG_FLAG_REQUIRE_AUTHENTICATION" "requires sample_sky p SKY_CONFIG_FLAG_REQUIRE_SEQUENCE"
    by (rule sample_accept) (rule that, assumption+)
  have "maximum_jump (conf_hmac (sky_conf sample_sky)) < 65535" by (simp add: sample_sky_def sample_conf_def)
  from replay_rejected [OF a(1,2,4,5) this a(3)] show ?thesis using a(3) by blast
qed

text \<open>
  The sequence reset extension has no effect. Whatever extension the parser finds in a received
  frame, its length nibble is 2; the handler of the reset extension compares it with 3 and returns.
\<close>

theorem reset_extension_ignored:
  assumes "no_exts p" "p_raw p = raw frame" "length (raw frame) = RAW_SIZE" "layout_ok ly" "length (p_hdr p) = hdr_sizeof ly"
    "frame_len frame \<le> RAW_SIZE" "sky_frame_parse_extension_headers ly frame p = Some (ret, p')" "hmac_reset p' = Some e"
  shows "sky_rx_process_ext_hmac_sequence_reset h p' e vc = Some h"
proof -
  have "frame_len frame \<le> length (raw frame)" "0 < length (raw frame)" using assms(3,6) by (simp_all add: RAW_SIZE_val)
  then obtain r q where "sky_frame_parse_extension_headers ly frame p = Some (r, q)" "same_frame q p"
    using parse_total [OF _ _ assms(4,5,1)] by blast
  then have "p_raw p' = raw frame" using assms(2,7) by (simp add: same_frame_def)
  from reset_ignored [OF slot_lengths_reset [OF parsed_lengths [OF assms(1,7)] this] assms(8)] show ?thesis .
qed

theorem reset_extension_ignored_witness:
  "\<exists>p' e. sky_frame_parse_extension_headers layout_packed (padded_frame [0x61, 9, 0, 0, 0, 3, 0x25, 0, 77])
      (blank_parsed (raw (padded_frame [0x61, 9, 0, 0, 0, 3, 0x25, 0, 77])) [0, 0, 0, 3]) = Some (SKY_RET_OK, p') \<and>
     hmac_reset p' = Some e \<and> sky_rx_process_ext_hmac_sequence_reset sample_hmac p' e 0 = Some sample_hmac"
proof -
  let ?f = "padded_frame [0x61, 9, 0, 0, 0, 3, 0x25, 0, 77]"
  let ?p = "blank_parsed (raw ?f) [0, 0, 0, 3]"
  have pre: "no_exts ?p" "p_raw ?p = raw ?f" "length (raw ?f) = RAW_SIZE" "layout_ok layout_packed"
    "length (p_hdr ?p) = hdr_sizeof layout_packed" "frame_len ?f \<le> RAW_SIZE"
    by (simp_all add: padded_frame_def blank_parsed_def no_exts_def RAW_SIZE_val)
  have run: "sky_frame_parse_extension_headers layout_packed ?f ?p = Some (SKY_RET_OK, ?p\<lparr>hmac_reset := Some 6\<rparr>)"
    by (simp add: sky_frame_parse_extension_headers_def padded_frame_def blank_parsed_def hdr_extension_length_def
        layout_packed_def SKYLINK_FRAME_IDENTITY_MASK_def nth_opt_def RAW_SIZE_val)
      (simp add: parse_ext_loop.simps nth_opt_def ext_slot_def ext_set_slot_def extension_types drop_bit_eq_div)
  from reset_extension_ignored [OF pre run, of 6] run show ?thesis by auto
qed

text \<open>
  C36: an authenticated frame without payload is always rejected. The parser reports a payload length of
  zero unless the payload flag is set, and then the check takes the frame for too short to hold the
  code, whether or not the channel requires authentication. So a handshake or control frame that the
  transmitter itself authenticated never gets through.
\<close>

theorem authenticated_without_payload_rejected:
  assumes "tx_view ly tx (frame_start idn) f sq es []" "\<not> bit f 4" "frame_len (tx_radio tx) \<le> 219" "length idn \<in> {1..7}"
    "sky_lists_ok self" "sky_hmac_extend_with_authentication hash h tx = Some (ret, tx')"
    "parse_header ly (sky_conf self) (tx_radio tx') = Some (Inr p)"
  shows "\<exists>self' p'. sky_hmac_check_authentication ly hash self (tx_radio tx') p = Some (SKY_RET_FRAME_TOO_SHORT_FOR_HMAC, self', p')"
proof -
  have "frame_len (tx_radio tx) + SKY_HMAC_LENGTH \<le> SKY_FRAME_MAX_LEN"
    using assms(3) by (simp add: SKY_HMAC_LENGTH_def SKY_FRAME_MAX_LEN_def)
  then obtain code where t: "tx_view ly tx' (frame_start idn) (set_bit 3 f) sq es ([] @ code)"
    using assms(6) by (elim extend_view [OF assms(1), where hash = hash and h = h]) auto
  have rv: "radio_view ly (tx_radio tx') (frame_start idn) (set_bit 3 f) sq es code" using t by (simp add: tx_view_def)
  have il: "1 \<le> length idn" "length idn \<le> 7" using assms(4) by auto
  note P = parse_header_view [OF rv il assms(7)]
  have f4: "\<not> bit (set_bit 3 f) 4" "bit (set_bit 3 f) 3" using assms(2) by (simp_all add: bit_simps)
  have lay: "layout_ok ly" "length (raw (tx_radio tx')) = RAW_SIZE" "frame_len (tx_radio tx') \<le> RAW_SIZE"
    using rv by (simp_all add: radio_view_def)
  have pl: "payload_len p = 0" using P(6) [OF f4(1)] .
  have "parsed_ok p" "reset_length_2 p"
    using P(1,2,5) pl rv by (auto simp: parsed_ok_def no_exts_def ext_slot_def reset_length_2_def radio_view_def
        length_frame_bytes frame_start_def split: if_splits)
  then have pre: "check_pre ly self (tx_radio tx') p" "reset_length_2 p"
    using lay assms(5) P(1,3) pl by (simp_all add: check_pre_def)
  have "p_hdr p ! 0 = set_bit 3 f" using P(3) mk_hd_fields(1) [OF lay(1)] by simp
  then show ?thesis unfolding check_authentication_eq [OF pre] using pl f4(2) by (simp add: SKY_HMAC_LENGTH_def)
qed

definition sample_bare_tx :: SkyTransmitFrame where
  "sample_bare_tx =
     \<lparr>tx_radio = padded_frame (frame_bytes layout_gcc (frame_start [1, 2, 3]) 0 0 [] []), hdr = 4, ptr = 11\<rparr>"

theorem authenticated_without_payload_rejected_witness:
  "\<exists>tx' p self' p'. sky_hmac_extend_with_authentication (\<lambda>k m i. 42) sample_hmac sample_bare_tx = Some (SKY_RET_OK, tx') \<and>
     parse_header layout_gcc (sky_conf sample_sky) (tx_radio tx') = Some (Inr p) \<and>
     sky_hmac_check_authentication layout_gcc (\<lambda>k m i. 42) sample_sky (tx_radio tx') p =
       Some (SKY_RET_FRAME_TOO_SHORT_FOR_HMAC, self', p')"
proof -
  have len: "length (frame_bytes layout_gcc (frame_start [1, 2, 3]) 0 0 [] []) = 11" by (simp add: length_frame_bytes frame_start_def)
  have "radio_view layout_gcc (padded_frame (frame_bytes layout_gcc (frame_start [1, 2, 3]) 0 0 [] [])) (frame_start [1, 2, 3]) 0 0 [] []"
    by (rule radio_view_padded) (simp_all add: len RAW_SIZE_val)
  then have v: "tx_view layout_gcc sample_bare_tx (frame_start [1, 2, 3]) 0 0 [] []" "frame_len (tx_radio sample_bare_tx) = 11"
    using len by (simp_all add: tx_view_def sample_bare_tx_def padded_frame_def frame_start_def)
  have room: "frame_len (tx_radio sample_bare_tx) + SKY_HMAC_LENGTH \<le> SKY_FRAME_MAX_LEN" "frame_len (tx_radio sample_bare_tx) \<le> 219"
    using v(2) by (simp_all add: SKY_HMAC_LENGTH_def SKY_FRAME_MAX_LEN_def)
  obtain tx' code where t: "sky_hmac_extend_with_authentication (\<lambda>k m i. 42) sample_hmac sample_bare_tx = Some (SKY_RET_OK, tx')"
    "tx_view layout_gcc tx' (frame_start [1, 2, 3]) (set_bit 3 0) 0 [] ([] @ code)"
    by (rule extend_view [OF v(1) room(1)]) (rule that, assumption+)
  have rv: "radio_view layout_gcc (tx_radio tx') (frame_start [1, 2, 3]) (set_bit 3 0) 0 [] ([] @ code)" using t(2) by (simp add: tx_view_def)
  obtain p where p: "parse_header layout_gcc (sky_conf sample_sky) (tx_radio tx') = Some (Inr p)"
    by (rule parse_header_ok [OF rv _ _ sample_sky_facts(1)]) (simp, simp, rule that)
  have "\<not> bit (0 :: byte) 4" "length [1 :: byte, 2, 3] \<in> {1..7}" by simp_all
  from authenticated_without_payload_rejected [OF v(1) this(1) room(2) this(2) sample_sky_facts(2) t(1) p] show ?thesis
    using t(1) p by blast
qed

end
