(* ===== verification/Crc_Correct.thy ===== *)
theory Crc_Correct
  imports Crc Frame_Correct Xor_Group
begin

text \<open>
  Correctness of the checksum: the table-driven loop computes the CRC-32 that the reflected polynomial
  \<open>0xEDB88320\<close> defines bit by bit, the checksum of a frame is checked and removed again, and every
  burst of errors within four consecutive bytes of the data, or within the checksum, is detected.
\<close>

section \<open>The checksum bit by bit\<close>

definition crc_bit :: "u32 \<Rightarrow> u32" where
  "crc_bit c = drop_bit 1 c XOR (if bit c 0 then 0xEDB88320 else 0)"

definition crc_byte :: "u32 \<Rightarrow> u32" where
  "crc_byte c = crc_bit (crc_bit (crc_bit (crc_bit (crc_bit (crc_bit (crc_bit (crc_bit c)))))))"

definition crc32_bitwise :: "bytes \<Rightarrow> u32" where
  "crc32_bitwise buf = foldl (\<lambda>c b. crc_byte (c XOR ucast b)) 0xFFFFFFFF buf XOR 0xFFFFFFFF"

lemma crc_bit_xor: "crc_bit (a XOR b) = crc_bit a XOR crc_bit b"
  by (rule bit_word_eqI) (auto simp: crc_bit_def bit_simps)

lemma crc_byte_xor: "crc_byte (a XOR b) = crc_byte a XOR crc_byte b"
  by (simp only: crc_byte_def crc_bit_xor)

lemma crc_bit_shift: "bit c 0 = False \<Longrightarrow> crc_bit c = drop_bit 1 c"
  by (simp add: crc_bit_def)

lemma crc_byte_shift:
  assumes "\<forall>i < 8. \<not> bit c i"
  shows "crc_byte c = drop_bit 8 c"
proof -
  have "crc_byte c = drop_bit (Suc (Suc (Suc (Suc (Suc (Suc (Suc (Suc 0)))))))) c"
    using assms by (simp add: crc_byte_def crc_bit_shift bit_simps)
  then show ?thesis by (simp add: numeral_eq_Suc)
qed

text \<open>By linearity the table of \<open>2 ^ k\<close> entries is doubled with the entry of one more bit.\<close>

definition crc_double :: "u32 list \<Rightarrow> u32 \<Rightarrow> u32 list" where
  "crc_double ts b = ts @ map (\<lambda>t. t XOR b) ts"

definition crc_entries :: "nat \<Rightarrow> u32 list" where
  "crc_entries k = foldl crc_double [0] (map (\<lambda>j. crc_byte (2 ^ j)) [0..<k])"

lemma crc_entries_simps:
  "crc_entries 0 = [0]" "crc_entries (Suc k) = crc_entries k @ map (\<lambda>t. t XOR crc_byte (2 ^ k)) (crc_entries k)"
  by (simp_all add: crc_entries_def crc_double_def)

lemma add_power_xor:
  assumes "j < 2 ^ k"
  shows "(of_nat (j + 2 ^ k) :: u32) = of_nat j XOR 2 ^ k"
proof -
  have j: "take_bit k j = j" using assms by (simp add: take_bit_nat_eq_self)
  have "j AND 2 ^ k = 0"
    by (rule bit_eqI) (metis bit_and_iff bit_exp_iff bit_take_bit_iff j less_irrefl bit_0_eq bot_apply bot_bool_def possible_bit_def)
  then have "j + 2 ^ k = j XOR 2 ^ k" by (rule disjunctive_add_eq_xor)
  then show ?thesis by (simp add: of_nat_xor_eq)
qed

lemma crc_entries_nth:
  "length (crc_entries k) = 2 ^ k \<and> (\<forall>i < 2 ^ k. crc_entries k ! i = crc_byte (of_nat i))"
proof (induction k)
  case 0
  show ?case by (simp add: crc_entries_simps crc_byte_def crc_bit_def)
next
  case (Suc k)
  have "crc_entries (Suc k) ! i = crc_byte (of_nat i)" if i: "i < 2 ^ Suc k" for i
  proof (cases "i < 2 ^ k")
    case True
    then show ?thesis using Suc by (simp add: crc_entries_simps nth_append)
  next
    case False
    define j where "j = i - 2 ^ k"
    have j: "j < 2 ^ k" "i = j + 2 ^ k" using i False by (auto simp: j_def)
    have "crc_byte (of_nat i) = crc_byte (of_nat j) XOR crc_byte (2 ^ k)"
      using add_power_xor [OF j(1)] crc_byte_xor by (simp add: j(2))
    then show ?thesis using Suc j by (simp add: crc_entries_simps nth_append)
  qed
  then show ?case using Suc by (simp add: crc_entries_simps)
qed

lemma crc_basis:
  "crc_byte 1 = 0x77073096" "crc_byte 2 = 0xEE0E612C" "crc_byte 4 = 0x076DC419" "crc_byte 8 = 0x0EDB8832"
  "crc_byte 16 = 0x1DB71064" "crc_byte 32 = 0x3B6E20C8" "crc_byte 64 = 0x76DC4190" "crc_byte 128 = 0xEDB88320"
  by (simp_all add: crc_byte_def crc_bit_def)

lemma crc_entries_table: "crc_entries 8 = crc32_table"
proof -
  have "[0..<8] = [0, 1, 2, 3, 4, 5, 6, 7 :: nat]" by (simp add: upt_rec)
  then show ?thesis by (simp add: crc_entries_def crc_basis crc_double_def crc32_table_def)
qed

lemma crc_step_table: "drop_bit 8 c XOR crc32_table ! unat (c AND 0xff) = crc_byte c"
proof -
  have lo: "unat (c AND 0xff) < 256"
  proof -
    have "c AND 0xff \<le> 0xff" by (rule word_and_le1)
    then show ?thesis by (simp add: word_le_nat_alt)
  qed
  then have "crc32_table ! unat (c AND 0xff) = crc_byte (c AND 0xff)"
    using crc_entries_nth [of 8] crc_entries_table by simp
  moreover have hi: "crc_byte (c AND NOT 0xff) = drop_bit 8 c"
  proof -
    have "\<forall>i < 8. \<not> bit (c AND NOT 0xff) i"
    proof (intro allI impI)
      fix i :: nat assume "i < 8"
      then have "i \<in> {0, 1, 2, 3, 4, 5, 6, 7}" by auto
      then show "\<not> bit (c AND NOT 0xff) i" by (auto simp: bit_simps)
    qed
    then have "crc_byte (c AND NOT 0xff) = drop_bit 8 (c AND NOT 0xff)" by (rule crc_byte_shift)
    moreover have "(0xff :: u32) = mask 8" by (simp add: mask_eq_exp_minus_1)
    then have "drop_bit 8 (c AND NOT 0xff) = drop_bit 8 (c AND NOT (mask 8))" by simp
    moreover have "drop_bit 8 (c AND NOT (mask 8)) = drop_bit 8 c"
      by (rule bit_word_eqI) (auto simp: bit_simps dest: bit_imp_le_length)
    ultimately show ?thesis by simp
  qed
  moreover have "c = (c AND NOT 0xff) XOR (c AND 0xff)" by (rule bit_word_eqI) (auto simp: bit_simps)
  ultimately show ?thesis using crc_byte_xor [of "c AND NOT 0xff" "c AND 0xff"] by simp
qed

lemma crc_loop_bitwise: "crc32_loop c bs = foldl (\<lambda>c b. crc_byte (c XOR ucast b)) c bs"
proof (induction bs arbitrary: c)
  case (Cons b bs)
  have "drop_bit 8 (c XOR ucast b) = drop_bit 8 c"
    by (rule bit_word_eqI) (auto simp: bit_simps dest: bit_imp_le_length)
  then have "drop_bit 8 c XOR crc32_table ! unat ((c XOR ucast b) AND 0xff) = crc_byte (c XOR ucast b)"
    using crc_step_table [of "c XOR ucast b"] by simp
  then show ?case using Cons by simp
qed simp

section \<open>Detection of errors\<close>

lemma crc_bit_inj: "crc_bit a = crc_bit b \<Longrightarrow> a = b"
proof -
  assume eq: "crc_bit a = crc_bit b"
  define d where "d = a XOR b"
  have z: "crc_bit d = 0" using eq by (simp add: d_def crc_bit_xor)
  have "bit (crc_bit d) 31 \<longleftrightarrow> bit d 0"
    using bit_imp_le_length [of d 32] by (auto simp: crc_bit_def bit_simps)
  then have "\<not> bit d 0" using z by simp
  then have "drop_bit 1 d = 0" using z by (simp add: crc_bit_def)
  have "d = 0"
  proof (rule bit_word_eqI)
    fix n assume "n < LENGTH(32)"
    show "bit d n = bit 0 n"
    proof (cases n)
      case 0
      then show ?thesis using \<open>\<not> bit d 0\<close> by simp
    next
      case (Suc k)
      have "bit (drop_bit 1 d) k = bit d n" using Suc by (simp add: bit_simps)
      then show ?thesis using \<open>drop_bit 1 d = 0\<close> by simp
    qed
  qed
  then show "a = b" by (simp add: d_def xor_eq_0_iff)
qed

lemma crc_byte_inj: "crc_byte a = crc_byte b \<Longrightarrow> a = b"
  unfolding crc_byte_def by (drule crc_bit_inj)+

lemma crc_loop_inj: "crc32_loop a bs = crc32_loop b bs \<Longrightarrow> a = b"
proof (induction bs arbitrary: a b)
  case (Cons x bs)
  from Cons.prems have "crc32_loop (crc_byte (a XOR ucast x)) bs = crc32_loop (crc_byte (b XOR ucast x)) bs"
    by (simp only: crc_loop_bitwise foldl_Cons)
  then have "a XOR ucast x = b XOR ucast x" using Cons.IH crc_byte_inj by blast
  then show ?case by simp
qed simp

text \<open>Up to four bytes act like one word that is added at the start.\<close>

primrec le_word :: "bytes \<Rightarrow> u32" where
  "le_word [] = 0"
| "le_word (b # bs) = ucast b XOR push_bit 8 (le_word bs)"

lemma le_word_bits: "bit (le_word bs) i \<Longrightarrow> i < 8 * length bs"
proof (induction bs arbitrary: i)
  case (Cons b bs)
  show ?case
  proof (cases "i < 8")
    case False
    then have "bit (le_word bs) (i - 8)"
      using Cons.prems bit_imp_le_length [of b i] by (auto simp: bit_simps)
    then show ?thesis using Cons.IH [of "i - 8"] False by simp
  qed simp
qed simp

lemma crc_byte_push:
  assumes "length bs \<le> 3"
  shows "crc_byte (push_bit 8 (le_word bs)) = le_word bs" "drop_bit 8 (le_word (b # bs)) = le_word bs" "ucast (le_word (b # bs)) = b"
proof -
  have inv: "drop_bit 8 (push_bit 8 (le_word bs)) = le_word bs"
    by (rule bit_word_eqI) (use assms le_word_bits [of bs] in \<open>fastforce simp: bit_simps\<close>)
  have "\<forall>i < 8. \<not> bit (push_bit 8 (le_word bs)) i" by (simp add: bit_simps)
  then show "crc_byte (push_bit 8 (le_word bs)) = le_word bs" using inv crc_byte_shift by simp
  have "drop_bit 8 (ucast b :: u32) = 0" by (rule bit_word_eqI) (auto simp: bit_simps dest: bit_imp_le_length)
  then show "drop_bit 8 (le_word (b # bs)) = le_word bs" using inv by simp
  show "ucast (le_word (b # bs)) = b" by (rule bit_word_eqI) (auto simp: bit_simps)
qed

lemma le_word_inj: "\<lbrakk> le_word u = le_word v; length u = length v; length u \<le> 4 \<rbrakk> \<Longrightarrow> u = v"
proof (induction u arbitrary: v)
  case (Cons b bs)
  then obtain c cs where v: "v = c # cs" by (cases v) auto
  have l: "length bs \<le> 3" "length cs \<le> 3" using Cons.prems v by auto
  have "b = c" using crc_byte_push(3) [OF l(1), of b] crc_byte_push(3) [OF l(2), of c] Cons.prems(1) v by simp
  moreover have "le_word bs = le_word cs"
    using crc_byte_push(2) [OF l(1), of b] crc_byte_push(2) [OF l(2), of c] Cons.prems(1) unfolding v by metis
  ultimately show ?case using Cons.IH [of cs] Cons.prems v by simp
qed simp

lemma crc_loop_word: "length u \<le> 4 \<Longrightarrow> crc32_loop c u = (crc_byte ^^ length u) (c XOR le_word u)"
proof (induction u arbitrary: c)
  case (Cons b bs)
  then have l: "length bs \<le> 3" by simp
  have "crc32_loop c (b # bs) = crc32_loop (crc_byte (c XOR ucast b)) bs" by (simp only: crc_loop_bitwise foldl_Cons)
  also have "\<dots> = (crc_byte ^^ length bs) (crc_byte (c XOR ucast b) XOR le_word bs)" using Cons.IH l by simp
  also have "crc_byte (c XOR ucast b) XOR le_word bs = crc_byte (c XOR le_word (b # bs))"
    using crc_byte_push(1) [OF l] crc_byte_xor [of "c XOR ucast b" "push_bit 8 (le_word bs)"] by (simp add: xor.assoc)
  finally show ?case by (simp add: funpow_swap1)
qed simp

lemma crc_byte_funpow_inj: "(crc_byte ^^ n) a = (crc_byte ^^ n) b \<Longrightarrow> a = b"
  by (induction n) (auto dest: crc_byte_inj)

lemma crc_loop_append: "crc32_loop c (u @ v) = crc32_loop (crc32_loop c u) v"
  by (simp add: crc_loop_bitwise)

lemma crc_burst:
  assumes "sky_crc32 (xs @ u @ ys) = sky_crc32 (xs @ v @ ys)" "length u = length v" "length u \<le> 4"
  shows "u = v"
proof -
  have "crc32_loop CRC32_INIT (xs @ u @ ys) = crc32_loop CRC32_INIT (xs @ v @ ys)"
    using assms(1) by (simp add: sky_crc32_def)
  then have "crc32_loop (crc32_loop CRC32_INIT xs) u = crc32_loop (crc32_loop CRC32_INIT xs) v"
    unfolding crc_loop_append by (rule crc_loop_inj)
  then have "(crc_byte ^^ length u) (crc32_loop CRC32_INIT xs XOR le_word u) =
      (crc_byte ^^ length u) (crc32_loop CRC32_INIT xs XOR le_word v)"
    using crc_loop_word assms(2,3) by metis
  then have "crc32_loop CRC32_INIT xs XOR le_word u = crc32_loop CRC32_INIT xs XOR le_word v" by (rule crc_byte_funpow_inj)
  then have "le_word u = le_word v" by simp
  then show ?thesis using le_word_inj assms(2,3) by blast
qed

section \<open>Properties\<close>

text \<open>
  C30: the table-driven checksum of \<open>crc.c\<close> is the CRC-32 of the reflected polynomial \<open>0xEDB88320\<close>,
  computed bit by bit.
\<close>

theorem crc32_table_driven: "sky_crc32 buf = crc32_bitwise buf"
  by (simp add: sky_crc32_def crc32_bitwise_def crc_loop_bitwise CRC32_INIT_def CRC32_INVERSE_def)

text \<open>A frame in its buffer.\<close>

definition frame_in_buffer :: "SkyRadioFrame \<Rightarrow> bool" where
  "frame_in_buffer frame \<longleftrightarrow> length (raw frame) = RAW_SIZE \<and> frame_len frame \<le> RAW_SIZE"

lemma extend_crc:
  assumes "frame_in_buffer frame" "frame_len frame \<le> 219"
  obtains frame' where "sky_extend_with_crc32 frame = Some (SKY_RET_OK, frame')" "frame_in_buffer frame'"
    "frame_len frame' = frame_len frame + 4"
    "raw frame' = take (frame_len frame) (raw frame) @ mem32 (sky_hton32 (sky_crc32 (take (frame_len frame) (raw frame)))) @
       drop (frame_len frame + 4) (raw frame)"
  using assms by (auto simp: sky_extend_with_crc32_def frame_in_buffer_def RAW_SIZE_val SKY_FRAME_MAX_LEN_def)

lemma check_crc:
  assumes "raw frame = d @ mem32 (sky_hton32 c) @ rest" "frame_len frame = length d + 4"
  shows "sky_check_crc32 frame = Some (if c = sky_crc32 d then (SKY_RET_OK, frame\<lparr>frame_len := length d\<rparr>)
    else (SKY_RET_CRC_INVALID_CHECKSUM, frame))"
proof -
  have "sky_ntoh32 (load32 (mem32 (sky_hton32 c) ! 0) (mem32 (sky_hton32 c) ! 1) (mem32 (sky_hton32 c) ! 2)
      (mem32 (sky_hton32 c) ! 3)) = c"
    by (simp add: mem32_def load32_mem wire_simps)
  then show ?thesis using assms by (simp add: sky_check_crc32_def Let_def)
qed

text \<open>Every four bytes are the wire form of some checksum.\<close>

lemma mem32_load32: "mem32 (load32 a b c d) = [a, b, c, d]"
  unfolding mem32_def load32_def by (auto intro!: bit_word_eqI simp: bit_simps impossible_bit)

lemma wire_checksum:
  assumes "length w = 4"
  obtains c where "w = mem32 (sky_hton32 c)"
proof -
  obtain a b c d where "w = [a, b, c, d]" using assms by (auto simp: numeral_eq_Suc length_Suc_conv)
  then have "w = mem32 (sky_hton32 (sky_hton32 (load32 a b c d)))"
    using ntoh32_hton32 [unfolded sky_ntoh32_def] by (simp add: mem32_load32)
  then show ?thesis by (rule that)
qed

lemma wire_checksum_inj: "mem32 (sky_hton32 c) = mem32 (sky_hton32 c') \<longleftrightarrow> c = c'"
  by (metis mem32_inj ntoh32_hton32)

text \<open>
  C31: the checksum of a frame. Appending the checksum to a frame and checking it gives back the frame
  with its length. If at most four consecutive bytes of the data are altered in between, the check reports the error; and
  if the data arrive intact, every alteration of the four checksum bytes is reported.
\<close>

theorem crc_protects_frame:
  assumes "frame_in_buffer frame" "frame_len frame \<le> 219" "take (frame_len frame) (raw frame) = xs @ u @ ys"
    "length v = length u" "length u \<le> 4" "length w = 4"
  shows "\<exists>frame'. sky_extend_with_crc32 frame = Some (SKY_RET_OK, frame') \<and>
    (\<forall>frame''. raw frame'' = xs @ v @ drop (length (xs @ u)) (raw frame') \<and> frame_len frame'' = frame_len frame' \<longrightarrow>
       sky_check_crc32 frame'' = Some (if v = u then (SKY_RET_OK, frame''\<lparr>frame_len := frame_len frame\<rparr>)
         else (SKY_RET_CRC_INVALID_CHECKSUM, frame''))) \<and>
    (\<forall>frame''. raw frame'' = xs @ u @ ys @ w @ drop (frame_len frame + 4) (raw frame') \<and> frame_len frame'' = frame_len frame' \<longrightarrow>
       sky_check_crc32 frame'' = Some (if w = take 4 (drop (frame_len frame) (raw frame'))
         then (SKY_RET_OK, frame''\<lparr>frame_len := frame_len frame\<rparr>) else (SKY_RET_CRC_INVALID_CHECKSUM, frame'')))"
proof -
  define d where "d = take (frame_len frame) (raw frame)"
  have dl: "length d = frame_len frame" using assms(1) by (simp add: d_def frame_in_buffer_def)
  obtain frame' where f: "sky_extend_with_crc32 frame = Some (SKY_RET_OK, frame')" "frame_len frame' = frame_len frame + 4"
    "raw frame' = d @ mem32 (sky_hton32 (sky_crc32 d)) @ drop (frame_len frame + 4) (raw frame)"
    by (rule extend_crc [OF assms(1,2), folded d_def]) (rule that, assumption+)
  have d: "d = xs @ u @ ys" using assms(3) by (simp add: d_def)
  have data: "sky_check_crc32 frame'' = Some (if v = u then (SKY_RET_OK, frame''\<lparr>frame_len := frame_len frame\<rparr>)
      else (SKY_RET_CRC_INVALID_CHECKSUM, frame''))"
    if "raw frame'' = xs @ v @ drop (length (xs @ u)) (raw frame')" "frame_len frame'' = frame_len frame'" for frame''
  proof -
    have "drop (length (xs @ u)) (raw frame') = ys @ mem32 (sky_hton32 (sky_crc32 d)) @ drop (frame_len frame + 4) (raw frame)"
      by (simp add: f(3) d)
    then have r: "raw frame'' = (xs @ v @ ys) @ mem32 (sky_hton32 (sky_crc32 d)) @ drop (frame_len frame + 4) (raw frame)"
      using that(1) by simp
    have n: "frame_len frame'' = length (xs @ v @ ys) + 4" "length (xs @ v @ ys) = frame_len frame"
      using that(2) f(2) dl d assms(4) by simp_all
    have "sky_crc32 d = sky_crc32 (xs @ v @ ys) \<longleftrightarrow> v = u"
      using crc_burst [of xs u ys v] assms(4,5) d by auto
    then show ?thesis using check_crc [OF r n(1)] unfolding n(2) by simp
  qed
  have checksum: "sky_check_crc32 frame'' = Some (if w = take 4 (drop (frame_len frame) (raw frame'))
      then (SKY_RET_OK, frame''\<lparr>frame_len := frame_len frame\<rparr>) else (SKY_RET_CRC_INVALID_CHECKSUM, frame''))"
    if "raw frame'' = xs @ u @ ys @ w @ drop (frame_len frame + 4) (raw frame')" "frame_len frame'' = frame_len frame'" for frame''
  proof -
    obtain c where c: "w = mem32 (sky_hton32 c)" by (rule wire_checksum [OF assms(6)])
    have r: "raw frame'' = d @ mem32 (sky_hton32 c) @ drop (frame_len frame + 4) (raw frame')" using that(1) c d by simp
    have n: "frame_len frame'' = length d + 4" using that(2) f(2) dl by simp
    have "take 4 (drop (frame_len frame) (raw frame')) = mem32 (sky_hton32 (sky_crc32 d))" using f(3) dl by simp
    then show ?thesis using check_crc [OF r n] dl c by (simp add: wire_checksum_inj)
  qed
  show ?thesis using f(1) data checksum by blast
qed

theorem crc_protects_frame_witness:
  "\<exists>frame'. sky_extend_with_crc32 (padded_frame [1, 2, 3, 4]) = Some (SKY_RET_OK, frame') \<and>
    (\<forall>frame'' :: SkyRadioFrame. raw frame'' = [1] @ [2, 9] @ drop 3 (raw frame') \<and> frame_len frame'' = frame_len frame' \<longrightarrow>
       sky_check_crc32 frame'' = Some (SKY_RET_CRC_INVALID_CHECKSUM, frame'')) \<and>
    (\<forall>frame'' :: SkyRadioFrame. raw frame'' = [1, 2, 3, 4] @ [0, 0, 0, 0] @ drop 8 (raw frame') \<and> frame_len frame'' = frame_len frame' \<longrightarrow>
       sky_check_crc32 frame'' = Some (if [0, 0, 0, 0] = take 4 (drop 4 (raw frame'))
         then (SKY_RET_OK, frame''\<lparr>frame_len := 4\<rparr>) else (SKY_RET_CRC_INVALID_CHECKSUM, frame'')))"
proof -
  have "frame_in_buffer (padded_frame [1, 2, 3, 4])" "frame_len (padded_frame [1, 2, 3, 4]) \<le> 219"
    "take (frame_len (padded_frame [1, 2, 3, 4])) (raw (padded_frame [1, 2, 3, 4])) = [1] @ [2, 3] @ [4]"
    by (simp_all add: frame_in_buffer_def padded_frame_def RAW_SIZE_val)
  note t = crc_protects_frame [OF this, of "[2, 9]" "[0, 0, 0, 0]"]
  have n: "frame_len (padded_frame [1, 2, 3, 4]) = 4" by (simp add: padded_frame_def)
  have "length [2, 9 :: byte] = length [2, 3 :: byte]" "length [2, 3 :: byte] \<le> 4" "length [0, 0, 0, 0 :: byte] = 4" by simp_all
  from t [OF this] show ?thesis unfolding n by (simp add: numeral_3_eq_3)
qed

text \<open>
  A window that straddles the data and the checksum is not covered: the checksum is appended with its high byte first, so
  four consecutive bytes of the extended frame are not four consecutive bytes of the code. Two data bytes and the first two
  checksum bytes can change together without being noticed.
\<close>

lemma padded_check:
  assumes "mem32 (sky_hton32 (sky_crc32 d)) = w"
  shows "sky_check_crc32 (padded_frame (d @ w)) = Some (SKY_RET_OK, (padded_frame (d @ w))\<lparr>frame_len := length d\<rparr>)"
proof -
  have "length w = 4" using assms by auto
  then have "frame_len (padded_frame (d @ w)) = length d + 4" by (simp add: padded_frame_def)
  moreover have "raw (padded_frame (d @ w)) = d @ mem32 (sky_hton32 (sky_crc32 d)) @ replicate (RAW_SIZE - length (d @ w)) 0"
    using assms by (simp add: padded_frame_def)
  ultimately show ?thesis using check_crc by simp
qed

lemma straddling_window_unnoticed:
  "sky_check_crc32 (padded_frame ([0x01, 0x02] @ [0xb6, 0xcc, 0x42, 0x92])) =
     Some (SKY_RET_OK, (padded_frame ([0x01, 0x02] @ [0xb6, 0xcc, 0x42, 0x92]))\<lparr>frame_len := length [0x01, 0x02 :: byte]\<rparr>)"
  "sky_check_crc32 (padded_frame ([0x60, 0xda] @ [0x42, 0x22, 0x42, 0x92])) =
     Some (SKY_RET_OK, (padded_frame ([0x60, 0xda] @ [0x42, 0x22, 0x42, 0x92]))\<lparr>frame_len := length [0x60, 0xda :: byte]\<rparr>)"
  by (rule padded_check, simp add: sky_crc32_def crc32_table_def CRC32_INIT_def CRC32_INVERSE_def mem32_def sky_hton32_def)+

end
