(* ===== verification/Golay_Correct.thy ===== *)
theory Golay_Correct
  imports Golay Xor_Group
begin

text \<open>
  Correctness of the Golay code: every pattern of at most three bit errors in the 24 bits of a code word
  is found and corrected, for all data. The proof is by linearity. The parity map is an involution on
  12 bit words, and the sum of \<open>n \<le> 4\<close> distinct rows of its matrix has weight at least \<open>8 - n\<close>; these
  two facts about the matrix are checked by evaluation on bit lists.
\<close>

section \<open>The parity matrix as bit lists\<close>

definition bits12 :: "u32 \<Rightarrow> bool list" where
  "bits12 w = map (bit w) [0..<12]"

definition golay_rows :: "bool list list" where
  "golay_rows = [
     [False, True, True, True, True, True, True, True, True, True, True, True],
     [True, True, True, False, True, True, True, False, False, False, True, False],
     [True, True, False, True, True, True, False, False, False, True, False, True],
     [True, False, True, True, True, False, False, False, True, False, True, True],
     [True, True, True, True, False, False, False, True, False, True, True, False],
     [True, True, True, False, False, False, True, False, True, True, False, True],
     [True, True, False, False, False, True, False, True, True, False, True, True],
     [True, False, False, False, True, False, True, True, False, True, True, True],
     [True, False, False, True, False, True, True, False, True, True, True, False],
     [True, False, True, False, True, True, False, True, True, True, False, False],
     [True, True, False, True, True, False, True, True, True, False, False, False],
     [True, False, True, True, False, True, True, True, False, False, False, True]]"

definition xorl :: "bool list \<Rightarrow> bool list \<Rightarrow> bool list" where
  "xorl a b = map2 (\<lambda>x y. x \<noteq> y) a b"

definition weight :: "bool list \<Rightarrow> nat" where
  "weight a = length (filter id a)"

definition dot :: "bool list \<Rightarrow> bool list \<Rightarrow> bool" where
  "dot a b = odd (weight (map2 (\<and>) a b))"

text \<open>All sums of \<open>n\<close> different vectors of a list.\<close>

fun row_sums :: "nat \<Rightarrow> bool list list \<Rightarrow> bool list list" where
  "row_sums n [] = (if n = 0 then [replicate 12 False] else [])"
| "row_sums n (r # rs) =
     (if n = 0 then [replicate 12 False] else map (xorl r) (row_sums (n - 1) rs) @ row_sums n rs)"

lemma upt12: "[0..<12] = [0, 1, 2, 3, 4, 5, 6, 7, 8, 9, 10, 11 :: nat]"
  by (simp add: upt_rec)

lemma golay_rows_eval: "map (\<lambda>k. bits12 (golay_B (11 - k))) [0..<12] = golay_rows"
  unfolding bits12_def upt12 golay_rows_def golay_B_def golay_H_def by simp

lemma rows_symmetric: "\<forall>j \<in> set [0..<12]. \<forall>k \<in> set [0..<12]. golay_rows ! j ! k = golay_rows ! k ! j"
  by code_simp

lemma rows_orthogonal: "\<forall>j \<in> set [0..<12]. \<forall>k \<in> set [0..<12]. dot (golay_rows ! j) (golay_rows ! k) = (j = k)"
  by code_simp

lemma rows_weights:
  "list_all (\<lambda>v. 7 \<le> weight v) (row_sums 1 golay_rows)" "list_all (\<lambda>v. 6 \<le> weight v) (row_sums 2 golay_rows)"
  "list_all (\<lambda>v. 5 \<le> weight v) (row_sums 3 golay_rows)" "list_all (\<lambda>v. 4 \<le> weight v) (row_sums 4 golay_rows)"
  by code_simp+

section \<open>Parities of words\<close>

lemma odd_filter_xor:
  "odd (length (filter (\<lambda>i. p i \<noteq> q i) xs)) \<longleftrightarrow> odd (length (filter p xs)) \<noteq> odd (length (filter q xs))"
  by (induction xs) auto

lemma parity_xor: "builtin_parity (h AND (a XOR b)) \<longleftrightarrow> builtin_parity (h AND a) \<noteq> builtin_parity (h AND b)"
proof -
  have e: "bit (h AND (a XOR b)) = (\<lambda>i. bit (h AND a) i \<noteq> bit (h AND b) i)" by (auto simp: bit_simps fun_eq_iff)
  show ?thesis unfolding builtin_parity_def popcount_def e by (rule odd_filter_xor)
qed

lemma parity_0 [simp]: "\<not> builtin_parity 0"
  by (simp add: builtin_parity_def popcount_def)

text \<open>The bits of a syndrome: bit \<open>j\<close> is the parity of the row \<open>j\<close> from the end.\<close>

lemma parity_bits_bit:
  assumes "length rows \<le> LENGTH('a)"
  shows "bit (parity_bits rows r :: 'a::len word) j \<longleftrightarrow> j < length rows \<and> builtin_parity (rows ! (length rows - 1 - j) AND r)"
  using assms
proof (induction rows arbitrary: j rule: rev_induct)
  case Nil
  then show ?case by (simp add: parity_bits_def)
next
  case (snoc h rows)
  have step: "(parity_bits (rows @ [h]) r :: 'a word) = push_bit 1 (parity_bits rows r) OR of_bool (builtin_parity (h AND r))"
    by (simp add: parity_bits_def)
  show ?case
  proof (cases j)
    case 0
    then show ?thesis by (simp add: step bit_simps bit_0 even_or_iff)
  next
    case (Suc k)
    have "bit (push_bit 1 (parity_bits rows r) OR of_bool b :: 'a word) (Suc k) \<longleftrightarrow> bit (parity_bits rows r :: 'a word) k"
      if "k < length rows" for b
      using that snoc.prems by (simp only: bit_or_iff bit_push_bit_iff bit_of_bool_iff) (simp add: bit_push_bit_iff)
    moreover have "\<not> bit (push_bit 1 (parity_bits rows r) OR of_bool b :: 'a word) (Suc k)" if "\<not> k < length rows" for b
      using that snoc.IH [of k] snoc.prems by (simp only: bit_or_iff bit_push_bit_iff bit_of_bool_iff) simp
    ultimately show ?thesis using Suc snoc.IH [of k] snoc.prems
      by (cases "k < length rows") (auto simp: step nth_append)
  qed
qed

lemma filter_eq_single_upt: "k < n \<Longrightarrow> filter (\<lambda>i. i = k \<and> b) [0..<n] = (if b then [k] else [])"
proof -
  assume "k < n"
  then have "[0..<n] = [0..<k] @ k # [Suc k..<n]"
    using upt_add_eq_append [of 0 k "n - k"] by (simp add: upt_conv_Cons)
  then show ?thesis by (auto simp: filter_empty_conv)
qed

lemma parity_single: "k < 32 \<Longrightarrow> builtin_parity (h AND 2 ^ k) = bit h k"
proof -
  assume k: "k < 32"
  have "bit (h AND 2 ^ k) = (\<lambda>i. i = k \<and> bit h k)" using k by (auto simp: bit_simps fun_eq_iff)
  then show ?thesis using k by (simp add: builtin_parity_def popcount_def filter_eq_single_upt)
qed

definition B_rows :: "u32 list" where
  "B_rows = map golay_B [0..<12]"

abbreviation parity12 :: "u32 \<Rightarrow> u32" where
  "parity12 r \<equiv> parity_bits B_rows r"

lemma length_rows [simp]: "length golay_H = 12" "length B_rows = 12"
  by (simp_all add: golay_H_def B_rows_def)

lemma parity12_bit: "bit (parity12 r) j \<longleftrightarrow> j < 12 \<and> builtin_parity (golay_B (11 - j) AND r)"
  by (auto simp: parity_bits_bit B_rows_def)

lemma parity12_xor: "parity12 (a XOR b) = parity12 a XOR parity12 b"
  by (rule bit_word_eqI) (auto simp: parity12_bit parity_xor bit_simps)

lemma parity12_0 [simp]: "parity12 0 = 0"
  by (rule bit_word_eqI) (simp add: parity12_bit)

section \<open>Twelve bit words\<close>

definition small :: "u32 \<Rightarrow> bool" where
  "small w \<longleftrightarrow> (\<forall>i. bit w i \<longrightarrow> i < 12)"

lemma small_parity12 [simp]: "small (parity12 r)"
  by (simp add: small_def parity12_bit)

lemma small_xor [simp]: "small a \<Longrightarrow> small b \<Longrightarrow> small (a XOR b)"
  by (auto simp: small_def bit_simps)

lemma small_eqI: "\<lbrakk> small a; small b; bits12 a = bits12 b \<rbrakk> \<Longrightarrow> a = b"
  by (rule bit_word_eqI) (auto simp: small_def bits12_def)

lemma filter_upt_small: "(\<And>i. p i \<Longrightarrow> i < m) \<Longrightarrow> m \<le> n \<Longrightarrow> filter p [0..<n] = filter p [0..<m]"
proof -
  assume p: "\<And>i. p i \<Longrightarrow> i < m" and m: "m \<le> n"
  have "[0..<n] = [0..<m] @ [m..<n]" using upt_add_eq_append [of 0 m "n - m"] m by simp
  moreover have "filter p [m..<n] = []" using p by (fastforce simp: filter_empty_conv)
  ultimately show ?thesis by simp
qed

lemma popcount_small: "small w \<Longrightarrow> popcount w = weight (bits12 w)"
  using filter_upt_small [of "bit w" 12 32]
  by (simp add: popcount_def weight_def bits12_def small_def filter_map comp_def)

lemma length_bits12 [simp]: "length (bits12 w) = 12"
  by (simp add: bits12_def)

lemma bits12_xor: "bits12 (a XOR b) = xorl (bits12 a) (bits12 b)"
  by (rule nth_equalityI) (auto simp: bits12_def xorl_def bit_simps)

lemma parity_dot:
  assumes "small w"
  shows "builtin_parity (h AND w) = dot (bits12 h) (bits12 w)"
proof -
  have s: "small (h AND w)" using assms by (auto simp: small_def bit_simps)
  have "bits12 (h AND w) = map2 (\<and>) (bits12 h) (bits12 w)"
    by (rule nth_equalityI) (auto simp: bits12_def bit_simps)
  then show ?thesis by (simp add: builtin_parity_def dot_def popcount_small [OF s])
qed

lemma row_nth: "k < 12 \<Longrightarrow> golay_rows ! k = bits12 (golay_B (11 - k))"
  unfolding golay_rows_eval [symmetric] by simp

lemma bit_fff: "bit (0xfff :: u32) i \<longleftrightarrow> i < 12"
proof -
  have "(0xfff :: u32) = mask 12" by (simp add: mask_eq_exp_minus_1)
  then show ?thesis by (simp only: bit_mask_iff) auto
qed

lemmas bit_low = bit_and_iff bit_fff

declare bit_numeral_word_iff [simp del]

lemma small_golay_B [simp]: "small (golay_B i)"
  by (simp add: golay_B_def small_def bit_low)

text \<open>The parity map is given by the rows and is its own inverse.\<close>

lemma parity12_row: "k < 12 \<Longrightarrow> bits12 (parity12 (2 ^ k)) = golay_rows ! k"
proof -
  assume k: "k < 12"
  show ?thesis
  proof (rule nth_equalityI)
    show "length (bits12 (parity12 (2 ^ k))) = length (golay_rows ! k)" using row_nth [OF k] by simp
    fix j assume "j < length (bits12 (parity12 (2 ^ k)))"
    then have j: "j < 12" by simp
    have "bits12 (parity12 (2 ^ k)) ! j = golay_rows ! j ! k"
      using j k by (simp add: bits12_def parity12_bit parity_single row_nth)
    also have "\<dots> = golay_rows ! k ! j" using rows_symmetric j k by simp
    finally show "bits12 (parity12 (2 ^ k)) ! j = golay_rows ! k ! j" .
  qed
qed

lemma parity12_twice_basis: "k < 12 \<Longrightarrow> parity12 (parity12 (2 ^ k)) = 2 ^ k"
proof (rule bit_word_eqI)
  fix j assume k: "k < 12" and "j < LENGTH(32)"
  show "bit (parity12 (parity12 (2 ^ k))) j = bit (2 ^ k :: u32) j"
  proof (cases "j < 12")
    case True
    have "bit (parity12 (parity12 (2 ^ k))) j = dot (golay_rows ! j) (golay_rows ! k)"
      using True k by (simp add: parity12_bit parity_dot parity12_row row_nth)
    then show ?thesis using rows_orthogonal True k by (auto simp: bit_simps)
  next
    case False
    then show ?thesis using k by (auto simp: parity12_bit bit_simps)
  qed
qed

section \<open>Weights\<close>

lemma popcount_xor_ge: "popcount a \<le> popcount (a XOR b) + popcount (b :: 'a::len word)"
proof -
  have "length (filter p xs) \<le> length (filter (\<lambda>i. p i \<noteq> q i) xs) + length (filter q xs)" for p q :: "nat \<Rightarrow> bool" and xs
    by (induction xs) auto
  moreover have "bit (a XOR b) = (\<lambda>i. bit a i \<noteq> bit b i)" by (auto simp: bit_simps fun_eq_iff)
  ultimately show ?thesis unfolding popcount_def by simp
qed

lemma popcount_xor_le: "popcount (a XOR b) \<le> popcount a + popcount (b :: 'a::len word)"
  using popcount_xor_ge [of "a XOR b" b] by simp

lemma popcount_0 [simp]: "popcount 0 = 0"
  by (simp add: popcount_def)

lemma popcount_pow [simp]: "k < 32 \<Longrightarrow> popcount (2 ^ k :: u32) = 1"
proof -
  assume k: "k < 32"
  have "bit (2 ^ k :: u32) = (\<lambda>i. i = k \<and> True)" using k by (auto simp: bit_simps fun_eq_iff)
  then show ?thesis unfolding popcount_def using filter_eq_single_upt [of k 32 True] k by simp
qed

lemma popcount_eq_0: "popcount w = 0 \<Longrightarrow> w = (0 :: u32)"
  by (rule bit_word_eqI) (auto simp: popcount_def filter_empty_conv)

text \<open>A 12 bit word is the sum of its bits.\<close>

abbreviation xor_sum :: "u32 list \<Rightarrow> u32" where
  "xor_sum ws \<equiv> foldr (XOR) ws 0"

definition positions :: "u32 \<Rightarrow> nat list" where
  "positions w = filter (bit w) [0..<12]"

lemma xor_sum_bits: "\<lbrakk> distinct ks; \<forall>k \<in> set ks. k < 32 \<rbrakk> \<Longrightarrow> bit (xor_sum (map ((^) 2) ks)) i \<longleftrightarrow> i \<in> set ks"
  by (induction ks) (auto simp: bit_simps)

lemma xor_sum_positions: "small w \<Longrightarrow> w = xor_sum (map ((^) 2) (positions w))"
  by (rule bit_word_eqI) (auto simp: xor_sum_bits positions_def small_def)

lemma popcount_positions: "small w \<Longrightarrow> popcount w = length (positions w)"
  using filter_upt_small [of "bit w" 12 32] by (simp add: popcount_def positions_def small_def)

lemma parity12_sum: "parity12 (xor_sum ws) = xor_sum (map parity12 ws)"
  by (induction ws) (simp_all add: parity12_xor)

lemma parity12_twice: "small w \<Longrightarrow> parity12 (parity12 w) = w"
proof -
  assume w: "small w"
  have "map (\<lambda>k. parity12 (parity12 (2 ^ k))) (positions w) = map ((^) 2) (positions w)"
    by (auto simp: positions_def parity12_twice_basis)
  moreover have "parity12 (parity12 w) = xor_sum (map (\<lambda>k. parity12 (parity12 (2 ^ k))) (positions w))"
    by (subst xor_sum_positions [OF w]) (simp add: parity12_sum comp_def)
  ultimately show ?thesis using xor_sum_positions [OF w] by metis
qed

lemma row_sums_mem:
  "foldr xorl (map f (filter p ks)) (replicate 12 False) \<in> set (row_sums (length (filter p ks)) (map f ks))"
  by (induction ks) auto

lemma bits12_sum: "bits12 (xor_sum (map f ks)) = foldr xorl (map (\<lambda>k. bits12 (f k)) ks) (replicate 12 False)"
proof (induction ks)
  case Nil
  show ?case by (simp add: bits12_def upt12 numeral_eq_Suc)
next
  case (Cons k ks)
  then show ?case by (simp add: bits12_xor)
qed

lemma length_golay_rows [simp]: "length golay_rows = 12"
  by (simp add: golay_rows_def)

lemma parity12_in_sums: "small w \<Longrightarrow> bits12 (parity12 w) \<in> set (row_sums (popcount w) golay_rows)"
proof -
  assume w: "small w"
  have m: "map (\<lambda>k. bits12 (parity12 (2 ^ k))) (positions w) = map ((!) golay_rows) (positions w)"
    by (auto simp: positions_def parity12_row)
  have "bits12 (parity12 w) = foldr xorl (map (\<lambda>k. bits12 (parity12 (2 ^ k))) (positions w)) (replicate 12 False)"
    by (subst xor_sum_positions [OF w]) (simp add: parity12_sum bits12_sum comp_def)
  also have "\<dots> = foldr xorl (map ((!) golay_rows) (positions w)) (replicate 12 False)" by (simp only: m)
  also have "\<dots> \<in> set (row_sums (length (positions w)) (map ((!) golay_rows) [0..<12]))"
    unfolding positions_def by (rule row_sums_mem)
  also have "map ((!) golay_rows) [0..<12] = golay_rows" using map_nth [of golay_rows] by simp
  finally show ?thesis by (simp add: popcount_positions [OF w])
qed

text \<open>The minimum distance of the code, for data words of at most four bits.\<close>

lemma min_distance:
  assumes "small w" "w \<noteq> 0" "popcount w \<le> 4"
  shows "8 \<le> popcount w + popcount (parity12 w)"
proof -
  have "popcount w \<noteq> 0" using popcount_eq_0 assms(2) by blast
  then have "popcount w \<in> {1, 2, 3, 4}" using assms(3) by auto
  then show ?thesis
    using parity12_in_sums [OF assms(1)] rows_weights by (auto simp: list_all_iff popcount_small)
qed

lemma heavy_sum:
  assumes "small x" "x \<noteq> 0" "popcount x \<le> 4"
  shows "8 \<le> popcount (y XOR parity12 x) + popcount y + popcount x"
proof -
  have "popcount (parity12 x) \<le> popcount (y XOR parity12 x) + popcount y"
    using popcount_xor_ge [of "parity12 x" y] by (simp add: xor.commute)
  then show ?thesis using min_distance [OF assms] by linarith
qed

section \<open>Syndromes\<close>

lemma small_0 [simp]: "small 0"
  by (simp add: small_def)

lemma small_pow [simp]: "k < 12 \<Longrightarrow> small (2 ^ k)"
  by (auto simp: small_def bit_simps)

lemma parity12_pow: "k < 12 \<Longrightarrow> parity12 (2 ^ k) = golay_B (11 - k)"
  by (rule small_eqI) (simp_all add: parity12_row row_nth)

text \<open>A 24 bit word is made of its upper and its lower 12 bits.\<close>

definition word24 :: "u32 \<Rightarrow> u32 \<Rightarrow> u32" where
  "word24 hi lo = push_bit 12 hi OR lo"

lemma word24_split:
  assumes "\<forall>i. bit e i \<longrightarrow> i < 24"
  obtains hi lo where "small hi" "small lo" "e = word24 hi lo"
proof
  show "small (drop_bit 12 e)" using assms by (fastforce simp: small_def bit_simps)
  show "small (take_bit 12 e)" by (simp add: small_def bit_simps)
  show "e = word24 (drop_bit 12 e) (take_bit 12 e)"
    by (rule bit_word_eqI) (auto simp: word24_def bit_simps)
qed

lemma bit_word24:
  "\<lbrakk> small hi; small lo \<rbrakk> \<Longrightarrow> bit (word24 hi lo) i \<longleftrightarrow> (if i < 12 then bit lo i else bit hi (i - 12))"
  by (auto simp: word24_def small_def bit_or_iff bit_push_bit_iff)

lemma word24_xor:
  "\<lbrakk> small a; small b; small c; small d \<rbrakk> \<Longrightarrow> word24 a b XOR word24 c d = word24 (a XOR c) (b XOR d)"
  by (rule bit_word_eqI) (simp add: bit_xor_iff bit_word24)

lemma upt_split: "[0..<m + n] = [0..<m] @ map ((+) m) [0..<n]"
  by (rule nth_equalityI) (auto simp: nth_append)

lemma popcount_u32: "popcount (w :: u32) = length (filter (bit w) [0..<32])"
  by (simp only: popcount_def len_num1 len_bit0 len_bit1) simp

lemma popcount_word24: "\<lbrakk> small hi; small lo \<rbrakk> \<Longrightarrow> popcount (word24 hi lo) = popcount hi + popcount lo"
proof -
  assume s: "small hi" "small lo"
  have "32 = 12 + (20 :: nat)" by simp
  then have u: "[0..<32] = [0..<12] @ map ((+) 12) [0..<20]" by (simp only: upt_split)
  have f: "filter (bit (word24 hi lo)) [0..<12] = filter (bit lo) [0..<12]"
    by (rule filter_cong) (simp_all add: bit_word24 s)
  have "filter (bit (word24 hi lo) \<circ> (+) 12) [0..<20] = filter (bit hi) [0..<20]"
    by (rule filter_cong) (simp_all add: bit_word24 s)
  moreover have "filter (bit hi) [0..<20] = filter (bit hi) [0..<12]" "filter (bit hi) [0..<32] = filter (bit hi) [0..<12]"
    "filter (bit lo) [0..<32] = filter (bit lo) [0..<12]"
    using s by (intro filter_upt_small; auto simp: small_def)+
  ultimately show ?thesis unfolding popcount_u32 by (simp only: f u filter_append filter_map length_append length_map)
qed

text \<open>Each row of the check matrix is a unit vector next to a row of the parity matrix.\<close>

lemma golay_H_row: "j < 12 \<Longrightarrow> golay_H ! (11 - j) = word24 (2 ^ j) (golay_B (11 - j))"
proof -
  have "\<forall>j \<in> set [0..<12]. golay_H ! (11 - j) = word24 (2 ^ j) (golay_B (11 - j))"
    unfolding upt12 golay_B_def golay_H_def word24_def by simp
  then show "j < 12 \<Longrightarrow> ?thesis" by simp
qed

lemma parity_word24:
  assumes "small a" "small b" "small c" "small d"
  shows "builtin_parity (word24 a b AND word24 c d) \<longleftrightarrow> builtin_parity (a AND c) \<noteq> builtin_parity (b AND d)"
proof -
  have s: "small (a AND c)" "small (b AND d)" using assms by (auto simp: small_def bit_simps)
  have "word24 a b AND word24 c d = word24 (a AND c) (b AND d)"
    by (rule bit_word_eqI) (simp add: bit_and_iff bit_word24 assms s)
  then show ?thesis by (simp add: builtin_parity_def popcount_word24 s)
qed

lemma syndrome:
  assumes "small hi" "small lo"
  shows "(parity_bits golay_H (word24 hi lo) :: u32) = hi XOR parity12 lo"
    and "ucast (parity_bits golay_H (word24 hi lo) :: u16) = hi XOR parity12 lo"
proof -
  have *: "j < 12 \<Longrightarrow> builtin_parity (golay_H ! (11 - j) AND word24 hi lo) \<longleftrightarrow> bit (hi XOR parity12 lo) j" for j
    using parity_single [of j hi]
    by (simp add: golay_H_row parity_word24 assms bit_xor_iff parity12_bit and.commute [of _ hi])
  have s: "small (hi XOR parity12 lo)" using assms by simp
  show "(parity_bits golay_H (word24 hi lo) :: u32) = hi XOR parity12 lo"
    by (rule bit_word_eqI) (use s in \<open>auto simp: parity_bits_bit * small_def\<close>)
  show "ucast (parity_bits golay_H (word24 hi lo) :: u16) = hi XOR parity12 lo"
    by (rule bit_word_eqI) (use s in \<open>auto simp: bit_ucast_iff parity_bits_bit * small_def\<close>)
qed

lemma ucast_parity12: "ucast (parity_bits B_rows r :: u16) = parity12 r"
  by (rule bit_word_eqI) (auto simp: bit_ucast_iff parity_bits_bit)

lemma popcount_ucast: "popcount (ucast (w :: u16) :: u32) = popcount w"
proof -
  have "filter (bit (ucast w :: u32)) [0..<32] = filter (bit (ucast w :: u32)) [0..<16]"
    by (rule filter_upt_small) (auto simp: bit_ucast_iff dest: bit_imp_le_length)
  also have "\<dots> = filter (bit w) [0..<16]" by (rule filter_cong) (auto simp: bit_ucast_iff)
  finally show ?thesis by (simp add: popcount_def)
qed

section \<open>Correction\<close>

lemma power_inject_exp_u32: "\<lbrakk> k < 32; j < 32 \<rbrakk> \<Longrightarrow> (2 ^ k :: u32) = 2 ^ j \<longleftrightarrow> k = j"
proof -
  assume "k < 32" "j < 32"
  then have "bit (2 ^ k :: u32) k" "bit (2 ^ j :: u32) k \<longleftrightarrow> j = k" by (auto simp: bit_simps)
  then show ?thesis by auto
qed

lemma ucast_up_inj_u16: "(ucast (a :: u16) :: u32) = ucast b \<Longrightarrow> a = b"
proof (rule bit_word_eqI)
  fix n assume "(ucast a :: u32) = ucast b" "n < LENGTH(16)"
  then have "bit (ucast a :: u32) n = bit (ucast b :: u32) n" "n < 32" by simp_all
  then show "bit a n = bit b n" by (simp add: bit_ucast_iff)
qed

lemma popcount_1: "small w \<Longrightarrow> popcount w = 1 \<Longrightarrow> \<exists>k < 12. w = 2 ^ k"
proof -
  assume w: "small w" "popcount w = 1"
  then obtain k where k: "positions w = [k]" by (auto simp: popcount_positions length_Suc_conv)
  then have "k \<in> set (positions w)" by simp
  then have "k < 12" by (simp add: positions_def)
  then show ?thesis using xor_sum_positions [OF w(1)] k by auto
qed

text \<open>The error pattern has at most three bits, in the part \<open>x\<close> under the matrix and the part \<open>y\<close> beside it.\<close>

lemma syndrome_heavy:
  "\<lbrakk> small x; x \<noteq> 0; popcount x + popcount y \<le> 3 \<rbrakk> \<Longrightarrow> \<not> popcount (y XOR parity12 x) \<le> 3"
  using heavy_sum [of x y] by linarith

lemma row_heavy:
  assumes "small x" "popcount x + popcount y \<le> 3" "i < 12" "x \<noteq> 2 ^ (11 - i)"
  shows "\<not> popcount ((y XOR parity12 x) XOR golay_B i) \<le> 2"
proof -
  let ?x = "x XOR 2 ^ (11 - i)"
  have "?x \<noteq> 0" using assms(4) xor_eq_0_iff by blast
  moreover have "popcount ?x \<le> popcount x + 1" using popcount_xor_le [of x "2 ^ (11 - i)"] by simp
  moreover have "(y XOR parity12 x) XOR golay_B i = y XOR parity12 ?x"
    using assms(3) parity12_pow [of "11 - i"] by (simp add: parity12_xor xor.assoc)
  ultimately show ?thesis using heavy_sum [of ?x y] assms by simp
qed

lemma light_row_None:
  assumes "ucast s = y XOR parity12 x" "small x" "popcount x + popcount y \<le> 3" "\<forall>k < 12. x \<noteq> 2 ^ k"
  shows "light_row s = None"
  unfolding light_row_def golay_N_def find_None_iff using row_heavy [OF assms(2,3)] assms(1,4) by simp

lemma light_row_Some:
  assumes "ucast s = y XOR parity12 (2 ^ k)" "k < 12" "popcount y \<le> 2"
  shows "light_row s = Some (11 - k) \<and> ucast s XOR golay_B (11 - k) = y"
proof -
  have y: "ucast s XOR golay_B (11 - k) = y" using assms by (simp add: parity12_pow xor.assoc)
  have "\<not> popcount (ucast s XOR golay_B i) \<le> 2" if "i < 11 - k" for i
  proof -
    have "k \<noteq> 11 - i" using that by simp
    then have "(2 ^ k :: u32) \<noteq> 2 ^ (11 - i)" using assms(2) power_inject_exp_u32 by simp
    then show ?thesis using row_heavy [of "2 ^ k" y i] assms that by simp
  qed
  then show ?thesis using y assms(2,3)
    by (auto simp: light_row_def golay_N_def find_Some_iff intro!: exI [of _ "11 - k"])
qed

lemma golay_error_exact:
  assumes "small hi" "small lo" "popcount hi + popcount lo \<le> 3"
  shows "golay_error (word24 hi lo) = Some (word24 hi lo)"
proof -
  define s where "s = (parity_bits golay_H (word24 hi lo) :: u16)"
  define q where "q = (parity_bits B_rows (ucast s) :: u16)"
  have S: "ucast s = hi XOR parity12 lo" unfolding s_def by (rule syndrome(2) [OF assms(1,2)])
  have Q: "ucast q = lo XOR parity12 hi"
    by (simp add: q_def ucast_parity12 S parity12_xor parity12_twice assms xor.commute)
  have ps: "popcount s = popcount (hi XOR parity12 lo)" by (simp only: popcount_ucast [symmetric] S)
  have pq: "popcount q = popcount (lo XOR parity12 hi)" by (simp only: popcount_ucast [symmetric] Q)
  have err: "golay_error (word24 hi lo) = (if popcount s \<le> 3 then Some (push_bit 12 (ucast s))
         else case light_row s of
           Some i \<Rightarrow> Some (push_bit 12 (ucast s XOR golay_B i) OR push_bit (12 - i - 1) 1)
         | None \<Rightarrow>
             if popcount q \<le> 3 then Some (ucast q)
             else case light_row q of
               Some i \<Rightarrow> Some (push_bit (2 * 12 - i - 1) 1 OR (ucast q XOR golay_B i))
             | None \<Rightarrow> None)"
    unfolding golay_error_def Let_def golay_N_def B_rows_def [symmetric] q_def s_def ..
  consider "lo = 0" | k where "lo = 2 ^ k" "k < 12" | "lo \<noteq> 0" "\<forall>k < 12. lo \<noteq> 2 ^ k" by blast
  then show ?thesis
  proof cases
    case 1
    then show ?thesis using assms S unfolding err by (simp add: ps word24_def)
  next
    case 2
    have "\<not> popcount s \<le> 3" using syndrome_heavy [of lo hi] assms 2 by (simp add: ps add.commute)
    then show ?thesis using light_row_Some [of s hi k] S assms 2 unfolding err by (simp add: word24_def push_bit_eq_mult)
  next
    case 3
    have "popcount lo \<noteq> 0" "popcount lo \<noteq> 1" using 3 popcount_eq_0 popcount_1 assms(2) by blast+
    then have hi: "popcount hi \<le> 1" "popcount lo \<le> 2 \<or> hi = 0" using assms(3) popcount_eq_0 [of hi] by linarith+
    have hs: "\<not> popcount s \<le> 3" "light_row s = None"
      using syndrome_heavy [of lo hi] light_row_None [OF S] assms 3 by (simp_all add: ps add.commute)
    show ?thesis
    proof (cases "hi = 0")
      case True
      then show ?thesis using hs pq assms(3) Q unfolding err by (simp add: word24_def)
    next
      case False
      then have "popcount hi = 1" using hi popcount_eq_0 [of hi] by linarith
      then obtain k where k: "k < 12" "hi = 2 ^ k" using popcount_1 assms(1) by blast
      have "\<not> popcount q \<le> 3" using syndrome_heavy [of hi lo] assms False by (simp add: pq)
      moreover have "push_bit (24 - (11 - k) - 1) 1 = push_bit 12 hi" using k by (simp add: push_bit_eq_mult power_add)
      ultimately show ?thesis using hs light_row_Some [of q lo k] Q k hi False unfolding err by (simp add: word24_def)
    qed
  qed
qed

text \<open>The error that the decoder estimates depends on the syndrome only, and code words have none.\<close>

lemma and_fff: "small (d AND 0xfff :: u32)"
  by (simp add: small_def bit_low)

lemma encode_word24: "encode_golay24 d = word24 (parity12 (d AND 0xfff)) (d AND 0xfff)"
proof -
  have "(0xfff :: u32) AND parity12 (d AND 0xfff) = parity12 (d AND 0xfff)"
    by (rule bit_word_eqI) (auto simp: bit_low parity12_bit)
  moreover have "(parity_bits golay_H (d AND 0xfff) :: u32) = parity12 (d AND 0xfff)"
    using syndrome(1) [OF small_0 and_fff, of d] by (simp add: word24_def)
  ultimately show ?thesis by (simp only: encode_golay24_def golay_N_def Let_def word24_def)
qed

lemma golay_error_code: 
  assumes "small hi" "small lo"
  shows "golay_error (encode_golay24 d XOR word24 hi lo) = golay_error (word24 hi lo)"
proof -
  let ?r = "d AND 0xfff"
  have x: "encode_golay24 d XOR word24 hi lo = word24 (parity12 ?r XOR hi) (?r XOR lo)"
    by (simp add: encode_word24 word24_xor and_fff assms)
  have "ucast (parity_bits golay_H (encode_golay24 d XOR word24 hi lo) :: u16) = (ucast (parity_bits golay_H (word24 hi lo) :: u16) :: u32)"
    unfolding x using syndrome(2) [of "parity12 ?r XOR hi" "?r XOR lo"] syndrome(2) [OF assms]
    by (simp add: assms and_fff parity12_xor xor.assoc xor.left_commute)
  then have "(parity_bits golay_H (encode_golay24 d XOR word24 hi lo) :: u16) = parity_bits golay_H (word24 hi lo)"
    by (rule ucast_up_inj_u16)
  then show ?thesis by (simp add: golay_error_def)
qed

lemma golay_decode_encode:
  assumes "\<forall>i. bit e i \<longrightarrow> i < 24" "popcount e \<le> 3"
  shows "decode_golay24 (encode_golay24 d XOR e) = (int (popcount e), encode_golay24 d) \<and>
    encode_golay24 d AND 0xfff = d AND 0xfff"
proof -
  obtain hi lo where e: "small hi" "small lo" "e = word24 hi lo" using word24_split [OF assms(1)] .
  then have "golay_error e = Some e" using assms(2) by (simp add: golay_error_exact popcount_word24)
  then have "golay_error (encode_golay24 d XOR e) = Some e" using golay_error_code [OF e(1,2), of d] e(3) by simp
  moreover have "encode_golay24 d AND 0xfff = d AND 0xfff"
    by (rule bit_word_eqI) (auto simp: encode_word24 bit_low bit_word24 and_fff)
  ultimately show ?thesis by (simp add: decode_golay24_def xor_cancel)
qed

text \<open>
  C12: the Golay decoder corrects up to three errors. Whatever the data and whichever at most three of
  the 24 bits of its code word are inverted, the decoder gives back the code word, whose low 12 bits
  are the data, and reports the number of errors.
\<close>

theorem golay_corrects:
  assumes "\<forall>i. bit e i \<longrightarrow> i < 24" "popcount e \<le> 3"
  shows "decode_golay24 (encode_golay24 d XOR e) = (int (popcount e), encode_golay24 d) \<and>
    encode_golay24 d AND 0xfff = d AND 0xfff"
  by (rule golay_decode_encode [OF assms])

theorem golay_corrects_witness:
  "decode_golay24 (encode_golay24 0x5a3 XOR 0x800021) = (3, encode_golay24 0x5a3)"
proof -
  have p: "popcount (0x800021 :: u32) = 3" by code_simp
  have "take_bit 24 (0x800021 :: u32) = 0x800021" by simp
  then have "\<forall>i. bit (0x800021 :: u32) i \<longrightarrow> i < 24" by (metis bit_take_bit_iff)
  then show ?thesis using golay_corrects [of "0x800021" "0x5a3"] p by simp
qed

end
