(* ===== verification/Station_Tx.thy ===== *)
theory Station_Tx
  imports VC_Machine Hmac_Correct Skylink_Tx
begin

text \<open>
  The transmitting half of a protocol instance: the window bookkeeping, the choice of a channel and
  the construction of a frame keep the invariant \<open>sky_ok\<close> of the instance and never fail, and every
  frame that leaves \<open>sky_tx\<close> has an abstract view.
\<close>

section \<open>The invariant of an instance\<close>

definition conf_ok :: "SkyConfig \<Rightarrow> bool" where
  "conf_ok c \<longleftrightarrow> conf_identity_len c \<in> {3..7} \<and> length (conf_identity c) = SKY_MAX_IDENTITY_LEN \<and>
     length (conf_vc c) = SKY_NUM_VIRTUAL_CHANNELS \<and> mac_conf_ok (conf_mac c)"

definition channel_ok :: "SkyVirtualChannel \<Rightarrow> bool" where
  "channel_ok v \<longleftrightarrow> (\<exists>Ls Lr W. vc_ok Ls Lr W v)"

definition sky_ok :: "SkyAll \<Rightarrow> bool" where
  "sky_ok self \<longleftrightarrow> conf_ok (sky_conf self) \<and> mac_inv (conf_mac (sky_conf self)) (sky_mac self) \<and>
     hmac_inv (sky_hmac self) \<and> length (vc_stats (sky_diag self)) = SKY_NUM_VIRTUAL_CHANNELS \<and>
     length (virtual_channels self) = SKY_NUM_VIRTUAL_CHANNELS \<and> list_all channel_ok (virtual_channels self)"

lemma sky_okD:
  assumes "sky_ok self"
  shows "conf_ok (sky_conf self)" "mac_conf_ok (conf_mac (sky_conf self))" "mac_inv (conf_mac (sky_conf self)) (sky_mac self)"
    "hmac_inv (sky_hmac self)" "length (vc_stats (sky_diag self)) = SKY_NUM_VIRTUAL_CHANNELS"
    "length (virtual_channels self) = SKY_NUM_VIRTUAL_CHANNELS" "list_all channel_ok (virtual_channels self)"
    "sky_lists_ok self" "length (frames_sent_in_current_window_per_vc (sky_mac self)) = SKY_NUM_VIRTUAL_CHANNELS"
  using assms by (simp_all add: sky_ok_def conf_ok_def sky_lists_ok_def mac_inv_def)

lemma sky_ok_channel: "\<lbrakk> sky_ok self; vc < SKY_NUM_VIRTUAL_CHANNELS \<rbrakk> \<Longrightarrow> channel_ok (virtual_channels self ! vc)"
  by (simp add: sky_ok_def list_all_length)

lemma clock_ticks: "clock t = ticks_ok t"
  by (simp add: clock_def ticks_ok_def)

lemma sky_ok_set_channel:
  "\<lbrakk> sky_ok self; channel_ok v \<rbrakk> \<Longrightarrow> sky_ok (self\<lparr>virtual_channels := (virtual_channels self)[vc := v]\<rparr>)"
  using set_update_subset_insert [of "virtual_channels self" vc v] by (auto simp: sky_ok_def list_all_iff)

section \<open>Window bookkeeping\<close>

lemma mac_inv_fields:
  assumes "mac_inv c m"
  shows "mac_inv c (m\<lparr>unused_window_time := u\<rparr>)" "mac_inv c (close_window m)"
    "vc_round_robin_start (sky_tx_advance_vc_round_robin m) < SKY_NUM_VIRTUAL_CHANNELS"
    "mac_inv c (sky_tx_advance_vc_round_robin m)"
  using assms by (simp_all add: mac_inv_def close_window_def sky_tx_advance_vc_round_robin_def SKY_NUM_VIRTUAL_CHANNELS_def)

text \<open>
  The adjustment counter moves by one when a window ends. When the next one starts it is reset if it
  has reached the adjustment period, so it never leaves the range between plus and minus the period.
\<close>

lemma mac_inv_counter:
  assumes "mac_inv c m" "window_on m" "d \<in> {- 1, 1}" "mac_conf_ok c"
  shows "mac_inv c (m\<lparr>window_adjust_counter := window_adjust_counter m + d, window_on := False\<rparr>)"
    "c_int (window_adjust_counter m + d) = Some (window_adjust_counter m + d)"
proof -
  have b: "\<bar>window_adjust_counter m\<bar> < window_adjustment_period c" "window_adjustment_period c \<le> 4"
    using assms by (auto simp: mac_inv_def mac_conf_ok_def)
  then have d: "\<bar>window_adjust_counter m + d\<bar> \<le> window_adjustment_period c" using assms(3) by auto
  then show "mac_inv c (m\<lparr>window_adjust_counter := window_adjust_counter m + d, window_on := False\<rparr>)"
    using assms(1) by (simp add: mac_inv_def)
  show "c_int (window_adjust_counter m + d) = Some (window_adjust_counter m + d)"
    using b d by (auto simp: c_int_def INT_MIN_def INT_MAX_def)
qed

lemma track_tdd_ok:
  assumes c: "mac_conf_ok c" and m: "mac_inv c m" and t: "clock now"
  obtains m' where "sky_tx_track_tdd_state c m can_send content now = Some m'" "mac_inv c m'"
    "window_on m' = can_send"
    "my_window_length m' = my_window_length m \<or>
     my_window_length m' = min (maximum_window_length_ticks c) (my_window_length m + window_adjust_increment_ticks c) \<or>
     my_window_length m' = max (minimum_window_length_ticks c) (my_window_length m - window_adjust_increment_ticks c)"
proof (cases can_send)
  case False
  show ?thesis
  proof (cases "window_on m")
    case True
    define d :: int where "d = (if unused_window_time m then - 1 else 1)"
    have "d \<in> {- 1, 1}" by (simp add: d_def)
    note C = mac_inv_counter [OF m True this c]
    have "sky_tx_track_tdd_state c m can_send content now = Some (close_window (m\<lparr>window_adjust_counter := window_adjust_counter m + d\<rparr>))"
      using False True C(2) by (auto simp: sky_tx_track_tdd_state_def d_def)
    moreover have "mac_inv c (close_window (m\<lparr>window_adjust_counter := window_adjust_counter m + d\<rparr>))"
      using C(1) by (simp add: mac_inv_def close_window_def)
    ultimately show ?thesis using that False by (simp add: close_window_def)
  next
    case off: False
    then have "sky_tx_track_tdd_state c m can_send content now = Some (close_window m)"
      using False by (simp add: sky_tx_track_tdd_state_def)
    then show ?thesis using that False mac_inv_fields(2) [OF m] by (simp add: close_window_def)
  qed
next
  case True
  define m1 where "m1 = (if content then m else m\<lparr>unused_window_time := True\<rparr>)"
  have m1: "mac_inv c m1" "window_on m1 = window_on m" "my_window_length m1 = my_window_length m"
    using m mac_inv_fields(1) [OF m] by (auto simp: m1_def)
  have on: "mac_inv c (m2\<lparr>window_on := True\<rparr>)" if "mac_inv c m2" "\<bar>window_adjust_counter m2\<bar> < window_adjustment_period c" for m2
    using that by (simp add: mac_inv_def)
  have zero: "mac_inv c (m2\<lparr>window_adjust_counter := 0\<rparr>)" if "mac_inv c m2" for m2
    using that c by (simp add: mac_inv_def mac_conf_ok_def)
  have per: "1 \<le> window_adjustment_period c" using c by (simp add: mac_conf_ok_def)
  have unf: "sky_tx_track_tdd_state c m can_send content now = do {
     m3 \<leftarrow> (if \<not> window_on m1 \<and> window_adjust_counter m1 \<le> - window_adjustment_period c
           then map_option (\<lambda>m. m\<lparr>window_adjust_counter := 0\<rparr>) (mac_shrink_window c m1 now) else Some m1);
     m4 \<leftarrow> (if \<not> window_on m3 \<and> window_adjust_counter m3 \<ge> window_adjustment_period c
           then map_option (\<lambda>m. m\<lparr>window_adjust_counter := 0\<rparr>) (mac_expand_window c m3 now) else Some m3);
     Some (m4\<lparr>window_on := True\<rparr>)
   }"
    using True by (simp add: sky_tx_track_tdd_state_def m1_def)
  show ?thesis
  proof (cases "window_on m")
    case w: True
    then have "sky_tx_track_tdd_state c m can_send content now = Some (m1\<lparr>window_on := True\<rparr>)"
      using m1(2) by (simp add: unf)
    moreover have "\<bar>window_adjust_counter m1\<bar> < window_adjustment_period c" using m1 w by (simp add: mac_inv_def)
    ultimately show ?thesis using that on [OF m1(1)] True m1(3) by simp
  next
    case w: False
    consider (shrink) "window_adjust_counter m1 \<le> - window_adjustment_period c"
      | (expand) "window_adjust_counter m1 \<ge> window_adjustment_period c" "\<not> window_adjust_counter m1 \<le> - window_adjustment_period c"
      | (keep) "\<bar>window_adjust_counter m1\<bar> < window_adjustment_period c" by linarith
    then show ?thesis
    proof cases
      case shrink
      obtain m2 where m2: "mac_shrink_window c m1 now = Some m2" "mac_inv c m2" "window_on m2 = window_on m1"
        "my_window_length m2 = max (minimum_window_length_ticks c) (my_window_length m1 - window_adjust_increment_ticks c)"
        using resize_window_ok(2) [OF c m1(1) t] by blast
      have "sky_tx_track_tdd_state c m can_send content now = Some (m2\<lparr>window_adjust_counter := 0\<rparr>\<lparr>window_on := True\<rparr>)"
        using w m1(2) m2(1,3) shrink per by (simp add: unf)
      then show ?thesis using that on [OF zero [OF m2(2)]] True m2(4) m1(3) per by simp
    next
      case expand
      obtain m2 where m2: "mac_expand_window c m1 now = Some m2" "mac_inv c m2" "window_on m2 = window_on m1"
        "my_window_length m2 = min (maximum_window_length_ticks c) (my_window_length m1 + window_adjust_increment_ticks c)"
        using resize_window_ok(1) [OF c m1(1) t] by blast
      have "sky_tx_track_tdd_state c m can_send content now = Some (m2\<lparr>window_adjust_counter := 0\<rparr>\<lparr>window_on := True\<rparr>)"
        using w m1(2) m2(1,3) expand per by (simp add: unf)
      then show ?thesis using that on [OF zero [OF m2(2)]] True m2(4) m1(3) per by simp
    next
      case keep
      then have "sky_tx_track_tdd_state c m can_send content now = Some (m1\<lparr>window_on := True\<rparr>)"
        using w m1(2) by (simp add: unf abs_less_iff)
      then show ?thesis using that on [OF m1(1) keep] True m1(3) by simp
    qed
  qed
qed

section \<open>Choice of the channel\<close>

lemma content_total:
  assumes "channel_ok v" "ticks_ok now"
  shows "\<exists>b. sky_vc_content_to_send v arq now k = Some b"
proof -
  obtain Ls Lr W ds m ps where view: "vc_view v Ls Lr W ds m ps" "vc_ticks v"
    using assms(1) by (auto simp: channel_ok_def vc_ok_def)
  show ?thesis
  proof (cases "arq_state_flag v = ARQ_STATE_ON")
    case True
    obtain mk where "rcvRing_get_horizon_bitmap (rcvRing v) = Some mk" using vc_bitmap [OF view(1)] by blast
    then show ?thesis using content_on [OF view assms(2) True] vc_count_to_send [OF view(1)] by blast
  next
    case False
    then show ?thesis using vc_count_to_send [OF view(1)] by (auto simp: sky_vc_content_to_send_def Let_def)
  qed
qed

text \<open>A channel has something to transmit: a pending sequence reset or content.\<close>

definition wants_to_send :: "SkyAll \<Rightarrow> sky_tick_t \<Rightarrow> nat \<Rightarrow> bool" where
  "wants_to_send self now vc \<longleftrightarrow> vc_enforcement_need (sky_hmac self) ! vc \<noteq> 0 \<or>
     sky_vc_content_to_send (virtual_channels self ! vc) (conf_arq (sky_conf self)) now
       (unat (frames_sent_in_current_window_per_vc (sky_mac self) ! vc)) = Some True"

definition nth_in_turn :: "SkyAll \<Rightarrow> nat \<Rightarrow> nat" where
  "nth_in_turn self i = (vc_round_robin_start (sky_mac self) + i) mod SKY_NUM_VIRTUAL_CHANNELS"

lemma nth_in_turn_less [simp]: "nth_in_turn self i < SKY_NUM_VIRTUAL_CHANNELS"
  by (simp add: nth_in_turn_def SKY_NUM_VIRTUAL_CHANNELS_def)

lemma pick_loop_find:
  assumes "sky_ok self" "ticks_ok now"
  shows "pick_loop self now i n = Some (List.find (wants_to_send self now) (map (nth_in_turn self) [i..<i + n]))"
proof (induction n arbitrary: i)
  case 0
  then show ?case by simp
next
  case (Suc n)
  note D = sky_okD [OF assms(1)]
  let ?vc = "nth_in_turn self i"
  have L: "?vc < length (virtual_channels self)" "?vc < length (vc_enforcement_need (sky_hmac self))"
    "?vc < length (frames_sent_in_current_window_per_vc (sky_mac self))"
    using D by (simp_all add: hmac_inv_def)
  obtain b where b: "sky_vc_content_to_send (virtual_channels self ! ?vc) (conf_arq (sky_conf self)) now
      (unat (frames_sent_in_current_window_per_vc (sky_mac self) ! ?vc)) = Some b"
    using content_total [OF sky_ok_channel [OF assms(1) nth_in_turn_less] assms(2)] by blast
  have "[i..<i + Suc n] = i # [Suc i..<Suc i + n]" by (simp add: upt_conv_Cons)
  then show ?case using Suc [of "i + 1"] L b
    by (simp add: nth_in_turn_def [symmetric] Let_def wants_to_send_def)
qed

lemma pick_vc_ok:
  assumes "sky_ok self" "ticks_ok now"
  obtains r where "sky_tx_pick_vc self now = Some r" "\<And>vc. r = Some vc \<Longrightarrow> vc < SKY_NUM_VIRTUAL_CHANNELS"
    "\<And>vc. r = Some vc \<Longrightarrow> (\<exists>vc' < SKY_NUM_VIRTUAL_CHANNELS. wants_to_send self now vc') \<Longrightarrow>
       \<exists>i < SKY_NUM_VIRTUAL_CHANNELS. vc = nth_in_turn self i \<and> wants_to_send self now vc \<and>
         (\<forall>j < i. \<not> wants_to_send self now (nth_in_turn self j))"
    "\<And>vc'. \<lbrakk> vc' < SKY_NUM_VIRTUAL_CHANNELS; wants_to_send self now vc' \<rbrakk> \<Longrightarrow> r \<noteq> None"
proof -
  note D = sky_okD [OF assms(1)]
  have cl: "clock now" using assms(2) by (simp add: clock_ticks)
  let ?cs = "map (nth_in_turn self) [0..<SKY_NUM_VIRTUAL_CHANNELS]"
  let ?f = "List.find (wants_to_send self now) ?cs"
  have all: "vc' \<in> set ?cs" if "vc' < SKY_NUM_VIRTUAL_CHANNELS" for vc'
  proof -
    have "vc_round_robin_start (sky_mac self) < 4" using D(3) by (simp add: mac_inv_def SKY_NUM_VIRTUAL_CHANNELS_def)
    then have "vc' = nth_in_turn self ((vc' + 4 - vc_round_robin_start (sky_mac self)) mod 4)"
      using that by (simp add: nth_in_turn_def SKY_NUM_VIRTUAL_CHANNELS_def mod_add_right_eq)
    then show ?thesis by (auto simp: SKY_NUM_VIRTUAL_CHANNELS_def)
  qed
  have loop: "pick_loop self now 0 SKY_NUM_VIRTUAL_CHANNELS = Some ?f" using pick_loop_find [OF assms, of 0] by simp
  show ?thesis
  proof (cases ?f)
    case None
    then have none: "\<not> wants_to_send self now vc'" if "vc' < SKY_NUM_VIRTUAL_CHANNELS" for vc'
      using all [OF that] by (auto simp: find_None_iff)
    obtain b where "mac_idle_frame_needed (conf_mac (sky_conf self)) (sky_mac self) now = Some b"
      using idle_frame_needed_ok [OF D(3) cl] by blast
    then have "sky_tx_pick_vc self now = Some (if b then Some 0 else None)"
      using loop None by (simp add: sky_tx_pick_vc_def)
    then show ?thesis by (rule that) (use none in \<open>auto simp: SKY_NUM_VIRTUAL_CHANNELS_def split: if_splits\<close>)
  next
    case (Some vc)
    then obtain i where i: "i < SKY_NUM_VIRTUAL_CHANNELS" "vc = nth_in_turn self i" "wants_to_send self now vc"
      "\<forall>j < i. \<not> wants_to_send self now (nth_in_turn self j)"
      by (auto simp: find_Some_iff)
    have "sky_tx_pick_vc self now = Some (Some vc)" using loop Some by (simp add: sky_tx_pick_vc_def)
    then show ?thesis by (rule that) (use i in auto)
  qed
qed

section \<open>Construction of a frame\<close>

abbreviation own_identity :: "SkyConfig \<Rightarrow> bytes" where
  "own_identity c \<equiv> take (conf_identity_len c) (conf_identity c)"

lemma start_frame_view:
  assumes "conf_ok c" "layout_ok ly"
  obtains tx where "start_frame ly c frame vc = Some tx" "tx_view ly tx (frame_start (own_identity c)) (of_nat vc AND 3) 0 [] []"
    "frame_len (tx_radio tx) = 1 + conf_identity_len c + hdr_sizeof ly"
proof -
  define il where "il = conf_identity_len c"
  define idn where "idn = own_identity c"
  define n where "n = RAW_SIZE - (1 + il + hdr_sizeof ly)"
  have il: "1 \<le> il" "il \<le> 7" "length idn = il" "length (conf_identity c) = 7" "read_bytes (conf_identity c) 0 il = Some idn"
    using assms(1) by (auto simp: conf_ok_def il_def idn_def SKY_MAX_IDENTITY_LEN_def)
  have hs: "0 < hdr_sizeof ly" "hdr_sizeof ly \<le> 7" using assms(2) by (auto simp: layout_ok_def)
  have sum: "RAW_SIZE = 1 + il + hdr_sizeof ly + n" using il hs by (simp add: n_def RAW_SIZE_val)
  define z where "z = replicate (hdr_sizeof ly) (0 :: byte)"
  have split: "replicate RAW_SIZE 0 = (0 :: byte) # replicate il 0 @ z @ replicate n 0"
    by (simp add: sum z_def replicate_add)
  define b2 where "b2 = frame_start idn @ z @ replicate n 0"
  define b3 where "b3 = frame_start idn @ z[0 := of_nat vc AND 3] @ replicate n 0"
  have "write_bytes ((SKYLINK_FRAME_VERSION_BYTE OR of_nat il) # replicate il 0 @ z @ replicate n 0) 1 idn = Some b2"
    using il(3) by (simp add: write_bytes_def b2_def frame_start_def)
  moreover have "nth_opt b2 (1 + il) = Some 0" "upd_opt b2 (1 + il) (of_nat vc AND 3) = Some b3"
    using il(3) hs by (simp_all add: b2_def b3_def frame_start_def nth_opt_def upd_opt_def nth_append z_def list_update_append)
  moreover have "upd_opt (replicate RAW_SIZE 0) 0 (SKYLINK_FRAME_VERSION_BYTE OR of_nat il) =
      Some ((SKYLINK_FRAME_VERSION_BYTE OR of_nat il) # replicate il 0 @ z @ replicate n 0)"
    unfolding split by (simp add: upd_opt_def)
  ultimately have run: "start_frame ly c frame vc = Some \<lparr>tx_radio = \<lparr>rx_time_ticks = 0, frame_len = 1 + il + hdr_sizeof ly, raw = b3\<rparr>,
      hdr = 1 + il, ptr = 1 + il + hdr_sizeof ly\<rparr>"
    using il(5) by (simp add: start_frame_def sky_frame_clear_def il_def [symmetric] Let_def)
  have "b3 = frame_bytes ly (frame_start idn) (of_nat vc AND 3) 0 [] [] @ replicate n 0"
  proof -
    have "z[0 := of_nat vc AND 3] = mk_hd ly (of_nat vc AND 3) 0 0"
      using assms(2) by (auto simp: z_def mk_hd_def layout_ok_def mem16_def nth_list_update intro!: nth_equalityI)
    then show ?thesis by (simp add: b3_def frame_bytes_def)
  qed
  then have "tx_view ly \<lparr>tx_radio = \<lparr>rx_time_ticks = 0, frame_len = 1 + il + hdr_sizeof ly, raw = b3\<rparr>,
      hdr = 1 + il, ptr = 1 + il + hdr_sizeof ly\<rparr> (frame_start idn) (of_nat vc AND 3) 0 [] []"
    using assms(2) sum il(3)
    by (auto simp: tx_view_def length_frame_bytes frame_start_def intro!: radio_viewI)
  then show ?thesis using run that by (simp add: il_def idn_def)
qed

text \<open>The TDD extension and, for a channel without a pending reset, the reset extension.\<close>

lemma prepare_frame:
  assumes ok: "sky_ok self" and ly: "layout_ok ly" and t: "ticks_ok now" and vc: "vc < SKY_NUM_VIRTUAL_CHANNELS"
  obtains tx0 tx1 ret h tx2 es where
    "start_frame ly (sky_conf self) frame vc = Some tx0"
    "mac_set_frame_fields ly (conf_mac (sky_conf self)) (sky_mac self) tx0 now = Some tx1"
    "sky_tx_extension_eval_hmac_reset ly (sky_hmac self) tx1 vc = Some (ret, h, tx2)" "hmac_inv h"
    "hmac_key h = hmac_key (sky_hmac self)" "sequence_tx h = sequence_tx (sky_hmac self)"
    "fresh_tx ly tx2 (frame_start (own_identity (sky_conf self))) (of_nat vc AND 3) 0 es"
proof -
  note D = sky_okD [OF ok]
  let ?idn = "own_identity (sky_conf self)" and ?f = "of_nat vc AND 3 :: byte"
  obtain tx0 where tx0: "start_frame ly (sky_conf self) frame vc = Some tx0" "tx_view ly tx0 (frame_start ?idn) ?f 0 [] []"
    "frame_len (tx_radio tx0) = 1 + conf_identity_len (sky_conf self) + hdr_sizeof ly"
    by (rule start_frame_view [OF D(1) ly])
  have len: "frame_len (tx_radio tx0) \<le> 15" using tx0(3) D(1) ly by (simp add: conf_ok_def layout_ok_def)
  have f4: "\<not> bit ?f 4" by (simp add: bit_and_iff)
  obtain r where r: "mac_own_window_remaining (conf_mac (sky_conf self)) (sky_mac self) now = Some r"
    using windows_by_phase(1) [OF D(2,3)] t by (simp add: clock_ticks)
  have "frame_len (tx_radio tx0) < 175" using len by simp
  from encoders_append(5) [OF tx0(2) f4 this, of "word_of_int (my_window_length (sky_mac self))"
      "word_of_int (if r < 1 then 1 else r)"]
  obtain tx1 b where tx1: "mac_set_frame_fields ly (conf_mac (sky_conf self)) (sky_mac self) tx0 now = Some tx1"
    "tx_view ly tx1 (frame_start ?idn) ?f 0 [(EXTENSION_MAC_TDD_CONTROL, b)] []" "length b = 4"
    "frame_len (tx_radio tx1) = frame_len (tx_radio tx0) + 5"
    using r by (auto simp: appends_def mac_set_frame_fields_def Let_def)
  have hl: "vc < length (vc_enforcement_need (sky_hmac self))" "vc < length (sequence_rx (sky_hmac self))"
    using D(4) vc by (simp_all add: hmac_inv_def)
  show ?thesis
  proof (cases "vc_enforcement_need (sky_hmac self) ! vc = 0")
    case False
    then have "sky_tx_extension_eval_hmac_reset ly (sky_hmac self) tx1 vc = Some (0, sky_hmac self, tx1)"
      using hl by (simp add: sky_tx_extension_eval_hmac_reset_def)
    moreover have "fresh_tx ly tx1 (frame_start ?idn) ?f 0 [(EXTENSION_MAC_TDD_CONTROL, b)]"
      using tx1(2-4) len f4 by (simp add: fresh_tx_def ext_ok_def ext_size_def extension_types)
    ultimately show ?thesis using that tx0(1) tx1(1) D(4) by blast
  next
    case True
    have "frame_len (tx_radio tx1) < 175" using len tx1(4) by simp
    from encoders_append(6) [OF tx1(2) f4 this, of "sequence_rx (sky_hmac self) ! vc + 3"]
    obtain tx2 b2 where tx2: "sky_frame_add_extension_hmac_sequence_reset ly tx1 (sequence_rx (sky_hmac self) ! vc + 3) = Some tx2"
      "tx_view ly tx2 (frame_start ?idn) ?f 0 [(EXTENSION_MAC_TDD_CONTROL, b), (EXTENSION_HMAC_SEQUENCE_RESET, b2)] []"
      "length b2 = 2" "frame_len (tx_radio tx2) = frame_len (tx_radio tx1) + 3"
      by (auto simp: appends_def)
    define h where "h = (sky_hmac self)\<lparr>vc_enforcement_need := (vc_enforcement_need (sky_hmac self))[vc := 0]\<rparr>"
    have "sky_tx_extension_eval_hmac_reset ly (sky_hmac self) tx1 vc = Some (1, h, tx2)"
      using hl True tx2(1) by (simp add: sky_tx_extension_eval_hmac_reset_def h_def)
    moreover have "hmac_inv h" "hmac_key h = hmac_key (sky_hmac self)" "sequence_tx h = sequence_tx (sky_hmac self)"
      using D(4) by (simp_all add: hmac_inv_def h_def)
    moreover have "fresh_tx ly tx2 (frame_start ?idn) ?f 0 [(EXTENSION_MAC_TDD_CONTROL, b), (EXTENSION_HMAC_SEQUENCE_RESET, b2)]"
      using tx1 tx2 len f4 by (simp add: fresh_tx_def ext_ok_def ext_size_def extension_types)
    ultimately show ?thesis using that tx0(1) tx1(1) by blast
  qed
qed

lemma set_sequence_view:
  assumes "tx_view ly tx pre f sq es pl"
  obtains bs where "hdr_set_frame_sequence ly (raw (tx_radio tx)) (hdr tx) sq' = Some bs"
    "tx_view ly (tx\<lparr>tx_radio := (tx_radio tx)\<lparr>raw := bs\<rparr>\<rparr>) pre f sq' es pl"
proof -
  obtain rest where r: "raw (tx_radio tx) = frame_bytes ly pre f sq es pl @ rest" "layout_ok ly"
    "length (raw (tx_radio tx)) = RAW_SIZE" "frame_len (tx_radio tx) = length (frame_bytes ly pre f sq es pl)"
    "hdr tx = length pre" "ptr tx = frame_len (tx_radio tx)" by (rule tx_viewE [OF assms])
  let ?n = "of_nat (length (enc_exts es)) :: byte" and ?o = "off_frame_sequence ly"
  have o: "?o + 2 \<le> hdr_sizeof ly" using r(2) by (simp add: layout_ok_def)
  define bs where "bs = frame_bytes ly pre f sq' es pl @ rest"
  have "write_bytes (mk_hd ly f sq ?n) ?o (mem16 sq') = Some (mk_hd ly f sq' ?n)"
    using o mk_hd_updates(3) [OF r(2), of f sq ?n sq'] by (simp add: write_bytes_def)
  then have w: "take ?o (mk_hd ly f sq ?n) @ mem16 sq' @ drop (?o + 2) (mk_hd ly f sq ?n) = mk_hd ly f sq' ?n"
    using o by (simp add: write_bytes_def)
  have "hdr_set_frame_sequence ly (raw (tx_radio tx)) (hdr tx) sq' = Some bs"
  proof -
    have "take (length pre + ?o) (raw (tx_radio tx)) = pre @ take ?o (mk_hd ly f sq ?n)"
      using o by (simp add: r(1) frame_bytes_def)
    moreover have "drop (length pre + ?o + 2) (raw (tx_radio tx)) = drop (?o + 2) (mk_hd ly f sq ?n) @ enc_exts es @ pl @ rest"
      using o by (simp add: r(1) frame_bytes_def)
    moreover have "length pre + ?o + 2 \<le> length (raw (tx_radio tx))" using o by (simp add: r(1) length_frame_bytes)
    ultimately show ?thesis
      by (simp add: hdr_set_frame_sequence_def write_bytes_def r(5) bs_def frame_bytes_def flip: w)
  qed
  moreover have "tx_view ly (tx\<lparr>tx_radio := (tx_radio tx)\<lparr>raw := bs\<rparr>\<rparr>) pre f sq' es pl"
    using r by (auto simp: tx_view_def bs_def length_frame_bytes intro!: radio_viewI)
  ultimately show ?thesis using that by blast
qed

text \<open>
  A finished frame: the filled frame with its sequence number and, when the channel authenticates,
  the flag and the code of the contents.
\<close>

definition sealed :: "SkyHeaderLayout \<Rightarrow> keyed_hash \<Rightarrow> bytes \<Rightarrow> bool \<Rightarrow> bytes \<Rightarrow> byte \<Rightarrow> u16 \<Rightarrow> extension list \<Rightarrow> bytes \<Rightarrow>
    SkyRadioFrame \<Rightarrow> bool" where
  "sealed ly hash key auth pre f sq es pl frame \<longleftrightarrow>
     (\<exists>code. radio_view ly frame pre (if auth then set_bit 3 f else f) sq es (pl @ code) \<and> frame_len frame \<le> SKY_FRAME_MAX_LEN \<and>
        (if auth then length code = SKY_HMAC_LENGTH \<and> code_ok hash key frame else code = []))"

abbreviation authenticates :: "SkyVCConfig \<Rightarrow> bool" where
  "authenticates c \<equiv> require_authentication c AND SKY_CONFIG_FLAG_AUTHENTICATE_TX \<noteq> 0"

lemma finish_frame_ok:
  assumes h: "hmac_inv h" "vc < SKY_NUM_VIRTUAL_CHANNELS" and v: "tx_view ly tx pre f sq es pl" "frame_len (tx_radio tx) \<le> 219"
  obtains tx' where
    "finish_frame ly hash h c tx vc = Some (h\<lparr>sequence_tx := (sequence_tx h)[vc := sequence_tx h ! vc + 1]\<rparr>, tx')"
    "sealed ly hash (hmac_key h) (authenticates c) pre f (sky_hton16 (sequence_tx h ! vc)) es pl (tx_radio tx')"
proof -
  define h' where "h' = h\<lparr>sequence_tx := (sequence_tx h)[vc := sequence_tx h ! vc + 1]\<rparr>"
  let ?sq = "sky_hton16 (sequence_tx h ! vc)"
  have next_seq: "sky_hmac_get_next_tx_sequence h vc = Some (sequence_tx h ! vc, h')"
    using h by (simp add: sky_hmac_get_next_tx_sequence_def hmac_inv_def h'_def)
  obtain bs where bs: "hdr_set_frame_sequence ly (raw (tx_radio tx)) (hdr tx) ?sq = Some bs"
    "tx_view ly (tx\<lparr>tx_radio := (tx_radio tx)\<lparr>raw := bs\<rparr>\<rparr>) pre f ?sq es pl" by (rule set_sequence_view [OF v(1)])
  let ?tx1 = "tx\<lparr>tx_radio := (tx_radio tx)\<lparr>raw := bs\<rparr>\<rparr>"
  show ?thesis
  proof (cases "authenticates c")
    case True
    have "frame_len (tx_radio ?tx1) + SKY_HMAC_LENGTH \<le> SKY_FRAME_MAX_LEN"
      using v(2) by (simp add: SKY_HMAC_LENGTH_def SKY_FRAME_MAX_LEN_def)
    then obtain tx' code where t: "sky_hmac_extend_with_authentication hash h' ?tx1 = Some (SKY_RET_OK, tx')"
      "tx_view ly tx' pre (set_bit 3 f) ?sq es (pl @ code)" "length code = SKY_HMAC_LENGTH"
      "code_ok hash (hmac_key h') (tx_radio tx')" "frame_len (tx_radio tx') = frame_len (tx_radio ?tx1) + SKY_HMAC_LENGTH"
      by (rule extend_view [OF bs(2)]) (rule that, assumption+)
    have "sealed ly hash (hmac_key h) (authenticates c) pre f ?sq es pl (tx_radio tx')"
      using t(2-5) v(2) True unfolding sealed_def tx_view_def
      by (intro exI [of _ code]) (simp add: h'_def SKY_HMAC_LENGTH_def SKY_FRAME_MAX_LEN_def)
    moreover have "finish_frame ly hash h c tx vc = Some (h', tx')"
      using next_seq bs(1) t(1) True by (simp add: finish_frame_def)
    ultimately show ?thesis using that by (simp add: h'_def)
  next
    case False
    have "sealed ly hash (hmac_key h) (authenticates c) pre f ?sq es pl (tx_radio ?tx1)"
      using bs(2) v(2) False unfolding sealed_def tx_view_def by (simp add: SKY_FRAME_MAX_LEN_def)
    moreover have "finish_frame ly hash h c tx vc = Some (h', ?tx1)"
      using next_seq bs(1) False by (simp add: finish_frame_def)
    ultimately show ?thesis using that by (simp add: h'_def)
  qed
qed

text \<open>The finished frame does not depend on the view the filled frame is looked at.\<close>

lemma finish_frame_views:
  assumes h: "hmac_inv h" "vc < SKY_NUM_VIRTUAL_CHANNELS" and v: "tx_view ly tx pre f sq es pl" "frame_len (tx_radio tx) \<le> 219"
  obtains tx' where
    "finish_frame ly hash h c tx vc = Some (h\<lparr>sequence_tx := (sequence_tx h)[vc := sequence_tx h ! vc + 1]\<rparr>, tx')"
    "\<And>f es pl. tx_view ly tx pre f sq es pl \<Longrightarrow>
       sealed ly hash (hmac_key h) (authenticates c) pre f (sky_hton16 (sequence_tx h ! vc)) es pl (tx_radio tx')"
proof -
  let ?h' = "h\<lparr>sequence_tx := (sequence_tx h)[vc := sequence_tx h ! vc + 1]\<rparr>"
  obtain tx' where tx': "finish_frame ly hash h c tx vc = Some (?h', tx')" by (rule finish_frame_ok [OF h v])
  have "sealed ly hash (hmac_key h) (authenticates c) pre f (sky_hton16 (sequence_tx h ! vc)) es pl (tx_radio tx')"
    if "tx_view ly tx pre f sq es pl" for f es pl
    by (rule finish_frame_ok [OF h that v(2), where hash = hash and c = c]) (use tx' in simp)
  then show ?thesis using that tx' by blast
qed

lemma count_tx_ok:
  assumes "sky_ok self" "vc < SKY_NUM_VIRTUAL_CHANNELS"
  obtains self' where "count_tx self vc n = Some self'" "sky_ok self'" "sky_conf self' = sky_conf self"
    "virtual_channels self' = virtual_channels self" "sky_hmac self' = sky_hmac self"
proof -
  note D = sky_okD [OF assms(1)]
  show ?thesis
    using assms D(5,9) that
    by (simp add: count_tx_def count_vc_rx_frame_def Let_def) (simp add: sky_ok_def mac_inv_def)
qed

text \<open>
  The outcome of \<open>sky_tx\<close> for a picked channel: what the channel put into the frame leaves as a
  finished frame, with the next sequence number of the channel.
\<close>

definition transmitted :: "SkyHeaderLayout \<Rightarrow> keyed_hash \<Rightarrow> sky_tick_t \<Rightarrow> SkyAll \<Rightarrow> SkyAll \<Rightarrow> SkyRadioFrame \<Rightarrow> nat \<Rightarrow>
    bool" where
  "transmitted ly hash now self self' frame vc \<longleftrightarrow>
     (\<exists>v v' k f ret tx2 es0 tx3 es pl. vc < SKY_NUM_VIRTUAL_CHANNELS \<and>
        sky_vc_check_timeouts (virtual_channels self ! vc) now (arq_timeout_ticks (conf_arq (sky_conf self))) = Some v \<and>
        fresh_tx ly tx2 (frame_start (own_identity (sky_conf self))) (of_nat vc AND 3) 0 es0 \<and>
        sky_vc_fill_frame ly v (conf_arq (sky_conf self)) tx2 now k = Some (ret, v', tx3) \<and> ret \<in> {0, 1} \<and>
        virtual_channels self' ! vc = v' \<and>
        tx_view ly tx3 (frame_start (own_identity (sky_conf self))) f 0 es pl \<and>
        list_all ext_ok es \<and> distinct (map fst es) \<and> flags_kept (of_nat vc AND 3) f \<and> (bit f 4 \<or> pl = []) \<and>
        (\<forall>f es pl. tx_view ly tx3 (frame_start (own_identity (sky_conf self))) f 0 es pl \<longrightarrow>
           sealed ly hash (hmac_key (sky_hmac self)) (authenticates (conf_vc (sky_conf self) ! vc))
             (frame_start (own_identity (sky_conf self))) f (sky_hton16 (sequence_tx (sky_hmac self) ! vc)) es pl frame))"

lemma transmittedI:
  assumes "vc < SKY_NUM_VIRTUAL_CHANNELS"
    "sky_vc_check_timeouts (virtual_channels self ! vc) now (arq_timeout_ticks (conf_arq (sky_conf self))) = Some v"
    "fresh_tx ly tx2 (frame_start (own_identity (sky_conf self))) (of_nat vc AND 3) 0 es0"
    "sky_vc_fill_frame ly v (conf_arq (sky_conf self)) tx2 now k = Some (ret, v', tx3)" "ret \<in> {0, 1}"
    "virtual_channels self' ! vc = v'" "tx_view ly tx3 (frame_start (own_identity (sky_conf self))) f 0 es pl"
    "list_all ext_ok es \<and> distinct (map fst es)" "flags_kept (of_nat vc AND 3) f" "bit f 4 \<or> pl = []"
    "\<And>f es pl. tx_view ly tx3 (frame_start (own_identity (sky_conf self))) f 0 es pl \<Longrightarrow>
       sealed ly hash (hmac_key (sky_hmac self)) (authenticates (conf_vc (sky_conf self) ! vc))
         (frame_start (own_identity (sky_conf self))) f (sky_hton16 (sequence_tx (sky_hmac self) ! vc)) es pl frame"
  shows "transmitted ly hash now self self' frame vc"
  unfolding transmitted_def using assms
  by (intro exI [of _ v] exI [of _ "v'"] exI [of _ k]) blast

lemma fresh_fill_exts:
  assumes "fresh_tx ly tx pre f sq es" "arq_exts es'"
  shows "list_all ext_ok (es @ es') \<and> distinct (map fst (es @ es'))"
proof -
  have "set (map fst es) \<subseteq> {4, 5}" "set (map fst es') \<subseteq> {0, 1, 2, 3}"
    using assms by (simp_all add: fresh_tx_def arq_exts_def extension_types)
  moreover have "{4, 5} \<inter> {0, 1, 2, 3} = ({} :: byte set)" by simp
  ultimately have "set (map fst es) \<inter> set (map fst es') = {}" by blast
  then show ?thesis using assms by (simp add: fresh_tx_def arq_exts_def)
qed

lemma build_frame_ok:
  assumes ok: "sky_ok self" and ly: "layout_ok ly" and t: "ticks_ok now" and vc: "vc < SKY_NUM_VIRTUAL_CHANNELS"
    and old: "sky_conf self0 = sky_conf self" "sky_hmac self0 = sky_hmac self"
      "sky_vc_check_timeouts (virtual_channels self0 ! vc) now (arq_timeout_ticks (conf_arq (sky_conf self0))) = Some (virtual_channels self ! vc)"
  obtains ret self' frame' where "build_frame ly hash now self frame vc = Some (ret, self', frame')" "sky_ok self'"
    "sky_conf self' = sky_conf self" "ret \<in> {1, SKY_RET_RING_EMPTY}" "length (raw frame') = RAW_SIZE"
    "ret = 1 \<Longrightarrow> transmitted ly hash now self0 self' frame' vc"
    "\<exists>tx es k ret0 v' tx'. fresh_tx ly tx (frame_start (own_identity (sky_conf self))) (of_nat vc AND 3) 0 es \<and>
       sky_vc_fill_frame ly (virtual_channels self ! vc) (conf_arq (sky_conf self)) tx now k = Some (ret0, v', tx') \<and>
       (0 \<le> ret0 \<longrightarrow> ret = 1)"
proof -
  define s1 where "s1 = self\<lparr>sky_mac := sky_tx_advance_vc_round_robin (sky_mac self)\<rparr>"
  have ok1: "sky_ok s1" using ok mac_inv_fields(4) by (simp add: sky_ok_def s1_def)
  have s1: "sky_conf s1 = sky_conf self" "sky_hmac s1 = sky_hmac self" "virtual_channels s1 = virtual_channels self"
    by (simp_all add: s1_def)
  note D = sky_okD [OF ok1]
  let ?pre = "frame_start (own_identity (sky_conf s1))"
  obtain tx0 tx1 r0 h tx2 es where tx: "start_frame ly (sky_conf s1) frame vc = Some tx0"
    "mac_set_frame_fields ly (conf_mac (sky_conf s1)) (sky_mac s1) tx0 now = Some tx1"
    "sky_tx_extension_eval_hmac_reset ly (sky_hmac s1) tx1 vc = Some (r0, h, tx2)" "hmac_inv h"
    "hmac_key h = hmac_key (sky_hmac s1)" "sequence_tx h = sequence_tx (sky_hmac s1)"
    "fresh_tx ly tx2 ?pre (of_nat vc AND 3) 0 es"
    by (rule prepare_frame [OF ok1 ly t vc]) (rule that, assumption+)
  let ?v = "virtual_channels s1 ! vc" and ?k = "unat (frames_sent_in_current_window_per_vc (sky_mac s1) ! vc)"
  obtain Ls Lr W where vok: "vc_ok Ls Lr W ?v" using sky_ok_channel [OF ok1 vc] by (auto simp: channel_ok_def)
  obtain ret v' tx3 where fill: "sky_vc_fill_frame ly ?v (conf_arq (sky_conf s1)) tx2 now ?k = Some (ret, v', tx3)"
    and res: "fill_result Ls Lr W ly ?pre (of_nat vc AND 3) 0 es (ret, v', tx3)"
    using fill_frame_ok [OF vok tx(7) t, of "conf_arq (sky_conf s1)" ?k] by auto
  from res obtain f es' pl where R: "vc_ok Ls Lr W v'" "frame_len (tx_radio tx3) \<le> 219" "ret \<in> {0, 1, SKY_RET_RING_EMPTY}"
    "tx_view ly tx3 ?pre f 0 (es @ es') pl" "arq_exts es'" "flags_kept (of_nat vc AND 3) f" "bit f 4 \<or> pl = []"
    by (auto simp: fill_result_def)
  define s2 where "s2 = s1\<lparr>virtual_channels := (virtual_channels s1)[vc := v'], sky_hmac := h\<rparr>"
  have "channel_ok v'" using R(1) by (auto simp: channel_ok_def)
  then have ok2: "sky_ok s2" using sky_ok_set_channel [OF ok1, of v' vc] tx(4) by (simp add: sky_ok_def s2_def)
  have vcs: "vc < length (virtual_channels s1)" "vc < length (frames_sent_in_current_window_per_vc (sky_mac s1))"
    "vc < length (conf_vc (sky_conf s1))"
    using vc D by (simp_all add: sky_lists_ok_def)
  have unf: "build_frame ly hash now self frame vc =
      (if ret < 0 then Some (ret, s2, tx_radio tx3)
       else do {
         (h', tx4) \<leftarrow> finish_frame ly hash h (conf_vc (sky_conf s1) ! vc) tx3 vc;
         self2 \<leftarrow> count_tx (s2\<lparr>sky_hmac := h'\<rparr>) vc (frame_len (tx_radio tx4));
         Some (1, self2, tx_radio tx4)
       })"
    unfolding build_frame_def s1_def [symmetric] using tx(1-3) fill vcs by (simp add: Let_def s2_def)
  show ?thesis
  proof (cases "ret < 0")
    case True
    then have "ret = SKY_RET_RING_EMPTY" using R(3) by (auto simp: ret_codes)
    moreover have "length (raw (tx_radio tx3)) = RAW_SIZE" using R(4) by (simp add: tx_view_def radio_view_def)
    moreover have "\<exists>tx es k ret0 v' tx'. fresh_tx ly tx ?pre (of_nat vc AND 3) 0 es \<and>
       sky_vc_fill_frame ly ?v (conf_arq (sky_conf s1)) tx now k = Some (ret0, v', tx') \<and> (0 \<le> ret0 \<longrightarrow> ret = 1)"
      using tx(7) fill True by (metis not_less)
    ultimately show ?thesis using that unf True ok2 by (simp add: s2_def s1 ret_codes)
  next
    case False
    then have ret01: "ret \<in> {0, 1}" using R(3) by (auto simp: ret_codes)
    obtain tx' where fin: "finish_frame ly hash h (conf_vc (sky_conf s1) ! vc) tx3 vc =
        Some (h\<lparr>sequence_tx := (sequence_tx h)[vc := sequence_tx h ! vc + 1]\<rparr>, tx')"
      "\<And>f es pl. tx_view ly tx3 ?pre f 0 es pl \<Longrightarrow>
        sealed ly hash (hmac_key h) (authenticates (conf_vc (sky_conf s1) ! vc)) ?pre f (sky_hton16 (sequence_tx h ! vc)) es pl (tx_radio tx')"
      by (rule finish_frame_views [OF tx(4) vc R(4,2)]) (rule that, assumption+)
    let ?h' = "h\<lparr>sequence_tx := (sequence_tx h)[vc := sequence_tx h ! vc + 1]\<rparr>"
    have ok3: "sky_ok (s2\<lparr>sky_hmac := ?h'\<rparr>)" using ok2 tx(4) by (simp add: sky_ok_def hmac_inv_def)
    obtain s3 where s3: "count_tx (s2\<lparr>sky_hmac := ?h'\<rparr>) vc (frame_len (tx_radio tx')) = Some s3" "sky_ok s3"
      "sky_conf s3 = sky_conf (s2\<lparr>sky_hmac := ?h'\<rparr>)" "virtual_channels s3 = virtual_channels (s2\<lparr>sky_hmac := ?h'\<rparr>)"
      by (rule count_tx_ok [OF ok3 vc]) (rule that, assumption+)
    have run: "build_frame ly hash now self frame vc = Some (1, s3, tx_radio tx')" using unf False fin(1) s3(1) by simp
    have v3: "virtual_channels s3 ! vc = v'" using s3(4) vcs(1) by (simp add: s2_def)
    have "transmitted ly hash now self0 s3 (tx_radio tx') vc"
      by (rule transmittedI [where v = ?v and v' = v' and k = ?k and ret = ret and ?tx2.0 = tx2 and ?es0.0 = es and es = "es @ es'" and f = f and pl = pl])
        (use vc tx(5-7) fill ret01 R(4-7) fin(2) fresh_fill_exts [OF tx(7) R(5)] old(3) v3 in
          \<open>simp_all add: old(1,2) s1 del: map_append list_all_append\<close>)
    moreover have "length (raw (tx_radio tx')) = RAW_SIZE" using fin(2) [OF R(4)] by (auto simp: sealed_def radio_view_def)
    moreover have "\<exists>tx es k ret0 v' tx'. fresh_tx ly tx (frame_start (own_identity (sky_conf self))) (of_nat vc AND 3) 0 es \<and>
       sky_vc_fill_frame ly (virtual_channels self ! vc) (conf_arq (sky_conf self)) tx now k = Some (ret0, v', tx') \<and>
       (0 \<le> ret0 \<longrightarrow> 1 = (1 :: int))"
      using tx(7) fill unfolding s1 by blast
    ultimately show ?thesis using s3(2,3) by (intro that [OF run]) (auto simp: s2_def s1)
  qed
qed

section \<open>\<open>sky_tx\<close>\<close>

lemma check_all_timeouts_ok:
  assumes "list_all channel_ok vs" "ticks_ok now"
  obtains vs' where "check_all_timeouts vs now timeout = Some vs'" "list_all channel_ok vs'" "length vs' = length vs"
    "\<And>i. i < length vs \<Longrightarrow> sky_vc_check_timeouts (vs ! i) now timeout = Some (vs' ! i)"
proof -
  have "\<exists>vs'. check_all_timeouts vs now timeout = Some vs' \<and> list_all channel_ok vs' \<and> length vs' = length vs \<and>
      (\<forall>i < length vs. sky_vc_check_timeouts (vs ! i) now timeout = Some (vs' ! i))"
    using assms(1)
  proof (induction vs)
    case Nil
    then show ?case by simp
  next
    case (Cons v vs)
    then obtain Ls Lr W where "vc_ok Ls Lr W v" by (auto simp: channel_ok_def)
    from timeouts_keeps [OF this assms(2), of timeout]
    obtain v' where "sky_vc_check_timeouts v now timeout = Some v'" "channel_ok v'" by (auto simp: channel_ok_def)
    then show ?case using Cons by (fastforce simp: less_Suc_eq_0_disj)
  qed
  then show ?thesis using that by blast
qed

text \<open>The first half of \<open>sky_tx\<close>: timeouts, choice of a channel, window bookkeeping.\<close>

lemma sky_tx_run:
  assumes ok: "sky_ok self" and t: "ticks_ok ticks"
  obtains s2 r can vs where "sky_tx ly hash ticks self frame = (case r of None \<Rightarrow> Some (0, s2, frame)
      | Some c \<Rightarrow> if \<not> can then Some (0, s2, frame) else build_frame ly hash ticks s2 frame c)"
    "sky_ok s2" "sky_conf s2 = sky_conf self" "sky_hmac s2 = sky_hmac self" "virtual_channels s2 = vs"
    "check_all_timeouts (virtual_channels self) ticks (arq_timeout_ticks (conf_arq (sky_conf self))) = Some vs"
    "sky_tx_pick_vc (self\<lparr>virtual_channels := vs\<rparr>) ticks = Some r" "sky_ok (self\<lparr>virtual_channels := vs\<rparr>)"
    "mac_can_send (conf_mac (sky_conf self)) (sky_mac self) ticks = Some can"
    "\<And>vc. vc < SKY_NUM_VIRTUAL_CHANNELS \<Longrightarrow>
       sky_vc_check_timeouts (virtual_channels self ! vc) ticks (arq_timeout_ticks (conf_arq (sky_conf self))) = Some (vs ! vc)"
proof -
  note D = sky_okD [OF ok]
  have cl: "clock ticks" using t by (simp add: clock_ticks)
  obtain can where can: "mac_can_send (conf_mac (sky_conf self)) (sky_mac self) ticks = Some can"
    using windows_by_phase(2) [OF D(2,3) cl] by blast
  obtain vs where vs: "check_all_timeouts (virtual_channels self) ticks (arq_timeout_ticks (conf_arq (sky_conf self))) = Some vs"
    "list_all channel_ok vs" "length vs = length (virtual_channels self)"
    "\<And>i. i < length (virtual_channels self) \<Longrightarrow>
       sky_vc_check_timeouts (virtual_channels self ! i) ticks (arq_timeout_ticks (conf_arq (sky_conf self))) = Some (vs ! i)"
    by (rule check_all_timeouts_ok [OF D(7) t]) (rule that, assumption+)
  define s1 where "s1 = self\<lparr>virtual_channels := vs\<rparr>"
  have ok1: "sky_ok s1" using ok vs(2,3) by (simp add: sky_ok_def s1_def)
  obtain r where r: "sky_tx_pick_vc s1 ticks = Some r"
    by (rule pick_vc_ok [OF ok1 t]) (rule that, assumption+)
  obtain m where m: "sky_tx_track_tdd_state (conf_mac (sky_conf self)) (sky_mac self) can (r \<noteq> None) ticks = Some m"
    "mac_inv (conf_mac (sky_conf self)) m"
    by (rule track_tdd_ok [OF D(2,3) cl]) (rule that, assumption+)
  define s2 where "s2 = s1\<lparr>sky_mac := m\<rparr>"
  have ok2: "sky_ok s2" using ok1 m(2) by (simp add: sky_ok_def s2_def s1_def)
  have now: "sky_get_tick_time ticks = ticks" by (simp add: sky_get_tick_time_def)
  have unf: "sky_tx ly hash ticks self frame = (case r of None \<Rightarrow> Some (0, s2, frame)
      | Some c \<Rightarrow> if \<not> can then Some (0, s2, frame) else build_frame ly hash ticks s2 frame c)"
    unfolding s2_def s1_def using can vs(1) r m(1) by (simp add: sky_tx_def now s1_def Let_def)
  show ?thesis
    by (rule that [OF unf ok2 _ _ _ vs(1) r [unfolded s1_def] ok1 [unfolded s1_def] can])
      (use vs(4) D(6) in \<open>simp_all add: s2_def s1_def\<close>)
qed

lemma sky_tx_ok:
  assumes ok: "sky_ok self" and ly: "layout_ok ly" and t: "ticks_ok ticks"
  obtains ret self' frame' where "sky_tx ly hash ticks self frame = Some (ret, self', frame')" "sky_ok self'"
    "sky_conf self' = sky_conf self" "ret \<in> {0, 1, SKY_RET_RING_EMPTY}"
    "ret = 0 \<Longrightarrow> frame' = frame" "length (raw frame) = RAW_SIZE \<Longrightarrow> length (raw frame') = RAW_SIZE"
    "ret = 1 \<Longrightarrow> mac_can_send (conf_mac (sky_conf self)) (sky_mac self) ticks = Some True \<and>
       (\<exists>vc. transmitted ly hash ticks self self' frame' vc)"
proof -
  obtain s2 r can vs where run: "sky_tx ly hash ticks self frame = (case r of None \<Rightarrow> Some (0, s2, frame)
      | Some c \<Rightarrow> if \<not> can then Some (0, s2, frame) else build_frame ly hash ticks s2 frame c)"
    "sky_ok s2" "sky_conf s2 = sky_conf self" "sky_hmac s2 = sky_hmac self" "virtual_channels s2 = vs"
    "sky_tx_pick_vc (self\<lparr>virtual_channels := vs\<rparr>) ticks = Some r" "sky_ok (self\<lparr>virtual_channels := vs\<rparr>)"
    "mac_can_send (conf_mac (sky_conf self)) (sky_mac self) ticks = Some can"
    "\<And>vc. vc < SKY_NUM_VIRTUAL_CHANNELS \<Longrightarrow>
       sky_vc_check_timeouts (virtual_channels self ! vc) ticks (arq_timeout_ticks (conf_arq (sky_conf self))) = Some (vs ! vc)"
    by (rule sky_tx_run [OF ok t]) (rule that, assumption+)
  show ?thesis
  proof (cases "\<exists>c. r = Some c \<and> can")
    case False
    then have "sky_tx ly hash ticks self frame = Some (0, s2, frame)" using run(1) by (auto split: option.split)
    then show ?thesis using that run(2,3) by simp
  next
    case True
    then obtain c where c: "r = Some c" can by blast
    obtain r' where "sky_tx_pick_vc (self\<lparr>virtual_channels := vs\<rparr>) ticks = Some r'" "\<And>vc. r' = Some vc \<Longrightarrow> vc < SKY_NUM_VIRTUAL_CHANNELS"
      by (rule pick_vc_ok [OF run(7) t]) (rule that, assumption+)
    then have lt: "c < SKY_NUM_VIRTUAL_CHANNELS" using run(6) c(1) by simp
    have old: "sky_conf self = sky_conf s2" "sky_hmac self = sky_hmac s2"
      "sky_vc_check_timeouts (virtual_channels self ! c) ticks (arq_timeout_ticks (conf_arq (sky_conf self))) =
        Some (virtual_channels s2 ! c)"
      using run(3-5) run(9) [OF lt] by simp_all
    obtain ret self' frame' where b: "build_frame ly hash ticks s2 frame c = Some (ret, self', frame')" "sky_ok self'"
      "sky_conf self' = sky_conf s2" "ret \<in> {1, SKY_RET_RING_EMPTY}" "length (raw frame') = RAW_SIZE"
      "ret = 1 \<Longrightarrow> transmitted ly hash ticks self self' frame' c"
      by (rule build_frame_ok [OF run(2) ly t lt old]) (rule that, assumption+)
    have "sky_tx ly hash ticks self frame = Some (ret, self', frame')" using run(1) c b(1) by simp
    then show ?thesis
      by (rule that) (use b run(3,8) c in \<open>auto simp: ret_codes\<close>)
  qed
qed

end
