(* ===== verification/Station.thy ===== *)
theory Station
  imports Station_Tx Skylink_Rx Sky_Create
begin

text \<open>
  A protocol instance as a whole: \<open>sky_create\<close> establishes the invariant, \<open>sky_tx\<close>, \<open>sky_rx\<close> and the
  calls of the upper stack keep it, and what one instance transmits another one hands to its channel.
\<close>

section \<open>\<open>sky_rx\<close> on arbitrary bytes\<close>

definition rx_frame_ok :: "SkyRadioFrame \<Rightarrow> bool" where
  "rx_frame_ok frame \<longleftrightarrow> length (raw frame) = RAW_SIZE \<and> frame_len frame \<le> RAW_SIZE \<and> ticks_ok (rx_time_ticks frame)"

lemma identity_mask: "unat (b AND SKYLINK_FRAME_IDENTITY_MASK) \<le> 7"
proof -
  have "b AND 7 \<le> 7" by (rule word_and_le1)
  then show ?thesis by (simp add: word_le_nat_alt SKYLINK_FRAME_IDENTITY_MASK_def)
qed

lemma parse_header_total:
  assumes f: "rx_frame_ok frame" and c: "conf_ok c" and ly: "layout_ok ly"
  obtains r where "parse_header ly c frame = Some r"
    "\<And>p. r = Inr p \<Longrightarrow> p_raw p = raw frame \<and> no_exts p \<and> length (p_hdr p) = hdr_sizeof ly \<and>
       p_payload p + payload_len p \<le> frame_len frame"
proof -
  have L: "length (raw frame) = 229" "frame_len frame \<le> 229" using f by (simp_all add: rx_frame_ok_def RAW_SIZE_val)
  have hs: "0 < hdr_sizeof ly" "hdr_sizeof ly \<le> 7" "off_extension_length ly < hdr_sizeof ly" using ly by (auto simp: layout_ok_def)
  define il where "il = unat (raw frame ! 0 AND SKYLINK_FRAME_IDENTITY_MASK)"
  define h where "h = take (hdr_sizeof ly) (drop (1 + il) (raw frame))"
  have il: "il \<le> 7" unfolding il_def by (rule identity_mask)
  have reads: "nth_opt (raw frame) 0 = Some (raw frame ! 0)" "read_bytes (raw frame) 1 il = Some (take il (drop 1 (raw frame)))"
    "read_bytes (raw frame) (1 + il) (hdr_sizeof ly) = Some h"
    using L il hs by (simp_all add: nth_opt_def read_bytes_def h_def)
  have lh: "length h = hdr_sizeof ly" using L il hs by (simp add: h_def)
  obtain b where filt: "filter_by_identity c (take il (drop 1 (raw frame))) il = Some b"
    using il c by (auto simp: filter_by_identity_def conf_ok_def SKY_MAX_IDENTITY_LEN_def)
  have el: "hdr_extension_length ly h 0 = Some (h ! off_extension_length ly)" using lh hs by (simp add: hdr_extension_length_def)
  obtain pf where fl: "flag_has_payload h 0 = Some pf" using lh hs by (simp add: flag_has_payload_def hdr_flag_def)
  have "\<exists>r. parse_header ly c frame = Some r \<and> (\<forall>p. r = Inr p \<longrightarrow> p_raw p = raw frame \<and> no_exts p \<and>
      length (p_hdr p) = hdr_sizeof ly \<and> p_payload p + payload_len p \<le> frame_len frame)"
    using reads filt el fl lh
    by (simp add: parse_header_def Let_def il_def [symmetric] no_exts_def)
  then show ?thesis using that by blast
qed

lemma check_result_ok:
  assumes ok: "sky_ok self" and pre: "check_pre ly self frame p" "reset_length_2 p"
    and run: "sky_hmac_check_authentication ly hash self frame p = Some (ret, self', p')"
  shows "sky_ok self'" "sky_conf self' = sky_conf self" "parsed_ok p'" "length (p_hdr p') = length (p_hdr p)"
    "sky_mac self' = sky_mac self" "virtual_channels self' = virtual_channels self" "mac_tdd p' = mac_tdd p" "p_hdr p' ! 0 = p_hdr p ! 0"
proof -
  note eq = run [unfolded check_authentication_eq [OF pre]]
  have lay: "1 \<le> off_frame_sequence ly" "off_frame_sequence ly + 2 \<le> length (p_hdr p)"
    using pre(1) by (auto simp: check_pre_def layout_ok_def)
  have h: "length (p_hdr (host_header ly p)) = length (p_hdr p)" "p_hdr (host_header ly p) ! 0 = p_hdr p ! 0"
    using lay by (auto simp: host_header_def nth_append)
  have s: "self' = self \<or> (\<exists>vc. self' = rejected self vc) \<or> self' = self\<lparr>sky_diag := count_hmac_fail (sky_diag self)\<rparr> \<or>
      (\<exists>vc q. self' = self\<lparr>sky_hmac := (sky_hmac self)\<lparr>sequence_rx := (sequence_rx (sky_hmac self))[vc := q]\<rparr>\<rparr>)"
    using eq by (auto split: if_splits)
  then show "sky_ok self'" "sky_conf self' = sky_conf self" "sky_mac self' = sky_mac self"
    "virtual_channels self' = virtual_channels self"
    using ok by (auto simp: sky_ok_def rejected_def count_hmac_fail_def hmac_inv_def)
  have q: "p' = host_header ly p \<or> p' = (host_header ly p)\<lparr>payload_len := payload_len p - SKY_HMAC_LENGTH\<rparr>"
    using eq by (auto split: if_splits)
  then show "length (p_hdr p') = length (p_hdr p)" "p_hdr p' ! 0 = p_hdr p ! 0" "mac_tdd p' = mac_tdd p"
    using h by (auto simp: host_header_def)
  have "ext_slot ty p' = ext_slot ty p" "p_raw p' = p_raw p" "p_payload p' = p_payload p" "payload_len p' \<le> payload_len p" for ty
    using q by (auto simp: host_header_def ext_slot_def)
  then show "parsed_ok p'" using pre(1) by (fastforce simp: check_pre_def parsed_ok_def)
qed

lemma mac_control_ok:
  assumes ok: "sky_ok self" and p: "parsed_ok p" "0 < length (p_hdr p)" and t: "ticks_ok ticks" "ticks_ok rt"
  obtains self' where "sky_rx_process_ext_mac_control ticks self rt p = Some self'" "sky_ok self'"
    "sky_conf self' = sky_conf self" "virtual_channels self' = virtual_channels self" "sky_diag self' = sky_diag self"
    "sky_hmac self' = sky_hmac self"
proof (cases "mac_tdd p")
  case None
  then show ?thesis using that ok by (simp add: sky_rx_process_ext_mac_control_def)
next
  case (Some e)
  note D = sky_okD [OF ok]
  obtain a where a: "flag_authenticated (p_hdr p) 0 = Some a" using p(2) by (simp add: flag_authenticated_def hdr_flag_def)
  obtain bs where bs: "ext_body p e 4 = Some bs"
    using parsed_ok_body [OF p(1), of EXTENSION_MAC_TDD_CONTROL e 4] Some by (auto simp: ext_slots_named)
  define w r where "w = uint (sky_ntoh16 (load16 (bs ! 0) (bs ! 1)))" and "r = uint (sky_ntoh16 (load16 (bs ! 2) (bs ! 3)))"
  have wr: "0 \<le> w" "w < 65536" "0 \<le> r" "r < 65536"
    using uint_lt2p [of "sky_ntoh16 (load16 (bs ! 0) (bs ! 1))"] uint_lt2p [of "sky_ntoh16 (load16 (bs ! 2) (bs ! 3))"]
    by (simp_all add: w_def r_def)
  obtain m where m: "mac_update_belief (conf_mac (sky_conf self)) (sky_mac self) ticks rt w r = Some m"
    "mac_inv (conf_mac (sky_conf self)) m"
    by (rule update_belief_ok [OF D(2,3) _ _ wr, of ticks rt]) (use t in \<open>simp_all add: clock_ticks\<close>)
  have ok': "sky_ok (self\<lparr>sky_mac := m\<rparr>)" using ok m(2) by (simp add: sky_ok_def)
  have unf: "sky_rx_process_ext_mac_control ticks self rt p =
      (if unauthenticated_mac_updates (conf_mac (sky_conf self)) = 0 \<and> \<not> a then Some self else Some (self\<lparr>sky_mac := m\<rparr>))"
    using Some a bs m(1) by (simp add: sky_rx_process_ext_mac_control_def sky_get_tick_time_def w_def r_def)
  show ?thesis
  proof (cases "unauthenticated_mac_updates (conf_mac (sky_conf self)) = 0 \<and> \<not> a")
    case True
    then show ?thesis using unf by (intro that [of self] ok) simp_all
  next
    case False
    then have "sky_rx_process_ext_mac_control ticks self rt p = Some (self\<lparr>sky_mac := m\<rparr>)" unfolding unf by (rule if_not_P)
    then show ?thesis by (intro that [OF _ ok']) simp_all
  qed
qed

text \<open>The last part of \<open>sky_rx\<close>, for a frame that passed the checks.\<close>

definition deliver :: "sky_tick_t \<Rightarrow> sky_tick_t \<Rightarrow> SkyAll \<Rightarrow> SkyParsedFrame \<Rightarrow> (int \<times> SkyAll) option" where
  "deliver ticks rt self p = do {
     self2 \<leftarrow> sky_rx_process_ext_mac_control ticks self rt p;
     vc \<leftarrow> hdr_vc (p_hdr p) 0;
     d2 \<leftarrow> count_vc_rx_frame (sky_diag self2) vc;
     v \<leftarrow> nth_opt (virtual_channels self2) vc;
     (ret, v') \<leftarrow> sky_vc_process_frame ticks v p (sky_get_tick_time ticks);
     vs \<leftarrow> upd_opt (virtual_channels self2) vc v';
     Some (ret, self2\<lparr>sky_diag := d2, virtual_channels := vs\<rparr>)
   }"

lemma deliver_ok:
  assumes ok: "sky_ok self" and p: "parsed_ok p" "0 < length (p_hdr p)" and t: "ticks_ok ticks" "ticks_ok rt"
  obtains ret self' v' where
    "deliver ticks rt self p = Some (ret, self')" "sky_ok self'"
    "sky_conf self' = sky_conf self"
    "sky_vc_process_frame ticks (virtual_channels self ! parsed_vc p) p ticks = Some (ret, v')"
    "virtual_channels self' = (virtual_channels self)[parsed_vc p := v']"
proof -
  obtain s2 where s2: "sky_rx_process_ext_mac_control ticks self rt p = Some s2" "sky_ok s2"
    "sky_conf s2 = sky_conf self" "virtual_channels s2 = virtual_channels self" "sky_diag s2 = sky_diag self"
    by (rule mac_control_ok [OF assms]) (rule that, assumption+)
  let ?vc = "parsed_vc p"
  note D = sky_okD [OF s2(2)]
  have vc: "?vc < SKY_NUM_VIRTUAL_CHANNELS" unfolding parsed_vc_def by (rule header_vc)
  have hd: "hdr_vc (p_hdr p) 0 = Some ?vc" using p(2) by (simp add: hdr_vc_def parsed_vc_def)
  obtain Ls Lr W where "vc_ok Ls Lr W (virtual_channels s2 ! ?vc)" using sky_ok_channel [OF s2(2) vc] by (auto simp: channel_ok_def)
  then obtain ret v' where v': "sky_vc_process_frame ticks (virtual_channels s2 ! ?vc) p ticks = Some (ret, v')" "vc_ok Ls Lr W v'"
    by (rule process_frame_ok [OF _ t(1) t(1) p(1)]) (rule that, assumption+)
  obtain d2 where d2: "count_vc_rx_frame (sky_diag s2) ?vc = Some d2" "length (vc_stats d2) = SKY_NUM_VIRTUAL_CHANNELS"
    using D(5) vc by (simp add: count_vc_rx_frame_def)
  have "channel_ok v'" using v'(2) by (auto simp: channel_ok_def)
  then have ok': "sky_ok (s2\<lparr>sky_diag := d2, virtual_channels := (virtual_channels s2)[?vc := v']\<rparr>)"
    using sky_ok_set_channel [OF s2(2), of v' ?vc] d2(2) by (simp add: sky_ok_def)
  show ?thesis
    by (rule that [OF _ ok'])
      (use s2 hd d2(1) v'(1) vc D(6) in \<open>simp_all add: deliver_def sky_get_tick_time_def\<close>)
qed

lemma sky_rx_ok:
  assumes ok: "sky_ok self" and ly: "layout_ok ly" and f: "rx_frame_ok frame" and t: "ticks_ok ticks"
  obtains ret self' where "sky_rx ly hash ticks self frame = Some (ret, self')" "sky_ok self'" "sky_conf self' = sky_conf self"
proof -
  define s1 where "s1 = self\<lparr>sky_diag := (sky_diag self)\<lparr>rx_frames := rx_frames (sky_diag self) + 1,
      rx_bytes := rx_bytes (sky_diag self) + of_nat (frame_len frame)\<rparr>\<rparr>"
  have ok1: "sky_ok s1" "sky_conf s1 = sky_conf self" using ok by (simp_all add: sky_ok_def s1_def)
  have rt: "ticks_ok (rx_time_ticks frame)" using f by (simp add: rx_frame_ok_def)
  obtain r where r: "parse_header ly (sky_conf s1) frame = Some r"
    "\<And>p. r = Inr p \<Longrightarrow> p_raw p = raw frame \<and> no_exts p \<and> length (p_hdr p) = hdr_sizeof ly \<and>
       p_payload p + payload_len p \<le> frame_len frame"
    by (rule parse_header_total [OF f sky_okD(1) [OF ok1(1)] ly]) (rule that, assumption+)
  have "\<exists>ret self'. sky_rx ly hash ticks self frame = Some (ret, self') \<and> sky_ok self' \<and> sky_conf self' = sky_conf self"
  proof (cases "frame_len frame < SKY_FRAME_MIN_LEN \<or> (\<exists>e. r = Inl e)")
    case True
    then show ?thesis using r(1) ok ok1 by (auto simp: sky_rx_def Let_def s1_def [symmetric])
  next
    case False
    then obtain p0 where p0: "r = Inr p0" by (cases r) auto
    note P = r(2) [OF p0]
    have fl: "frame_len frame \<le> length (raw frame)" "0 < length (raw frame)" "length (raw frame) = 229"
      using f by (simp_all add: rx_frame_ok_def RAW_SIZE_val)
    obtain ret1 p1 where p1: "sky_frame_parse_extension_headers ly frame p0 = Some (ret1, p1)" "same_frame p1 p0" "ptrs_inside frame p1"
      by (rule parse_total [OF fl(1,2) ly]) (use P in \<open>auto intro: that\<close>)
    have unf: "sky_rx ly hash ticks self frame =
        (if ret1 < 0 then Some (ret1, s1)
         else do {
           (ret2, self1, parsed) \<leftarrow> sky_hmac_check_authentication ly hash s1 frame p1;
           if ret2 < 0 then Some (ret2, self1)
           else deliver ticks (rx_time_ticks frame) self1 parsed
         })"
      using False r(1) p0 p1(1) unfolding sky_rx_def Let_def s1_def [symmetric] deliver_def [symmetric] by simp
    have pp: "p_raw p1 = raw frame" "length (p_hdr p1) = hdr_sizeof ly" "p_payload p1 + payload_len p1 \<le> frame_len frame"
      using p1(2) P by (auto simp: same_frame_def)
    have pok: "parsed_ok p1"
      using p1(3) pp fl by (fastforce simp: parsed_ok_def ptrs_inside_def)
    have pre: "check_pre ly s1 frame p1" using pp pok fl ly sky_okD(8) [OF ok1(1)] by (simp add: check_pre_def)
    have rs: "reset_length_2 p1" using parsed_lengths [OF _ p1(1)] P pp(1) by (blast intro: slot_lengths_reset)
    obtain ret2 self1 p2 where chk: "sky_hmac_check_authentication ly hash s1 frame p1 = Some (ret2, self1, p2)"
      using check_authentication_eq [OF pre rs, of hash] by (metis prod_cases3)
    note C = check_result_ok [OF ok1(1) pre rs chk]
    have "0 < length (p_hdr p2)" using C(4) pp(2) ly by (simp add: layout_ok_def)
    then obtain ret self' where d: "deliver ticks (rx_time_ticks frame) self1 p2 = Some (ret, self')" "sky_ok self'"
      "sky_conf self' = sky_conf self1"
      by (rule deliver_ok [OF C(1,3) _ t rt]) (rule that, assumption+)
    show ?thesis using unf chk d C(1,2) ok1 by auto
  qed
  then show ?thesis using that by blast
qed

section \<open>Reception of a frame that another instance transmitted\<close>

lemma carries_host: "carries p es pl \<Longrightarrow> carries (host_header ly p) es pl"
proof -
  assume c: "carries p es pl"
  have q: "ext_slot ty (host_header ly p) = ext_slot ty p" "p_raw (host_header ly p) = p_raw p"
    "p_payload (host_header ly p) = p_payload p" "payload_len (host_header ly p) = payload_len p" for ty
    by (simp_all add: host_header_def ext_slot_def)
  then have "ext_lookup (host_header ly p) ty = ext_lookup p ty" for ty by (simp only: ext_lookup_def)
  moreover have "parsed_payload (host_header ly p) = parsed_payload p" "parsed_ok (host_header ly p) = parsed_ok p"
    by (simp_all only: parsed_payload_def parsed_ok_def q)
  ultimately show ?thesis using c by (simp add: carries_def q)
qed

text \<open>
  The receiver accepts: an authenticated frame must have a payload field, and where the channel
  requires authentication the keys agree and the sequence number is close enough.
\<close>

definition accepts :: "SkyAll \<Rightarrow> nat \<Rightarrow> byte \<Rightarrow> bool \<Rightarrow> bytes \<Rightarrow> u16 \<Rightarrow> bool" where
  "accepts self vc f auth key sq \<longleftrightarrow>
     (auth \<longrightarrow> bit f 4) \<and>
     (require_authentication (conf_vc (sky_conf self) ! vc) AND SKY_CONFIG_FLAG_REQUIRE_AUTHENTICATION \<noteq> 0 \<longrightarrow>
        auth \<and> hmac_key (sky_hmac self) = key \<and>
        (require_authentication (conf_vc (sky_conf self) ! vc) AND SKY_CONFIG_FLAG_REQUIRE_SEQUENCE \<noteq> 0 \<longrightarrow>
           uint (sq - sequence_rx (sky_hmac self) ! vc) \<le> maximum_jump (conf_hmac (sky_conf self))))"

lemma sky_rx_sealed:
  assumes ok: "sky_ok self" and t: "ticks_ok ticks" "ticks_ok (rx_time_ticks frame)"
    and v: "sealed ly hash key auth (frame_start idn) f sq es pl frame" and il: "length idn \<in> {3..7}"
    and es: "list_all ext_ok es" "distinct (map fst es)" and f: "bit f 4 \<or> pl = []" "\<not> bit f 3"
    and idn: "other_identity (sky_conf self) idn" and acc: "accepts self (unat (f AND 3)) f auth key (sky_ntoh16 sq)"
  obtains ret self' p v' where "sky_rx ly hash ticks self frame = Some (ret, self')" "sky_ok self'" "carries p es pl"
    "sky_vc_process_frame ticks (virtual_channels self ! unat (f AND 3)) p ticks = Some (ret, v')"
    "virtual_channels self' = (virtual_channels self)[unat (f AND 3) := v']"
proof -
  define f1 where "f1 = (if auth then set_bit 3 f else f)"
  obtain code where c: "radio_view ly frame (frame_start idn) f1 sq es (pl @ code)"
    "if auth then length code = SKY_HMAC_LENGTH \<and> code_ok hash key frame else code = []"
    using v by (auto simp: sealed_def f1_def)
  have il': "1 \<le> length idn" "length idn \<le> 7" using il by auto
  have f3: "f1 AND 3 = f AND (3 :: byte)" "bit f1 4 = bit f 4"
    by (auto simp: f1_def bit_simps set_bit_eq_or bit.conj_disj_distrib2)
  have f4: "bit f1 4 \<or> pl @ code = []" using f(1) c(2) acc by (auto simp: f3 accepts_def split: if_splits)
  define s1 where "s1 = self\<lparr>sky_diag := (sky_diag self)\<lparr>rx_frames := rx_frames (sky_diag self) + 1,
      rx_bytes := rx_bytes (sky_diag self) + of_nat (frame_len frame)\<rparr>\<rparr>"
  have ok1: "sky_ok s1" and s1: "sky_conf s1 = sky_conf self" "sky_hmac s1 = sky_hmac self" "virtual_channels s1 = virtual_channels self"
    using ok by (simp_all add: sky_ok_def s1_def)
  obtain p where p: "hand_over ly (sky_conf s1) frame = Some p" "carries p es (pl @ code)"
    by (rule hand_over_ok [OF c(1) il' idn [folded s1(1)] es f4])
  note H = hand_over_facts [OF c(1) il' es f4 p(1) sky_okD(8) [OF ok1]]
  have lay: "layout_ok ly" using H(1) by (simp add: check_pre_def)
  note M = mk_hd_fields [OF lay, of f1 sq "of_nat (length (enc_exts es))"]
  have hd: "p_hdr p ! 0 = f1" "parsed_vc p = unat (f AND 3)" "parsed_sequence ly p = sky_ntoh16 sq"
    using M f3(1) by (simp_all add: H(3) parsed_vc_def parsed_sequence_def mem16_def load16_mem)
  have lhd: "0 < length (p_hdr p)" using lay H(3) by (simp add: layout_ok_def)
  have minlen: "\<not> frame_len frame < SKY_FRAME_MIN_LEN"
    using c(1) il lay by (auto simp: radio_view_def length_frame_bytes frame_start_def SKY_FRAME_MIN_LEN_def layout_ok_def)
  obtain y where y: "parse_header ly (sky_conf s1) frame = Some y" using p(1) by (auto simp: hand_over_def bind_eq_Some_conv)
  then obtain p0 where ph: "parse_header ly (sky_conf s1) frame = Some (Inr p0)" using p(1) by (cases y) (auto simp: hand_over_def)
  then obtain ret1 where parse: "sky_frame_parse_extension_headers ly frame p0 = Some (ret1, p)" "\<not> ret1 < 0"
    using p(1) by (auto simp: hand_over_def bind_eq_Some_conv split: if_splits)
  obtain self1 p2 where chk: "sky_hmac_check_authentication ly hash s1 frame p = Some (SKY_RET_OK, self1, p2)" "carries p2 es pl"
  proof (cases auth)
    case True
    then have "bit f1 3" "SKY_HMAC_LENGTH \<le> payload_len p" "code_ok hash key frame"
      using c(2) H(4) by (simp_all add: f1_def bit_simps)
    then have "\<exists>self1. sky_hmac_check_authentication ly hash s1 frame p =
        Some (SKY_RET_OK, self1, (host_header ly p)\<lparr>payload_len := payload_len p - SKY_HMAC_LENGTH\<rparr>)"
      using acc unfolding check_authentication_eq [OF H(1,2)] hd s1 by (auto simp: accepts_def not_less)
    moreover have "carries ((host_header ly p)\<lparr>payload_len := payload_len p - SKY_HMAC_LENGTH\<rparr>) es pl"
      using p(2) c(2) True by (intro carries_cut) auto
    ultimately show ?thesis using that by blast
  next
    case False
    then have "\<not> bit f1 3" "carries (host_header ly p) es pl" using f(2) p(2) c(2) by (simp_all add: f1_def carries_host)
    moreover have "sky_hmac_check_authentication ly hash s1 frame p = Some (SKY_RET_OK, s1, host_header ly p)"
      using acc False calculation(1) unfolding check_authentication_eq [OF H(1,2)] hd s1 by (auto simp: accepts_def)
    ultimately show ?thesis using that by blast
  qed
  note C = check_result_ok [OF ok1 H(1,2) chk(1)]
  have len2: "0 < length (p_hdr p2)" using C(4) lhd by simp
  have vc2: "parsed_vc p2 = unat (f AND 3)" using C(8) hd(2) by (simp add: parsed_vc_def)
  obtain ret self' v' where d: "deliver ticks (rx_time_ticks frame) self1 p2 = Some (ret, self')" "sky_ok self'"
    "sky_vc_process_frame ticks (virtual_channels self1 ! parsed_vc p2) p2 ticks = Some (ret, v')"
    "virtual_channels self' = (virtual_channels self1)[parsed_vc p2 := v']"
    by (rule deliver_ok [OF C(1,3) len2 t]) (rule that, assumption+)
  have "sky_rx ly hash ticks self frame = Some (ret, self')"
    using minlen ph parse chk(1) d(1)
    unfolding sky_rx_def Let_def s1_def [symmetric] deliver_def [symmetric] by (simp add: ret_codes)
  then show ?thesis
    using that [OF _ d(2) chk(2)] d(3,4) by (simp add: vc2 C(6) s1)
qed

section \<open>The instance as a state machine\<close>

datatype sky_op =
    Transmit SkyRadioFrame
  | Receive SkyRadioFrame
  | Push nat bytes
  | ReadNext nat nat
  | ConnectVC nat
  | DisconnectVC nat
  | CarrierSensed
  | LoadSequences "u16 list"

definition on_channel :: "nat \<Rightarrow> (SkyVirtualChannel \<Rightarrow> SkyVirtualChannel option) \<Rightarrow> SkyAll \<Rightarrow> SkyAll option" where
  "on_channel vc g self = do {
     v \<leftarrow> nth_opt (virtual_channels self) vc;
     v' \<leftarrow> g v;
     vs \<leftarrow> upd_opt (virtual_channels self) vc v';
     Some (self\<lparr>virtual_channels := vs\<rparr>)
   }"

fun sky_exec :: "SkyHeaderLayout \<Rightarrow> keyed_hash \<Rightarrow> sky_tick_t \<Rightarrow> SkyAll \<Rightarrow> sky_op \<Rightarrow> SkyAll option" where
  "sky_exec ly hash ticks self (Transmit frame) = map_option (\<lambda>(_, self', _). self') (sky_tx ly hash ticks self frame)"
| "sky_exec ly hash ticks self (Receive frame) = map_option snd (sky_rx ly hash ticks self frame)"
| "sky_exec ly hash ticks self (Push vc d) = on_channel vc (\<lambda>v. map_option snd (sky_vc_push_packet_to_send v d)) self"
| "sky_exec ly hash ticks self (ReadNext vc n) =
     on_channel vc (\<lambda>v. map_option (\<lambda>(_, _, v'). v') (sky_vc_read_next_received v n)) self"
| "sky_exec ly hash ticks self (ConnectVC vc) = on_channel vc (\<lambda>v. map_option snd (sky_vc_arq_connect ticks v)) self"
| "sky_exec ly hash ticks self (DisconnectVC vc) = on_channel vc (\<lambda>v. map_option snd (sky_vc_arq_disconnect v)) self"
| "sky_exec ly hash ticks self CarrierSensed =
     map_option (\<lambda>m. self\<lparr>sky_mac := m\<rparr>) (sky_mac_carrier_sensed (conf_mac (sky_conf self)) (sky_mac self) ticks)"
| "sky_exec ly hash ticks self (LoadSequences sq) =
     map_option (\<lambda>h. self\<lparr>sky_hmac := h\<rparr>) (sky_hmac_load_sequences (sky_hmac self) sq)"

text \<open>What the caller guarantees: a valid channel number, a frame buffer of the right size, an array of eight numbers.\<close>

fun sky_op_ok :: "sky_op \<Rightarrow> bool" where
  "sky_op_ok (Transmit frame) = True"
| "sky_op_ok (Receive frame) = rx_frame_ok frame"
| "sky_op_ok (Push vc d) = (vc < SKY_NUM_VIRTUAL_CHANNELS)"
| "sky_op_ok (ReadNext vc n) = (vc < SKY_NUM_VIRTUAL_CHANNELS)"
| "sky_op_ok (ConnectVC vc) = (vc < SKY_NUM_VIRTUAL_CHANNELS)"
| "sky_op_ok (DisconnectVC vc) = (vc < SKY_NUM_VIRTUAL_CHANNELS)"
| "sky_op_ok CarrierSensed = True"
| "sky_op_ok (LoadSequences sq) = (length sq = 2 * SKY_NUM_VIRTUAL_CHANNELS)"

lemma on_channel_ok:
  assumes "sky_ok self" "vc < SKY_NUM_VIRTUAL_CHANNELS"
    "\<And>Ls Lr W v. vc_ok Ls Lr W v \<Longrightarrow> \<exists>v'. g v = Some v' \<and> vc_ok Ls Lr W v'"
  shows "\<exists>self'. on_channel vc g self = Some self' \<and> sky_ok self'"
proof -
  obtain v' where v': "g (virtual_channels self ! vc) = Some v'" "channel_ok v'"
    using sky_ok_channel [OF assms(1,2)] assms(3) unfolding channel_ok_def by blast
  then have "on_channel vc g self = Some (self\<lparr>virtual_channels := (virtual_channels self)[vc := v']\<rparr>)"
    using assms(2) sky_okD(6) [OF assms(1)] by (simp add: on_channel_def)
  then show ?thesis using sky_ok_set_channel [OF assms(1) v'(2)] by blast
qed

lemma on_channel_exec:
  assumes "sky_ok self" "vc < SKY_NUM_VIRTUAL_CHANNELS" "vc_op_ok ly cop"
  shows "\<exists>self'. on_channel vc (\<lambda>v. vc_exec ly arq v cop) self = Some self' \<and> sky_ok self'"
  by (rule on_channel_ok [OF assms(1,2)]) (rule vc_exec_ok [OF _ assms(3)])

lemma sky_exec_ok:
  assumes ok: "sky_ok self" and ly: "layout_ok ly" and t: "ticks_ok ticks" and op: "sky_op_ok op"
  shows "\<exists>self'. sky_exec ly hash ticks self op = Some self' \<and> sky_ok self'"
proof (cases op)
  case (Transmit frame)
  obtain ret self' frame' where "sky_tx ly hash ticks self frame = Some (ret, self', frame')" "sky_ok self'"
    by (rule sky_tx_ok [OF ok ly t]) (rule that, assumption+)
  then show ?thesis using Transmit by simp
next
  case (Receive frame)
  then obtain ret self' where "sky_rx ly hash ticks self frame = Some (ret, self')" "sky_ok self'"
    using sky_rx_ok [OF ok ly _ t] op by (metis sky_op_ok.simps(2))
  then show ?thesis using Receive by simp
next
  case (Push vc d)
  then show ?thesis using on_channel_exec [OF ok, of vc ly "PushPacket d"] op by simp
next
  case (ReadNext vc n)
  then show ?thesis using on_channel_exec [OF ok, of vc ly "ReadPacket n"] op by simp
next
  case (ConnectVC vc)
  then show ?thesis using on_channel_exec [OF ok, of vc ly "Connect ticks"] op t by simp
next
  case (DisconnectVC vc)
  then show ?thesis using on_channel_exec [OF ok, of vc ly Disconnect] op by simp
next
  case CarrierSensed
  obtain m where "sky_mac_carrier_sensed (conf_mac (sky_conf self)) (sky_mac self) ticks = Some m" "mac_inv (conf_mac (sky_conf self)) m"
    by (rule carrier_sensed_ok [OF sky_okD(2,3) [OF ok], of ticks]) (use t in \<open>auto simp: clock_ticks intro: that\<close>)
  then show ?thesis using CarrierSensed ok by (simp add: sky_ok_def)
next
  case (LoadSequences sq)
  then have "length sq = 2 * SKY_NUM_VIRTUAL_CHANNELS" using op by simp
  from load_loop_ok [OF sky_okD(4) [OF ok] this, of 0] show ?thesis
    using LoadSequences ok by (auto simp: sky_hmac_load_sequences_def sky_ok_def)
qed

section \<open>Creation\<close>

text \<open>
  What the code needs of the configuration it is given: arrays of the sizes that the structs declare,
  non-negative horizons, and MAC parameters in a range that keeps the sums below the clock.
\<close>

definition config_pre :: "SkyConfig \<Rightarrow> bool" where
  "config_pre c \<longleftrightarrow> length (conf_identity c) = SKY_MAX_IDENTITY_LEN \<and> length (conf_vc c) = SKY_NUM_VIRTUAL_CHANNELS \<and>
     (\<forall>v \<in> set (conf_vc c). 0 \<le> conf_horizon_width v) \<and>
     0 < minimum_window_length_ticks (conf_mac c) \<and> minimum_window_length_ticks (conf_mac c) \<le> 1000000 \<and>
     maximum_window_length_ticks (conf_mac c) \<le> 1000000 \<and>
     0 \<le> gap_constant_ticks (conf_mac c) \<and> gap_constant_ticks (conf_mac c) \<le> 1000000 \<and>
     0 \<le> tail_constant_ticks (conf_mac c) \<and> tail_constant_ticks (conf_mac c) \<le> 1000000 \<and>
     0 \<le> window_adjust_increment_ticks (conf_mac c) \<and> window_adjust_increment_ticks (conf_mac c) \<le> 32767 \<and>
     0 \<le> carrier_sense_ticks (conf_mac c) \<and> carrier_sense_ticks (conf_mac c) \<le> 32767 \<and>
     length (conf_key (conf_hmac c)) = 32"

lemma create_vcs_ok:
  assumes "\<forall>c \<in> set cs. 0 \<le> conf_horizon_width c"
  shows "\<exists>vs. create_vcs uninit i cs = Some (map sanitise_vc_config cs, vs) \<and> length vs = length cs \<and> list_all channel_ok vs"
  using assms
proof (induction cs arbitrary: i)
  case Nil
  then show ?case by simp
next
  case (Cons c cs)
  then have h: "0 \<le> conf_horizon_width c" by simp
  obtain v where v: "sky_vc_create (uninit i) c = Some (sanitise_vc_config c, v)"
    by (rule vc_create_ok [OF h]) (rule that, assumption+)
  have "channel_ok v" unfolding channel_ok_def by (rule vc_created_ok [OF h v])
  then show ?case using Cons.IH [of "i + 1"] Cons.prems v by auto
qed

lemma sky_create_ok:
  assumes pre: "config_pre c" and il: "conf_identity_len c \<in> {3..7}" and key: "key_length (conf_hmac c) = BLAKE3_KEY_LEN"
  obtains self where "sky_create uninit c = Some (Some self)" "sky_ok self" "conf_identity (sky_conf self) = conf_identity c"
    "conf_identity_len (sky_conf self) = conf_identity_len c" "hmac_key (sky_hmac self) = conf_key (conf_hmac c)"
    "conf_vc (sky_conf self) = map sanitise_vc_config (conf_vc c)"
proof -
  note P = pre [unfolded config_pre_def]
  obtain mc m where m: "sky_mac_create (conf_mac c) = Some (mc, m)" "mac_conf_ok mc" "mac_inv mc m"
    by (rule mac_create_ok [of "conf_mac c"]) (use P in \<open>auto intro: that\<close>)
  obtain h where h: "sky_hmac_create (conf_hmac c) = Some h" "hmac_key h = conf_key (conf_hmac c)"
    using P key by (auto simp: sky_hmac_create_def BLAKE3_KEY_LEN_def read_bytes_def)
  obtain vs where vs: "create_vcs uninit 0 (conf_vc c) = Some (map sanitise_vc_config (conf_vc c), vs)"
    "length vs = length (conf_vc c)" "list_all channel_ok vs"
    using create_vcs_ok [of "conf_vc c" uninit 0] P by blast
  define self where "self = \<lparr>sky_conf = c\<lparr>conf_arq := sanitise_arq_config (conf_arq c), conf_mac := mc,
      conf_vc := map sanitise_vc_config (conf_vc c)\<rparr>, sky_diag = sky_diag_create, virtual_channels = vs, sky_mac = m, sky_hmac = h\<rparr>"
  have "sky_create uninit c = Some (Some self)"
    using il m(1) h(1) vs(1) by (simp add: sky_create_def self_def)
  moreover have "sky_ok self"
    using P il m(2,3) vs hmac_create_inv [OF h(1)] by (simp add: sky_ok_def conf_ok_def self_def sky_diag_create_def)
  ultimately show ?thesis using that h(2) by (simp add: self_def)
qed

inductive sky_reach :: "SkyHeaderLayout \<Rightarrow> keyed_hash \<Rightarrow> SkyAll \<Rightarrow> bool"
  for ly :: SkyHeaderLayout and hash :: keyed_hash where
  created: "\<lbrakk> config_pre c; sky_create uninit c = Some (Some self) \<rbrakk> \<Longrightarrow> sky_reach ly hash self"
| step: "\<lbrakk> sky_reach ly hash self; ticks_ok ticks; sky_op_ok op; sky_exec ly hash ticks self op = Some self' \<rbrakk>
    \<Longrightarrow> sky_reach ly hash self'"

lemma sky_create_cases:
  assumes "sky_create uninit c = Some (Some self)"
  shows "conf_identity_len c \<in> {3..7}" "key_length (conf_hmac c) = BLAKE3_KEY_LEN"
  using assms by (auto simp: sky_create_def sky_hmac_create_def bind_eq_Some_conv split: if_splits)

lemma sky_reach_ok: "\<lbrakk> sky_reach ly hash self; layout_ok ly \<rbrakk> \<Longrightarrow> sky_ok self"
proof (induction rule: sky_reach.induct)
  case (created c uninit self)
  note C = sky_create_cases [OF created(2)]
  obtain self' where "sky_create uninit c = Some (Some self')" "sky_ok self'"
    by (rule sky_create_ok [OF created(1) C]) (rule that, assumption+)
  then show ?case using created(2) by simp
next
  case (step self ticks op self')
  then show ?case using sky_exec_ok [of self ly ticks op hash] by auto
qed

section \<open>Properties\<close>

definition sample_self :: SkyAll where
  "sample_self = the (the (sky_create (\<lambda>_ _. 0) sample_conf))"

lemma sample_config: "config_pre sample_conf" "conf_identity_len sample_conf \<in> {3..7}"
    "key_length (conf_hmac sample_conf) = BLAKE3_KEY_LEN"
  by (simp_all add: config_pre_def sample_conf_def sample_mac_conf_def SKY_MAX_IDENTITY_LEN_def BLAKE3_KEY_LEN_def
      SKY_NUM_VIRTUAL_CHANNELS_def)

lemma sample_self: "sky_create (\<lambda>_ _. 0) sample_conf = Some (Some sample_self)" "sky_ok sample_self"
proof -
  obtain self where "sky_create (\<lambda>_ _. 0) sample_conf = Some (Some self)" "sky_ok self"
    by (rule sky_create_ok [OF sample_config]) (rule that, assumption+)
  then show "sky_create (\<lambda>_ _. 0) sample_conf = Some (Some sample_self)" "sky_ok sample_self"
    by (simp_all add: sample_self_def)
qed

text \<open>
  C2: an instance never fails. However the calls of the upper stack, transmissions and receptions follow
  each other, and whatever bytes are received, every call completes without a failed assertion, an
  overflow or an access out of range; afterwards the self-check of every element buffer answers yes
  and the TDD window is between the configured limits.
\<close>

theorem station_never_fails:
  assumes "sky_reach ly hash self" "layout_ok ly" "ticks_ok ticks" "sky_op_ok op"
  shows "\<exists>self'. sky_exec ly hash ticks self op = Some self' \<and>
    (\<forall>v \<in> set (virtual_channels self'). sky_element_buffer_entire_buffer_is_ok (elementBuffer v) = Some True) \<and>
    my_window_length (sky_mac self') \<in>
      {minimum_window_length_ticks (conf_mac (sky_conf self'))..maximum_window_length_ticks (conf_mac (sky_conf self'))}"
proof -
  obtain self' where s: "sky_exec ly hash ticks self op = Some self'" "sky_ok self'"
    using sky_exec_ok [OF sky_reach_ok [OF assms(1,2)] assms(2-4)] by blast
  have "sky_element_buffer_entire_buffer_is_ok (elementBuffer v) = Some True" if v: "v \<in> set (virtual_channels self')" for v
  proof -
    obtain Ls Lr W ds m ps where "vc_view v Ls Lr W ds m ps"
      using sky_okD(7) [OF s(2)] v by (auto simp: list_all_iff channel_ok_def vc_ok_def)
    then have "eb_inv (elementBuffer v)" using vc_relD(3) by (auto simp: vc_view_def)
    then show ?thesis by (rule entire_buffer_ok)
  qed
  then show ?thesis using s sky_okD(3) [OF s(2)] by (auto simp: mac_inv_def)
qed

theorem station_never_fails_witness:
  "\<exists>self'. sky_exec layout_gcc (\<lambda>_ _ _. 0) 5 sample_self (Receive \<lparr>rx_time_ticks = 3, frame_len = 200, raw = replicate RAW_SIZE 0x63\<rparr>) =
     Some self'"
proof -
  have "sky_reach layout_gcc (\<lambda>_ _ _. 0) sample_self" by (rule sky_reach.created [OF sample_config(1) sample_self(1)])
  from station_never_fails [OF this, of 5 "Receive \<lparr>rx_time_ticks = 3, frame_len = 200, raw = replicate RAW_SIZE 0x63\<rparr>"]
  show ?thesis by (auto simp: layout_ok_def layout_gcc_def ticks_ok_def MOD_TIME_TICKS_def rx_frame_ok_def RAW_SIZE_val)
qed

text \<open>
  C39: creation of an instance. An identity length outside 3 to 7 gives no instance, a key of a length
  other than 32 trips the assertion, and in every other case there is an instance with four channels
  that knows the configured identity and key.
\<close>

theorem create_outcome:
  assumes "config_pre c"
  shows "if conf_identity_len c \<notin> {3..7} then sky_create uninit c = Some None
    else if key_length (conf_hmac c) \<noteq> BLAKE3_KEY_LEN then sky_create uninit c = None
    else \<exists>self. sky_create uninit c = Some (Some self) \<and> length (virtual_channels self) = SKY_NUM_VIRTUAL_CHANNELS \<and>
      own_identity (sky_conf self) = own_identity c \<and> hmac_key (sky_hmac self) = conf_key (conf_hmac c) \<and>
      arq_timeout_ticks (conf_arq (sky_conf self)) \<in> {1000..30000} \<and> idle_frame_threshold (conf_arq (sky_conf self)) \<in> {100..10000}"
proof -
  consider "conf_identity_len c \<notin> {3..7}" | "conf_identity_len c \<in> {3..7}" "key_length (conf_hmac c) \<noteq> BLAKE3_KEY_LEN"
    | "conf_identity_len c \<in> {3..7}" "key_length (conf_hmac c) = BLAKE3_KEY_LEN" by blast
  then show ?thesis
  proof cases
    case 1
    then show ?thesis by (auto simp: sky_create_def)
  next
    case 2
    then show ?thesis by (auto simp: sky_create_def sky_hmac_create_def split: Option.bind_split)
  next
    case 3
    obtain self where s: "sky_create uninit c = Some (Some self)" "sky_ok self" "conf_identity (sky_conf self) = conf_identity c"
      "conf_identity_len (sky_conf self) = conf_identity_len c" "hmac_key (sky_hmac self) = conf_key (conf_hmac c)"
      by (rule sky_create_ok [OF assms 3]) (rule that, assumption+)
    have "conf_arq (sky_conf self) = sanitise_arq_config (conf_arq c)"
      using s(1) by (auto simp: sky_create_def bind_eq_Some_conv split: if_splits)
    then show ?thesis using 3 s sky_okD(6) [OF s(2)] by (simp add: sanitise_arq_config_def Let_def)
  qed
qed

theorem create_outcome_witness:
  "sky_create (\<lambda>_ _. 0) (sample_conf\<lparr>conf_identity_len := 2\<rparr>) = Some None"
proof -
  have "config_pre (sample_conf\<lparr>conf_identity_len := 2\<rparr>)" using sample_config(1) by (simp add: config_pre_def)
  from create_outcome [OF this, of "\<lambda>_ _. 0"] show ?thesis by (simp add: sample_conf_def)
qed

end
