(* ===== verification/Receive_Queue.thy ===== *)
theory Receive_Queue
  imports VC_Machine
begin

text \<open>
  The receive side of a channel without ARQ as a bounded queue: when a packet is stored and when it is refused, and
  what a read takes out. The number of slots and the free elements of the buffer decide, as the code tests them.
\<close>

section \<open>Room for a packet\<close>

text \<open>
  A ring of \<open>r_length\<close> slots keeps \<open>horizon_width + 1\<close> of them for its window, and a packet of the upper layers that
  has not been read yet keeps its slot. The payload itself needs free elements.
\<close>

definition rx_room :: "SkyVirtualChannel \<Rightarrow> bytes list \<Rightarrow> bytes \<Rightarrow> bool" where
  "rx_room v xs d \<longleftrightarrow> int (length xs) + horizon_width (rcvRing v) < r_length (rcvRing v) \<and>
     int (eb_cost (elementBuffer v) (length d)) \<le> free_elements (elementBuffer v)"

lemma vc_view_geometry:
  assumes "vc_view v Ls Lr W ds m ps"
  shows "r_length (rcvRing v) = int Lr" "horizon_width (rcvRing v) = int W"
  using assms by (auto simp: vc_view_def vc_rel_def rcv_rel_def rcv_at_def)

text \<open>The next slot is free exactly while the queue is short enough.\<close>

lemma next_slot:
  assumes "vc_view v Ls Lr W ds m (map Some xs @ replicate (Lr - length xs) None)" "length xs \<le> Lr - W"
  shows "(map Some xs @ replicate (Lr - length xs) None) ! readable W (map Some xs @ replicate (Lr - length xs) None) = None
    \<longleftrightarrow> int (length xs) + horizon_width (rcvRing v) < r_length (rcvRing v)"
proof -
  note L = vc_view_lengths(2) [OF assms(1)]
  have "readable W (map Some xs @ replicate (Lr - length xs) None) = min (length xs) (Lr - W - 1)"
    using assms(2) L by (intro readable_contiguous) auto
  then show ?thesis using assms(2) L vc_view_geometry [OF assms(1)] by (auto simp: nth_append min_def)
qed

text \<open>A push stores the packet at the end of the queue when there is room, and changes nothing when there is none.\<close>

lemma rx_store_outcome:
  assumes "rx_queue v xs" "length d \<le> 281" "sky_vc_push_rx_packet_monotonic v d = Some (r, v')"
  shows "if rx_room v xs d then 0 \<le> r \<and> rx_queue v' (xs @ [d]) else r < 0 \<and> v' = v"
proof -
  obtain Ls Lr W ds m where view: "vc_view v Ls Lr W ds m (map Some xs @ replicate (Lr - length xs) None)"
    and le: "length xs \<le> Lr - W" using assms(1) by (auto simp: rx_queue_def)
  let ?ps = "map Some xs @ replicate (Lr - length xs) None" and ?h = "r_head_sequence (rcvRing v)"
  have s: "unat (?h - ?h) \<le> W" by simp
  note slot = next_slot [OF view le] and refused = vc_rx_refused [OF view assms(2), of ?h]
  have "0 \<le> r" if "rx_room v xs d"
  proof -
    have free: "?ps ! readable W ?ps = None" "int (eb_cost (elementBuffer v) (length d)) \<le> free_elements (elementBuffer v)"
      using that slot by (simp_all add: rx_room_def)
    have k: "readable W ?ps = readable W ?ps + unat (?h - ?h)" by simp
    obtain r' b' where "rcvRing_push_rx_packet (rcvRing v) (elementBuffer v) d ?h =
        Some (int (readable W (?ps[readable W ?ps := Some d]) - readable W ?ps), r', b')"
      by (rule vc_rx_store [OF view assms(2) s k free])
    then show ?thesis using assms(3) by (auto simp: sky_vc_push_rx_packet_monotonic_def)
  qed
  moreover have "r < 0 \<and> v' = v" if "\<not> rx_room v xs d"
    using that assms(3) slot refused(2,3) by (auto simp: rx_room_def sky_vc_push_rx_packet_monotonic_def ret_codes)
  moreover have "0 \<le> r \<longrightarrow> rx_queue v' (xs @ [d])"
    using rxq.push_rep [OF assms(1,2)] assms(3) by auto
  ultimately show ?thesis by simp
qed

text \<open>A packet from a send queue is short enough for every receive queue.\<close>

lemma queued_length:
  assumes "tx_queue v (d # ds)"
  shows "length d \<le> 281"
proof -
  obtain Ls Lr W ps where "vc_view v Ls Lr W (d # ds) 0 ps" using assms by (auto simp: tx_queue_def)
  from vc_view_payload_bound(1) [OF this, of d] show ?thesis by (simp add: SKY_PAYLOAD_MAX_LEN_def)
qed

section \<open>Reading\<close>

lemma rx_read_next:
  assumes "rx_queue v (d # ds)" "length d \<le> mx"
  obtains v' where "sky_vc_read_next_received v mx = Some (SKY_RET_OK, d, v')" "rx_queue v' ds"
proof -
  obtain Ls Lr W ds' m where view: "vc_view v Ls Lr W ds' m (map Some (d # ds) @ replicate (Lr - length (d # ds)) None)"
    and le: "length (d # ds) \<le> Lr - W" using assms(1) by (auto simp: rx_queue_def)
  note L = vc_view_lengths(2) [OF view]
  let ?ps = "map Some ds @ replicate (Lr - length (d # ds)) None"
  have "0 < readable W (Some d # ?ps)"
    using readable_contiguous [of "d # ds" "Lr - length (d # ds)" Lr W] le L by simp
  moreover have "vc_view v Ls Lr W ds' m (Some d # ?ps)" using view by simp
  ultimately obtain v' where v': "sky_vc_read_next_received v mx = Some (SKY_RET_OK, d, v')" "vc_view v' Ls Lr W ds' m (?ps @ [None])"
    using vc_read_ok assms(2) by metis
  have "?ps @ [None] = map Some ds @ replicate (Lr - length ds) None"
    using le L by (simp add: replicate_append_same Suc_diff_Suc flip: replicate_Suc)
  then have "rx_queue v' ds" using v'(2) le unfolding rx_queue_def by (metis Suc_leD length_Cons)
  then show ?thesis using that v'(1) by blast
qed

section \<open>A channel that has just been created\<close>

lemma created_rx_room:
  assumes v: "vc_view v Ls Lr W [] 0 (replicate Lr None)" and d: "length d \<le> SKY_PAYLOAD_MAX_LEN"
  shows "rx_queue v []" "rx_room v [] d"
proof -
  obtain xs where rel: "vc_rel v Ls Lr W [] 0 xs" and xs: "slot_payloads (elementBuffer v) xs = replicate Lr None"
    using v by (auto simp: vc_view_def payloads_def)
  note hx = no_payloads_no_handles [OF xs]
  have L: "6 \<le> Ls" "6 \<le> Lr" "W + 3 \<le> Lr" using rel vc_view_lengths(2) [OF v] by (auto simp: vc_rel_def)
  then have "int (eb_cost (elementBuffer v) (length d)) \<le> free_elements (elementBuffer v)"
    by (intro vc_room [OF rel d]) (auto simp: xs hx)
  then show "rx_room v [] d" using L vc_view_geometry [OF v] by (simp add: rx_room_def)
  show "rx_queue v []" using v unfolding rx_queue_def by (metis append_Nil diff_zero le0 list.map(1) list.size(3))
qed

end
