(* ===== verification/Delivery.thy ===== *)
theory Delivery
  imports Station Receive_Queue
begin

text \<open>
  From one instance to another: a packet queued on a channel without ARQ leaves with the next frame of
  the transmitter, and the receiver puts it into the queue of the same channel.
\<close>

section \<open>The transmitter\<close>

text \<open>Without ARQ on any channel the timeouts change nothing.\<close>

lemma timeouts_off: "arq_state_flag v = ARQ_STATE_OFF \<Longrightarrow> sky_vc_check_timeouts v now timeout = Some v"
  by (simp add: sky_vc_check_timeouts_def)

lemma all_timeouts_off:
  "\<forall>v \<in> set vs. arq_state_flag v = ARQ_STATE_OFF \<Longrightarrow> check_all_timeouts vs now timeout = Some vs"
  by (induction vs) (simp_all add: timeouts_off)

text \<open>The station is in its window and channel \<open>vc\<close>, without ARQ, is the only one with something to transmit.\<close>

definition turn_of :: "SkyAll \<Rightarrow> sky_tick_t \<Rightarrow> nat \<Rightarrow> bool" where
  "turn_of self now vc \<longleftrightarrow> vc < SKY_NUM_VIRTUAL_CHANNELS \<and>
     (\<forall>v \<in> set (virtual_channels self). arq_state_flag v = ARQ_STATE_OFF) \<and>
     mac_can_send (conf_mac (sky_conf self)) (sky_mac self) now = Some True \<and>
     (\<forall>vc' < SKY_NUM_VIRTUAL_CHANNELS. wants_to_send self now vc' \<longrightarrow> vc' = vc)"

lemma queued_content:
  assumes "tx_queue v (d # ds)" "arq_state_flag v = ARQ_STATE_OFF"
  shows "sky_vc_content_to_send v arq now k = Some True"
proof -
  obtain Ls Lr W ps where "vc_view v Ls Lr W (d # ds) 0 ps" using assms(1) by (auto simp: tx_queue_def)
  from vc_count_to_send [OF this, of False] show ?thesis
    using assms(2) by (simp add: sky_vc_content_to_send_def)
qed

lemma flag_bits:
  "vc < SKY_NUM_VIRTUAL_CHANNELS \<Longrightarrow> unat (set_bit 4 (of_nat vc AND 3) AND 3 :: byte) = vc \<and> \<not> bit (set_bit 4 (of_nat vc AND 3 :: byte)) 3"
proof -
  assume "vc < SKY_NUM_VIRTUAL_CHANNELS"
  then have "vc \<in> {0, 1, 2, 3}" by (auto simp: SKY_NUM_VIRTUAL_CHANNELS_def)
  then show ?thesis by (auto simp: set_bit_eq_or bit_simps)
qed

lemma tx_sends_packet:
  assumes ok: "sky_ok self" and ly: "layout_ok ly" and t: "ticks_ok now" and turn: "turn_of self now vc"
    and q: "tx_queue (virtual_channels self ! vc) (d # ds)" and d: "d \<noteq> []"
  obtains self' frame es where "sky_tx ly hash now self frame0 = Some (1, self', frame)" "sky_ok self'"
    "tx_queue (virtual_channels self' ! vc) ds" "list_all ext_ok es" "distinct (map fst es)"
    "map_of es EXTENSION_ARQ_HANDSHAKE = None"
    "sealed ly hash (hmac_key (sky_hmac self)) (authenticates (conf_vc (sky_conf self) ! vc)) (frame_start (own_identity (sky_conf self)))
      (set_bit 4 (of_nat vc AND 3)) (sky_hton16 (sequence_tx (sky_hmac self) ! vc)) es d frame"
    "length (enc_exts es) + length (frame_start (own_identity (sky_conf self))) + hdr_sizeof ly \<le> 23"
proof -
  have vc: "vc < SKY_NUM_VIRTUAL_CHANNELS" using turn by (simp add: turn_of_def)
  have off: "arq_state_flag (virtual_channels self ! vc) = ARQ_STATE_OFF"
    using turn vc sky_okD(6) [OF ok] by (simp add: turn_of_def)
  obtain s2 r can vs where run: "sky_tx ly hash now self frame0 = (case r of None \<Rightarrow> Some (0, s2, frame0)
      | Some c \<Rightarrow> if \<not> can then Some (0, s2, frame0) else build_frame ly hash now s2 frame0 c)"
    "sky_ok s2" "sky_conf s2 = sky_conf self" "sky_hmac s2 = sky_hmac self" "virtual_channels s2 = vs"
    "check_all_timeouts (virtual_channels self) now (arq_timeout_ticks (conf_arq (sky_conf self))) = Some vs"
    "sky_tx_pick_vc (self\<lparr>virtual_channels := vs\<rparr>) now = Some r"
    "mac_can_send (conf_mac (sky_conf self)) (sky_mac self) now = Some can"
    by (rule sky_tx_run [OF ok t]) (rule that, assumption+)
  have vs: "vs = virtual_channels self" using run(6) turn by (simp add: turn_of_def all_timeouts_off)
  have can: can using run(8) turn by (simp add: turn_of_def)
  have "wants_to_send self now vc" using queued_content [OF q off] by (simp add: wants_to_send_def)
  moreover obtain r' where r': "sky_tx_pick_vc self now = Some r'"
    "\<And>c. r' = Some c \<Longrightarrow> (\<exists>vc' < SKY_NUM_VIRTUAL_CHANNELS. wants_to_send self now vc') \<Longrightarrow>
       \<exists>i < SKY_NUM_VIRTUAL_CHANNELS. c = nth_in_turn self i \<and> wants_to_send self now c \<and>
         (\<forall>j < i. \<not> wants_to_send self now (nth_in_turn self j))"
    "\<And>vc'. \<lbrakk> vc' < SKY_NUM_VIRTUAL_CHANNELS; wants_to_send self now vc' \<rbrakk> \<Longrightarrow> r' \<noteq> None"
    by (rule pick_vc_ok [OF ok t]) (rule that, assumption+)
  moreover have "self\<lparr>virtual_channels := virtual_channels self\<rparr> = self" by simp
  ultimately obtain c where c: "r = Some c" "wants_to_send self now c" "c < SKY_NUM_VIRTUAL_CHANNELS"
    using run(7) vc unfolding vs by (metis nth_in_turn_less not_None_eq option.inject)
  then have cvc: "c = vc" using turn by (simp add: turn_of_def)
  have old: "sky_conf self = sky_conf s2" "sky_hmac self = sky_hmac s2"
    "sky_vc_check_timeouts (virtual_channels self ! vc) now (arq_timeout_ticks (conf_arq (sky_conf self))) =
      Some (virtual_channels s2 ! vc)"
    using run(3-5) timeouts_off [OF off] vs by simp_all
  obtain ret self' frame where b: "build_frame ly hash now s2 frame0 vc = Some (ret, self', frame)" "sky_ok self'"
    "ret = 1 \<Longrightarrow> transmitted ly hash now self self' frame vc"
    "\<exists>tx es k ret0 v' tx'. fresh_tx ly tx (frame_start (own_identity (sky_conf s2))) (of_nat vc AND 3) 0 es \<and>
       sky_vc_fill_frame ly (virtual_channels s2 ! vc) (conf_arq (sky_conf s2)) tx now k = Some (ret0, v', tx') \<and>
       (0 \<le> ret0 \<longrightarrow> ret = 1)"
    by (rule build_frame_ok [OF run(2) ly t vc old]) (rule that, assumption+)
  obtain Ls Lr W ps where view: "vc_view (virtual_channels self ! vc) Ls Lr W (d # ds) 0 ps" using q by (auto simp: tx_queue_def)
  have fill: "\<exists>v' tx'. sky_vc_fill_frame ly (virtual_channels self ! vc) arq tx now k = Some (1, v', tx') \<and>
      tx_view ly tx' pre (set_bit 4 f) 0 es d \<and> tx_queue v' ds" if "fresh_tx ly tx pre f 0 es" for tx pre f es arq k
    by (rule fill_off_ok [OF view off that, of arq now k]) (use d in \<open>auto simp: tx_queue_def\<close>)
  have ret: "ret = 1" using b(4) fill run(3,5) vs by (metis option.inject prod.inject zero_le_one)
  obtain v v' k f r0 tx2 es0 tx3 es pl where T:
    "sky_vc_check_timeouts (virtual_channels self ! vc) now (arq_timeout_ticks (conf_arq (sky_conf self))) = Some v"
    "fresh_tx ly tx2 (frame_start (own_identity (sky_conf self))) (of_nat vc AND 3) 0 es0"
    "sky_vc_fill_frame ly v (conf_arq (sky_conf self)) tx2 now k = Some (r0, v', tx3)" "virtual_channels self' ! vc = v'"
    "\<And>f es pl. tx_view ly tx3 (frame_start (own_identity (sky_conf self))) f 0 es pl \<Longrightarrow>
       sealed ly hash (hmac_key (sky_hmac self)) (authenticates (conf_vc (sky_conf self) ! vc))
         (frame_start (own_identity (sky_conf self))) f (sky_hton16 (sequence_tx (sky_hmac self) ! vc)) es pl frame"
    using b(3) [OF ret] unfolding transmitted_def by blast
  have v: "v = virtual_channels self ! vc" using T(1) timeouts_off [OF off] by simp
  have "tx_view ly tx3 (frame_start (own_identity (sky_conf self))) (set_bit 4 (of_nat vc AND 3)) 0 es0 d" "tx_queue v' ds"
    using fill [OF T(2), of "conf_arq (sky_conf self)" k] T(3) v by auto
  moreover have "list_all ext_ok es0" "distinct (map fst es0)" "map_of es0 EXTENSION_ARQ_HANDSHAKE = None"
    using T(2) by (auto simp: fresh_tx_def map_of_eq_None_iff extension_types)
  moreover have "length (enc_exts es0) + length (frame_start (own_identity (sky_conf self))) + hdr_sizeof ly \<le> 23"
    using T(2) by (simp add: fresh_tx_def tx_view_def radio_view_def length_frame_bytes)
  ultimately show ?thesis
    using that [of self' frame es0] T(4,5) run(1) c(1) can b(1,2) by (simp add: cvc ret)
qed

section \<open>The receiver\<close>

text \<open>The receiver trusts the transmitter: it does not require authentication, or the two are set up alike.\<close>

definition trusts :: "SkyAll \<Rightarrow> SkyAll \<Rightarrow> nat \<Rightarrow> bool" where
  "trusts b a vc \<longleftrightarrow>
     (require_authentication (conf_vc (sky_conf b) ! vc) AND SKY_CONFIG_FLAG_REQUIRE_AUTHENTICATION \<noteq> 0 \<longrightarrow>
        authenticates (conf_vc (sky_conf a) ! vc) \<and> hmac_key (sky_hmac b) = hmac_key (sky_hmac a) \<and>
        (require_authentication (conf_vc (sky_conf b) ! vc) AND SKY_CONFIG_FLAG_REQUIRE_SEQUENCE \<noteq> 0 \<longrightarrow>
           uint (sequence_tx (sky_hmac a) ! vc - sequence_rx (sky_hmac b) ! vc) \<le> maximum_jump (conf_hmac (sky_conf b))))"

lemma sealed_rx_time: "sealed ly hash key auth pre f sq es pl (frame\<lparr>rx_time_ticks := rt\<rparr>) = sealed ly hash key auth pre f sq es pl frame"
  by (simp add: sealed_def radio_view_def code_ok_def)

lemma process_off_payload:
  assumes "arq_state_flag v = ARQ_STATE_OFF" "carries p es d" "map_of es EXTENSION_ARQ_HANDSHAKE = None" "d \<noteq> []"
    "sky_vc_process_frame ticks v p now = Some (ret, v')"
  shows "ret = 0 \<and> (\<exists>r. sky_vc_push_rx_packet_monotonic v d = Some (r, v'))"
proof -
  have "arq_handshake p = None" using carries_named(4) [OF assms(2)] assms(3) by simp
  then show ?thesis using assms
    by (auto simp: sky_vc_process_frame_def process_handshake_def carries_def bind_eq_Some_conv split: if_splits)
qed

lemma rx_receives_packet:
  assumes ok: "sky_ok b" and t: "ticks_ok ticks" "ticks_ok rt" and vc: "vc < SKY_NUM_VIRTUAL_CHANNELS" "trusts b a vc"
    and a: "sky_ok a" "other_identity (sky_conf b) (own_identity (sky_conf a))"
    and off: "arq_state_flag (virtual_channels b ! vc) = ARQ_STATE_OFF" and d: "d \<noteq> []"
    and es: "list_all ext_ok es" "distinct (map fst es)" "map_of es EXTENSION_ARQ_HANDSHAKE = None"
    and s: "sealed ly hash (hmac_key (sky_hmac a)) (authenticates (conf_vc (sky_conf a) ! vc)) (frame_start (own_identity (sky_conf a)))
      (set_bit 4 (of_nat vc AND 3)) (sky_hton16 (sequence_tx (sky_hmac a) ! vc)) es d frame"
  obtains b' r where "sky_rx ly hash ticks b (frame\<lparr>rx_time_ticks := rt\<rparr>) = Some (0, b')" "sky_ok b'"
    "sky_vc_push_rx_packet_monotonic (virtual_channels b ! vc) d = Some (r, virtual_channels b' ! vc)"
proof -
  note F = flag_bits [OF vc(1)]
  let ?f = "set_bit 4 (of_nat vc AND 3) :: byte"
  have len: "length (own_identity (sky_conf a)) \<in> {3..7}"
    using sky_okD(1) [OF a(1)] by (auto simp: conf_ok_def SKY_MAX_IDENTITY_LEN_def)
  have rt': "ticks_ok (rx_time_ticks (frame\<lparr>rx_time_ticks := rt\<rparr>))" using t(2) by simp
  note s' = iffD2 [OF sealed_rx_time [where rt = rt] s]
  have f: "bit ?f 4 \<or> d = []" "\<not> bit ?f 3" using F by simp_all
  have acc: "accepts b (unat (?f AND 3)) ?f (authenticates (conf_vc (sky_conf a) ! vc)) (hmac_key (sky_hmac a))
      (sky_ntoh16 (sky_hton16 (sequence_tx (sky_hmac a) ! vc)))"
    using vc(2) F by (auto simp: accepts_def trusts_def ntoh16_hton16)
  obtain ret b' p v' where rx: "sky_rx ly hash ticks b (frame\<lparr>rx_time_ticks := rt\<rparr>) = Some (ret, b')" "sky_ok b'" "carries p es d"
    "sky_vc_process_frame ticks (virtual_channels b ! unat (?f AND 3)) p ticks = Some (ret, v')"
    "virtual_channels b' = (virtual_channels b)[unat (?f AND 3) := v']"
    by (rule sky_rx_sealed [OF ok t(1) rt' s' len es(1,2) f a(2) acc]) (rule that, assumption+)
  have "ret = 0 \<and> (\<exists>r. sky_vc_push_rx_packet_monotonic (virtual_channels b ! vc) d = Some (r, v'))"
    using process_off_payload [OF off rx(3) es(3) d] rx(4) F by simp
  moreover have "virtual_channels b' ! vc = v'" using rx(5) F vc(1) sky_okD(6) [OF ok] by simp
  ultimately show ?thesis using that rx(1,2) by auto
qed

section \<open>Properties\<close>

text \<open>
  C3: a packet gets across. When a station is in its window and one channel, without ARQ, has a packet
  at the head of its queue and is the only one with something to transmit, then \<open>sky_tx\<close> makes a
  frame and takes exactly that packet out of the queue. Every other station with the same
  authentication set-up that receives the frame accepts it. When the receive queue of the same channel has
  room, that is a free slot in front of the window and enough free elements for the payload, it ends with exactly that
  packet afterwards, behind the packets it held; when it has no room the packet is dropped and the channel is unchanged.
\<close>

theorem packet_delivery:
  assumes "sky_reach ly hash a" "sky_reach ly hash b" "layout_ok ly" "ticks_ok now" "ticks_ok now'" "ticks_ok rt"
    "turn_of a now vc" "tx_queue (virtual_channels a ! vc) (d # ds)" "d \<noteq> []"
    "other_identity (sky_conf b) (own_identity (sky_conf a))" "trusts b a vc"
    "arq_state_flag (virtual_channels b ! vc) = ARQ_STATE_OFF" "rx_queue (virtual_channels b ! vc) xs"
  shows "\<exists>a' frame b' r. sky_tx ly hash now a frame0 = Some (1, a', frame) \<and> tx_queue (virtual_channels a' ! vc) ds \<and>
    sky_rx ly hash now' b (frame\<lparr>rx_time_ticks := rt\<rparr>) = Some (0, b') \<and>
    sky_vc_push_rx_packet_monotonic (virtual_channels b ! vc) d = Some (r, virtual_channels b' ! vc) \<and>
    (if rx_room (virtual_channels b ! vc) xs d then 0 \<le> r \<and> rx_queue (virtual_channels b' ! vc) (xs @ [d])
     else r < 0 \<and> virtual_channels b' ! vc = virtual_channels b ! vc)"
proof -
  have ok: "sky_ok a" "sky_ok b" using sky_reach_ok assms(1-3) by blast+
  have vc: "vc < SKY_NUM_VIRTUAL_CHANNELS" using assms(7) by (simp add: turn_of_def)
  obtain a' frame es where tx: "sky_tx ly hash now a frame0 = Some (1, a', frame)" "tx_queue (virtual_channels a' ! vc) ds"
    "list_all ext_ok es" "distinct (map fst es)" "map_of es EXTENSION_ARQ_HANDSHAKE = None"
    "sealed ly hash (hmac_key (sky_hmac a)) (authenticates (conf_vc (sky_conf a) ! vc)) (frame_start (own_identity (sky_conf a)))
      (set_bit 4 (of_nat vc AND 3)) (sky_hton16 (sequence_tx (sky_hmac a) ! vc)) es d frame"
    by (rule tx_sends_packet [OF ok(1) assms(3,4,7,8,9)]) (rule that, assumption+)
  obtain b' r where "sky_rx ly hash now' b (frame\<lparr>rx_time_ticks := rt\<rparr>) = Some (0, b')"
    "sky_vc_push_rx_packet_monotonic (virtual_channels b ! vc) d = Some (r, virtual_channels b' ! vc)"
    by (rule rx_receives_packet [OF ok(2) assms(5,6) vc assms(11) ok(1) assms(10,12,9) tx(3-6)]) (rule that, assumption+)
  then show ?thesis using tx(1,2) rx_store_outcome [OF assms(13) queued_length [OF assms(8)]] by blast
qed

text \<open>A second station with identity 8, 8, 8 and a packet in channel 2.\<close>

definition sample_conf' :: SkyConfig where
  "sample_conf' = sample_conf\<lparr>conf_identity := replicate 7 8\<rparr>"

lemma sample_created:
  assumes "c \<in> {sample_conf, sample_conf'}"
  obtains self where "sky_create (\<lambda>_ _. 0) c = Some (Some self)" "sky_ok self" "conf_identity (sky_conf self) = conf_identity c"
    "conf_identity_len (sky_conf self) = 3" "\<forall>v \<in> set (virtual_channels self). arq_state_flag v = ARQ_STATE_OFF \<and> tx_queue v []"
    "sky_mac self = sample_mac" "conf_mac (sky_conf self) = sample_mac_conf" "vc_enforcement_need (sky_hmac self) = [0, 0, 0, 0]"
    "\<forall>v \<in> set (conf_vc (sky_conf self)). require_authentication v = SKY_CONFIG_FLAG_USE_CRC32" "length (conf_vc (sky_conf self)) = 4"
    "\<forall>v \<in> set (virtual_channels self). \<exists>Ls Lr W. vc_view v Ls Lr W [] 0 (replicate Lr None)"
proof -
  obtain v where v: "sky_vc_create (\<lambda>_. 0) sample_vc_conf = Some (sanitise_vc_config sample_vc_conf, v)"
    "vc_view v 20 20 16 [] 0 (replicate 20 None)" "arq_state_flag v = ARQ_STATE_OFF"
    by (rule sample_vc) (rule that, assumption+)
  have cs: "create_vcs (\<lambda>_ _. 0) 0 (conf_vc c) = Some (replicate 4 (sanitise_vc_config sample_vc_conf), replicate 4 v)"
    using assms v(1) by (auto simp: sample_conf_def sample_conf'_def SKY_NUM_VIRTUAL_CHANNELS_def sample_vc_conf_def numeral_eq_Suc)
  obtain h where h: "sky_hmac_create (conf_hmac c) = Some h" "vc_enforcement_need h = [0, 0, 0, 0]"
    using assms by (auto simp: sample_conf_def sample_conf'_def sky_hmac_create_def BLAKE3_KEY_LEN_def read_bytes_def
        SKY_NUM_VIRTUAL_CHANNELS_def numeral_eq_Suc)
  define self where "self = \<lparr>sky_conf = c\<lparr>conf_arq := sanitise_arq_config (conf_arq c), conf_mac := sample_mac_conf,
      conf_vc := replicate 4 (sanitise_vc_config sample_vc_conf)\<rparr>, sky_diag = sky_diag_create,
      virtual_channels = replicate 4 v, sky_mac = sample_mac, sky_hmac = h\<rparr>"
  have cr: "sky_create (\<lambda>_ _. 0) c = Some (Some self)"
    using assms h(1) cs sample_mac_created
    by (auto simp: sky_create_def self_def) (simp_all add: sample_conf_def sample_conf'_def)
  have "config_pre c" using assms sample_config(1) by (auto simp: config_pre_def sample_conf'_def SKY_MAX_IDENTITY_LEN_def)
  then have "sky_ok self" using sky_reach_ok [OF sky_reach.created [OF _ cr, of layout_gcc undefined]]
    by (simp add: layout_ok_def layout_gcc_def)
  then show ?thesis
    by (rule that [OF cr])
      (use v(2,3) h(2) assms in \<open>auto simp: self_def tx_queue_def sample_conf_def sample_conf'_def
        sanitise_vc_config_def Let_def sample_vc_conf_def\<close>)
qed

lemma empty_silent:
  assumes "tx_queue v []" "arq_state_flag v = ARQ_STATE_OFF"
  shows "sky_vc_content_to_send v arq now k = Some False"
proof -
  obtain Ls Lr W ps where "vc_view v Ls Lr W [] 0 ps" using assms(1) by (auto simp: tx_queue_def)
  from vc_count_to_send [OF this, of False] show ?thesis using assms(2) by (simp add: sky_vc_content_to_send_def)
qed

text \<open>After a push to channel 2 it is that channel's turn.\<close>

lemma sample_turn:
  obtains a where "sky_reach layout_gcc hash a" "turn_of a 10 2" "tx_queue (virtual_channels a ! 2) [[1, 2, 3]]"
    "own_identity (sky_conf a) = [8, 8, 8]" "\<not> authenticates (conf_vc (sky_conf a) ! 2)"
proof -
  obtain s where s: "sky_create (\<lambda>_ _. 0) sample_conf' = Some (Some s)" "sky_ok s" "conf_identity (sky_conf s) = conf_identity sample_conf'"
    "conf_identity_len (sky_conf s) = 3" "\<forall>v \<in> set (virtual_channels s). arq_state_flag v = ARQ_STATE_OFF \<and> tx_queue v []"
    "sky_mac s = sample_mac" "conf_mac (sky_conf s) = sample_mac_conf" "vc_enforcement_need (sky_hmac s) = [0, 0, 0, 0]"
    "\<forall>v \<in> set (conf_vc (sky_conf s)). require_authentication v = SKY_CONFIG_FLAG_USE_CRC32" "length (conf_vc (sky_conf s)) = 4"
    "\<forall>v \<in> set (virtual_channels s). \<exists>Ls Lr W. vc_view v Ls Lr W [] 0 (replicate Lr None)"
    by (rule sample_created [of sample_conf']) (simp, rule that, assumption+)
  define v where "v = virtual_channels s ! 2"
  have L: "length (virtual_channels s) = 4" using sky_okD(6) [OF s(2)] by (simp add: SKY_NUM_VIRTUAL_CHANNELS_def)
  obtain r v1 where v1: "sky_vc_push_packet_to_send v [1, 2, 3] = Some (r, v1)" "tx_queue v1 [[1, 2, 3]]" "arq_state_flag v1 = ARQ_STATE_OFF"
  proof -
    have v: "v \<in> set (virtual_channels s)" using L by (simp add: v_def)
    obtain Ls Lr W where vw: "vc_view v Ls Lr W [] 0 (replicate Lr None)" using s(11) v by blast
    obtain v1 where "sky_vc_push_packet_to_send v [1, 2, 3] = Some (int (unat (s_tail_sequence (sendRing v))), v1)"
      "vc_view v1 Ls Lr W [[1, 2, 3]] 0 (replicate Lr None)" "arq_state_flag v1 = arq_state_flag v"
      by (rule push_first [OF vw, of "[1, 2, 3]"]) (simp add: SKY_PAYLOAD_MAX_LEN_def)
    then show ?thesis using that s(5) v by (auto simp: tx_queue_def)
  qed
  define a where "a = s\<lparr>virtual_channels := (virtual_channels s)[2 := v1]\<rparr>"
  have ex: "sky_exec layout_gcc hash 5 s (Push 2 [1, 2, 3]) = Some a" using L v1(1) by (simp add: on_channel_def v_def [symmetric] a_def)
  have cp: "config_pre sample_conf'" using sample_config(1) by (simp add: config_pre_def sample_conf'_def SKY_MAX_IDENTITY_LEN_def)
  have "sky_reach layout_gcc hash a"
    by (rule sky_reach.step [OF sky_reach.created [OF cp s(1)] _ _ ex])
      (simp_all add: ticks_ok_def MOD_TIME_TICKS_def SKY_NUM_VIRTUAL_CHANNELS_def)
  moreover have "turn_of a 10 2"
  proof -
    have "mac_can_send sample_mac_conf sample_mac 10 = Some True"
      using windows_by_phase(2) [of sample_mac_conf sample_mac 10]
      by (simp add: clock_def MOD_TIME_TICKS_def phase_def since_def cycle_len_def)
    moreover have "\<not> wants_to_send a 10 vc" if "vc < 4" "vc \<noteq> 2" for vc
    proof -
      have "virtual_channels s ! vc \<in> set (virtual_channels s)" using L that by simp
      then have "sky_vc_content_to_send (virtual_channels s ! vc) arq 10 k = Some False" for arq k
        using s(5) empty_silent by blast
      moreover have "vc \<in> {0, 1, 3}" using that by auto
      ultimately show ?thesis using that s(8) by (auto simp: wants_to_send_def a_def)
    qed
    moreover have "\<forall>v \<in> set (virtual_channels a). arq_state_flag v = ARQ_STATE_OFF"
      using s(5) v1(3) set_update_subset_insert [of "virtual_channels s" 2 v1] by (auto simp: a_def)
    ultimately show ?thesis using s(6,7) by (auto simp: turn_of_def SKY_NUM_VIRTUAL_CHANNELS_def a_def)
  qed
  moreover have "tx_queue (virtual_channels a ! 2) [[1, 2, 3]]" using v1(2) L by (simp add: a_def)
  moreover have "own_identity (sky_conf a) = [8, 8, 8]"
    using s(3,4) by (simp add: a_def sample_conf'_def numeral_eq_Suc)
  moreover have "conf_vc (sky_conf s) ! 2 \<in> set (conf_vc (sky_conf s))" using s(10) by simp
  then have "\<not> authenticates (conf_vc (sky_conf a) ! 2)"
    using s(9) by (simp add: a_def SKY_CONFIG_FLAG_USE_CRC32_def SKY_CONFIG_FLAG_AUTHENTICATE_TX_def)
  ultimately show ?thesis by (rule that)
qed

text \<open>A peer that has just been created and can hear that station.\<close>

lemma sample_peer:
  assumes a: "own_identity (sky_conf a) = [8, 8, 8]"
  obtains b where "sky_reach layout_gcc hash b" "trusts b a 2" "other_identity (sky_conf b) (own_identity (sky_conf a))"
    "arq_state_flag (virtual_channels b ! 2) = ARQ_STATE_OFF" "rx_queue (virtual_channels b ! 2) []"
    "rx_room (virtual_channels b ! 2) [] [1, 2, 3]"
proof -
  obtain b where b: "sky_create (\<lambda>_ _. 0) sample_conf = Some (Some b)" "sky_ok b" "conf_identity (sky_conf b) = conf_identity sample_conf"
    "conf_identity_len (sky_conf b) = 3" "\<forall>v \<in> set (virtual_channels b). arq_state_flag v = ARQ_STATE_OFF \<and> tx_queue v []"
    "\<forall>v \<in> set (conf_vc (sky_conf b)). require_authentication v = SKY_CONFIG_FLAG_USE_CRC32" "length (conf_vc (sky_conf b)) = 4"
    "\<forall>v \<in> set (virtual_channels b). \<exists>Ls Lr W. vc_view v Ls Lr W [] 0 (replicate Lr None)"
    by (rule sample_created [of sample_conf]) (simp, rule that, assumption+)
  have rb: "sky_reach layout_gcc hash b" by (rule sky_reach.created [OF sample_config(1) b(1)])
  have L: "length (virtual_channels b) = 4" using sky_okD(6) [OF b(2)] by (simp add: SKY_NUM_VIRTUAL_CHANNELS_def)
  have off: "arq_state_flag (virtual_channels b ! 2) = ARQ_STATE_OFF" using b(5) L by simp
  have tr: "trusts b a 2" using b(6,7) by (simp add: trusts_def SKY_CONFIG_FLAG_USE_CRC32_def SKY_CONFIG_FLAG_REQUIRE_AUTHENTICATION_def)
  have other: "other_identity (sky_conf b) (own_identity (sky_conf a))"
    using b(3,4) by (simp add: a other_identity_def sample_conf_def SKY_MAX_IDENTITY_LEN_def numeral_eq_Suc)
  obtain Ls Lr W where "vc_view (virtual_channels b ! 2) Ls Lr W [] 0 (replicate Lr None)" using b(8) L by fastforce
  from created_rx_room [OF this, of "[1, 2, 3]"] show ?thesis
    by (intro that [OF rb tr other off]) (simp_all add: SKY_PAYLOAD_MAX_LEN_def)
qed

theorem packet_delivery_witness:
  "\<exists>a b a' frame b' r. sky_tx layout_gcc (\<lambda>_ _ _. 0) 10 a (tx_radio sample_tx) = Some (1, a', frame) \<and>
     sky_rx layout_gcc (\<lambda>_ _ _. 0) 30 b (frame\<lparr>rx_time_ticks := 20\<rparr>) = Some (0, b') \<and>
     sky_vc_push_rx_packet_monotonic (virtual_channels b ! 2) [1, 2, 3] = Some (r, virtual_channels b' ! 2) \<and>
     rx_queue (virtual_channels b ! 2) [] \<and> 0 \<le> r \<and> rx_queue (virtual_channels b' ! 2) [[1, 2, 3]]"
proof -
  obtain a where a: "sky_reach layout_gcc (\<lambda>_ _ _. 0) a" "turn_of a 10 2" "tx_queue (virtual_channels a ! 2) [[1, 2, 3]]"
    "own_identity (sky_conf a) = [8, 8, 8]" "\<not> authenticates (conf_vc (sky_conf a) ! 2)"
    by (rule sample_turn)
  obtain b where b: "sky_reach layout_gcc (\<lambda>_ _ _. 0) b" "trusts b a 2" "other_identity (sky_conf b) (own_identity (sky_conf a))"
    "arq_state_flag (virtual_channels b ! 2) = ARQ_STATE_OFF" "rx_queue (virtual_channels b ! 2) []"
    "rx_room (virtual_channels b ! 2) [] [1, 2, 3]"
    by (rule sample_peer [OF a(4)]) (rule that, assumption+)
  have t: "layout_ok layout_gcc" "ticks_ok 10" "ticks_ok 30" "ticks_ok 20"
    by (simp_all add: layout_ok_def layout_gcc_def ticks_ok_def MOD_TIME_TICKS_def)
  have "[1, 2, 3] \<noteq> ([] :: bytes)" by simp
  from packet_delivery [OF a(1) b(1) t a(2,3) this b(3,2,4,5), of "tx_radio sample_tx"] b(5,6) show ?thesis
    by (simp only: if_True append_Nil) blast
qed

text \<open>A station that has received the packet 1, 2, 3 over the air and still holds it.\<close>

lemma sample_received:
  obtains b where "sky_ok b" "rx_queue (virtual_channels b ! 2) [[1, 2, 3]]"
proof -
  let ?hash = "\<lambda>_ _ _. 0"
  obtain a where a: "sky_reach layout_gcc ?hash a" "turn_of a 10 2" "tx_queue (virtual_channels a ! 2) [[1, 2, 3]]"
    "own_identity (sky_conf a) = [8, 8, 8]" "\<not> authenticates (conf_vc (sky_conf a) ! 2)"
    by (rule sample_turn)
  obtain b where b: "sky_reach layout_gcc ?hash b" "trusts b a 2" "other_identity (sky_conf b) (own_identity (sky_conf a))"
    "arq_state_flag (virtual_channels b ! 2) = ARQ_STATE_OFF" "rx_queue (virtual_channels b ! 2) []"
    "rx_room (virtual_channels b ! 2) [] [1, 2, 3]"
    by (rule sample_peer [OF a(4)]) (rule that, assumption+)
  have t: "layout_ok layout_gcc" "ticks_ok 10" "ticks_ok 30" "ticks_ok 20" "2 < SKY_NUM_VIRTUAL_CHANNELS" "[1, 2, 3] \<noteq> ([] :: bytes)"
    by (simp_all add: layout_ok_def layout_gcc_def ticks_ok_def MOD_TIME_TICKS_def SKY_NUM_VIRTUAL_CHANNELS_def)
  note ok = sky_reach_ok [OF a(1) t(1)] sky_reach_ok [OF b(1) t(1)]
  obtain frame es where tx: "list_all ext_ok es" "distinct (map fst es)" "map_of es EXTENSION_ARQ_HANDSHAKE = None"
    "sealed layout_gcc ?hash (hmac_key (sky_hmac a)) (authenticates (conf_vc (sky_conf a) ! 2)) (frame_start (own_identity (sky_conf a)))
      (set_bit 4 (of_nat 2 AND 3)) (sky_hton16 (sequence_tx (sky_hmac a) ! 2)) es [1, 2, 3] frame"
    by (rule tx_sends_packet [OF ok(1) t(1,2) a(2,3) t(6), of ?hash "tx_radio sample_tx"]) (rule that, assumption+)
  obtain b' r where "sky_ok b'" "sky_vc_push_rx_packet_monotonic (virtual_channels b ! 2) [1, 2, 3] = Some (r, virtual_channels b' ! 2)"
    by (rule rx_receives_packet [OF ok(2) t(3,4,5) b(2) ok(1) b(3,4) t(6) tx]) (rule that, assumption+)
  then show ?thesis using rx_store_outcome [OF b(5), of "[1, 2, 3]"] b(6) by (intro that [of b']) simp_all
qed

text \<open>
  C40: the channels are served in turn. When some channel has something to transmit, the chosen
  one is the first with something to transmit, in cyclic order from the round robin position, and
  after a frame the search starts one position further.
\<close>

theorem round_robin:
  assumes "sky_reach ly hash self" "layout_ok ly" "ticks_ok now" "vc' < SKY_NUM_VIRTUAL_CHANNELS" "wants_to_send self now vc'"
  shows "\<exists>i < SKY_NUM_VIRTUAL_CHANNELS. sky_tx_pick_vc self now = Some (Some (nth_in_turn self i)) \<and>
    wants_to_send self now (nth_in_turn self i) \<and> (\<forall>j < i. \<not> wants_to_send self now (nth_in_turn self j)) \<and>
    nth_in_turn (self\<lparr>sky_mac := sky_tx_advance_vc_round_robin (sky_mac self)\<rparr>) k = nth_in_turn self (k + 1)"
proof -
  obtain r where r: "sky_tx_pick_vc self now = Some r"
    "\<And>vc. r = Some vc \<Longrightarrow> (\<exists>vc' < SKY_NUM_VIRTUAL_CHANNELS. wants_to_send self now vc') \<Longrightarrow>
       \<exists>i < SKY_NUM_VIRTUAL_CHANNELS. vc = nth_in_turn self i \<and> wants_to_send self now vc \<and>
         (\<forall>j < i. \<not> wants_to_send self now (nth_in_turn self j))"
    "\<And>vc'. \<lbrakk> vc' < SKY_NUM_VIRTUAL_CHANNELS; wants_to_send self now vc' \<rbrakk> \<Longrightarrow> r \<noteq> None"
    by (rule pick_vc_ok [OF sky_reach_ok [OF assms(1,2)] assms(3)]) (rule that, assumption+)
  then obtain vc where "r = Some vc" using assms(4,5) by blast
  moreover have "nth_in_turn (self\<lparr>sky_mac := sky_tx_advance_vc_round_robin (sky_mac self)\<rparr>) k = nth_in_turn self (k + 1)"
    by (simp add: nth_in_turn_def sky_tx_advance_vc_round_robin_def SKY_NUM_VIRTUAL_CHANNELS_def mod_simps)
  ultimately show ?thesis using r(1) r(2) [of vc] assms(4,5) by blast
qed

theorem round_robin_witness:
  "\<exists>a i. sky_tx_pick_vc a 10 = Some (Some (nth_in_turn a i)) \<and> wants_to_send a 10 (nth_in_turn a i) \<and> i < 4"
proof -
  obtain a where a: "sky_reach layout_gcc (\<lambda>_ _ _. 0) a" "turn_of a 10 2" "tx_queue (virtual_channels a ! 2) [[1, 2, 3]]"
    by (rule sample_turn)
  have ly: "layout_ok layout_gcc" "ticks_ok 10" "2 < SKY_NUM_VIRTUAL_CHANNELS"
    by (simp_all add: layout_ok_def layout_gcc_def ticks_ok_def MOD_TIME_TICKS_def SKY_NUM_VIRTUAL_CHANNELS_def)
  have "virtual_channels a ! 2 \<in> set (virtual_channels a)"
    using sky_okD(6) [OF sky_reach_ok [OF a(1) ly(1)]] by (simp add: SKY_NUM_VIRTUAL_CHANNELS_def)
  then have "wants_to_send a 10 2" using a(2) queued_content [OF a(3)] by (simp add: turn_of_def wants_to_send_def)
  from round_robin [OF a(1) ly(1,2,3) this, of 0] show ?thesis unfolding SKY_NUM_VIRTUAL_CHANNELS_def by blast
qed

end
