(* ===== verification/GF256.thy ===== *)
theory GF256
  imports Reed_Solomon Xor_Group
begin

text \<open>
  The tables of the Reed-Solomon codec describe the field with 256 elements: \<open>CCSDS_alpha_to\<close> lists the powers of
  \<open>x\<close> modulo \<open>x^8 + x^7 + x^2 + x + 1\<close>, \<open>CCSDS_index_of\<close> their logarithms. Bytes under \<open>XOR\<close> and multiplication
  by the tables form a field, given as an instance of the class \<open>field\<close>.
\<close>

section \<open>The tables\<close>

lemma mod255_eq: "mod255 x = x mod 255"
proof (induction x rule: mod255.induct)
  case (1 x)
  show ?case
  proof (cases "x \<ge> 255")
    case True
    let ?y = "x - 255"
    have y: "x = ?y + 255" using True by simp
    have "?y = (?y div 256 + ?y mod 256) + 255 * (?y div 256)"
      using div_mult_mod_eq [of ?y 256] by linarith
    then have "?y mod 255 = ((?y div 256 + ?y mod 256) + 255 * (?y div 256)) mod 255" by (rule arg_cong)
    also have "\<dots> = (?y div 256 + ?y mod 256) mod 255" by (rule mod_mult_self2)
    finally have "?y mod 255 = (?y div 256 + ?y mod 256) mod 255" .
    moreover have "x mod 255 = ?y mod 255" by (subst y) simp
    ultimately show ?thesis using 1 True by (simp add: mod255.simps [of x])
  qed (simp add: mod255.simps [of x])
qed

text \<open>Multiplication by \<open>x\<close> in polynomial form.\<close>

definition xt :: "byte \<Rightarrow> byte" where
  "xt a = push_bit 1 a XOR (if bit a 7 then 0x87 else 0)"

lemma xt_xor: "xt (a XOR b) = xt a XOR xt b"
  by (rule bit_word_eqI) (auto simp: xt_def bit_simps)

lemma alpha_table: "map xt (butlast CCSDS_alpha_to) = tl (butlast CCSDS_alpha_to) @ [1]"
  by code_simp

lemma alpha_nonzero_table: "0 \<notin> set (butlast CCSDS_alpha_to)"
  by code_simp

text \<open>The second table is the inverse of the first: as lists of pairs they agree after a radix sort.\<close>

primrec numbered :: "int \<Rightarrow> int list \<Rightarrow> (int \<times> int) list" where
  "numbered n [] = []"
| "numbered n (x # xs) = (n, x) # numbered (n + 1) xs"

primrec split_eq :: "int list \<Rightarrow> int \<Rightarrow> (int \<times> int) list \<Rightarrow> (int \<times> int) list \<Rightarrow> bool" where
  "split_eq [] lo ps qs \<longleftrightarrow> ps = qs"
| "split_eq (m # ms) lo ps qs \<longleftrightarrow>
     split_eq ms lo (filter (\<lambda>p. fst p < lo + m) ps) (filter (\<lambda>p. fst p < lo + m) qs) \<and>
     split_eq ms (lo + m) (filter (\<lambda>p. \<not> fst p < lo + m) ps) (filter (\<lambda>p. \<not> fst p < lo + m) qs)"

lemma index_table:
  "split_eq [128, 64, 32, 16, 8, 4, 2, 1] 0 (numbered 1 (map int (tl CCSDS_index_of)))
     (map (\<lambda>(n, a). (a, n)) (numbered 0 (map uint (butlast CCSDS_alpha_to))))"
  by (simp add: CCSDS_index_of_def CCSDS_alpha_to_def del: split_eq.simps numbered.simps, code_simp)

lemma split_eq_set: "split_eq ms lo ps qs \<Longrightarrow> set ps = set qs"
proof (induction ms arbitrary: lo ps qs)
  case (Cons m ms)
  let ?P = "\<lambda>p :: int \<times> int. fst p < lo + m"
  have "set (filter ?P ps) = set (filter ?P qs)" "set (filter (\<lambda>p. \<not> ?P p) ps) = set (filter (\<lambda>p. \<not> ?P p) qs)"
    by (rule Cons.IH [of lo], use Cons.prems in simp) (rule Cons.IH [of "lo + m"], use Cons.prems in simp)
  moreover have "set xs = set (filter ?P xs) \<union> set (filter (\<lambda>p. \<not> ?P p) xs)" for xs by auto
  ultimately show ?case by metis
qed simp

lemma set_numbered: "set (numbered n xs) = (\<lambda>i. (n + int i, xs ! i)) ` {..<length xs}"
proof (induction xs arbitrary: n)
  case (Cons x xs)
  have "(\<lambda>i. (n + int i, (x # xs) ! i)) ` {..<Suc (length xs)} = insert (n, x) ((\<lambda>i. (n + int (Suc i), xs ! i)) ` {..<length xs})"
    by (simp add: lessThan_Suc_eq_insert_0 image_image)
  then show ?case using Cons by (simp add: algebra_simps)
qed simp

lemma length_tables [simp]: "length CCSDS_alpha_to = 256" "length CCSDS_index_of = 256"
  by (simp_all add: CCSDS_alpha_to_def CCSDS_index_of_def)

lemma index_alpha:
  assumes "n < 255"
  shows "INDEX_OF (CCSDS_alpha_to ! n) = n"
proof -
  have "(uint (CCSDS_alpha_to ! n), int n) \<in> set (map (\<lambda>(n, a). (a, n)) (numbered 0 (map uint (butlast CCSDS_alpha_to))))"
    using assms by (force simp: set_numbered nth_butlast image_iff)
  then have "(uint (CCSDS_alpha_to ! n), int n) \<in> set (numbered 1 (map int (tl CCSDS_index_of)))"
    using split_eq_set [OF index_table] by blast
  then obtain i where i: "i < 255" "uint (CCSDS_alpha_to ! n) = 1 + int i" "n = CCSDS_index_of ! Suc i"
    by (auto simp: set_numbered nth_tl)
  then have "unat (CCSDS_alpha_to ! n) = Suc i" by (simp add: unat_eq_nat_uint)
  then show ?thesis using i by (simp add: INDEX_OF_def)
qed

lemma alpha_zero: "n < 255 \<Longrightarrow> CCSDS_alpha_to ! n \<noteq> 0"
  using alpha_nonzero_table nth_mem [of n "butlast CCSDS_alpha_to"] by (auto simp: nth_butlast)

lemma alpha_step: "n < 255 \<Longrightarrow> CCSDS_alpha_to ! (Suc n mod 255) = xt (CCSDS_alpha_to ! n)"
proof -
  assume n: "n < 255"
  have "xt (CCSDS_alpha_to ! n) = (tl (butlast CCSDS_alpha_to) @ [1]) ! n"
    using n by (simp add: nth_butlast flip: alpha_table)
  also have "\<dots> = CCSDS_alpha_to ! (Suc n mod 255)"
  proof (cases "n = 254")
    case True
    then show ?thesis by (simp add: nth_append) (simp add: CCSDS_alpha_to_def)
  next
    case False
    then show ?thesis using n by (simp add: nth_append nth_tl nth_butlast)
  qed
  finally show ?thesis by simp
qed

lemma alpha_surj: "a \<noteq> 0 \<Longrightarrow> \<exists>n < 255. CCSDS_alpha_to ! n = a"
proof -
  assume a: "a \<noteq> 0"
  have "inj_on ((!) CCSDS_alpha_to) {..<255}" by (rule inj_on_inverseI [of _ INDEX_OF]) (simp add: index_alpha)
  then have "card ((!) CCSDS_alpha_to ` {..<255}) = 255" by (simp add: card_image)
  moreover have "(!) CCSDS_alpha_to ` {..<255} \<subseteq> UNIV - {0}" using alpha_zero by auto
  moreover have "card (UNIV - {0 :: byte}) = 255" by (simp add: card_Diff_singleton card_word)
  ultimately have "(!) CCSDS_alpha_to ` {..<255} = UNIV - {0}" by (intro card_subset_eq) auto
  then have "a \<in> (!) CCSDS_alpha_to ` {..<255}" using a by simp
  then show ?thesis by auto
qed

text \<open>What the decoder needs of the two tables.\<close>

lemma INDEX_OF_0 [simp]: "INDEX_OF 0 = 255"
  by (simp add: INDEX_OF_def CCSDS_index_of_def)

lemma INDEX_OF_less: "a \<noteq> 0 \<Longrightarrow> INDEX_OF a < 255"
  using alpha_surj index_alpha by fastforce

lemma INDEX_OF_A0 [simp]: "INDEX_OF a = 255 \<longleftrightarrow> a = 0"
  using INDEX_OF_less [of a] by (cases "a = 0") simp_all

lemma ALPHA_TO_INDEX [simp]: "a \<noteq> 0 \<Longrightarrow> ALPHA_TO (INDEX_OF a) = a"
  using alpha_surj [of a] index_alpha by (auto simp: ALPHA_TO_def mod255_eq)

lemma INDEX_ALPHA_TO [simp]: "INDEX_OF (ALPHA_TO n) = n mod 255"
  by (simp add: ALPHA_TO_def mod255_eq index_alpha)

lemma ALPHA_TO_nonzero [simp]: "ALPHA_TO n \<noteq> 0"
  by (simp add: ALPHA_TO_def mod255_eq alpha_zero)

lemma ALPHA_TO_cong: "m mod 255 = n mod 255 \<Longrightarrow> ALPHA_TO m = ALPHA_TO n"
  by (simp add: ALPHA_TO_def mod255_eq)

lemma ALPHA_TO_eq_iff: "ALPHA_TO m = ALPHA_TO n \<longleftrightarrow> m mod 255 = n mod 255"
  by (metis ALPHA_TO_cong INDEX_ALPHA_TO)

lemma ALPHA_TO_Suc: "ALPHA_TO (Suc n) = xt (ALPHA_TO n)"
  using alpha_step [of "n mod 255"] by (simp add: ALPHA_TO_def mod255_eq mod_Suc_eq)

lemma ALPHA_TO_0 [simp]: "ALPHA_TO 0 = 1"
  by (simp add: ALPHA_TO_def mod255_eq CCSDS_alpha_to_def)

section \<open>The field\<close>

definition gmul :: "byte \<Rightarrow> byte \<Rightarrow> byte" where
  "gmul a b = (if a = 0 \<or> b = 0 then 0 else ALPHA_TO (INDEX_OF a + INDEX_OF b))"

lemma byte_cases [case_names zero power]:
  obtains "a = (0 :: byte)" | n where "a = ALPHA_TO n"
  using ALPHA_TO_INDEX by metis

lemma gmul_0 [simp]: "gmul 0 b = 0" "gmul a 0 = 0"
  by (simp_all add: gmul_def)

lemma gmul_ALPHA_TO [simp]: "gmul (ALPHA_TO m) (ALPHA_TO n) = ALPHA_TO (m + n)"
  by (simp add: gmul_def ALPHA_TO_eq_iff mod_simps)

lemma gmul_commute: "gmul a b = gmul b a"
  by (simp add: gmul_def add.commute)

lemma gmul_assoc: "gmul (gmul a b) c = gmul a (gmul b c)"
  by (cases a rule: byte_cases; cases b rule: byte_cases; cases c rule: byte_cases) (simp_all add: add.assoc)

lemma gmul_1 [simp]: "gmul 1 b = b"
  using gmul_ALPHA_TO [of 0] by (cases b rule: byte_cases) simp_all

lemma gmul_xt: "gmul (ALPHA_TO n) b = (xt ^^ n) b"
proof (cases b rule: byte_cases)
  case zero
  have "xt 0 = 0" by (simp add: xt_def)
  then show ?thesis using zero by (induction n) simp_all
next
  case (power m)
  then show ?thesis by (simp, induction n) (simp_all add: ALPHA_TO_Suc)
qed

lemma gmul_xor: "gmul a (b XOR c) = gmul a b XOR gmul a c"
proof (cases a rule: byte_cases)
  case (power n)
  have "(xt ^^ n) (b XOR c) = (xt ^^ n) b XOR (xt ^^ n) c" by (induction n) (simp_all add: xt_xor)
  then show ?thesis by (simp add: power gmul_xt)
qed simp

datatype gf = GF byte

instantiation gf :: field
begin

primrec plus_gf :: "gf \<Rightarrow> gf \<Rightarrow> gf" where
  "plus_gf (GF a) y = (case y of GF b \<Rightarrow> GF (a XOR b))"

primrec times_gf :: "gf \<Rightarrow> gf \<Rightarrow> gf" where
  "times_gf (GF a) y = (case y of GF b \<Rightarrow> GF (gmul a b))"

primrec inverse_gf :: "gf \<Rightarrow> gf" where
  "inverse_gf (GF a) = GF (if a = 0 then 0 else ALPHA_TO (NN - INDEX_OF a))"

definition zero_gf :: gf where "zero_gf = GF 0"
definition one_gf :: gf where "one_gf = GF 1"
definition uminus_gf :: "gf \<Rightarrow> gf" where "uminus_gf x = x"
definition minus_gf :: "gf \<Rightarrow> gf \<Rightarrow> gf" where "minus_gf x y = x + y"
definition divide_gf :: "gf \<Rightarrow> gf \<Rightarrow> gf" where "divide_gf x y = x * inverse y"

instance
proof (standard, goal_cases)
  case (1 a b c) then show ?case by (cases a; cases b; cases c) (simp add: gmul_assoc)
next
  case (2 a b) then show ?case by (cases a; cases b) (simp add: gmul_commute)
next
  case (3 a) then show ?case by (cases a) (simp add: one_gf_def)
next
  case (4 a b c) then show ?case by (cases a; cases b; cases c) (simp add: xor.assoc)
next
  case (5 a b) then show ?case by (cases a; cases b) (simp add: xor.commute)
next
  case (6 a) then show ?case by (cases a) (simp add: zero_gf_def)
next
  case (7 a) then show ?case by (cases a) (simp add: uminus_gf_def zero_gf_def)
next
  case (8 a b) then show ?case by (simp add: uminus_gf_def minus_gf_def)
next
  case (9 a b c) then show ?case by (cases a; cases b; cases c) (simp add: gmul_xor gmul_commute [of _ "_ :: byte"])
next
  case (11 a)
  then obtain b where b: "a = GF b" "b \<noteq> 0" by (cases a) (auto simp: zero_gf_def)
  then have "gmul (ALPHA_TO (NN - INDEX_OF b)) (ALPHA_TO (INDEX_OF b)) = ALPHA_TO NN"
    using INDEX_OF_less [of b] by (simp add: NN_def del: ALPHA_TO_INDEX)
  also have "\<dots> = 1" using ALPHA_TO_cong [of 255 0] by (simp add: NN_def)
  finally show ?case using b by (simp add: one_gf_def)
qed (simp_all add: zero_gf_def one_gf_def divide_gf_def)

end

lemma GF_0 [simp]: "GF 0 = 0" "GF a = 0 \<longleftrightarrow> a = 0" by (simp_all add: zero_gf_def)
lemma GF_1 [simp]: "GF 1 = 1" "GF a = 1 \<longleftrightarrow> a = 1" by (simp_all add: one_gf_def)
lemma GF_xor: "GF (a XOR b) = GF a + GF b" by simp
lemma gf_double [simp]: "x + x = (0 :: gf)" by (cases x) simp
lemma gf_two [simp]: "2 = (0 :: gf)" using gf_double [of 1] by (simp only: one_add_one)
lemma gf_minus [simp]: "- x = (x :: gf)" "x - y = x + (y :: gf)" by (simp_all add: uminus_gf_def minus_gf_def)

declare plus_gf.simps [simp del] times_gf.simps [simp del] inverse_gf.simps [simp del]

text \<open>The generator, and the value of a number in index form.\<close>

definition alpha :: gf where "alpha = GF (ALPHA_TO 1)"

definition gval :: "nat \<Rightarrow> gf" where "gval i = (if i = A0 then 0 else alpha ^ i)"

lemma GF_ALPHA_TO: "GF (ALPHA_TO n) = alpha ^ n"
proof (induction n)
  case (Suc n)
  have "GF (ALPHA_TO (1 + n)) = GF (ALPHA_TO 1) * GF (ALPHA_TO n)" by (simp only: times_gf.simps gf.case gmul_ALPHA_TO)
  then show ?case using Suc by (simp add: alpha_def)
qed simp

lemma alpha_power_eq_iff: "alpha ^ m = alpha ^ n \<longleftrightarrow> m mod 255 = n mod 255"
  by (simp add: ALPHA_TO_eq_iff flip: GF_ALPHA_TO)

lemma alpha_nonzero [simp]: "alpha \<noteq> 0"
  by (simp add: alpha_def)

lemma alpha_power_mod: "alpha ^ (n mod 255) = alpha ^ n"
  by (simp add: alpha_power_eq_iff)

lemma alpha_order: "alpha ^ (255 * n) = 1"
  using alpha_power_eq_iff [of "255 * n" 0] by simp

lemma alpha_order' [simp]: "alpha ^ 255 = 1" "alpha ^ (n + 255) = alpha ^ n"
  using alpha_order [of 1] by (simp_all add: power_add)

lemma gval_INDEX_OF [simp]: "gval (INDEX_OF a) = GF a"
proof (cases "a = 0")
  case False
  then show ?thesis using GF_ALPHA_TO [of "INDEX_OF a"] by (simp add: gval_def A0_def NN_def)
qed (simp add: gval_def A0_def NN_def)

lemma gval_less: "i < A0 \<Longrightarrow> gval i = alpha ^ i"
  by (simp add: gval_def)

lemma gval_A0 [simp]: "gval A0 = 0"
  by (simp add: gval_def)

lemma GF_INDEX_OF: "INDEX_OF a \<noteq> A0 \<Longrightarrow> alpha ^ INDEX_OF a = GF a"
  using gval_INDEX_OF [of a] by (simp add: gval_def)

text \<open>The accumulating loops of the codec are sums in the field.\<close>

lemma GF_foldl_xor:
  "GF (foldl (\<lambda>d i. if c i then d XOR ALPHA_TO (f i) else d) d0 xs) = GF d0 + (\<Sum>i \<leftarrow> xs. if c i then alpha ^ f i else 0)"
  by (induction xs arbitrary: d0) (simp_all add: GF_xor GF_ALPHA_TO add.assoc)

lemma sum_list_rev_eq: "(\<Sum>i \<leftarrow> rev xs. f i) = (\<Sum>i \<leftarrow> xs. f i :: gf)"
  by (induction xs) (simp_all add: add.commute)

end
