(* ===== verification/Rs_Code.thy ===== *)
theory Rs_Code
  imports GF256
begin

text \<open>
  The code words of the Reed-Solomon encoder. A list of bytes is read as a polynomial with its first byte leading;
  the encoder's shift register divides by the generator polynomial, so that message and parity together vanish at
  the 32 roots, which is what the syndromes of the decoder compute.
\<close>

section \<open>Byte lists as polynomials\<close>

definition horner :: "gf \<Rightarrow> bytes \<Rightarrow> gf" where
  "horner y bs = foldl (\<lambda>a d. a * y + GF d) 0 bs"

definition root_of :: "nat \<Rightarrow> gf" where
  "root_of i = alpha ^ ((FCR + i) * PRIM)"

lemma horner_Nil [simp]: "horner y [] = 0"
  by (simp add: horner_def)

lemma horner_snoc: "horner y (bs @ [d]) = horner y bs * y + GF d"
  by (simp add: horner_def)

lemma horner_append: "horner y (as @ bs) = horner y as * y ^ length bs + horner y bs"
  by (induction bs rule: rev_induct) (simp_all add: horner_snoc algebra_simps flip: append_assoc)

lemma horner_Cons: "horner y (d # bs) = GF d * y ^ length bs + horner y bs"
  using horner_append [of y "[d]" bs] by (simp add: horner_def)

lemma horner_sum: "horner y bs = (\<Sum>j < length bs. GF (bs ! j) * y ^ (length bs - 1 - j))"
proof (induction bs)
  case (Cons d bs)
  then show ?case by (simp add: horner_Cons sum.lessThan_Suc_shift del: sum.lessThan_Suc)
qed simp

section \<open>The generator polynomial\<close>

text \<open>The value of the generator polynomial at \<open>alpha ^ c\<close>, by the tables.\<close>

primrec gen_value :: "nat \<Rightarrow> nat \<Rightarrow> nat list \<Rightarrow> byte" where
  "gen_value c e [] = 0"
| "gen_value c e (g # gs) = CCSDS_alpha_to ! ((g + e) mod 255) XOR gen_value c ((e + c) mod 255) gs"

definition vanishes :: "byte \<Rightarrow> bool" where "vanishes a \<longleftrightarrow> a = 0"

abbreviation gen_zero :: "nat \<Rightarrow> bool" where
  "gen_zero i \<equiv> vanishes (gen_value ((FCR + i) * PRIM) 0 CCSDS_poly)"

lemma upt_01: "2 \<le> n \<Longrightarrow> 0 # 1 # [2..<n] = [0..<n]"
  by (simp add: upt_conv_Cons numeral_2_eq_2)

lemma alpha_list: "xs = CCSDS_alpha_to \<Longrightarrow> map ((!) CCSDS_alpha_to) (0 # 1 # [2..<256]) = xs"
  using map_nth [of CCSDS_alpha_to] by (simp only: length_tables upt_01 [of 256])

lemmas alpha_nths = alpha_list [OF CCSDS_alpha_to_def [symmetric], simplified]

lemma upt_32:
  "[0..<32] = [0, 1, 2, 3, 4, 5, 6, 7, 8, 9, 10, 11, 12, 13, 14, 15] @
     [16, 17, 18, 19, 20, 21, 22, 23, 24, 25, 26, 27, 28, 29, 30, 31]"
  by (subst upt_01 [symmetric]) simp_all

lemma list_all_Nil: "list_all P []" by simp

lemma generator_roots_low: "list_all gen_zero [0, 1, 2, 3, 4, 5, 6, 7, 8, 9, 10, 11, 12, 13, 14, 15]"
  unfolding list.pred_inject(2)
  by (intro conjI list_all_Nil; (simp add: CCSDS_poly_def FCR_def PRIM_def, simp only: alpha_nths, simp add: vanishes_def))

lemma generator_roots_high: "list_all gen_zero [16, 17, 18, 19, 20, 21, 22, 23, 24, 25, 26, 27, 28, 29, 30, 31]"
  unfolding list.pred_inject(2)
  by (intro conjI list_all_Nil; (simp add: CCSDS_poly_def FCR_def PRIM_def, simp only: alpha_nths, simp add: vanishes_def))

lemma gen_zeros: "i < NROOTS \<Longrightarrow> gen_zero i"
proof -
  assume "i < NROOTS"
  then have "i \<in> set [0..<32]" by (simp add: NROOTS_def)
  then show "gen_zero i"
    using generator_roots_low generator_roots_high unfolding upt_32 set_append list_all_iff by blast
qed

lemma gen_value_sum: "GF (gen_value c e gs) = (\<Sum>j < length gs. alpha ^ (gs ! j) * (alpha ^ c) ^ j) * alpha ^ e"
proof (induction gs arbitrary: e)
  case (Cons g gs)
  have e: "alpha ^ ((e + c) mod 255) = alpha ^ c * alpha ^ e" by (simp add: alpha_power_mod power_add)
  have "GF (CCSDS_alpha_to ! ((g + e) mod 255)) = alpha ^ g * alpha ^ e"
    using GF_ALPHA_TO [of "g + e"] by (simp add: ALPHA_TO_def mod255_eq power_add)
  then have "GF (gen_value c e (g # gs)) = alpha ^ g * alpha ^ e +
      (\<Sum>j < length gs. alpha ^ (gs ! j) * (alpha ^ c) ^ j) * (alpha ^ c * alpha ^ e)"
    by (simp only: gen_value.simps GF_xor Cons e)
  then show ?case
    by (simp add: sum.lessThan_Suc_shift sum_distrib_left sum_distrib_right ac_simps distrib_left del: gen_value.simps sum.lessThan_Suc)
qed simp

lemma generator_root: "i < NROOTS \<Longrightarrow> (\<Sum>j \<le> NROOTS. alpha ^ GENPOLY j * root_of i ^ j) = 0"
proof -
  assume "i < NROOTS"
  then have "GF (gen_value ((FCR + i) * PRIM) 0 CCSDS_poly) = 0" using gen_zeros by (simp add: vanishes_def)
  moreover have "{..<length CCSDS_poly} = {..NROOTS}" by (auto simp: CCSDS_poly_def NROOTS_def)
  ultimately show ?thesis by (simp add: gen_value_sum root_of_def GENPOLY_def)
qed

section \<open>The encoder\<close>

lemma length_encode_step: "length (encode_step p d) = NROOTS"
  by (simp add: encode_step_def Let_def NROOTS_def)

lemma length_encode_rs_8 [simp]: "length (encode_rs_8 data) = NROOTS"
  by (induction data rule: rev_induct) (simp_all add: encode_rs_8_def length_encode_step)

text \<open>One step of the shift register multiplies by \<open>y\<close> and takes in the byte, modulo the generator polynomial.\<close>

lemma encode_step_nth:
  assumes "j < NROOTS"
  shows "GF (encode_step p d ! j) =
    (if j < NROOTS - 1 then GF (p ! Suc j) else 0) + (GF d + GF (p ! 0)) * alpha ^ GENPOLY (NROOTS - 1 - j)"
proof (cases "INDEX_OF (d XOR p ! 0) = A0")
  case True
  then have "GF (d XOR p ! 0) = 0" by (simp add: A0_def NN_def)
  then have z: "GF d + GF (p ! 0) = 0" by (simp only: GF_xor)
  show ?thesis using assms True unfolding z by (auto simp: encode_step_def NROOTS_def nth_append)
next
  case False
  then have a: "GF (ALPHA_TO (INDEX_OF (d XOR p ! 0) + n)) = (GF d + GF (p ! 0)) * alpha ^ n" for n
    by (simp add: GF_ALPHA_TO power_add GF_INDEX_OF GF_xor)
  show ?thesis using assms False by (auto simp: encode_step_def Let_def NROOTS_def nth_append GF_xor a)
qed

lemma horner_encode_step:
  assumes p: "length p = NROOTS" and i: "i < NROOTS"
  shows "horner (root_of i) (encode_step p d) = horner (root_of i) p * root_of i + GF d * root_of i ^ NROOTS"
proof -
  let ?y = "root_of i" and ?f = "GF d + GF (p ! 0)" and ?g = "\<lambda>j. alpha ^ GENPOLY j"
  have 31: "NROOTS - 1 = 31" "NROOTS - Suc j = 31 - j" "NROOTS = Suc 31" for j by (simp_all add: NROOTS_def)
  have "horner ?y (encode_step p d) = (\<Sum>j < NROOTS. GF (encode_step p d ! j) * ?y ^ (31 - j))"
    by (simp add: horner_sum length_encode_step 31(2))
  also have "\<dots> = (\<Sum>j < NROOTS. (if j < 31 then GF (p ! Suc j) else 0) * ?y ^ (31 - j)) + ?f * (\<Sum>j < NROOTS. ?g (31 - j) * ?y ^ (31 - j))"
    by (simp add: encode_step_nth 31(1,2) sum.distrib sum_distrib_left algebra_simps del: gf_minus)
  also have "(\<Sum>j < NROOTS. ?g (31 - j) * ?y ^ (31 - j)) = (\<Sum>j < NROOTS. ?g j * ?y ^ j)"
    using sum.nat_diff_reindex [of "\<lambda>j. ?g j * ?y ^ j" NROOTS] by (simp add: 31(2))
  also have "\<dots> = ?y ^ NROOTS"
  proof -
    have "(\<Sum>j \<le> NROOTS. ?g j * ?y ^ j) = (\<Sum>j < NROOTS. ?g j * ?y ^ j) + ?g NROOTS * ?y ^ NROOTS"
      by (simp add: lessThan_Suc_atMost [symmetric])
    moreover have "GENPOLY NROOTS = 0" by (simp add: GENPOLY_def CCSDS_poly_def NROOTS_def)
    ultimately have "(\<Sum>j < NROOTS. ?g j * ?y ^ j) + ?y ^ NROOTS = 0" using generator_root [OF i] by simp
    then show ?thesis by (metis add_eq_0_iff gf_minus(1))
  qed
  also have "(\<Sum>j < NROOTS. (if j < 31 then GF (p ! Suc j) else 0) * ?y ^ (31 - j)) = (\<Sum>j < 31. GF (p ! Suc j) * ?y ^ (31 - j))"
    unfolding 31(3) by (simp only: sum.lessThan_Suc less_irrefl if_False mult_zero_left add_0_right) simp
  also have "\<dots> = horner ?y p * ?y + GF (p ! 0) * ?y ^ NROOTS"
  proof -
    have "horner ?y p * ?y = (\<Sum>j < Suc 31. GF (p ! j) * ?y ^ (32 - j))"
      unfolding horner_sum p 31(3) sum_distrib_right
    proof (rule sum.cong [OF refl], goal_cases)
      case (1 j)
      then have "32 - j = Suc (Suc 31 - 1 - j)" by simp
      then show ?case by (simp add: mult.assoc)
    qed
    also have "\<dots> = GF (p ! 0) * ?y ^ NROOTS + (\<Sum>j < 31. GF (p ! Suc j) * ?y ^ (31 - j))"
      by (simp only: sum.lessThan_Suc_shift) (simp add: NROOTS_def)
    finally show ?thesis by (simp add: algebra_simps)
  qed
  finally show ?thesis by (simp add: algebra_simps)
qed

lemma horner_encode:
  assumes i: "i < NROOTS"
  shows "horner (root_of i) (encode_rs_8 data) = horner (root_of i) data * root_of i ^ NROOTS"
proof (induction data rule: rev_induct)
  case Nil
  have "horner y (replicate n 0) = 0" for y n by (induction n) (simp_all add: horner_Cons)
  then show ?case by (simp add: encode_rs_8_def)
next
  case (snoc d data)
  then show ?case
    using horner_encode_step [OF length_encode_rs_8 i, of data d]
    by (simp add: encode_rs_8_def horner_snoc algebra_simps)
qed

lemma codeword_roots: "i < NROOTS \<Longrightarrow> horner (root_of i) (data @ encode_rs_8 data) = 0"
  by (simp add: horner_append horner_encode)

section \<open>The syndromes\<close>

lemma syndrome_step_nth: "i < NROOTS \<Longrightarrow> GF (syndrome_step s d ! i) = GF (s ! i) * root_of i + GF d"
  by (auto simp: syndrome_step_def GF_xor GF_ALPHA_TO power_add GF_INDEX_OF A0_def NN_def root_of_def)

lemma length_syndrome_step: "length (syndrome_step s d) = NROOTS"
  by (simp add: syndrome_step_def)

lemma length_syndromes [simp]: "length (syndromes data) = NROOTS"
proof -
  have "length s = NROOTS \<Longrightarrow> length (foldl syndrome_step s ds) = NROOTS" for s ds
    by (induction ds arbitrary: s) (simp_all add: length_syndrome_step)
  then show ?thesis by (simp add: syndromes_def)
qed

lemma syndromes_nth:
  assumes "data \<noteq> []" "i < NROOTS"
  shows "GF (syndromes data ! i) = horner (root_of i) data"
proof -
  have "GF (foldl syndrome_step s ds ! i) = foldl (\<lambda>a d. a * root_of i + GF d) (GF (s ! i)) ds" for s ds
    using assms(2) by (induction ds arbitrary: s) (simp_all add: syndrome_step_nth)
  then show ?thesis using assms by (cases data) (simp_all add: syndromes_def horner_def)
qed

end
