(* ===== verification/Key_Equation.thy ===== *)
theory Key_Equation
  imports Main
begin

text \<open>
  The algebra behind the Reed-Solomon decoder, over an arbitrary field. Polynomials are functions from
  exponents to coefficients with a bound on the degree. An error pattern is a list \<open>ks\<close> of positions
  with locators \<open>X k\<close> and values \<open>Z k\<close>; its power sums are the syndromes. The Berlekamp-Massey step
  keeps an invariant whose only witness for minimality is the non-singularity of the Vandermonde matrix,
  and after enough syndromes the result is the product of the linear factors \<open>1 - X k x\<close>.
\<close>

section \<open>Polynomials\<close>

definition deg_le :: "(nat \<Rightarrow> 'a::field) \<Rightarrow> nat \<Rightarrow> bool" where
  "deg_le p n \<longleftrightarrow> (\<forall>i > n. p i = 0)"

definition ev :: "(nat \<Rightarrow> 'a::field) \<Rightarrow> nat \<Rightarrow> 'a \<Rightarrow> 'a" where
  "ev p n x = (\<Sum>i \<le> n. p i * x ^ i)"

text \<open>Multiplication by \<open>x\<close> and by \<open>1 - X x\<close>.\<close>

definition shift :: "(nat \<Rightarrow> 'a::field) \<Rightarrow> nat \<Rightarrow> 'a" where
  "shift p i = (if i = 0 then 0 else p (i - 1))"

definition mult_lin :: "'a::field \<Rightarrow> (nat \<Rightarrow> 'a) \<Rightarrow> nat \<Rightarrow> 'a" where
  "mult_lin X p i = p i - X * shift p i"

definition unit_poly :: "nat \<Rightarrow> 'a::field" where
  "unit_poly i = (if i = 0 then 1 else 0)"

lemma deg_le_mono: "deg_le p m \<Longrightarrow> m \<le> n \<Longrightarrow> deg_le p n"
  by (auto simp: deg_le_def)

lemma ev_extend:
  assumes "deg_le p m" "m \<le> n"
  shows "ev p n x = ev p m x"
proof -
  have "(\<Sum>i \<le> n. p i * x ^ i) = (\<Sum>i \<le> m. p i * x ^ i)"
    by (rule sum.mono_neutral_right) (use assms in \<open>auto simp: deg_le_def\<close>)
  then show ?thesis by (simp add: ev_def)
qed

lemma ev_shift: "ev (shift p) (Suc n) x = x * ev p n x"
  by (simp add: ev_def shift_def sum.atMost_Suc_shift sum_distrib_left algebra_simps del: sum.atMost_Suc)

lemma ev_mult_lin:
  assumes "deg_le p n"
  shows "ev (mult_lin X p) (Suc n) x = (1 - X * x) * ev p n x"
proof -
  have "ev (mult_lin X p) (Suc n) x = ev p (Suc n) x - X * ev (shift p) (Suc n) x"
    by (simp add: ev_def mult_lin_def sum_subtractf sum_distrib_left algebra_simps del: sum.atMost_Suc)
  then show ?thesis using ev_extend [OF assms, of "Suc n"] by (simp add: ev_shift algebra_simps)
qed

lemma deg_mult_lin: "deg_le p n \<Longrightarrow> deg_le (mult_lin X p) (Suc n)"
  by (auto simp: deg_le_def mult_lin_def shift_def)

lemma mult_lin_commute: "mult_lin X (mult_lin Y p) = mult_lin Y (mult_lin X p)"
  by (rule ext) (simp add: mult_lin_def shift_def algebra_simps)

text \<open>Products of linear factors.\<close>

definition lins :: "'a::field list \<Rightarrow> (nat \<Rightarrow> 'a) \<Rightarrow> nat \<Rightarrow> 'a" where
  "lins Xs p = foldr mult_lin Xs p"

abbreviation locator :: "'a::field list \<Rightarrow> nat \<Rightarrow> 'a" where
  "locator Xs \<equiv> lins Xs unit_poly"

lemma lins_simps [simp]: "lins [] p = p" "lins (X # Xs) p = mult_lin X (lins Xs p)"
  by (simp_all add: lins_def)

lemma lins_remove1: "X \<in> set Xs \<Longrightarrow> lins Xs p = mult_lin X (lins (remove1 X Xs) p)"
  by (induction Xs) (auto simp: mult_lin_commute)

lemma lins_mult_lin: "lins Xs (mult_lin X p) = mult_lin X (lins Xs p)"
  by (induction Xs) (auto simp: mult_lin_commute)

lemma deg_lins: "deg_le p n \<Longrightarrow> deg_le (lins Xs p) (n + length Xs)"
  by (induction Xs) (auto simp: deg_mult_lin)

lemma deg_unit [simp]: "deg_le unit_poly 0"
  by (simp add: deg_le_def unit_poly_def)

lemma deg_locator: "deg_le (locator Xs) (length Xs)"
  using deg_lins [OF deg_unit, of Xs] by simp

lemma ev_locator: "ev (locator Xs) (length Xs) x = (\<Prod>X \<leftarrow> Xs. 1 - X * x)"
  by (induction Xs) (simp_all add: ev_mult_lin deg_locator, simp add: ev_def unit_poly_def)

lemma locator_0: "locator Xs 0 = 1"
  by (induction Xs) (simp_all add: unit_poly_def mult_lin_def shift_def)

lemma locator_top: "0 \<notin> set Xs \<Longrightarrow> locator Xs (length Xs) \<noteq> 0"
proof (induction Xs)
  case Nil
  then show ?case by (simp add: unit_poly_def)
next
  case (Cons X Xs)
  have "locator Xs (Suc (length Xs)) = 0" using deg_locator [of Xs] by (simp add: deg_le_def)
  then show ?case using Cons by (simp add: mult_lin_def shift_def)
qed

text \<open>Division by a linear factor.\<close>

definition div_lin :: "'a::field \<Rightarrow> (nat \<Rightarrow> 'a) \<Rightarrow> nat \<Rightarrow> 'a" where
  "div_lin X p i = (\<Sum>j \<le> i. X ^ (i - j) * p j)"

lemma mult_div_lin: "mult_lin X (div_lin X p) = p"
proof
  fix i show "mult_lin X (div_lin X p) i = p i"
  proof (cases i)
    case 0
    then show ?thesis by (simp add: mult_lin_def shift_def div_lin_def)
  next
    case (Suc n)
    have "(\<Sum>j \<le> n. X ^ (Suc n - j) * p j) = X * (\<Sum>j \<le> n. X ^ (n - j) * p j)"
      by (simp add: sum_distrib_left Suc_diff_le algebra_simps)
    then show ?thesis using Suc by (simp add: mult_lin_def shift_def div_lin_def)
  qed
qed

lemma deg_div_lin:
  assumes "deg_le p (Suc n)" "X \<noteq> 0" "ev p (Suc n) (inverse X) = 0"
  shows "deg_le (div_lin X p) n"
  unfolding deg_le_def
proof (intro allI impI)
  fix i assume i: "n < i"
  have "div_lin X p i = X ^ i * (\<Sum>j \<le> i. p j * inverse X ^ j)"
    unfolding div_lin_def sum_distrib_left
    by (rule sum.cong) (use assms(2) in \<open>auto simp: power_diff field_simps power_inverse\<close>)
  also have "(\<Sum>j \<le> i. p j * inverse X ^ j) = ev p (Suc n) (inverse X)"
    using ev_extend [OF assms(1), of i "inverse X"] i by (simp add: ev_def)
  finally show "div_lin X p i = 0" using assms(3) by simp
qed

lemma locator_unique:
  assumes "deg_le p (length Xs)" "p 0 = 1" "0 \<notin> set Xs" "distinct Xs" "\<forall>X \<in> set Xs. ev p (length Xs) (inverse X) = 0"
  shows "p = locator Xs"
  using assms
proof (induction Xs arbitrary: p)
  case Nil
  then show ?case by (auto simp: deg_le_def unit_poly_def fun_eq_iff)
next
  case (Cons X Xs)
  let ?q = "div_lin X p"
  have X: "X \<noteq> 0" "X \<notin> set Xs" using Cons.prems by auto
  have q: "deg_le ?q (length Xs)" by (rule deg_div_lin) (use Cons.prems in auto)
  have p: "p = mult_lin X ?q" by (simp add: mult_div_lin)
  have "ev ?q (length Xs) (inverse Y) = 0" if "Y \<in> set Xs" for Y
  proof -
    have "ev p (Suc (length Xs)) (inverse Y) = (1 - X * inverse Y) * ev ?q (length Xs) (inverse Y)"
      using ev_mult_lin [OF q, of X] p by simp
    moreover have "1 - X * inverse Y \<noteq> 0" using that X Cons.prems(3) by (auto simp: field_simps)
    ultimately show ?thesis using Cons.prems(5) that by auto
  qed
  moreover have "?q 0 = 1" using Cons.prems(2) by (simp add: div_lin_def)
  ultimately have "?q = locator Xs" using Cons.IH [OF q] Cons.prems by auto
  then show ?case using p by simp
qed

section \<open>Power sums\<close>

definition power_sums :: "nat list \<Rightarrow> (nat \<Rightarrow> 'a::field) \<Rightarrow> (nat \<Rightarrow> 'a) \<Rightarrow> nat \<Rightarrow> 'a" where
  "power_sums ks X Z n = (\<Sum>k \<leftarrow> ks. Z k * X k ^ n)"

text \<open>As many consecutive power sums as positions determine the values.\<close>

lemma vandermonde:
  assumes "distinct (map X ks)" "\<forall>k \<in> set ks. X k \<noteq> 0" "\<forall>i < length ks. power_sums ks X c (m + i) = 0"
  shows "\<forall>k \<in> set ks. c k = 0"
  using assms
proof (induction ks arbitrary: c)
  case Nil
  then show ?case by simp
next
  case (Cons a ks)
  define c' where "c' k = c k * (X k - X a)" for k
  have "power_sums ks X c' n = power_sums (a # ks) X c (Suc n) - X a * power_sums (a # ks) X c n" for n
    by (induction ks) (simp_all add: power_sums_def c'_def algebra_simps)
  moreover have "power_sums (a # ks) X c (m + i) = 0" if "i < Suc (length ks)" for i using Cons.prems(3) that by simp
  from this [of "Suc _"] this have "power_sums (a # ks) X c (Suc (m + i)) = 0 \<and> power_sums (a # ks) X c (m + i) = 0"
    if "i < length ks" for i using that by simp
  ultimately have "\<forall>i < length ks. power_sums ks X c' (m + i) = 0" by simp
  then have "\<forall>k \<in> set ks. c' k = 0" using Cons.IH Cons.prems by auto
  moreover have "X k - X a \<noteq> 0" if "k \<in> set ks" for k using Cons.prems(1) that by (auto simp: image_iff)
  ultimately have rest: "\<forall>k \<in> set ks. c k = 0" by (auto simp: c'_def)
  then have "power_sums ks X c n = 0" for n by (induction ks) (simp_all add: power_sums_def)
  moreover have "power_sums (a # ks) X c (m + 0) = 0" using Cons.prems(3) by blast
  ultimately have "c a * X a ^ m = 0" by (simp add: power_sums_def)
  then show ?case using rest Cons.prems(2) by auto
qed

section \<open>Convolution with the syndromes\<close>

definition conv :: "(nat \<Rightarrow> 'a::field) \<Rightarrow> (nat \<Rightarrow> 'a) \<Rightarrow> nat \<Rightarrow> 'a" where
  "conv p s n = (\<Sum>i \<le> n. p i * s (n - i))"

lemma conv_shift: "conv (shift p) s (Suc n) = conv p s n" "conv (shift p) s 0 = 0"
  by (simp_all add: conv_def shift_def sum.atMost_Suc_shift del: sum.atMost_Suc)

lemma conv_diff: "conv (\<lambda>i. p i - d * q i) s n = conv p s n - d * conv q s n"
  by (simp add: conv_def sum_subtractf sum_distrib_left algebra_simps)

lemma conv_scale: "conv (\<lambda>i. d * p i) s n = d * conv p s n"
  by (simp add: conv_def sum_distrib_left algebra_simps)

lemma sum_sum_list: "(\<Sum>i \<in> A. \<Sum>k \<leftarrow> ks. f i k) = (\<Sum>k \<leftarrow> ks. \<Sum>i \<in> A. f i k)"
  by (induction ks) (simp_all add: sum.distrib)

lemma conv_power_sums:
  assumes "deg_le p L" "L \<le> n" "\<forall>k \<in> set ks. X k \<noteq> 0"
  shows "conv p (power_sums ks X Z) n = power_sums ks X (\<lambda>k. Z k * ev p L (inverse (X k))) n"
proof -
  have "conv p (power_sums ks X Z) n = (\<Sum>i \<le> L. p i * power_sums ks X Z (n - i))"
    unfolding conv_def by (rule sum.mono_neutral_right) (use assms in \<open>auto simp: deg_le_def\<close>)
  also have "\<dots> = (\<Sum>i \<le> L. \<Sum>k \<leftarrow> ks. p i * (Z k * X k ^ (n - i)))"
    by (simp add: power_sums_def sum_list_const_mult)
  also have "\<dots> = (\<Sum>k \<leftarrow> ks. \<Sum>i \<le> L. p i * (Z k * X k ^ (n - i)))" by (rule sum_sum_list)
  also have "\<dots> = (\<Sum>k \<leftarrow> ks. Z k * ev p L (inverse (X k)) * X k ^ n)"
  proof (rule arg_cong [of _ _ sum_list], rule map_cong [OF refl])
    fix k assume "k \<in> set ks"
    then have X: "X k \<noteq> 0" using assms(3) by blast
    have "X k ^ (n - i) = inverse (X k) ^ i * X k ^ n" if "i \<le> L" for i
      using that assms(2) X by (simp add: power_diff field_simps power_inverse)
    then show "(\<Sum>i \<le> L. p i * (Z k * X k ^ (n - i))) = Z k * ev p L (inverse (X k)) * X k ^ n"
      by (simp add: ev_def sum_distrib_left sum_distrib_right algebra_simps)
  qed
  finally show ?thesis by (simp add: power_sums_def)
qed

section \<open>The Berlekamp-Massey step\<close>

text \<open>
  After \<open>r\<close> steps: \<open>p\<close> has degree at most \<open>L\<close> and annihilates the syndromes from \<open>L\<close> up to \<open>r\<close>; \<open>b\<close> has degree at most \<open>r - L\<close>
  and, unless \<open>L\<close> is still 0, fails for the first time at \<open>r - 1\<close>, with discrepancy 1.
\<close>

definition bm_inv :: "(nat \<Rightarrow> 'a::field) \<Rightarrow> nat \<Rightarrow> (nat \<Rightarrow> 'a) \<Rightarrow> (nat \<Rightarrow> 'a) \<Rightarrow> nat \<Rightarrow> bool" where
  "bm_inv s r p b L \<longleftrightarrow> L \<le> r \<and> deg_le p L \<and> p 0 = 1 \<and> (\<forall>n. L \<le> n \<and> n < r \<longrightarrow> conv p s n = 0) \<and>
     deg_le b (r - L) \<and> (L = 0 \<or> (0 < r \<and> conv b s (r - 1) = 1 \<and> (\<forall>n. r - L \<le> n \<and> n < r - 1 \<longrightarrow> conv b s n = 0)))"

lemma bm_inv_start: "bm_inv s 0 unit_poly unit_poly 0"
  by (simp add: bm_inv_def deg_le_def unit_poly_def)

lemma deg_shift: "deg_le b n \<Longrightarrow> deg_le (shift b) (Suc n)"
  by (auto simp: deg_le_def shift_def)

lemma bm_shift:
  assumes "bm_inv s r p b L"
  shows "deg_le (shift b) (Suc r - L)"
    "L = 0 \<or> (conv (shift b) s r = 1 \<and> (\<forall>n. Suc r - L \<le> n \<and> n < r \<longrightarrow> conv (shift b) s n = 0))"
proof -
  show "deg_le (shift b) (Suc r - L)" using assms by (auto simp: bm_inv_def Suc_diff_le deg_shift)
  show "L = 0 \<or> (conv (shift b) s r = 1 \<and> (\<forall>n. Suc r - L \<le> n \<and> n < r \<longrightarrow> conv (shift b) s n = 0))"
  proof (rule disjCI)
    assume "\<not> (conv (shift b) s r = 1 \<and> (\<forall>n. Suc r - L \<le> n \<and> n < r \<longrightarrow> conv (shift b) s n = 0))"
    then show "L = 0"
    proof (rule contrapos_np)
      assume L: "L \<noteq> 0"
      then obtain m where r: "r = Suc m" using assms by (cases r) (auto simp: bm_inv_def)
      have "conv (shift b) s n = 0" if n: "Suc r - L \<le> n" "n < r" for n
      proof -
        have "n \<noteq> 0" using n assms L by (auto simp: bm_inv_def)
        then obtain n' where n': "n = Suc n'" by (cases n) auto
        then show ?thesis using assms L n r by (auto simp: bm_inv_def conv_shift)
      qed
      then show "conv (shift b) s r = 1 \<and> (\<forall>n. Suc r - L \<le> n \<and> n < r \<longrightarrow> conv (shift b) s n = 0)"
        using assms L r by (auto simp: bm_inv_def conv_shift)
    qed
  qed
qed

lemma bm_step_zero:
  assumes inv: "bm_inv s r p b L" and d: "conv p s r = 0"
  shows "bm_inv s (Suc r) p (shift b) L"
  using bm_shift [OF inv] inv d by (auto simp: bm_inv_def less_Suc_eq)

lemma bm_step_update:
  assumes inv: "bm_inv s r p b L" and d: "conv p s r = d"
  defines "p' \<equiv> (\<lambda>i. p i - d * shift b i)"
  shows "deg_le p' (max L (Suc r - L))" "p' 0 = 1" "\<forall>n. max L (Suc r - L) \<le> n \<and> n < Suc r \<longrightarrow> conv p' s n = 0"
proof -
  note B = bm_shift [OF inv]
  show "deg_le p' (max L (Suc r - L))" using B(1) inv by (auto simp: p'_def deg_le_def bm_inv_def)
  show "p' 0 = 1" using inv by (simp add: p'_def bm_inv_def shift_def)
  show "\<forall>n. max L (Suc r - L) \<le> n \<and> n < Suc r \<longrightarrow> conv p' s n = 0"
  proof (intro allI impI)
    fix n assume n: "max L (Suc r - L) \<le> n \<and> n < Suc r"
    then have "L \<noteq> 0" by auto
    then show "conv p' s n = 0"
      using B(2) inv d n by (cases "n = r") (auto simp: p'_def conv_diff bm_inv_def)
  qed
qed

lemma bm_step_keep:
  assumes inv: "bm_inv s r p b L" and d: "conv p s r = d" and L: "\<not> 2 * L \<le> r"
  shows "bm_inv s (Suc r) (\<lambda>i. p i - d * shift b i) (shift b) L"
proof -
  have m: "max L (Suc r - L) = L" using L by simp
  show ?thesis using bm_step_update [OF inv d] bm_shift [OF inv] inv L unfolding m by (auto simp: bm_inv_def)
qed

lemma bm_step_grow:
  assumes inv: "bm_inv s r p b L" and d: "conv p s r = d" "d \<noteq> 0" and L: "2 * L \<le> r"
  shows "bm_inv s (Suc r) (\<lambda>i. p i - d * shift b i) (\<lambda>i. inverse d * p i) (Suc r - L)"
proof -
  have m: "max L (Suc r - L) = Suc r - L" using L by simp
  have "deg_le (\<lambda>i. inverse d * p i) L" using inv by (auto simp: bm_inv_def deg_le_def)
  moreover have "conv (\<lambda>i. inverse d * p i) s r = 1" using d by (simp add: conv_scale)
  moreover have "\<forall>n. L \<le> n \<and> n < r \<longrightarrow> conv (\<lambda>i. inverse d * p i) s n = 0" using inv by (simp add: conv_scale bm_inv_def)
  ultimately show ?thesis
    using bm_step_update [OF inv d(1)] L inv unfolding m by (auto simp: bm_inv_def)
qed

text \<open>The length never exceeds the number of errors: otherwise the discrepancy would be zero.\<close>

lemma bm_length_bound:
  assumes inv: "bm_inv (power_sums ks X Z) r p b L" and X: "distinct (map X ks)" "\<forall>k \<in> set ks. X k \<noteq> 0"
    and d: "conv p (power_sums ks X Z) r \<noteq> 0"
  shows "Suc r - L \<le> length ks"
proof (rule ccontr)
  assume "\<not> Suc r - L \<le> length ks"
  then have big: "L + length ks \<le> r" by simp
  let ?c = "\<lambda>k. Z k * ev p L (inverse (X k))"
  have deg: "deg_le p L" using inv by (simp add: bm_inv_def)
  have "power_sums ks X ?c (L + i) = 0" if "i < length ks" for i
    using conv_power_sums [OF deg _ X(2), of "L + i" Z] inv that big by (simp add: bm_inv_def)
  then have "\<forall>k \<in> set ks. ?c k = 0" using vandermonde [OF X, of ?c L] by blast
  then have "power_sums ks X ?c r = 0" by (induction ks) (auto simp: power_sums_def)
  then show False using conv_power_sums [OF deg _ X(2), of r Z] big d by simp
qed

text \<open>With twice as many syndromes as errors the polynomial is the error locator.\<close>

lemma bm_locator:
  assumes inv: "bm_inv (power_sums ks X Z) r p b L" and X: "distinct (map X ks)" "\<forall>k \<in> set ks. X k \<noteq> 0" "\<forall>k \<in> set ks. Z k \<noteq> 0"
    and L: "L \<le> length ks" "2 * length ks \<le> r"
  shows "p = locator (map X ks)"
proof -
  let ?c = "\<lambda>k. Z k * ev p L (inverse (X k))"
  have deg: "deg_le p L" using inv by (simp add: bm_inv_def)
  have "power_sums ks X ?c (L + i) = 0" if "i < length ks" for i
    using conv_power_sums [OF deg _ X(2), of "L + i" Z] inv that L by (simp add: bm_inv_def)
  then have "\<forall>k \<in> set ks. ?c k = 0" using vandermonde [OF X(1,2), of ?c L] by blast
  then have "\<forall>k \<in> set ks. ev p (length ks) (inverse (X k)) = 0" using X(3) ev_extend [OF deg L(1)] by auto
  moreover have "0 \<notin> X ` set ks" using X(2) by force
  ultimately show ?thesis
    using deg_le_mono [OF deg L(1)] inv X by (intro locator_unique) (auto simp: bm_inv_def)
qed

section \<open>Error values\<close>

text \<open>
  The product of locator and syndromes is a polynomial; at the inverse of a locator it is the value
  times the product of the other factors.
\<close>

definition others :: "nat list \<Rightarrow> (nat \<Rightarrow> 'a::field) \<Rightarrow> nat \<Rightarrow> 'a list" where
  "others ks X k = map X (remove1 k ks)"

lemma conv_mult_lin: "conv (mult_lin Y p) s n = conv p s n - Y * (if n = 0 then 0 else conv p s (n - 1))"
proof -
  have "conv (mult_lin Y p) s n = conv p s n - Y * conv (shift p) s n"
    unfolding mult_lin_def using conv_diff [of p Y "shift p" s n] by simp
  then show ?thesis by (cases n) (simp_all add: conv_shift)
qed

lemma conv_geometric: "conv (mult_lin Y p) (\<lambda>n. Y ^ n) n = p n"
proof (cases n)
  case 0
  then show ?thesis by (simp add: conv_def mult_lin_def shift_def)
next
  case (Suc m)
  have "conv p (\<lambda>n. Y ^ n) (Suc m) = Y * conv p (\<lambda>n. Y ^ n) m + p (Suc m)"
    by (simp add: conv_def sum_distrib_left Suc_diff_le algebra_simps)
  then show ?thesis using Suc by (simp add: conv_mult_lin)
qed

lemma locator_split:
  assumes "k \<in> set ks"
  shows "locator (map X ks) = mult_lin (X k) (locator (others ks X k))"
  using assms
proof (induction ks)
  case (Cons a ks)
  then show ?case by (cases "a = k") (auto simp: others_def mult_lin_commute)
qed simp

definition evaluator :: "nat list \<Rightarrow> (nat \<Rightarrow> 'a::field) \<Rightarrow> (nat \<Rightarrow> 'a) \<Rightarrow> nat \<Rightarrow> 'a" where
  "evaluator ks X Z = conv (locator (map X ks)) (power_sums ks X Z)"

lemma conv_sum_list: "conv p (\<lambda>n. \<Sum>k \<leftarrow> ks. Z k * g k n) n = (\<Sum>k \<leftarrow> ks. Z k * conv p (g k) n)"
  by (induction ks) (simp_all add: conv_def sum.distrib sum_distrib_left algebra_simps)

lemma evaluator_eq: "evaluator ks X Z n = (\<Sum>k \<leftarrow> ks. Z k * locator (others ks X k) n)"
proof -
  have "evaluator ks X Z n = (\<Sum>k \<leftarrow> ks. Z k * conv (locator (map X ks)) (\<lambda>n. X k ^ n) n)"
    unfolding evaluator_def power_sums_def by (rule conv_sum_list)
  also have "\<dots> = (\<Sum>k \<leftarrow> ks. Z k * locator (others ks X k) n)"
    by (rule arg_cong [of _ _ sum_list], rule map_cong [OF refl]) (simp add: locator_split conv_geometric)
  finally show ?thesis .
qed

lemma ev_sum_list: "ev (\<lambda>n. \<Sum>k \<leftarrow> ks. Z k * g k n) m x = (\<Sum>k \<leftarrow> ks. Z k * ev (g k) m x)"
  by (induction ks) (simp_all add: ev_def sum.distrib sum_distrib_left algebra_simps)

lemma length_others: "k \<in> set ks \<Longrightarrow> length (others ks X k) = length ks - 1"
  by (simp add: others_def length_remove1)

lemma sum_list_single:
  fixes f :: "nat \<Rightarrow> 'a::comm_monoid_add"
  assumes "distinct ks" "j \<in> set ks" "\<And>k. k \<in> set ks \<Longrightarrow> k \<noteq> j \<Longrightarrow> f k = 0"
  shows "(\<Sum>k \<leftarrow> ks. f k) = f j"
proof -
  have "(\<Sum>k \<leftarrow> ks. f k) = (\<Sum>k \<in> set ks. f k)" by (rule sum_list_distinct_conv_sum_set) (rule assms(1))
  also have "\<dots> = (\<Sum>k \<in> {j}. f k)" by (rule sum.mono_neutral_right) (use assms in auto)
  finally show ?thesis by simp
qed

lemma evaluator_at:
  assumes ks: "distinct ks" "j \<in> set ks" and X: "X j \<noteq> 0"
  shows "ev (evaluator ks X Z) (length ks - 1) (inverse (X j)) =
    Z j * ev (locator (others ks X j)) (length ks - 1) (inverse (X j))"
proof -
  have "ev (locator (others ks X k)) (length ks - 1) (inverse (X j)) = 0" if k: "k \<in> set ks" "k \<noteq> j" for k
  proof -
    have "X j \<in> set (others ks X k)" using k ks by (auto simp: others_def)
    then have "0 \<in> (\<lambda>Y. 1 - Y * inverse (X j)) ` set (others ks X k)" using X by (auto simp: image_iff intro: bexI [of _ "X j"])
    then have "(\<Prod>Y \<leftarrow> others ks X k. 1 - Y * inverse (X j)) = 0" by (simp add: prod_list_zero_iff)
    then show ?thesis using ev_locator [of "others ks X k" "inverse (X j)"] by (simp add: length_others k)
  qed
  then have "(\<Sum>k \<leftarrow> ks. Z k * ev (locator (others ks X k)) (length ks - 1) (inverse (X j))) =
      Z j * ev (locator (others ks X j)) (length ks - 1) (inverse (X j))"
    by (intro sum_list_single) (use ks in auto)
  moreover have "evaluator ks X Z = (\<lambda>n. \<Sum>k \<leftarrow> ks. Z k * locator (others ks X k) n)" by (rule ext) (rule evaluator_eq)
  ultimately show ?thesis by (simp add: ev_sum_list)
qed

lemma others_at:
  assumes ks: "distinct (map X ks)" "j \<in> set ks" and X: "X j \<noteq> 0"
  shows "ev (locator (others ks X j)) (length ks - 1) (inverse (X j)) \<noteq> 0"
proof -
  have "1 - Y * inverse (X j) \<noteq> 0" if "Y \<in> set (others ks X j)" for Y
  proof -
    have "distinct ks" using ks by (simp add: distinct_map)
    then have "Y \<noteq> X j" using that ks by (auto simp: others_def distinct_map inj_on_def)
    then show ?thesis using X by (simp add: field_simps)
  qed
  then have "(\<Prod>Y \<leftarrow> others ks X j. 1 - Y * inverse (X j)) \<noteq> 0" by (auto simp: prod_list_zero_iff)
  then show ?thesis using ev_locator [of "others ks X j" "inverse (X j)"] by (simp add: length_others ks)
qed

text \<open>In characteristic 2 the odd coefficients of the locator evaluate to its derivative.\<close>

lemma derivative_at:
  fixes x X :: "'a::field"
  assumes two: "\<And>a :: 'a. a + a = 0" and x: "X * x = 1"
  shows "(\<Sum>i < m. mult_lin X p (Suc (2 * i)) * x ^ (2 * i)) = X * (\<Sum>j < 2 * m. p j * x ^ j)"
proof (induction m)
  case (Suc m)
  have neg: "- a = a" for a :: 'a using two [of a] by (simp add: eq_neg_iff_add_eq_0)
  have "X * (p (Suc (2 * m)) * x ^ Suc (2 * m)) = p (Suc (2 * m)) * x ^ (2 * m)"
    using x by (simp add: algebra_simps)
  moreover have "mult_lin X p (Suc (2 * m)) * x ^ (2 * m) = p (Suc (2 * m)) * x ^ (2 * m) + X * (p (2 * m) * x ^ (2 * m))"
    using neg [of "X * p (2 * m) * x ^ (2 * m)"] by (simp add: mult_lin_def shift_def algebra_simps)
  ultimately show ?case using Suc by (simp add: algebra_simps)
qed simp

end
