(* ===== verification/Rs_Locator.thy ===== *)
theory Rs_Locator
  imports Rs_Code Key_Equation
begin

text \<open>
  The Berlekamp-Massey loop of the Reed-Solomon decoder on its tables refines the abstract step of \<open>Key_Equation\<close>:
  with at most 16 errors the loop ends with the error locator, and its degree is the number of errors.
\<close>

section \<open>Lists as polynomials\<close>

definition byte_poly :: "bytes \<Rightarrow> nat \<Rightarrow> gf" where
  "byte_poly bs i = (if i < length bs then GF (bs ! i) else 0)"

definition index_poly :: "nat list \<Rightarrow> nat \<Rightarrow> gf" where
  "index_poly xs i = (if i < length xs then gval (xs ! i) else 0)"

lemma index_poly_INDEX_OF: "index_poly (map INDEX_OF bs) = byte_poly bs"
  by (rule ext) (simp add: index_poly_def byte_poly_def)

lemma index_product:
  "(if a \<noteq> 0 \<and> i \<noteq> A0 then alpha ^ (INDEX_OF a + i) else 0) = GF a * gval i"
  "(if i \<noteq> A0 \<and> j \<noteq> A0 then alpha ^ (i + j) else 0) = gval i * gval j"
  "(if i \<noteq> A0 then alpha ^ (i + n) else 0) = gval i * alpha ^ n"
  "(if i \<noteq> A0 then alpha ^ i else 0) = gval i"
  by (auto simp: gval_def power_add GF_INDEX_OF A0_def NN_def)

lemma sum_list_upt: "(\<Sum>i \<leftarrow> [0..<n]. f i) = (\<Sum>i < n. f i :: 'a::comm_monoid_add)"
  by (induction n) (simp_all add: add.commute)

text \<open>An index table agrees with a sequence of field elements on the 32 syndromes.\<close>

definition agrees :: "nat list \<Rightarrow> (nat \<Rightarrow> gf) \<Rightarrow> bool" where
  "agrees s S \<longleftrightarrow> (\<forall>i < NROOTS. gval (s ! i) = S i)"

lemma discrepancy_conv:
  assumes "length lambda = NROOTS + 1" "agrees s S" "r < NROOTS"
  shows "GF (discrepancy s lambda (Suc r)) = conv (byte_poly lambda) S r"
proof -
  have "GF (discrepancy s lambda (Suc r)) = (\<Sum>i < Suc r. GF (lambda ! i) * gval (s ! (Suc r - i - 1)))"
    unfolding discrepancy_def GF_foldl_xor index_product(1) sum_list_upt by simp
  also have "\<dots> = conv (byte_poly lambda) S r"
    unfolding conv_def lessThan_Suc_atMost
    by (rule sum.cong) (use assms in \<open>auto simp: byte_poly_def agrees_def\<close>)
  finally show ?thesis .
qed

section \<open>The loop\<close>

definition bm_state :: "(nat \<Rightarrow> gf) \<Rightarrow> nat \<Rightarrow> bytes \<times> nat list \<times> nat \<Rightarrow> bool" where
  "bm_state S r st \<longleftrightarrow> (case st of (lambda, b, el) \<Rightarrow>
     length lambda = NROOTS + 1 \<and> length b = NROOTS + 1 \<and> bm_inv S r (byte_poly lambda) (index_poly b) el)"

lemma index_poly_shift:
  assumes "length b = NROOTS + 1" "deg_le (index_poly b) m" "m < NROOTS"
  shows "index_poly (A0 # take NROOTS b) = shift (index_poly b)"
proof
  fix i
  have "index_poly b NROOTS = 0" using assms(2,3) by (simp add: deg_le_def)
  then show "index_poly (A0 # take NROOTS b) i = shift (index_poly b) i"
    using assms(1) by (cases i) (auto simp: index_poly_def shift_def less_Suc_eq)
qed

lemma byte_poly_update:
  assumes len: "length lambda = NROOTS + 1" "length b = NROOTS + 1" and b: "deg_le (index_poly b) m" "m < NROOTS" and d: "d \<noteq> 0"
  shows "byte_poly (lambda ! 0 # map (\<lambda>i. if b ! i \<noteq> A0 then lambda ! (i + 1) XOR ALPHA_TO (INDEX_OF d + b ! i) else lambda ! (i + 1)) [0..<NROOTS])
    = (\<lambda>i. byte_poly lambda i - GF d * shift (index_poly b) i)" (is "byte_poly ?t = _")
proof
  fix i
  have top: "index_poly b NROOTS = 0" using b by (simp add: deg_le_def)
  have g: "GF (if b ! j \<noteq> A0 then a XOR ALPHA_TO (INDEX_OF d + b ! j) else a) = GF a + GF d * gval (b ! j)" for a j
    using d by (auto simp: GF_xor GF_ALPHA_TO power_add GF_INDEX_OF gval_def A0_def NN_def)
  show "byte_poly ?t i = byte_poly lambda i - GF d * shift (index_poly b) i"
  proof (cases i)
    case 0
    then show ?thesis using len by (simp add: byte_poly_def shift_def)
  next
    case (Suc j)
    show ?thesis
    proof (cases "j < NROOTS")
      case True
      then have "byte_poly ?t i = GF (lambda ! (j + 1)) + GF d * gval (b ! j)" unfolding g [symmetric] using Suc by (simp add: byte_poly_def)
      then show ?thesis using True Suc len by (simp add: byte_poly_def index_poly_def shift_def)
    next
      case False
      then show ?thesis using Suc len top by (cases "j = NROOTS") (simp_all add: byte_poly_def index_poly_def shift_def)
    qed
  qed
qed

lemma index_poly_scaled:
  assumes "length lambda = NROOTS + 1" "d \<noteq> 0"
  shows "index_poly (map (\<lambda>i. if lambda ! i = 0 then A0 else mod255 (INDEX_OF (lambda ! i) + NN - INDEX_OF d)) [0..<NROOTS + 1]) =
    (\<lambda>i. inverse (GF d) * byte_poly lambda i)"
proof
  fix i
  have "gval (mod255 (INDEX_OF a + NN - INDEX_OF d)) = inverse (GF d) * GF a" if a: "a \<noteq> 0" for a
  proof -
    have le: "INDEX_OF d \<le> NN" using INDEX_OF_less [OF assms(2)] by (simp add: NN_def)
    have "gval (mod255 (INDEX_OF a + NN - INDEX_OF d)) = alpha ^ (INDEX_OF a + (NN - INDEX_OF d))"
      using le by (simp add: gval_def mod255_eq A0_def NN_def alpha_power_mod)
    moreover have "inverse (GF d) = alpha ^ (NN - INDEX_OF d)"
      using assms(2) by (simp add: inverse_gf.simps GF_ALPHA_TO)
    ultimately show ?thesis using a by (simp add: power_add GF_INDEX_OF A0_def NN_def mult.commute)
  qed
  then show "index_poly (map (\<lambda>i. if lambda ! i = 0 then A0 else mod255 (INDEX_OF (lambda ! i) + NN - INDEX_OF d)) [0..<NROOTS + 1]) i =
      inverse (GF d) * byte_poly lambda i"
    using assms(1) by (auto simp: index_poly_def byte_poly_def simp del: upt_Suc)
qed

lemma bm_step_state:
  assumes st: "bm_state S r st" and s: "agrees s S" and r: "r < NROOTS"
  shows "bm_state S (Suc r) (bm_step s st (Suc r))"
proof -
  obtain lambda b el where [simp]: "st = (lambda, b, el)" by (cases st)
  have len: "length lambda = NROOTS + 1" "length b = NROOTS + 1" and inv: "bm_inv S r (byte_poly lambda) (index_poly b) el"
    using st by (simp_all add: bm_state_def)
  define d where "d = discrepancy s lambda (Suc r)"
  have d: "conv (byte_poly lambda) S r = GF d" using discrepancy_conv [OF len(1) s r] by (simp add: d_def)
  have deg: "deg_le (index_poly b) (r - el)" "r - el < NROOTS" using inv r by (simp_all add: bm_inv_def)
  note shifted = index_poly_shift [OF len(2) deg]
  show ?thesis
  proof (cases "d = 0")
    case True
    then show ?thesis
      using bm_step_zero [OF inv] d len shifted by (simp add: bm_state_def bm_step_def d_def [symmetric] A0_def [symmetric] flip: NN_def)
  next
    case False
    define t where "t = lambda ! 0 # map (\<lambda>i. if b ! i \<noteq> A0 then lambda ! (i + 1) XOR ALPHA_TO (INDEX_OF d + b ! i)
      else lambda ! (i + 1)) [0..<NROOTS]"
    define b' where "b' = map (\<lambda>i. if lambda ! i = 0 then A0 else mod255 (INDEX_OF (lambda ! i) + NN - INDEX_OF d)) [0..<NROOTS + 1]"
    have "INDEX_OF d \<noteq> A0" using False by (simp add: A0_def NN_def)
    then have step: "bm_step s st (Suc r) = (if 2 * el \<le> r then (t, b', Suc r - el) else (t, A0 # take NROOTS b, el))"
      unfolding bm_step_def t_def b'_def d_def Let_def by (simp del: upt_Suc)
    have "length t = NROOTS + 1" "length b' = NROOTS + 1" by (simp_all add: t_def b'_def)
    then show ?thesis
      using bm_step_keep [OF inv d] bm_step_grow [OF inv d] len False
      unfolding step bm_state_def byte_poly_update [OF len deg False, folded t_def, symmetric] index_poly_scaled [OF len(1) False, folded b'_def, symmetric]
      by (simp add: shifted)
  qed
qed

text \<open>The register length never exceeds the number of errors.\<close>

lemma bm_step_length:
  assumes st: "bm_state S r st" and s: "agrees s S" and r: "r < NROOTS" and S: "S = power_sums ks X Z"
    and X: "distinct (map X ks)" "\<forall>k \<in> set ks. X k \<noteq> 0" and el: "snd (snd st) \<le> length ks"
  shows "snd (snd (bm_step s st (Suc r))) \<le> length ks"
proof -
  obtain lambda b el where st': "st = (lambda, b, el)" by (cases st)
  have inv: "bm_inv S r (byte_poly lambda) (index_poly b) el" and len: "length lambda = NROOTS + 1" using st st' by (simp_all add: bm_state_def)
  have "Suc r - el \<le> length ks" if "INDEX_OF (discrepancy s lambda (Suc r)) \<noteq> A0"
  proof (rule bm_length_bound)
    show "bm_inv (power_sums ks X Z) r (byte_poly lambda) (index_poly b) el" using inv S by simp
    have "GF (discrepancy s lambda (Suc r)) \<noteq> 0" using that by (simp add: A0_def NN_def)
    then show "conv (byte_poly lambda) (power_sums ks X Z) r \<noteq> 0" using discrepancy_conv [OF len s r] S by simp
  qed (use X in auto)
  then show ?thesis using el st' by (auto simp: bm_step_def Let_def split: if_splits)
qed

lemma bm_loop:
  assumes s: "agrees s S" and S: "S = power_sums ks X Z" and X: "distinct (map X ks)" "\<forall>k \<in> set ks. X k \<noteq> 0"
    and r: "r \<le> NROOTS"
  defines "st \<equiv> foldl (bm_step s) (1 # replicate NROOTS 0, map INDEX_OF (1 # replicate NROOTS 0), 0) [1..<r + 1]"
  shows "bm_state S r st \<and> snd (snd st) \<le> length ks"
  unfolding st_def using r
proof (induction r)
  case 0
  have "byte_poly (1 # replicate NROOTS 0) = unit_poly"
    by (rule ext) (auto simp: byte_poly_def unit_poly_def nth_Cons split: nat.splits)
  then show ?case using bm_inv_start [of S] by (simp add: bm_state_def index_poly_INDEX_OF del: list.map map_replicate)
next
  case (Suc r)
  have "[1..<Suc r + 1] = [1..<r + 1] @ [Suc r]" by simp
  then show ?case using Suc bm_step_state [OF _ s] bm_step_length [OF _ s _ S X] by (simp del: upt_Suc list.map)
qed

lemma berlekamp_massey_locator:
  assumes s: "agrees s (power_sums ks X Z)" and X: "distinct (map X ks)" "\<forall>k \<in> set ks. X k \<noteq> 0" "\<forall>k \<in> set ks. Z k \<noteq> 0"
    and t: "2 * length ks \<le> NROOTS"
  shows "length (berlekamp_massey s) = NROOTS + 1 \<and> byte_poly (berlekamp_massey s) = locator (map X ks)"
proof -
  obtain lambda b el where st: "foldl (bm_step s) (1 # replicate NROOTS 0, map INDEX_OF (1 # replicate NROOTS 0), 0) [1..<NROOTS + 1] = (lambda, b, el)"
    by (metis prod_cases3)
  then have "bm_state (power_sums ks X Z) NROOTS (lambda, b, el)" "el \<le> length ks"
    using bm_loop [OF s refl X(1,2) le_refl] by auto
  moreover have "berlekamp_massey s = lambda" using st by (simp add: berlekamp_massey_def)
  ultimately show ?thesis using bm_locator [OF _ X _ t] unfolding bm_state_def by auto
qed

section \<open>The degree\<close>

lemma foldl_last:
  assumes "c t" "\<forall>i < n. t < i \<longrightarrow> \<not> c i" "t < n"
  shows "foldl (\<lambda>d i. if c i then i else d) 0 [0..<n] = t"
  using assms(2,3)
proof (induction n)
  case (Suc n)
  then show ?case using assms(1) by (cases "t = n") auto
qed simp

lemma gval_eq_0 [simp]: "gval i = 0 \<longleftrightarrow> i = A0"
  by (simp add: gval_def)

lemma deg_lambda_locator:
  assumes lam: "length lambda = NROOTS + 1" "byte_poly lambda = locator Xs" and X: "0 \<notin> set Xs" "length Xs \<le> NROOTS"
  shows "deg_lambda (map INDEX_OF lambda) = length Xs"
proof -
  have z: "map INDEX_OF lambda ! i \<noteq> A0 \<longleftrightarrow> locator Xs i \<noteq> 0" if "i < NROOTS + 1" for i
    using that lam(1) by (simp add: lam(2) [symmetric] byte_poly_def A0_def NN_def)
  show ?thesis
    unfolding deg_lambda_def
    by (rule foldl_last) (use z X locator_top [OF X(1)] deg_locator [of Xs] in \<open>auto simp: deg_le_def\<close>)
qed

end
