(* ===== verification/Rs_Correct.thy ===== *)
theory Rs_Correct
  imports Rs_Locator
begin

text \<open>
  The Reed-Solomon decoder corrects every code word with at most 16 altered bytes: the syndromes are the power sums
  of the error pattern, the Chien search finds exactly the altered positions, and Forney's formula gives the change
  at each of them.
\<close>

section \<open>Error patterns\<close>

definition err_pos :: "bytes \<Rightarrow> bytes \<Rightarrow> nat list" where
  "err_pos c d = filter (\<lambda>j. c ! j \<noteq> d ! j) [0..<length c]"

definition X_of :: "nat \<Rightarrow> nat \<Rightarrow> gf" where
  "X_of n j = alpha ^ (PRIM * (n - 1 - j))"

definition E_of :: "bytes \<Rightarrow> bytes \<Rightarrow> nat \<Rightarrow> gf" where
  "E_of c d j = GF (c ! j XOR d ! j)"

definition Z_of :: "bytes \<Rightarrow> bytes \<Rightarrow> nat \<Rightarrow> gf" where
  "Z_of c d j = E_of c d j * X_of (length c) j ^ FCR"

definition syn_seq :: "bytes \<Rightarrow> bytes \<Rightarrow> nat \<Rightarrow> gf" where
  "syn_seq c d = power_sums (err_pos c d) (X_of (length c)) (Z_of c d)"

lemma err_pos_set: "j \<in> set (err_pos c d) \<longleftrightarrow> j < length c \<and> c ! j \<noteq> d ! j"
  by (auto simp: err_pos_def)

lemma distinct_err_pos [simp]: "distinct (err_pos c d)"
  by (simp add: err_pos_def)

lemma X_of_nonzero [simp]: "X_of n j \<noteq> 0"
  by (simp add: X_of_def)

lemma E_of_nonzero: "j \<in> set (err_pos c d) \<Longrightarrow> E_of c d j \<noteq> 0"
  by (simp add: err_pos_set E_of_def xor_eq_0_iff)

lemma Z_of_nonzero: "j \<in> set (err_pos c d) \<Longrightarrow> Z_of c d j \<noteq> 0"
  by (simp add: Z_of_def E_of_nonzero)

text \<open>The position is recovered from the exponent.\<close>

definition root_idx :: "nat \<Rightarrow> nat \<Rightarrow> nat" where
  "root_idx n j = 255 - (PRIM * (n - 1 - j)) mod 255"

definition loc_of :: "nat \<Rightarrow> nat" where
  "loc_of i = (IPRIM * i - 1) mod 255"

lemma root_idx_range: "1 \<le> root_idx n j" "root_idx n j \<le> 255"
  using mod_less_divisor [of 255 "PRIM * (n - 1 - j)"] by (auto simp: root_idx_def)

lemma loc_root:
  assumes "j < n" "n \<le> 255"
  shows "loc_of (root_idx n j) = 255 - n + j"
proof -
  define m where "m = n - 1 - j"
  define q where "q = (11 * m) div 255"
  have m: "m < 255" "255 - n + j = 254 - m" using assms by (auto simp: m_def)
  have u: "11 * m = 255 * q + (11 * m) mod 255" by (simp add: q_def)
  define u where "u = (11 * m) mod 255"
  have u255: "u < 255" by (simp add: u_def)
  have "int (116 * (255 - u) - 1) = 255 * (115 + 116 * int q - 5 * int m) + int (254 - m)"
    using u u255 m unfolding u_def [symmetric] by (simp add: of_nat_diff)
  then have "int ((116 * (255 - u) - 1) mod 255) = (255 * (115 + 116 * int q - 5 * int m) + int (254 - m)) mod 255"
    by (simp add: of_nat_mod del: of_nat_diff)
  also have "\<dots> = int (254 - m) mod 255" by (rule mod_mult_self4)
  also have "\<dots> = int (254 - m)" by simp
  finally have "(116 * (255 - u) - 1) mod 255 = 254 - m" by simp
  then show ?thesis unfolding m(2) by (simp add: loc_of_def root_idx_def IPRIM_def PRIM_def u_def m_def)
qed

lemma root_idx_inj: "n \<le> 255 \<Longrightarrow> inj_on (root_idx n) {..<n}"
  by (rule inj_on_inverseI [of _ "\<lambda>i. loc_of i - (255 - n)"]) (simp add: loc_root)

lemma X_root: "X_of n j * alpha ^ root_idx n j = 1"
proof -
  let ?e = "PRIM * (n - 1 - j)"
  have "alpha ^ ?e * alpha ^ (255 - ?e mod 255) = alpha ^ (?e mod 255) * alpha ^ (255 - ?e mod 255)" by (simp add: alpha_power_mod)
  also have "\<dots> = alpha ^ (?e mod 255 + (255 - ?e mod 255))" by (simp only: power_add)
  also have "\<dots> = 1" using mod_less_divisor [of 255 ?e] by simp
  finally show ?thesis by (simp add: X_of_def root_idx_def)
qed

lemma alpha_root_idx: "alpha ^ root_idx n j = inverse (X_of n j)"
  using X_root [of n j] by (simp add: field_simps inverse_unique)

lemma X_root_iff:
  assumes "1 \<le> i" "i \<le> 255"
  shows "X_of n j * alpha ^ i = 1 \<longleftrightarrow> i = root_idx n j"
proof
  assume "X_of n j * alpha ^ i = 1"
  then have "alpha ^ i = alpha ^ root_idx n j" using X_root [of n j] by (metis X_of_nonzero mult_cancel_left)
  then have "i mod 255 = root_idx n j mod 255" by (simp add: alpha_power_eq_iff)
  then show "i = root_idx n j" using assms root_idx_range [of n j] by (cases "i = 255"; cases "root_idx n j = 255") auto
qed (simp add: X_root)

lemma X_of_inj:
  assumes "n \<le> 255"
  shows "inj_on (X_of n) {..<n}"
proof (rule inj_onI)
  fix i j assume ij: "i \<in> {..<n}" "j \<in> {..<n}" "X_of n i = X_of n j"
  then have "X_of n j * alpha ^ root_idx n i = 1" using X_root [of n i] by simp
  then have "root_idx n i = root_idx n j" using X_root_iff root_idx_range by blast
  then show "i = j" using root_idx_inj [OF assms] ij by (auto dest: inj_onD)
qed

lemma distinct_X: "length c \<le> 255 \<Longrightarrow> distinct (map (X_of (length c)) (err_pos c d))"
  using X_of_inj [of "length c"] by (auto simp: distinct_map err_pos_def intro: inj_on_subset)

section \<open>The syndromes of a received word\<close>

lemma root_of_power: "root_of i ^ (n - 1 - j) = X_of n j ^ FCR * X_of n j ^ i"
proof -
  have "(FCR + i) * PRIM * (n - 1 - j) = PRIM * (n - 1 - j) * FCR + PRIM * (n - 1 - j) * i" by (simp only: algebra_simps)
  then show ?thesis unfolding root_of_def X_of_def by (simp only: power_mult [symmetric] power_add [symmetric])
qed

lemma syndromes_power_sums:
  assumes c: "\<forall>i < NROOTS. horner (root_of i) c = 0" and d: "length d = length c" "c \<noteq> []" and i: "i < NROOTS"
  shows "GF (syndromes d ! i) = syn_seq c d i"
proof -
  let ?n = "length c"
  have "GF (syndromes d ! i) = horner (root_of i) d + horner (root_of i) c"
    using c d i by (subst syndromes_nth) auto
  also have "\<dots> = (\<Sum>j < ?n. E_of c d j * root_of i ^ (?n - 1 - j))"
    unfolding horner_sum d(1) E_of_def GF_xor by (simp add: sum.distrib algebra_simps)
  also have "\<dots> = (\<Sum>j < ?n. Z_of c d j * X_of ?n j ^ i)"
    unfolding root_of_power Z_of_def by (simp add: mult.assoc)
  also have "\<dots> = (\<Sum>j \<in> set (err_pos c d). Z_of c d j * X_of ?n j ^ i)"
    by (rule sum.mono_neutral_right) (auto simp: err_pos_set Z_of_def E_of_def)
  also have "\<dots> = syn_seq c d i"
    unfolding syn_seq_def power_sums_def by (simp add: sum_list_distinct_conv_sum_set)
  finally show ?thesis .
qed

section \<open>The Chien search\<close>

definition regs_at :: "nat \<Rightarrow> nat list \<Rightarrow> nat \<Rightarrow> nat list \<Rightarrow> bool" where
  "regs_at deg lam i reg \<longleftrightarrow> length reg = NROOTS + 1 \<and>
     (\<forall>j. 1 \<le> j \<and> j \<le> deg \<longrightarrow> gval (reg ! j) = gval (lam ! j) * alpha ^ (i * j))"

definition chien_root :: "nat \<Rightarrow> nat list \<Rightarrow> nat \<Rightarrow> bool" where
  "chien_root deg lam i \<longleftrightarrow> ev (index_poly lam) deg (alpha ^ i) = 0"

lemma chien_regs_at:
  assumes "regs_at deg lam i reg" "deg \<le> NROOTS"
  shows "regs_at deg lam (Suc i) (chien_regs deg reg)"
proof -
  have "gval (chien_regs deg reg ! j) = gval (lam ! j) * alpha ^ (Suc i * j)" if j: "1 \<le> j" "j \<le> deg" for j
  proof -
    have "gval (chien_regs deg reg ! j) = gval (reg ! j) * alpha ^ j"
      using j assms(2)
      by (auto simp: chien_regs_def gval_def mod255_eq A0_def NN_def alpha_power_mod power_add simp del: upt_Suc)
    then show ?thesis using assms(1) j by (simp add: regs_at_def power_add)
  qed
  then show ?thesis by (simp add: regs_at_def chien_regs_def del: upt_Suc)
qed

lemma chien_q_root:
  assumes reg: "regs_at deg lam i reg" and lam: "length lam = NROOTS + 1" "gval (lam ! 0) = 1" and deg: "deg \<le> NROOTS"
  shows "chien_q deg reg = 0 \<longleftrightarrow> chien_root deg lam i"
proof -
  have "GF (chien_q deg reg) = 1 + (\<Sum>j \<leftarrow> [1..<deg + 1]. gval (reg ! j))"
    unfolding chien_q_def GF_foldl_xor index_product(4) sum_list_rev_eq by simp
  also have "\<dots> = 1 + (\<Sum>j = 1..deg. gval (reg ! j))"
    by (simp add: sum_list_distinct_conv_sum_set atLeastLessThanSuc_atLeastAtMost del: upt_Suc)
  also have "(\<Sum>j = 1..deg. gval (reg ! j)) = (\<Sum>j = 1..deg. index_poly lam j * (alpha ^ i) ^ j)"
    by (rule sum.cong) (use reg lam deg in \<open>auto simp: regs_at_def index_poly_def power_mult\<close>)
  also have "1 + \<dots> = ev (index_poly lam) deg (alpha ^ i)"
    using lam by (simp add: ev_def index_poly_def atMost_atLeast0 sum.atLeast_Suc_atMost [of 0])
  finally show ?thesis by (simp add: chien_root_def flip: GF_0(2))
qed

lemma loc_of_Suc: "1 \<le> i \<Longrightarrow> mod255 (loc_of i + IPRIM) = loc_of (Suc i)"
proof -
  assume "1 \<le> i"
  then have "IPRIM * Suc i - 1 = (IPRIM * i - 1) + IPRIM" by (simp add: IPRIM_def)
  then show ?thesis by (simp add: loc_of_def mod255_eq mod_add_left_eq)
qed

lemma chien_search_roots:
  assumes lam: "length lam = NROOTS + 1" "gval (lam ! 0) = 1" and deg: "deg \<le> NROOTS"
    and i: "1 \<le> i" "i \<le> 256" and reg: "regs_at deg lam (i - 1) reg"
    and room: "length found + length (filter (chien_root deg lam) [i..<256]) \<le> deg"
  shows "chien_search deg reg i (loc_of i) found =
    found @ map (\<lambda>i. (i, loc_of i)) (filter (chien_root deg lam) [i..<256])"
  using i reg room
proof (induction "256 - i" arbitrary: i reg found)
  case 0
  then show ?case by (subst chien_search.simps) (simp add: NN_def)
next
  case (Suc m)
  then have i: "i < 256" "[i..<256] = i # [Suc i..<256]" by (simp_all add: upt_conv_Cons)
  define reg' where "reg' = chien_regs deg reg"
  have reg': "regs_at deg lam i reg'" using chien_regs_at [OF Suc.prems(3) deg] Suc.prems(1) by (simp add: reg'_def)
  have root: "chien_q deg reg' = 0 \<longleftrightarrow> chien_root deg lam i" by (rule chien_q_root [OF reg' lam deg])
  have IH: "chien_search deg reg' (Suc i) (loc_of (Suc i)) fs =
      fs @ map (\<lambda>i. (i, loc_of i)) (filter (chien_root deg lam) [Suc i..<256])"
    if "length fs + length (filter (chien_root deg lam) [Suc i..<256]) \<le> deg" for fs
    by (rule Suc.hyps(1)) (use Suc.hyps(2) Suc.prems i reg' that in auto)
  have unfold: "chien_search deg reg i (loc_of i) found =
     (if chien_q deg reg' \<noteq> 0 then chien_search deg reg' (Suc i) (loc_of (Suc i)) found
      else if length found + 1 = deg then found @ [(i, loc_of i)]
      else chien_search deg reg' (Suc i) (loc_of (Suc i)) (found @ [(i, loc_of i)]))"
    using i Suc.prems(1) by (subst chien_search.simps) (simp add: reg'_def Let_def NN_def loc_of_Suc)
  show ?case
  proof (cases "chien_root deg lam i")
    case True
    then have more: "Suc (length found + length (filter (chien_root deg lam) [Suc i..<256])) \<le> deg"
      using Suc.prems(4) i by simp
    show ?thesis
    proof (cases "length found + 1 = deg")
      case full: True
      then have "filter (chien_root deg lam) [Suc i..<256] = []"
        using more by (metis Suc_eq_plus1 add_Suc_right add_le_same_cancel1 le_zero_eq length_0_conv add_Suc)
      then show ?thesis using True root full i unfolding unfold by simp
    next
      case False
      then show ?thesis using IH [of "found @ [(i, loc_of i)]"] more True root i unfolding unfold by simp
    qed
  next
    case False
    then show ?thesis using IH [of found] Suc.prems(4) root i unfolding unfold by simp
  qed
qed

text \<open>On the locator of an error pattern the search finds each altered position once.\<close>

lemma locator_roots:
  assumes i: "1 \<le> i" "i \<le> 255" and lam: "index_poly lam = locator (map (X_of n) ks)"
  shows "chien_root (length ks) lam i \<longleftrightarrow> i \<in> root_idx n ` set ks"
proof -
  have "chien_root (length ks) lam i \<longleftrightarrow> (\<Prod>X \<leftarrow> map (X_of n) ks. 1 - X * alpha ^ i) = 0"
    using ev_locator [of "map (X_of n) ks" "alpha ^ i"] lam by (simp add: chien_root_def)
  also have "\<dots> \<longleftrightarrow> (\<exists>k \<in> set ks. 1 - X_of n k * alpha ^ i = 0)"
    by (auto simp: prod_list_zero_iff image_iff simp del: gf_minus)
  also have "\<dots> \<longleftrightarrow> (\<exists>k \<in> set ks. X_of n k * alpha ^ i = 1)"
    by (metis eq_iff_diff_eq_0)
  finally show ?thesis using X_root_iff [OF i] by (auto simp: image_iff)
qed

lemma chien_finds:
  assumes n: "n \<le> 255" and ks: "distinct ks" "set ks \<subseteq> {..<n}" "ks \<noteq> []" "length ks \<le> NROOTS"
    and lam: "length lam = NROOTS + 1" "index_poly lam = locator (map (X_of n) ks)"
  obtains js where "distinct js" "set js = set ks"
    "rev (chien_search (length ks) lam 1 (IPRIM - 1) []) = map (\<lambda>j. (root_idx n j, 255 - n + j)) js"
proof -
  define rs where "rs = filter (chien_root (length ks) lam) [1..<256]"
  have set_rs: "set rs = root_idx n ` set ks"
    using locator_roots [OF _ _ lam(2)] root_idx_range by (force simp: rs_def)
  have inj: "inj_on (root_idx n) (set ks)" by (rule inj_on_subset [OF root_idx_inj [OF n] ks(2)])
  have "distinct rs" by (simp add: rs_def)
  then have len: "length rs = length ks"
    using set_rs card_image [OF inj] ks(1) by (metis distinct_card)
  define js where "js = map (the_inv_into (set ks) (root_idx n)) (rev rs)"
  have idx: "map (root_idx n) js = rev rs"
    unfolding js_def map_map by (rule map_idI) (use set_rs inj in \<open>auto simp: f_the_inv_into_f\<close>)
  have "set js = the_inv_into (set ks) (root_idx n) ` root_idx n ` set ks" by (simp add: js_def set_rs)
  also have "\<dots> = set ks" using inj by (force simp: image_image the_inv_into_f_f)
  finally have set_js: "set js = set ks" .
  have "distinct (map (root_idx n) js)" unfolding idx using \<open>distinct rs\<close> by simp
  then have "distinct js" by (simp add: distinct_map)
  have one: "gval (lam ! 0) = 1" using lam locator_0 [of "map (X_of n) ks"] by (metis add_gr_0 index_poly_def zero_less_one)
  have "regs_at (length ks) lam 0 lam" using lam(1) by (simp add: regs_at_def)
  then have "chien_search (length ks) lam 1 (loc_of 1) [] = map (\<lambda>i. (i, loc_of i)) rs"
    using chien_search_roots [OF lam(1) one ks(4), of 1 lam "[]"] len by (simp add: rs_def)
  moreover have "loc_of 1 = IPRIM - 1" by (simp add: loc_of_def IPRIM_def)
  ultimately have "rev (chien_search (length ks) lam 1 (IPRIM - 1) []) = map (\<lambda>i. (i, loc_of i)) (map (root_idx n) js)"
    by (simp add: idx rev_map)
  also have "\<dots> = map (\<lambda>j. (root_idx n j, 255 - n + j)) js"
    using set_js ks(2) n by (auto simp: loc_root)
  finally show ?thesis using that \<open>distinct js\<close> set_js by blast
qed

section \<open>Error values\<close>

lemma omega_evaluator:
  assumes s: "agrees s (power_sums ks X Z)" and lam: "length lam = NROOTS + 1" "index_poly lam = locator (map X ks)"
    and i: "i < length ks" "length ks \<le> NROOTS"
  shows "gval (omega s lam (length ks) ! i) = evaluator ks X Z i"
proof -
  have "gval (omega s lam (length ks) ! i) = (\<Sum>j < i + 1. gval (s ! (i - j)) * gval (lam ! j))"
  proof -
    have "omega s lam (length ks) ! i = INDEX_OF (foldl (\<lambda>tmp j. if s ! (i - j) \<noteq> A0 \<and> lam ! j \<noteq> A0
        then tmp XOR ALPHA_TO (s ! (i - j) + lam ! j) else tmp) 0 (rev [0..<i + 1]))"
      using i(1) by (simp only: omega_def nth_map_upt minus_nat.diff_0 add_0_left)
    then show ?thesis by (simp only: gval_INDEX_OF GF_foldl_xor index_product(2) sum_list_rev_eq sum_list_upt GF_0 add_0_left)
  qed
  also have "\<dots> = evaluator ks X Z i"
    unfolding evaluator_def conv_def Suc_eq_plus1 [symmetric] lessThan_Suc_atMost lam(2) [symmetric]
    by (rule sum.cong) (use s lam(1) i in \<open>auto simp: agrees_def index_poly_def mult.commute\<close>)
  finally show ?thesis .
qed

lemma forney_num1_eq:
  assumes s: "agrees s (power_sums ks X Z)" and lam: "length lam = NROOTS + 1" "index_poly lam = locator (map X ks)"
    and ks: "ks \<noteq> []" "length ks \<le> NROOTS"
  shows "GF (forney_num1 (omega s lam (length ks)) root) = ev (evaluator ks X Z) (length ks - 1) (alpha ^ root)"
proof -
  let ?om = "omega s lam (length ks)"
  have "GF (forney_num1 ?om root) = (\<Sum>i < length ?om. gval (?om ! i) * alpha ^ (i * root))"
    unfolding forney_num1_def GF_foldl_xor index_product(3) sum_list_rev_eq sum_list_upt by simp
  also have "\<dots> = (\<Sum>i < length ks. evaluator ks X Z i * (alpha ^ root) ^ i)"
    by (rule sum.cong)
      (use omega_evaluator [OF s lam _ ks(2)] in \<open>auto simp: omega_def mult.commute simp flip: power_mult\<close>)
  also have "\<dots> = ev (evaluator ks X Z) (length ks - 1) (alpha ^ root)"
    using ks(1) by (cases ks) (simp_all add: ev_def lessThan_Suc_atMost)
  finally show ?thesis .
qed

lemma filter_even_upt: "filter even [0..<n + 1] = map (\<lambda>m. 2 * m) [0..<n div 2 + 1]"
proof (induction n)
  case (Suc n)
  then show ?case by (cases "even n") auto
qed simp

lemma forney_den_eq:
  assumes lam: "length lam = NROOTS + 1" "index_poly lam = locator (map X ks)" and j: "j \<in> set ks" "X j * alpha ^ root = 1"
    and t: "2 * length ks \<le> NROOTS"
  shows "GF (forney_den lam (length ks) root) = X j * ev (locator (others ks X j)) (length ks - 1) (alpha ^ root)"
proof -
  let ?t = "length ks" and ?M = "locator (others ks X j)"
  have "GF (forney_den lam ?t root) = (\<Sum>m \<leftarrow> [0..<?t div 2 + 1]. gval (lam ! (2 * m + 1)) * alpha ^ (2 * m * root))"
    using t unfolding forney_den_def GF_foldl_xor index_product(3) sum_list_rev_eq filter_even_upt
    by (simp add: min_absorb1 NROOTS_def filter_even_upt o_def del: upt_Suc)
  also have "\<dots> = (\<Sum>m < ?t div 2 + 1. mult_lin (X j) ?M (Suc (2 * m)) * (alpha ^ root) ^ (2 * m))"
    unfolding sum_list_upt
    by (rule sum.cong) (use lam t in \<open>auto simp: locator_split [OF j(1), symmetric] index_poly_def NROOTS_def lam(2) [symmetric] mult.commute simp flip: power_mult\<close>)
  also have "\<dots> = X j * (\<Sum>i < 2 * (?t div 2 + 1). ?M i * (alpha ^ root) ^ i)"
    by (rule derivative_at [OF _ j(2)]) simp
  also have "(\<Sum>i < 2 * (?t div 2 + 1). ?M i * (alpha ^ root) ^ i) = ev ?M (2 * (?t div 2) + 1) (alpha ^ root)"
    by (simp add: ev_def flip: lessThan_Suc_atMost del: sum.lessThan_Suc)
  also have "\<dots> = ev ?M (?t - 1) (alpha ^ root)"
  proof (rule ev_extend)
    show "deg_le ?M (?t - 1)" using deg_locator [of "others ks X j"] j(1) by (simp add: length_others)
    show "?t - 1 \<le> 2 * (?t div 2) + 1" by linarith
  qed
  finally show ?thesis .
qed

lemma GF_quotient: "a \<noteq> 0 \<Longrightarrow> b \<noteq> 0 \<Longrightarrow> c \<noteq> 0 \<Longrightarrow> GF (ALPHA_TO (INDEX_OF a + INDEX_OF b + NN - INDEX_OF c)) = GF a * GF b / GF c"
proof -
  assume nz: "a \<noteq> 0" "b \<noteq> 0" "c \<noteq> 0"
  have le: "INDEX_OF c \<le> NN" using INDEX_OF_less [OF nz(3)] by (simp add: NN_def)
  have "inverse (GF c) = alpha ^ (NN - INDEX_OF c)" using nz(3) by (simp add: inverse_gf.simps GF_ALPHA_TO)
  then have "GF a * GF b / GF c = alpha ^ (INDEX_OF a + INDEX_OF b + (NN - INDEX_OF c))"
    using nz by (simp add: divide_inverse power_add GF_INDEX_OF A0_def NN_def)
  then show ?thesis using le by (simp add: GF_ALPHA_TO)
qed

lemma forney_value:
  assumes s: "agrees s (syn_seq c d)" and lam: "length lam = NROOTS + 1" "index_poly lam = locator (map (X_of (length c)) (err_pos c d))"
    and j: "j \<in> set (err_pos c d)" and n: "length c \<le> 255" and t: "2 * length (err_pos c d) \<le> NROOTS"
  defines "ks \<equiv> err_pos c d"
  defines "root \<equiv> root_idx (length c) j"
  defines "num1 \<equiv> forney_num1 (omega s lam (length ks)) root"
  shows "num1 \<noteq> 0 \<and> ALPHA_TO (INDEX_OF num1 + INDEX_OF (forney_num2 root) + NN - INDEX_OF (forney_den lam (length ks) root)) = c ! j XOR d ! j"
proof -
  let ?X = "X_of (length c)" and ?Z = "Z_of c d"
  let ?x = "inverse (?X j)" and ?M = "ev (locator (others ks ?X j)) (length ks - 1) (inverse (?X j))"
  have dX: "distinct (map ?X ks)" using distinct_X [OF n] by (simp add: ks_def)
  have x: "alpha ^ root = ?x" by (simp add: root_def alpha_root_idx)
  have M: "?M \<noteq> 0" by (rule others_at [OF dX]) (use j in \<open>simp_all add: ks_def\<close>)
  have ks: "ks \<noteq> []" "length ks \<le> NROOTS" using j t by (auto simp: ks_def)
  have num1: "GF num1 = ?Z j * ?M"
    using forney_num1_eq [OF s [unfolded syn_seq_def] lam ks [unfolded ks_def]] evaluator_at [of ks j ?X ?Z] j x
    by (simp add: num1_def ks_def)
  have num2: "GF (forney_num2 root) = ?x ^ (FCR - 1)"
    by (simp add: forney_num2_def GF_ALPHA_TO NN_def power_mult x)
  have den: "GF (forney_den lam (length ks) root) = ?X j * ?M"
    using forney_den_eq [OF lam j _ t, of root] X_root [of "length c" j] x by (simp add: ks_def root_def)
  have nz: "num1 \<noteq> 0" "forney_num2 root \<noteq> 0" "forney_den lam (length ks) root \<noteq> 0"
    using num1 num2 den M Z_of_nonzero [OF j] by (auto simp flip: GF_0(2))
  have FCR: "FCR = Suc (FCR - 1)" by (simp add: FCR_def)
  have "GF num1 * GF (forney_num2 root) / GF (forney_den lam (length ks) root) = ?Z j * ?x ^ (FCR - 1) / ?X j"
    unfolding num1 num2 den using M by (simp add: field_simps)
  also have "\<dots> = E_of c d j" unfolding Z_of_def by (subst FCR) (simp add: field_simps power_inverse)
  finally have "GF (ALPHA_TO (INDEX_OF num1 + INDEX_OF (forney_num2 root) + NN - INDEX_OF (forney_den lam (length ks) root))) = GF (c ! j XOR d ! j)"
    unfolding GF_quotient [OF nz] E_of_def .
  then show ?thesis using nz(1) by simp
qed

lemma forney_loop_fixes:
  assumes "\<And>j data. j \<in> set js \<Longrightarrow> length data = n \<Longrightarrow> forney_fix lam om deg pad data (root_idx n j, pad + j) = Some (data[j := data ! j XOR e j])"
    "distinct js" "set js \<subseteq> {..<n}" "length data = n"
  shows "forney_loop lam om deg pad (map (\<lambda>j. (root_idx n j, pad + j)) js) data =
    Some (map (\<lambda>j. if j \<in> set js then data ! j XOR e j else data ! j) [0..<n])"
  using assms
proof (induction js arbitrary: data)
  case Nil
  then show ?case using map_nth [of data] by simp
next
  case (Cons a js)
  have "forney_loop lam om deg pad (map (\<lambda>j. (root_idx n j, pad + j)) (a # js)) data =
      forney_loop lam om deg pad (map (\<lambda>j. (root_idx n j, pad + j)) js) (data[a := data ! a XOR e a])"
    using Cons.prems by simp
  also have "\<dots> = Some (map (\<lambda>j. if j \<in> set js then data[a := data ! a XOR e a] ! j XOR e j else data[a := data ! a XOR e a] ! j) [0..<n])"
    by (rule Cons.IH) (use Cons.prems in auto)
  also have "\<dots> = Some (map (\<lambda>j. if j \<in> set (a # js) then data ! j XOR e j else data ! j) [0..<n])"
    using Cons.prems by (auto simp: nth_list_update)
  finally show ?case .
qed

section \<open>Correction\<close>

lemma decode_corrects:
  assumes c: "\<forall>i < NROOTS. horner (root_of i) c = 0" and d: "length d = length c" and n: "33 \<le> length c" "length c \<le> 255"
    and t: "2 * length (err_pos c d) \<le> NROOTS"
  shows "decode_rs_8 d (255 - int (length c)) = Some (int (length (err_pos c d)), c)"
proof -
  let ?n = "length c" and ?ks = "err_pos c d" and ?s = "map INDEX_OF (syndromes d)" and ?X = "X_of (length c)" and ?Z = "Z_of c d"
  have pad: "\<not> (255 - int ?n < 0 \<or> 255 - int ?n > 222)" "nat (255 - int ?n) = 255 - ?n" using n by auto
  have "c \<noteq> []" using n by auto
  note syn = syndromes_power_sums [OF c d this]
  then have s: "agrees ?s (syn_seq c d)" by (simp add: agrees_def)
  have X: "distinct (map ?X ?ks)" "\<forall>k \<in> set ?ks. ?X k \<noteq> 0" "\<forall>k \<in> set ?ks. ?Z k \<noteq> 0"
    using distinct_X [OF n(2)] Z_of_nonzero by auto
  have zero: "(\<forall>x \<in> set (syndromes d). x = 0) \<longleftrightarrow> ?ks = []"
  proof
    assume "\<forall>x \<in> set (syndromes d). x = 0"
    then have "syn_seq c d i = 0" if "i < NROOTS" for i using syn [OF that, symmetric] that by simp
    then have "\<forall>i < length ?ks. power_sums ?ks ?X ?Z (0 + i) = 0" using t by (simp add: syn_seq_def)
    then have "\<forall>k \<in> set ?ks. ?Z k = 0" using vandermonde [OF X(1,2)] by blast
    then show "?ks = []" using X(3) by (metis length_greater_0_conv nth_mem)
  next
    assume "?ks = []"
    then have "syndromes d ! i = 0" if "i < NROOTS" for i using syn [OF that] by (simp add: syn_seq_def power_sums_def)
    then show "\<forall>x \<in> set (syndromes d). x = 0" by (auto simp: in_set_conv_nth)
  qed
  show ?thesis
  proof (cases "?ks = []")
    case True
    then have "c = d" using d by (auto simp: err_pos_def filter_empty_conv intro: nth_equalityI)
    then show ?thesis using True zero pad(1) by (simp add: decode_rs_8_def Let_def)
  next
    case False
    define lambda where "lambda = berlekamp_massey ?s"
    define lam where "lam = map INDEX_OF lambda"
    have bm: "length lambda = NROOTS + 1" "byte_poly lambda = locator (map ?X ?ks)"
      using berlekamp_massey_locator [OF s [unfolded syn_seq_def] X t] by (simp_all add: lambda_def)
    have lam: "length lam = NROOTS + 1" "index_poly lam = locator (map ?X ?ks)" using bm by (simp_all add: lam_def index_poly_INDEX_OF)
    have deg: "deg_lambda lam = length ?ks"
      using deg_lambda_locator [OF bm] t by (simp add: lam_def image_iff)
    have ks: "set ?ks \<subseteq> {..<?n}" "length ?ks \<le> NROOTS" using t by (auto simp: err_pos_set)
    define found where "found = chien_search (length ?ks) lam 1 (IPRIM - 1) []"
    obtain js where js: "distinct js" "set js = set ?ks" "rev found = map (\<lambda>j. (root_idx ?n j, 255 - ?n + j)) js"
      unfolding found_def by (rule chien_finds [OF n(2) distinct_err_pos ks(1) False ks(2) lam])
    have "length js = length ?ks" using js(1,2) by (metis distinct_card distinct_err_pos)
    then have len: "length found = length ?ks" using arg_cong [OF js(3), of length] by simp
    have fix1: "forney_fix lam (omega ?s lam (length ?ks)) (length ?ks) (255 - ?n) data (root_idx ?n j, 255 - ?n + j) =
        Some (data[j := data ! j XOR (c ! j XOR d ! j)])" if "j \<in> set js" "length data = ?n" for j data
    proof -
      have j: "j \<in> set ?ks" using that(1) js(2) by simp
      then show ?thesis
        using forney_value [OF s lam j n(2) t] that(2) by (simp add: forney_fix_def err_pos_set)
    qed
    have "forney_loop lam (omega ?s lam (length ?ks)) (length ?ks) (255 - ?n) (rev found) d =
        Some (map (\<lambda>j. if j \<in> set js then d ! j XOR (c ! j XOR d ! j) else d ! j) [0..<?n])"
      unfolding js(3) by (rule forney_loop_fixes [OF fix1 js(1)]) (use d ks js(2) in auto)
    moreover have "map (\<lambda>j. if j \<in> set js then d ! j XOR (c ! j XOR d ! j) else d ! j) [0..<?n] = c"
      by (rule nth_equalityI) (auto simp: js(2) err_pos_set xor.commute [of "c ! _"])
    ultimately show ?thesis
      using False zero pad deg len unfolding decode_rs_8_def Let_def lambda_def [symmetric] lam_def [symmetric]
      by (simp add: found_def)
  qed
qed

text \<open>The number of altered bytes.\<close>

definition byte_errors :: "bytes \<Rightarrow> bytes \<Rightarrow> nat" where
  "byte_errors a b = length (filter (\<lambda>(x, y). x \<noteq> y) (zip a b))"

lemma byte_errors_err_pos: "length a = length b \<Longrightarrow> byte_errors a b = length (err_pos a b)"
proof -
  assume l: "length a = length b"
  have "zip a b = map (\<lambda>j. (a ! j, b ! j)) [0..<length a]" by (rule nth_equalityI) (use l in auto)
  then show ?thesis by (simp add: byte_errors_def err_pos_def filter_map o_def)
qed

section \<open>Totality\<close>

text \<open>The search gives at most \<open>deg\<close> positions below 255, so that every correction is inside the received bytes.\<close>

lemma chien_search_bounds:
  assumes "k < 255" "snd ` set found \<subseteq> {..<255}"
  shows "snd ` set (chien_search deg reg i k found) \<subseteq> {..<255}"
  using assms
proof (induction deg reg i k found rule: chien_search.induct)
  case (1 deg reg i k found)
  have more: "snd ` set (found @ [(i, k)]) \<subseteq> {..<255}" "mod255 (k + IPRIM) < 255" using 1(3,4) by (auto simp: mod255_eq)
  show ?case
    unfolding chien_search.simps [of deg reg i] Let_def
    using 1(1) [OF _ refl _ more(2) 1(4)] 1(2) [OF _ refl _ refl _ more(2,1)] more(1) 1(4) by simp
qed

lemma forney_fix_total:
  assumes "length data = 255 - pad" "l < 255"
  obtains data' where "forney_fix lam om deg pad data (r, l) = Some data'" "length data' = length data"
  using assms that by (cases "pad \<le> l \<and> forney_num1 om r \<noteq> 0") (auto simp: forney_fix_def Let_def)

lemma forney_loop_total:
  "length data = 255 - pad \<Longrightarrow> snd ` set rls \<subseteq> {..<255} \<Longrightarrow>
    \<exists>data'. forney_loop lam om deg pad rls data = Some data' \<and> length data' = length data"
proof (induction rls arbitrary: data)
  case (Cons rl rls)
  obtain r l where rl: "rl = (r, l)" "l < 255" using Cons.prems(2) by (cases rl) auto
  obtain d1 where "forney_fix lam om deg pad data (r, l) = Some d1" "length d1 = length data"
    by (rule forney_fix_total [OF Cons.prems(1) rl(2)])
  then show ?case using Cons.IH [of d1] Cons.prems rl by auto
qed simp

lemma decode_total:
  assumes "int (length data) = 255 - pad"
  obtains ret data' where "decode_rs_8 data pad = Some (ret, data')" "length data' = length data" "- 1 \<le> ret"
proof -
  let ?s = "map INDEX_OF (syndromes data)"
  define lam where "lam = map INDEX_OF (berlekamp_massey ?s)"
  define found where "found = chien_search (deg_lambda lam) lam 1 (IPRIM - 1) []"
  have "snd ` set (rev found) \<subseteq> {..<255}" unfolding found_def set_rev by (rule chien_search_bounds) (simp_all add: IPRIM_def)
  moreover have "0 \<le> pad \<Longrightarrow> length data = 255 - nat pad" using assms by simp
  ultimately obtain d' where "0 \<le> pad \<Longrightarrow> forney_loop lam (omega ?s lam (deg_lambda lam)) (deg_lambda lam) (nat pad) (rev found) data = Some d' \<and> length d' = length data"
    using forney_loop_total by (metis (no_types))
  then have "\<exists>ret data'. decode_rs_8 data pad = Some (ret, data') \<and> length data' = length data \<and> - 1 \<le> ret"
    unfolding decode_rs_8_def Let_def lam_def [symmetric] found_def [symmetric]
    by (cases "pad < 0 \<or> pad > 222"; cases "\<forall>x \<in> set (syndromes data). x = 0"; cases "deg_lambda lam = length found") auto
  then show ?thesis using that by blast
qed

section \<open>Properties\<close>

text \<open>
  C11: the Reed-Solomon decoder undoes transmission errors. A message of 1 to 223 bytes with the 32 parity bytes
  of \<open>encode_rs_8\<close> behind it comes back from \<open>decode_rs_8\<close> after any change of at most 16 of its bytes, and the return
  value is the number of changed bytes.
\<close>

theorem rs_corrects:
  assumes "1 \<le> length msg" "length msg \<le> 223" "length received = length msg + 32"
    "byte_errors (msg @ encode_rs_8 msg) received \<le> 16"
  shows "decode_rs_8 received (223 - int (length msg)) =
    Some (int (byte_errors (msg @ encode_rs_8 msg) received), msg @ encode_rs_8 msg)"
proof -
  let ?c = "msg @ encode_rs_8 msg"
  have c: "length ?c = length msg + 32" by (simp add: NROOTS_def)
  have b: "byte_errors ?c received = length (err_pos ?c received)" by (rule byte_errors_err_pos) (simp only: assms(3) c)
  have "decode_rs_8 received (255 - int (length ?c)) = Some (int (length (err_pos ?c received)), ?c)"
    by (rule decode_corrects) (use assms b c codeword_roots in \<open>simp_all add: NROOTS_def\<close>)
  then show ?thesis unfolding b c by simp
qed

lemma encode_one:
  "encode_rs_8 [1] = [91, 127, 86, 16, 30, 13, 235, 97, 165, 8, 42, 54, 86, 171, 32, 113, 32, 171, 86, 54, 42, 8, 165, 97, 235, 13, 30, 16, 86, 127, 91, 1]"
proof -
  have i: "INDEX_OF 1 = 0" using INDEX_ALPHA_TO [of 0] by simp
  have u: "[1..<NROOTS] = 1 # [2..<32]" unfolding NROOTS_def by (subst upt_conv_Cons) (simp, simp only: Suc_1)
  have "encode_rs_8 [1] = map (\<lambda>j. replicate NROOTS 0 ! j XOR ALPHA_TO (GENPOLY (NROOTS - j))) (1 # [2..<32]) @ [ALPHA_TO (GENPOLY 0)]"
    unfolding u [symmetric] by (simp add: encode_rs_8_def encode_step_def i A0_def NN_def NROOTS_def)
  then show ?thesis
    by (simp add: NROOTS_def GENPOLY_def CCSDS_poly_def ALPHA_TO_def mod255_eq, simp add: alpha_nths)
qed

theorem rs_corrects_witness:
  "decode_rs_8 [0, 91, 124, 86, 21, 30, 10, 235, 104, 165, 3, 42, 59, 86, 164, 32, 96, 32, 184, 86, 35, 42, 31, 165, 120, 235, 22, 30, 13, 86, 96, 91, 1] 222 = Some (16, [1, 91, 127, 86, 16, 30, 13, 235, 97, 165, 8, 42, 54, 86, 171, 32, 113, 32, 171, 86, 54, 42, 8, 165, 97, 235, 13, 30, 16, 86, 127, 91, 1])"
  using rs_corrects [of "[1]" "[0, 91, 124, 86, 21, 30, 10, 235, 104, 165, 3, 42, 59, 86, 164, 32, 96, 32, 184, 86, 35, 42, 31, 165, 120, 235, 22, 30, 13, 86, 96, 91, 1]"] by (simp add: encode_one byte_errors_def)

end
