(* ===== verification/Fec_Correct.thy ===== *)
theory Fec_Correct
  imports Fec Rs_Correct Frame_Correct
begin

text \<open>
  Forward error correction of frames: whitening is an involution that keeps the positions of errors, so that the
  frame in front of the parity bytes survives up to 16 altered bytes.
\<close>

section \<open>Whitening\<close>

lemma whiten_Some: "n \<le> length bs \<Longrightarrow> \<exists>ws. whiten n bs = Some ws \<and> length ws = length bs"
  by (simp add: whiten_def)

lemma whiten_nth:
  assumes "whiten n bs = Some ws"
  shows "n \<le> length bs" "length ws = length bs"
    "\<And>i. i < length bs \<Longrightarrow> ws ! i = (if i < n then bs ! i XOR whitening ! (i AND 0xFF) else bs ! i)"
  using assms by (auto simp: whiten_def split: if_splits)

lemma whiten_twice:
  assumes "whiten n bs = Some ws"
  shows "whiten n ws = Some bs"
  using whiten_nth [OF assms] by (auto simp: whiten_def intro: nth_equalityI)

text \<open>An altered byte stays altered, and no other byte changes.\<close>

lemma whiten_errors:
  assumes "whiten n as = Some as'" "whiten n bs = Some bs'" "length as = length bs"
  shows "byte_errors (take n as') (take n bs') = byte_errors (take n as) (take n bs)"
proof -
  note A = whiten_nth [OF assms(1)] and B = whiten_nth [OF assms(2)]
  have "err_pos (take n as') (take n bs') = err_pos (take n as) (take n bs)"
    unfolding err_pos_def by (rule filter_cong) (use A B assms(3) in auto)
  then show ?thesis using A B assms(3) by (simp add: byte_errors_err_pos)
qed

section \<open>Encoding and decoding a frame\<close>

lemma fec_encode_run:
  assumes n: "frame_len frame \<le> RS_MSGLEN" "frame_len frame + RS_PARITYS \<le> length (raw frame)"
  obtains bs where "sky_fec_encode frame = Some (SKY_RET_OK, frame\<lparr>raw := bs, frame_len := frame_len frame + RS_PARITYS\<rparr>)"
    "length bs = length (raw frame)"
    "whiten (frame_len frame + RS_PARITYS) bs = Some (take (frame_len frame) (raw frame) @
       encode_rs_8 (take (frame_len frame) (raw frame)) @ drop (frame_len frame + RS_PARITYS) (raw frame))"
proof -
  let ?n = "frame_len frame" and ?msg = "take (frame_len frame) (raw frame)"
  have par: "length (encode_rs_8 ?msg) = RS_PARITYS" by (simp add: NROOTS_def RS_PARITYS_def)
  let ?u = "?msg @ encode_rs_8 ?msg @ drop (?n + RS_PARITYS) (raw frame)"
  have u: "length ?u = length (raw frame)" using n par by simp
  obtain bs where bs: "whiten (?n + RS_PARITYS) ?u = Some bs" "length bs = length ?u" using whiten_Some [of "?n + RS_PARITYS" ?u] n u by auto
  then have "sky_fec_encode frame = Some (SKY_RET_OK, frame\<lparr>raw := bs, frame_len := ?n + RS_PARITYS\<rparr>)"
    using n par by (simp add: sky_fec_encode_def Let_def)
  then show ?thesis using that bs u whiten_twice [OF bs(1)] by simp
qed

lemma fec_decode_corrects:
  assumes n: "1 \<le> n" "n \<le> RS_MSGLEN" and sent: "whiten (n + RS_PARITYS) bs = Some (msg @ encode_rs_8 msg @ rest)" "length msg = n"
    and rcvd: "frame_len rcvd = n + RS_PARITYS" "length (raw rcvd) = length bs"
    and e: "byte_errors (take (n + RS_PARITYS) bs) (take (n + RS_PARITYS) (raw rcvd)) \<le> 16"
  obtains data where "sky_fec_decode rcvd diag = Some (SKY_RET_OK, rcvd\<lparr>raw := data, frame_len := n\<rparr>,
      diag\<lparr>rx_fec_ok := rx_fec_ok diag + 1,
           rx_fec_errs := rx_fec_errs diag + of_nat (byte_errors (take (n + RS_PARITYS) bs) (take (n + RS_PARITYS) (raw rcvd))),
           rx_fec_octs := rx_fec_octs diag + of_nat (n + RS_PARITYS)\<rparr>)"
    "take n data = msg" "length data = length (raw rcvd)"
proof -
  let ?m = "n + RS_PARITYS" and ?c = "msg @ encode_rs_8 msg"
  let ?e = "byte_errors (take ?m bs) (take ?m (raw rcvd))"
  have 32: "RS_PARITYS = 32" "RS_MSGLEN = 223" by (simp_all add: RS_PARITYS_def RS_MSGLEN_def)
  have c: "length ?c = ?m" using sent(2) by (simp add: NROOTS_def RS_PARITYS_def)
  have m: "?m \<le> length (raw rcvd)" using whiten_nth(1) [OF sent(1)] rcvd(2) by simp
  obtain ws where ws: "whiten ?m (raw rcvd) = Some ws" "length ws = length (raw rcvd)" using whiten_Some [OF m] by auto
  have take_c: "take ?m (?c @ rest) = ?c" using c by (metis append_eq_conv_conj)
  have "byte_errors ?c (take ?m ws) = ?e"
    using whiten_errors [OF sent(1) ws(1)] rcvd(2) take_c by simp
  then have E: "2 * length (err_pos ?c (take ?m ws)) \<le> NROOTS" "length (err_pos ?c (take ?m ws)) = ?e"
    using e c m ws(2) byte_errors_err_pos [of ?c "take ?m ws"] by (simp_all add: NROOTS_def)
  have pad: "255 - int (length ?c) = int RS_MSGLEN + int RS_PARITYS - int ?m" unfolding c by (simp add: 32)
  have "decode_rs_8 (take ?m ws) (255 - int (length ?c)) = Some (int (length (err_pos ?c (take ?m ws))), ?c)"
    by (rule decode_corrects) (use c m ws(2) n E codeword_roots in \<open>simp_all add: 32\<close>)
  then have "decode_rs_8 (take ?m ws) (int RS_MSGLEN + int RS_PARITYS - int ?m) = Some (int ?e, ?c)" unfolding pad E(2) .
  then have "sky_fec_decode rcvd diag = Some (SKY_RET_OK, rcvd\<lparr>raw := ?c @ drop ?m ws, frame_len := n\<rparr>,
      diag\<lparr>rx_fec_ok := rx_fec_ok diag + 1, rx_fec_errs := rx_fec_errs diag + of_nat ?e, rx_fec_octs := rx_fec_octs diag + of_nat ?m\<rparr>)"
    using n ws(1) rcvd(1) by (simp add: sky_fec_decode_def Let_def 32 add.commute)
  moreover have "take n (?c @ drop ?m ws) = msg" using sent(2) by simp
  moreover have "length (?c @ drop ?m ws) = length (raw rcvd)" using c m ws(2) by simp
  ultimately show ?thesis by (rule that)
qed

lemma fec_decode_total:
  assumes "length (raw frame) = RAW_SIZE" "frame_len frame \<le> RAW_SIZE"
  obtains ret frame' diag' where "sky_fec_decode frame diag = Some (ret, frame', diag')" "length (raw frame') = RAW_SIZE"
    "frame_len frame' \<le> RAW_SIZE" "rx_time_ticks frame' = rx_time_ticks frame" "vc_stats diag' = vc_stats diag"
proof -
  let ?n = "frame_len frame"
  show ?thesis
  proof (cases "?n < RS_PARITYS \<or> ?n > RS_MSGLEN + RS_PARITYS")
    case True
    then show ?thesis using assms by (intro that) (auto simp: sky_fec_decode_def)
  next
    case False
    obtain ws where ws: "whiten ?n (raw frame) = Some ws" "length ws = length (raw frame)" using whiten_Some [of ?n "raw frame"] assms by auto
    have "int (length (take ?n ws)) = 255 - (int RS_MSGLEN + int RS_PARITYS - int ?n)"
      using ws assms by (simp add: RS_MSGLEN_def RS_PARITYS_def)
    then obtain ret d where "decode_rs_8 (take ?n ws) (int RS_MSGLEN + int RS_PARITYS - int ?n) = Some (ret, d)" "length d = length (take ?n ws)"
      by (rule decode_total)
    then have "\<exists>ret frame' diag'. sky_fec_decode frame diag = Some (ret, frame', diag') \<and> length (raw frame') = RAW_SIZE \<and>
        frame_len frame' \<le> RAW_SIZE \<and> rx_time_ticks frame' = rx_time_ticks frame \<and> vc_stats diag' = vc_stats diag"
      using ws assms False by (cases "ret < 0") (auto simp: sky_fec_decode_def Let_def)
    then show ?thesis using that by blast
  qed
qed

section \<open>Properties\<close>

text \<open>
  C18: error correction gives the frame back. \<open>sky_fec_encode\<close> succeeds on every frame of 1 to 223 bytes that leaves room
  for the parity bytes, and \<open>sky_fec_decode\<close> restores length and contents of the frame from every buffer that differs
  from the coded one in at most 16 of the coded bytes; the counters record the number of corrected bytes.
\<close>

theorem fec_roundtrip:
  assumes "1 \<le> frame_len frame" "frame_len frame \<le> RS_MSGLEN" "frame_len frame + RS_PARITYS \<le> length (raw frame)"
  shows "\<exists>coded. sky_fec_encode frame = Some (SKY_RET_OK, coded) \<and> frame_len coded = frame_len frame + RS_PARITYS \<and>
    length (raw coded) = length (raw frame) \<and>
    (\<forall>rcvd diag e. frame_len rcvd = frame_len coded \<and> length (raw rcvd) = length (raw coded) \<and>
       byte_errors (take (frame_len coded) (raw coded)) (take (frame_len coded) (raw rcvd)) = e \<and> e \<le> 16 \<longrightarrow>
       (\<exists>out diag'. sky_fec_decode rcvd diag = Some (SKY_RET_OK, out, diag') \<and> frame_len out = frame_len frame \<and>
          take (frame_len frame) (raw out) = take (frame_len frame) (raw frame) \<and>
          rx_fec_errs diag' = rx_fec_errs diag + of_nat e \<and> rx_fec_ok diag' = rx_fec_ok diag + 1 \<and>
          rx_fec_fail diag' = rx_fec_fail diag))"
proof -
  let ?n = "frame_len frame"
  obtain bs where bs: "sky_fec_encode frame = Some (SKY_RET_OK, frame\<lparr>raw := bs, frame_len := ?n + RS_PARITYS\<rparr>)"
    "length bs = length (raw frame)"
    "whiten (?n + RS_PARITYS) bs = Some (take ?n (raw frame) @ encode_rs_8 (take ?n (raw frame)) @ drop (?n + RS_PARITYS) (raw frame))"
    by (rule fec_encode_run [OF assms(2,3)])
  have len: "length (take ?n (raw frame)) = ?n" using assms(3) by simp
  have "\<exists>out diag'. sky_fec_decode rcvd diag = Some (SKY_RET_OK, out, diag') \<and> frame_len out = ?n \<and>
      take ?n (raw out) = take ?n (raw frame) \<and> rx_fec_errs diag' = rx_fec_errs diag + of_nat e \<and>
      rx_fec_ok diag' = rx_fec_ok diag + 1 \<and> rx_fec_fail diag' = rx_fec_fail diag"
    if r: "frame_len rcvd = ?n + RS_PARITYS" "length (raw rcvd) = length bs"
      "byte_errors (take (?n + RS_PARITYS) bs) (take (?n + RS_PARITYS) (raw rcvd)) = e" "e \<le> 16" for rcvd diag e
  proof -
    have "byte_errors (take (?n + RS_PARITYS) bs) (take (?n + RS_PARITYS) (raw rcvd)) \<le> 16" using r(3,4) by simp
    then obtain data where "sky_fec_decode rcvd diag = Some (SKY_RET_OK, rcvd\<lparr>raw := data, frame_len := ?n\<rparr>,
        diag\<lparr>rx_fec_ok := rx_fec_ok diag + 1,
           rx_fec_errs := rx_fec_errs diag + of_nat (byte_errors (take (?n + RS_PARITYS) bs) (take (?n + RS_PARITYS) (raw rcvd))),
           rx_fec_octs := rx_fec_octs diag + of_nat (?n + RS_PARITYS)\<rparr>)" "take ?n data = take ?n (raw frame)"
      by (rule fec_decode_corrects [OF assms(1,2) bs(3) len r(1,2)])
    then show ?thesis using r(3) by simp
  qed
  then show ?thesis using bs(1,2) by simp
qed

theorem fec_roundtrip_witness:
  "\<exists>coded out diag'. sky_fec_encode \<lparr>rx_time_ticks = 0, frame_len = 10, raw = replicate 229 7\<rparr> = Some (SKY_RET_OK, coded) \<and>
     sky_fec_decode (coded\<lparr>raw := (raw coded)[3 := raw coded ! 3 XOR 1, 20 := raw coded ! 20 XOR 0x80]\<rparr>) sky_diag_create =
       Some (SKY_RET_OK, out, diag') \<and> take 10 (raw out) = replicate 10 7 \<and> rx_fec_errs diag' = 2"
proof -
  let ?f = "\<lparr>rx_time_ticks = 0, frame_len = 10, raw = replicate 229 7\<rparr> :: SkyRadioFrame"
  obtain coded where c: "sky_fec_encode ?f = Some (SKY_RET_OK, coded)" "frame_len coded = 42" "length (raw coded) = 229"
    and dec: "\<forall>rcvd. frame_len rcvd = 42 \<and> length (raw rcvd) = 229 \<and>
         byte_errors (take 42 (raw coded)) (take 42 (raw rcvd)) \<le> 16 \<longrightarrow>
       (\<forall>diag. \<exists>out diag'. sky_fec_decode rcvd diag = Some (SKY_RET_OK, out, diag') \<and> frame_len out = 10 \<and>
          take 10 (raw out) = replicate 10 7 \<and>
          rx_fec_errs diag' = rx_fec_errs diag + of_nat (byte_errors (take 42 (raw coded)) (take 42 (raw rcvd))) \<and>
          rx_fec_ok diag' = rx_fec_ok diag + 1 \<and> rx_fec_fail diag' = rx_fec_fail diag)"
    using fec_roundtrip [of ?f] by (auto simp: RS_MSGLEN_def RS_PARITYS_def)
  let ?bs = "(raw coded)[3 := raw coded ! 3 XOR 1, 20 := raw coded ! 20 XOR 0x80]"
  have neq: "x \<noteq> x XOR m" if "m \<noteq> 0" for x m :: byte using that by (metis xor_inverse(1) xor_self_eq)
  have "byte_errors (take 42 (raw coded)) (take 42 ?bs) = length (err_pos (take 42 (raw coded)) (take 42 ?bs))"
    by (rule byte_errors_err_pos) (simp add: c(3))
  moreover have "err_pos (take 42 (raw coded)) (take 42 ?bs) = filter (\<lambda>j. j = 3 \<or> j = 20) [0..<42]"
    unfolding err_pos_def by (rule filter_cong) (use c(3) neq in \<open>auto simp: nth_list_update\<close>)
  moreover have "length (filter (\<lambda>j. j = 3 \<or> j = 20) [0..<42 :: nat]) = 2" by code_simp
  ultimately have e: "byte_errors (take 42 (raw coded)) (take 42 ?bs) = 2" by simp
  then have "\<exists>out diag'. sky_fec_decode (coded\<lparr>raw := ?bs\<rparr>) sky_diag_create = Some (SKY_RET_OK, out, diag') \<and>
      take 10 (raw out) = replicate 10 7 \<and> rx_fec_errs diag' = rx_fec_errs sky_diag_create + 2"
    using spec [OF mp [OF spec [OF dec, of "coded\<lparr>raw := ?bs\<rparr>"]], of sky_diag_create] c by auto
  moreover have "rx_fec_errs sky_diag_create = 0" by (simp add: sky_diag_create_def)
  ultimately show ?thesis using c(1) by auto
qed

end
