(* ===== verification/Coded_Delivery.thy ===== *)
theory Coded_Delivery
  imports Delivery Fec_Correct Golay_Correct
begin

text \<open>
  The whole path over the radio: \<open>sky_tx_with_golay\<close> puts error correction and a length header around a frame,
  \<open>sky_rx_with_golay\<close> takes them off. The move by three bytes in the transmitter loses byte 0 of the coded frame, which
  costs one of the 16 byte errors that can be corrected.
\<close>

section \<open>The length header\<close>

definition header_word :: "bytes \<Rightarrow> u32" where
  "header_word bs = push_bit 16 (ucast (bs ! 0)) OR push_bit 8 (ucast (bs ! 1)) OR ucast (bs ! 2)"

lemma bit_header_word:
  "bit (header_word bs) i \<longleftrightarrow>
    (if i < 8 then bit (bs ! 2) i else if i < 16 then bit (bs ! 1) (i - 8) else bit (bs ! 0) (i - 16) \<and> i < 24)"
  using bit_imp_le_length [of "bs ! 2" i] bit_imp_le_length [of "bs ! 1" "i - 8"] bit_imp_le_length [of "bs ! 0" "i - 16"]
  by (auto simp: header_word_def bit_simps)

lemma header_word_24: "bit (header_word bs) i \<Longrightarrow> i < 24"
  by (auto simp: bit_header_word split: if_splits)

lemma encode_golay24_24: "bit (encode_golay24 d) i \<Longrightarrow> i < 24"
  using small_parity12 [of "d AND 0xfff"] and_fff [of d] by (auto simp: encode_word24 bit_word24 small_def split: if_splits)

lemma header_word_encoded:
  assumes "\<And>i. bit w i \<Longrightarrow> i < 24"
  shows "header_word ([ucast (drop_bit 16 w), ucast (drop_bit 8 w), ucast w] @ bs) = w"
  by (rule bit_word_eqI) (auto simp: bit_header_word bit_simps dest: assms)

lemma length_header_decoded:
  assumes "popcount (header_word bs XOR encode_golay24 (of_nat n)) \<le> 3" "n < 256"
  obtains ret w where "decode_golay24 (header_word bs) = (ret, w)" "0 \<le> ret" "unat (w AND SKY_GOLAY_PAYLOAD_LENGTH_MASK) = n"
proof -
  let ?c = "encode_golay24 (of_nat n)" and ?e = "header_word bs XOR encode_golay24 (of_nat n)"
  have "\<forall>i. bit ?e i \<longrightarrow> i < 24" using header_word_24 encode_golay24_24 by (auto simp: bit_simps)
  note G = golay_decode_encode [OF this assms(1), of "of_nat n"]
  have x: "?c XOR ?e = header_word bs" by (simp add: xor.commute [of "header_word bs"])
  have "?c AND 0xff = (?c AND 0xfff) AND 0xff" by (simp add: and.assoc)
  also have "\<dots> = of_nat n AND 0xff" using G by (simp add: and.assoc)
  also have "\<dots> = take_bit 8 (of_nat n)" by (simp add: take_bit_eq_mask mask_eq_exp_minus_1)
  also have "\<dots> = of_nat n" unfolding take_bit_of_nat using assms(2) by (simp add: take_bit_eq_mod)
  finally have "unat (?c AND 0xff) = n" using assms(2) by (simp add: unsigned_of_nat take_bit_nat_eq_self)
  then show ?thesis using that G x by (simp add: SKY_GOLAY_PAYLOAD_LENGTH_MASK_def)
qed

section \<open>Moving the data\<close>

lemma shift_right_spec:
  assumes "n + 3 < length bs"
  shows "\<exists>ws. shift_right_loop bs n = Some ws \<and> length ws = length bs \<and>
    (\<forall>k < length bs. ws ! k = (if 4 \<le> k \<and> k \<le> n + 3 then bs ! (k - 3) else bs ! k))"
  using assms
proof (induction n arbitrary: bs)
  case (Suc n)
  let ?b = "bs[Suc n + 3 := bs ! Suc n]"
  obtain ws where "shift_right_loop ?b n = Some ws" "length ws = length bs"
    "\<forall>k < length bs. ws ! k = (if 4 \<le> k \<and> k \<le> n + 3 then ?b ! (k - 3) else ?b ! k)"
    using Suc.IH [of ?b] Suc.prems by auto
  moreover have "(if 4 \<le> k \<and> k \<le> n + 3 then ?b ! (k - 3) else ?b ! k) = (if 4 \<le> k \<and> k \<le> Suc n + 3 then bs ! (k - 3) else bs ! k)"
    if "k < length bs" for k
    using that Suc.prems by (cases "k = Suc n + 3") (auto simp: nth_list_update)
  ultimately show ?case using Suc.prems by auto
qed auto

section \<open>Transmission\<close>

lemma golay_tx:
  assumes tx: "sky_tx ly hash now self frame0 = Some (1, self', plain)" and raw: "length (raw plain) = RAW_SIZE"
    and n: "frame_len plain + 35 < RAW_SIZE"
  obtains bs sent where "sky_tx_with_golay ly hash now self frame0 = Some (1, self', sent)"
    "frame_len sent = frame_len plain + 35" "length (raw sent) = RAW_SIZE" "length bs = RAW_SIZE"
    "header_word (raw sent) = encode_golay24 (of_nat (frame_len plain + RS_PARITYS))"
    "\<And>k. 4 \<le> k \<Longrightarrow> k < frame_len sent \<Longrightarrow> raw sent ! k = bs ! (k - 3)"
    "whiten (frame_len plain + RS_PARITYS) bs = Some (take (frame_len plain) (raw plain) @
       encode_rs_8 (take (frame_len plain) (raw plain)) @ drop (frame_len plain + RS_PARITYS) (raw plain))"
proof -
  let ?n = "frame_len plain"
  have 32: "RS_PARITYS = 32" "RS_MSGLEN = 223" "RAW_SIZE = 229" by (simp_all add: RS_PARITYS_def RS_MSGLEN_def RAW_SIZE_val)
  obtain bs where bs: "sky_fec_encode plain = Some (SKY_RET_OK, plain\<lparr>raw := bs, frame_len := ?n + RS_PARITYS\<rparr>)"
    "length bs = length (raw plain)"
    "whiten (?n + RS_PARITYS) bs = Some (take ?n (raw plain) @ encode_rs_8 (take ?n (raw plain)) @ drop (?n + RS_PARITYS) (raw plain))"
    by (rule fec_encode_run [of plain]) (use n raw in \<open>simp_all add: 32\<close>)
  obtain ws where ws: "shift_right_loop bs (?n + 32) = Some ws" "length ws = 229"
    "\<forall>k < 229. ws ! k = (if 4 \<le> k \<and> k \<le> ?n + 32 + 3 then bs ! (k - 3) else bs ! k)"
    using shift_right_spec [of "?n + 32" bs] bs(2) raw n by (auto simp: 32)
  define w where "w = encode_golay24 (of_nat (?n + 32))"
  define out where "out = [ucast (drop_bit 16 w), ucast (drop_bit 8 w), ucast w] @ drop 3 ws"
  define sent where "sent = plain\<lparr>raw := out, frame_len := ?n + 35\<rparr>"
  have "sky_tx_with_golay ly hash now self frame0 = Some (1, self', sent)"
    using tx bs(1) ws n
    by (simp add: sky_tx_with_golay_def sky_tx_with_fec_def 32 w_def sent_def out_def numeral_3_eq_3 add.commute Let_def)
  moreover have "header_word out = w"
    unfolding out_def by (rule header_word_encoded) (auto simp: w_def dest: encode_golay24_24)
  then have "header_word (raw sent) = w" by (simp add: sent_def)
  moreover have "raw sent ! k = bs ! (k - 3)" if "4 \<le> k" "k < frame_len sent" for k
    using that ws n by (auto simp: sent_def out_def nth_append numeral_3_eq_3 nth_Cons' 32)
  ultimately show ?thesis
    using that bs(2,3) ws(2) raw by (simp add: sent_def out_def w_def 32)
qed

section \<open>Reception\<close>

text \<open>The received data after the move, against the coded frame: the lost byte 0 counts as one error.\<close>

lemma byte_errors_Cons: "byte_errors (x # xs) (y # ys) \<le> Suc (byte_errors xs ys)"
  by (simp add: byte_errors_def)

lemma lost_byte:
  assumes len: "length a = RAW_SIZE" "length b = RAW_SIZE" "length bs = RAW_SIZE" and m: "1 \<le> m" "m + 3 < RAW_SIZE"
    and k: "\<And>k. 4 \<le> k \<Longrightarrow> k < m + 3 \<Longrightarrow> a ! k = bs ! (k - 3)"
  shows "byte_errors (take m bs) (take m (drop 3 b)) \<le> Suc (byte_errors (take (m - 1) (drop 4 a)) (take (m - 1) (drop 4 b)))"
proof -
  have a: "take m bs = bs ! 0 # take (m - 1) (drop 4 a)"
    by (rule nth_equalityI) (use len m in \<open>auto simp: nth_Cons' k\<close>)
  have b: "take m (drop 3 b) = b ! 3 # take (m - 1) (drop 4 b)"
    by (rule nth_equalityI) (use len m in \<open>auto simp: nth_Cons'\<close>)
  show ?thesis unfolding a b by (rule byte_errors_Cons)
qed

lemma bind_pair_Some: "Option.bind x (\<lambda>(a, b). Some (a, b, c)) = map_option (\<lambda>(a, b). (a, b, c)) x"
  by (cases x) auto

lemma golay_rx:
  assumes raw: "length (raw rcvd) = RAW_SIZE" and n: "SKY_FRAME_MIN_LEN \<le> n" "n + 35 \<le> RAW_SIZE"
    and h: "popcount (header_word (raw rcvd) XOR encode_golay24 (of_nat (n + RS_PARITYS))) \<le> 3"
    and sent: "whiten (n + RS_PARITYS) bs = Some (msg @ encode_rs_8 msg @ rest)" "length msg = n" "length bs = RAW_SIZE"
    and e: "byte_errors (take (n + RS_PARITYS) bs) (take (n + RS_PARITYS) (drop 3 (raw rcvd))) \<le> 16"
  obtains got d where "sky_rx_with_golay ly hash ticks self rcvd =
      map_option (\<lambda>(ret, self'). (ret, self', got)) (sky_rx ly hash ticks (self\<lparr>sky_diag := d\<rparr>) got)"
    "frame_len got = n" "take n (raw got) = msg" "length (raw got) = RAW_SIZE" "rx_time_ticks got = rx_time_ticks rcvd"
    "vc_stats d = vc_stats (sky_diag self)"
proof -
  let ?m = "n + RS_PARITYS"
  have 32: "RS_PARITYS = 32" "RS_MSGLEN = 223" "RAW_SIZE = 229" "SKY_FRAME_MIN_LEN = 7"
    by (simp_all add: RS_PARITYS_def RS_MSGLEN_def RAW_SIZE_val SKY_FRAME_MIN_LEN_def)
  have m: "?m < 256" "\<not> ?m > RAW_SIZE" "3 + ?m \<le> RAW_SIZE" using n by (simp_all add: 32)
  obtain ret w where g: "decode_golay24 (header_word (raw rcvd)) = (ret, w)" "0 \<le> ret" "unat (w AND SKY_GOLAY_PAYLOAD_LENGTH_MASK) = ?m"
    by (rule length_header_decoded [OF h m(1)])
  define ws where "ws = take ?m (drop 3 (raw rcvd)) @ drop ?m (raw rcvd)"
  define f1 where "f1 = rcvd\<lparr>frame_len := ?m, raw := ws\<rparr>"
  have ws: "shift_left_three (raw rcvd) ?m = Some ws" "length ws = RAW_SIZE" "take ?m ws = take ?m (drop 3 (raw rcvd))"
    using m raw by (simp_all add: shift_left_three_def ws_def 32)
  have "1 \<le> n" "n \<le> RS_MSGLEN" using n by (simp_all add: 32)
  then obtain data where dec: "sky_fec_decode f1 (sky_diag self) = Some (SKY_RET_OK, f1\<lparr>raw := data, frame_len := n\<rparr>,
      (sky_diag self)\<lparr>rx_fec_ok := rx_fec_ok (sky_diag self) + 1,
           rx_fec_errs := rx_fec_errs (sky_diag self) + of_nat (byte_errors (take ?m bs) (take ?m (raw f1))),
           rx_fec_octs := rx_fec_octs (sky_diag self) + of_nat ?m\<rparr>)"
    "take n data = msg" "length data = length (raw f1)"
    by (rule fec_decode_corrects [OF _ _ sent(1,2), of f1]) (use sent(3) ws e in \<open>simp_all add: f1_def\<close>)
  have "\<not> ?m < SKY_FRAME_MIN_LEN + RS_PARITYS" "\<not> SKY_RET_OK < 0" using n by (simp_all add: SKY_RET_OK_def)
  then have rx: "sky_rx_with_fec ly hash ticks self f1 = map_option (\<lambda>(ret, self'). (ret, self', f1\<lparr>raw := data, frame_len := n\<rparr>))
      (sky_rx ly hash ticks (self\<lparr>sky_diag := (sky_diag self)\<lparr>rx_fec_ok := rx_fec_ok (sky_diag self) + 1,
           rx_fec_errs := rx_fec_errs (sky_diag self) + of_nat (byte_errors (take ?m bs) (take ?m (raw f1))),
           rx_fec_octs := rx_fec_octs (sky_diag self) + of_nat ?m\<rparr>\<rparr>) (f1\<lparr>raw := data, frame_len := n\<rparr>))"
    using dec(1) by (simp add: sky_rx_with_fec_def f1_def bind_pair_Some)
  have "sky_rx_with_golay ly hash ticks self rcvd = sky_rx_with_fec ly hash ticks self f1"
    using g m(2) raw ws(1) unfolding sky_rx_with_golay_def header_word_def by (simp add: 32 f1_def Let_def)
  then show ?thesis
    by (rule that [OF trans [OF _ rx]]) (use dec(2,3) ws(2) in \<open>simp_all add: f1_def\<close>)
qed

text \<open>What a frame says depends on the bytes below its length only.\<close>

lemma sealed_same_bytes:
  assumes "sealed ly hash key auth pre f sq es pl frame" "frame_len got = frame_len frame" "length (raw got) = RAW_SIZE"
    "take (frame_len frame) (raw got) = take (frame_len frame) (raw frame)"
  shows "sealed ly hash key auth pre f sq es pl got"
proof -
  let ?n = "frame_len frame" and ?h = SKY_HMAC_LENGTH
  have len: "?n \<le> length (raw frame)" "length (raw frame) = RAW_SIZE" using assms(1) by (auto simp: sealed_def radio_view_def)
  have "take (?n - ?h) (raw got) = take (?n - ?h) (take ?n (raw got))" by (simp add: min_absorb1)
  then have t: "take (?n - ?h) (raw got) = take (?n - ?h) (raw frame)" unfolding assms(4) by (simp add: min_absorb1)
  have "take ?h (drop (?n - ?h) (raw got)) = take ?h (drop (?n - ?h) (raw frame))" if "?h \<le> ?n"
  proof -
    have "take ?h (drop (?n - ?h) xs) = drop (?n - ?h) (take ?n xs)" for xs :: bytes using that by (simp add: drop_take)
    then show ?thesis using assms(4) by metis
  qed
  moreover have "?h \<le> ?n" if "auth" using assms(1) that by (auto simp: sealed_def radio_view_def length_frame_bytes)
  ultimately have "auth \<Longrightarrow> code_ok hash key got = code_ok hash key frame" using t by (simp add: code_ok_def assms(2))
  then show ?thesis using assms len by (auto simp: sealed_def radio_view_def)
qed

lemma sealed_length:
  assumes "sealed ly hash key auth pre f sq es pl frame"
  shows "length pre + hdr_sizeof ly + length (enc_exts es) + length pl \<le> frame_len frame"
    "frame_len frame \<le> length pre + hdr_sizeof ly + length (enc_exts es) + length pl + SKY_HMAC_LENGTH"
proof -
  obtain code where "radio_view ly frame pre (if auth then set_bit 3 f else f) sq es (pl @ code)" "length code \<le> SKY_HMAC_LENGTH"
    using assms unfolding sealed_def by (metis le_refl list.size(3) zero_le)
  then show "length pre + hdr_sizeof ly + length (enc_exts es) + length pl \<le> frame_len frame"
    "frame_len frame \<le> length pre + hdr_sizeof ly + length (enc_exts es) + length pl + SKY_HMAC_LENGTH"
    by (simp_all add: radio_view_def length_frame_bytes)
qed

lemma shift_right_length: "shift_right_loop bs n = Some ws \<Longrightarrow> length ws = length bs"
  by (induction n arbitrary: bs) (auto simp: bind_eq_Some_conv upd_opt_eq_Some)

lemma golay_sent_length:
  assumes "sky_ok self" "layout_ok ly" "ticks_ok now" "sky_tx_with_golay ly hash now self frame0 = Some (1, self', sent)"
  shows "length (raw sent) = RAW_SIZE"
proof -
  obtain plain coded where p: "sky_tx ly hash now self frame0 = Some (1, self', plain)" "sky_fec_encode plain = Some coded"
    "length (raw sent) = length (raw (snd coded))"
    using assms(4) by (auto simp: sky_tx_with_golay_def sky_tx_with_fec_def bind_eq_Some_conv Let_def write_bytes_def
        dest!: shift_right_length split: if_splits)
  have "length (raw plain) = RAW_SIZE"
    by (rule sky_tx_ok [OF assms(1-3), of hash frame0])
      (use p(1) in \<open>auto simp: transmitted_def sealed_def radio_view_def\<close>)
  moreover have "length (raw (snd coded)) = length (raw plain)"
    using p(2) by (auto simp: sky_fec_encode_def Let_def bind_eq_Some_conv dest!: whiten_nth(2) length_write_bytes split: if_splits)
  ultimately show ?thesis using p(3) by simp
qed

section \<open>Properties\<close>

text \<open>
  C4: a packet gets across a noisy radio link. When it is the turn of a channel without ARQ whose queue starts with a
  packet of at most 160 bytes, \<open>sky_tx_with_golay\<close> produces a coded frame with that packet. A peer that hears it with
  at most 3 of the 24 header bits inverted and at most 15 of the other bytes altered (beyond byte 3, the lost byte, whose
  value does not matter) accepts the frame: when the receive queue of the same channel has room it ends with exactly that
  packet afterwards, behind the packets it held; when it has no room the packet is dropped and the channel is unchanged.
\<close>

theorem coded_delivery:
  assumes "sky_reach ly hash a" "sky_reach ly hash b" "layout_ok ly" "ticks_ok now" "ticks_ok now'"
    "turn_of a now vc" "tx_queue (virtual_channels a ! vc) (d # ds)" "d \<noteq> []" "length d \<le> 160"
    "other_identity (sky_conf b) (own_identity (sky_conf a))" "trusts b a vc"
    "arq_state_flag (virtual_channels b ! vc) = ARQ_STATE_OFF" "rx_queue (virtual_channels b ! vc) xs"
  shows "\<exists>a' sent. sky_tx_with_golay ly hash now a frame0 = Some (1, a', sent) \<and> tx_queue (virtual_channels a' ! vc) ds \<and>
    (\<forall>rcvd. length (raw rcvd) = RAW_SIZE \<and> ticks_ok (rx_time_ticks rcvd) \<and>
       popcount (header_word (raw rcvd) XOR header_word (raw sent)) \<le> 3 \<and>
       byte_errors (take (frame_len sent - 4) (drop 4 (raw sent))) (take (frame_len sent - 4) (drop 4 (raw rcvd))) \<le> 15 \<longrightarrow>
       (\<exists>b' out r. sky_rx_with_golay ly hash now' b rcvd = Some (0, b', out) \<and>
          sky_vc_push_rx_packet_monotonic (virtual_channels b ! vc) d = Some (r, virtual_channels b' ! vc) \<and>
          (if rx_room (virtual_channels b ! vc) xs d then 0 \<le> r \<and> rx_queue (virtual_channels b' ! vc) (xs @ [d])
           else r < 0 \<and> virtual_channels b' ! vc = virtual_channels b ! vc)))"
proof -
  have ok: "sky_ok a" "sky_ok b" using sky_reach_ok assms(1-3) by blast+
  have vc: "vc < SKY_NUM_VIRTUAL_CHANNELS" using assms(6) by (simp add: turn_of_def)
  obtain a' plain es where tx: "sky_tx ly hash now a frame0 = Some (1, a', plain)" "tx_queue (virtual_channels a' ! vc) ds"
    "list_all ext_ok es" "distinct (map fst es)" "map_of es EXTENSION_ARQ_HANDSHAKE = None"
    "sealed ly hash (hmac_key (sky_hmac a)) (authenticates (conf_vc (sky_conf a) ! vc)) (frame_start (own_identity (sky_conf a)))
      (set_bit 4 (of_nat vc AND 3)) (sky_hton16 (sequence_tx (sky_hmac a) ! vc)) es d plain"
    "length (enc_exts es) + length (frame_start (own_identity (sky_conf a))) + hdr_sizeof ly \<le> 23"
    by (rule tx_sends_packet [OF ok(1) assms(3,4,6,7,8)]) (rule that, assumption+)
  let ?n = "frame_len plain"
  have raw: "length (raw plain) = RAW_SIZE" "?n \<le> RAW_SIZE" using tx(6) by (auto simp: sealed_def radio_view_def)
  have n: "?n + 35 < RAW_SIZE" "SKY_FRAME_MIN_LEN \<le> ?n"
  proof -
    note len = sealed_length [OF tx(6)]
    show "?n + 35 < RAW_SIZE" using len(2) tx(7) assms(9) by (simp add: RAW_SIZE_val SKY_HMAC_LENGTH_def)
    have "3 \<le> length (own_identity (sky_conf a))"
      using sky_okD(1) [OF ok(1)] by (auto simp: conf_ok_def SKY_MAX_IDENTITY_LEN_def)
    moreover have "3 \<le> hdr_sizeof ly" using assms(3) by (simp add: layout_ok_def)
    ultimately show "SKY_FRAME_MIN_LEN \<le> ?n" using len(1) unfolding frame_start_def SKY_FRAME_MIN_LEN_def list.size by linarith
  qed
  obtain bs sent where s: "sky_tx_with_golay ly hash now a frame0 = Some (1, a', sent)"
    "frame_len sent = ?n + 35" "length (raw sent) = RAW_SIZE" "length bs = RAW_SIZE"
    "header_word (raw sent) = encode_golay24 (of_nat (?n + RS_PARITYS))"
    "\<And>k. 4 \<le> k \<Longrightarrow> k < frame_len sent \<Longrightarrow> raw sent ! k = bs ! (k - 3)"
    "whiten (?n + RS_PARITYS) bs = Some (take ?n (raw plain) @ encode_rs_8 (take ?n (raw plain)) @ drop (?n + RS_PARITYS) (raw plain))"
    by (rule golay_tx [OF tx(1) raw(1) n(1)]) (rule that, assumption+)
  have "\<exists>b' out r. sky_rx_with_golay ly hash now' b rcvd = Some (0, b', out) \<and>
      sky_vc_push_rx_packet_monotonic (virtual_channels b ! vc) d = Some (r, virtual_channels b' ! vc) \<and>
      (if rx_room (virtual_channels b ! vc) xs d then 0 \<le> r \<and> rx_queue (virtual_channels b' ! vc) (xs @ [d])
       else r < 0 \<and> virtual_channels b' ! vc = virtual_channels b ! vc)"
    if r: "length (raw rcvd) = RAW_SIZE" "ticks_ok (rx_time_ticks rcvd)"
      "popcount (header_word (raw rcvd) XOR header_word (raw sent)) \<le> 3"
      "byte_errors (take (frame_len sent - 4) (drop 4 (raw sent))) (take (frame_len sent - 4) (drop 4 (raw rcvd))) \<le> 15" for rcvd
  proof -
    have "byte_errors (take (?n + RS_PARITYS) bs) (take (?n + RS_PARITYS) (drop 3 (raw rcvd))) \<le>
        Suc (byte_errors (take (?n + RS_PARITYS - 1) (drop 4 (raw sent))) (take (?n + RS_PARITYS - 1) (drop 4 (raw rcvd))))"
      by (rule lost_byte [OF s(3) r(1) s(4)]) (use n(1) s(2,6) in \<open>simp_all add: RS_PARITYS_def\<close>)
    then have e: "byte_errors (take (?n + RS_PARITYS) bs) (take (?n + RS_PARITYS) (drop 3 (raw rcvd))) \<le> 16"
      using r(4) s(2) by (simp add: RS_PARITYS_def)
    have n': "?n + 35 \<le> RAW_SIZE" "length (take ?n (raw plain)) = ?n" using n(1) raw by simp_all
    obtain got dg where g: "sky_rx_with_golay ly hash now' b rcvd =
        map_option (\<lambda>(ret, self'). (ret, self', got)) (sky_rx ly hash now' (b\<lparr>sky_diag := dg\<rparr>) got)"
      "frame_len got = ?n" "take ?n (raw got) = take ?n (raw plain)" "length (raw got) = RAW_SIZE" "rx_time_ticks got = rx_time_ticks rcvd"
      "vc_stats dg = vc_stats (sky_diag b)"
      by (rule golay_rx [OF r(1) n(2) n'(1) r(3) [unfolded s(5)] s(7) n'(2) s(4) e]) (rule that, assumption+)
    let ?b = "b\<lparr>sky_diag := dg\<rparr>"
    have b: "sky_ok ?b" "trusts ?b a vc" using ok(2) g(6) assms(11) by (simp_all add: sky_ok_def trusts_def)
    have other: "other_identity (sky_conf ?b) (own_identity (sky_conf a))" using assms(10) by simp
    have off: "arq_state_flag (virtual_channels ?b ! vc) = ARQ_STATE_OFF" using assms(12) by simp
    note sl = sealed_same_bytes [OF tx(6) g(2,4,3)]
    obtain b' q where rx: "sky_rx ly hash now' ?b (got\<lparr>rx_time_ticks := rx_time_ticks rcvd\<rparr>) = Some (0, b')"
      "sky_vc_push_rx_packet_monotonic (virtual_channels ?b ! vc) d = Some (q, virtual_channels b' ! vc)"
      by (rule rx_receives_packet [OF b(1) assms(5) r(2) vc b(2) ok(1) other off assms(8) tx(3-5) sl]) (rule that, assumption+)
    have "got\<lparr>rx_time_ticks := rx_time_ticks rcvd\<rparr> = got" using g(5) by simp
    then have "sky_rx_with_golay ly hash now' b rcvd = Some (0, b', got)" using g(1) rx(1) by simp
    moreover have "sky_vc_push_rx_packet_monotonic (virtual_channels b ! vc) d = Some (q, virtual_channels b' ! vc)" using rx(2) by simp
    ultimately show ?thesis using rx_store_outcome [OF assms(13) queued_length [OF assms(7)]] by blast
  qed
  then show ?thesis using s(1) tx(2) by blast
qed

theorem coded_delivery_witness:
  "\<exists>a b a' sent b' out r. sky_tx_with_golay layout_gcc (\<lambda>_ _ _. 0) 10 a (tx_radio sample_tx) = Some (1, a', sent) \<and>
     sky_rx_with_golay layout_gcc (\<lambda>_ _ _. 0) 30 b (sent\<lparr>rx_time_ticks := 20, raw := (raw sent)[3 := 0xff]\<rparr>) = Some (0, b', out) \<and>
     sky_vc_push_rx_packet_monotonic (virtual_channels b ! 2) [1, 2, 3] = Some (r, virtual_channels b' ! 2) \<and>
     rx_queue (virtual_channels b ! 2) [] \<and> 0 \<le> r \<and> rx_queue (virtual_channels b' ! 2) [[1, 2, 3]]"
proof -
  obtain a where a: "sky_reach layout_gcc (\<lambda>_ _ _. 0) a" "turn_of a 10 2" "tx_queue (virtual_channels a ! 2) [[1, 2, 3]]"
    "own_identity (sky_conf a) = [8, 8, 8]" "\<not> authenticates (conf_vc (sky_conf a) ! 2)"
    by (rule sample_turn)
  obtain b where b: "sky_reach layout_gcc (\<lambda>_ _ _. 0) b" "trusts b a 2" "other_identity (sky_conf b) (own_identity (sky_conf a))"
    "arq_state_flag (virtual_channels b ! 2) = ARQ_STATE_OFF" "rx_queue (virtual_channels b ! 2) []"
    "rx_room (virtual_channels b ! 2) [] [1, 2, 3]"
    by (rule sample_peer [OF a(4)]) (rule that, assumption+)
  have t: "layout_ok layout_gcc" "ticks_ok 10" "ticks_ok 30" "ticks_ok 20"
    by (simp_all add: layout_ok_def layout_gcc_def ticks_ok_def MOD_TIME_TICKS_def)
  have d: "[1, 2, 3] \<noteq> ([] :: bytes)" "length [1, 2, 3 :: byte] \<le> 160" by simp_all
  obtain a' sent where s: "sky_tx_with_golay layout_gcc (\<lambda>_ _ _. 0) 10 a (tx_radio sample_tx) = Some (1, a', sent)"
    "\<And>rcvd. length (raw rcvd) = RAW_SIZE \<and> ticks_ok (rx_time_ticks rcvd) \<and>
       popcount (header_word (raw rcvd) XOR header_word (raw sent)) \<le> 3 \<and>
       byte_errors (take (frame_len sent - 4) (drop 4 (raw sent))) (take (frame_len sent - 4) (drop 4 (raw rcvd))) \<le> 15 \<Longrightarrow>
       \<exists>b' out r. sky_rx_with_golay layout_gcc (\<lambda>_ _ _. 0) 30 b rcvd = Some (0, b', out) \<and>
          sky_vc_push_rx_packet_monotonic (virtual_channels b ! 2) [1, 2, 3] = Some (r, virtual_channels b' ! 2) \<and>
          0 \<le> r \<and> rx_queue (virtual_channels b' ! 2) [[1, 2, 3]]"
    using coded_delivery [OF a(1) b(1) t(1-3) a(2,3) d b(3,2,4,5), of "tx_radio sample_tx"] b(6)
    by (simp only: if_True append_Nil) blast
  let ?r = "sent\<lparr>rx_time_ticks := 20, raw := (raw sent)[3 := 0xff]\<rparr>"
  have "header_word (raw ?r) = header_word (raw sent)" by (simp add: header_word_def)
  moreover have "drop 4 (raw ?r) = drop 4 (raw sent)" by simp
  moreover have "byte_errors xs xs = 0" for xs by (induction xs) (simp_all add: byte_errors_def)
  moreover have "length (raw sent) = RAW_SIZE" using golay_sent_length [OF sky_reach_ok [OF a(1) t(1)] t(1,2) s(1)] .
  ultimately have "\<exists>b' out r. sky_rx_with_golay layout_gcc (\<lambda>_ _ _. 0) 30 b ?r = Some (0, b', out) \<and>
      sky_vc_push_rx_packet_monotonic (virtual_channels b ! 2) [1, 2, 3] = Some (r, virtual_channels b' ! 2) \<and>
      0 \<le> r \<and> rx_queue (virtual_channels b' ! 2) [[1, 2, 3]]"
    using t(4) by (intro s(2)) (simp_all add: popcount_def)
  then show ?thesis using s(1) b(5) by blast
qed

text \<open>
  C19: reception is safe for every input but three lengths. Whatever bytes arrive, \<open>sky_rx_with_golay\<close> returns and keeps the
  invariant of the instance, unless the length header decodes to 227, 228 or 229: these lengths pass the check against the
  size of the buffer, and the move of the data then reads beyond its end.
\<close>

theorem coded_reception_safe:
  assumes "sky_reach ly hash self" "layout_ok ly" "ticks_ok now" "length (raw frame) = RAW_SIZE" "ticks_ok (rx_time_ticks frame)"
  shows "(sky_rx_with_golay ly hash now self frame = None \<longleftrightarrow>
      0 \<le> fst (decode_golay24 (header_word (raw frame))) \<and>
      unat (snd (decode_golay24 (header_word (raw frame))) AND SKY_GOLAY_PAYLOAD_LENGTH_MASK) \<in> {227, 228, 229}) \<and>
    (\<forall>ret self' frame'. sky_rx_with_golay ly hash now self frame = Some (ret, self', frame') \<longrightarrow> sky_ok self')"
proof -
  have ok: "sky_ok self" using sky_reach_ok assms(1,2) by blast
  obtain ret w where g: "decode_golay24 (header_word (raw frame)) = (ret, w)" by (cases "decode_golay24 (header_word (raw frame))")
  let ?m = "unat (w AND SKY_GOLAY_PAYLOAD_LENGTH_MASK)"
  have R: "RAW_SIZE = 229" by (rule RAW_SIZE_val)
  have run: "sky_rx_with_golay ly hash now self frame = (if ret < 0 then Some (SKY_RET_GOLAY_FAILED,
        self\<lparr>sky_diag := (sky_diag self)\<lparr>rx_fec_fail := rx_fec_fail (sky_diag self) + 1\<rparr>\<rparr>, frame)
      else if ?m > RAW_SIZE then Some (SKY_RET_INVALID_ENCODED_LENGTH, self, frame\<lparr>frame_len := ?m\<rparr>)
      else Option.bind (shift_left_three (raw frame) ?m) (\<lambda>bs. sky_rx_with_fec ly hash now self (frame\<lparr>frame_len := ?m, raw := bs\<rparr>)))"
    using g assms(4) unfolding sky_rx_with_golay_def header_word_def by (simp add: R Let_def)
  have fec: "\<exists>r s f. sky_rx_with_fec ly hash now self (frame\<lparr>frame_len := ?m, raw := bs\<rparr>) = Some (r, s, f) \<and> sky_ok s"
    if "length bs = RAW_SIZE" "?m \<le> RAW_SIZE" for bs
  proof (cases "?m < SKY_FRAME_MIN_LEN + RS_PARITYS")
    case True
    then show ?thesis using ok by (simp add: sky_rx_with_fec_def)
  next
    case False
    let ?f = "frame\<lparr>frame_len := ?m, raw := bs\<rparr>"
    have pre: "length (raw ?f) = RAW_SIZE" "frame_len ?f \<le> RAW_SIZE" using that by simp_all
    obtain r f d where f: "sky_fec_decode ?f (sky_diag self) = Some (r, f, d)" "length (raw f) = RAW_SIZE" "frame_len f \<le> RAW_SIZE"
      "rx_time_ticks f = rx_time_ticks ?f" "vc_stats d = vc_stats (sky_diag self)"
      by (rule fec_decode_total [OF pre, of "sky_diag self"]) (rule that, assumption+)
    have ok': "sky_ok (self\<lparr>sky_diag := d\<rparr>)" using ok f(5) by (simp add: sky_ok_def)
    have "rx_frame_ok f" using f(2-4) assms(5) by (simp add: rx_frame_ok_def)
    then obtain r' s' where "sky_rx ly hash now (self\<lparr>sky_diag := d\<rparr>) f = Some (r', s')" "sky_ok s'"
      by (rule sky_rx_ok [OF ok' assms(2) _ assms(3)]) (rule that, assumption+)
    then show ?thesis using f(1) ok' False by (cases "r < 0") (auto simp: sky_rx_with_fec_def)
  qed
  have sh: "shift_left_three (raw frame) ?m = (if ?m \<le> 226 then Some (take ?m (drop 3 (raw frame)) @ drop ?m (raw frame)) else None)"
    using assms(4) by (auto simp: shift_left_three_def read_bytes_def R)
  have "?m \<in> {227, 228, 229} \<longleftrightarrow> 226 < ?m \<and> ?m \<le> 229" by auto
  moreover have "sky_ok (self\<lparr>sky_diag := (sky_diag self)\<lparr>rx_fec_fail := rx_fec_fail (sky_diag self) + 1\<rparr>\<rparr>)"
    using ok by (simp add: sky_ok_def)
  moreover obtain r s f where "?m \<le> 226 \<Longrightarrow> sky_rx_with_fec ly hash now self (frame\<lparr>frame_len := ?m,
      raw := take ?m (drop 3 (raw frame)) @ drop ?m (raw frame)\<rparr>) = Some (r, s, f) \<and> sky_ok s"
    using fec [of "take ?m (drop 3 (raw frame)) @ drop ?m (raw frame)"] assms(4) by (fastforce simp: R)
  ultimately show ?thesis using ok unfolding run g sh by (auto simp: R)
qed

text \<open>A header of 24 zero bits is a code word and announces length 0; the header of length 229 makes reception fail.\<close>

theorem coded_reception_safe_witness:
  "\<exists>self. sky_rx_with_golay layout_gcc (\<lambda>_ _ _. 0) 30 self \<lparr>rx_time_ticks = 20, frame_len = 0, raw = replicate 229 0\<rparr> \<noteq> None \<and>
     (\<exists>bs. sky_rx_with_golay layout_gcc (\<lambda>_ _ _. 0) 30 self \<lparr>rx_time_ticks = 20, frame_len = 0, raw = bs\<rparr> = None)"
proof -
  obtain a where a: "sky_reach layout_gcc (\<lambda>_ _ _. 0) a" by (rule sample_turn)
  have t: "layout_ok layout_gcc" "ticks_ok 30" "ticks_ok 20"
    by (simp_all add: layout_ok_def layout_gcc_def ticks_ok_def MOD_TIME_TICKS_def)
  have safe: "sky_rx_with_golay layout_gcc (\<lambda>_ _ _. 0) 30 a \<lparr>rx_time_ticks = 20, frame_len = 0, raw = bs\<rparr> = None \<longleftrightarrow>
      0 \<le> fst (decode_golay24 (header_word bs)) \<and> unat (snd (decode_golay24 (header_word bs)) AND SKY_GOLAY_PAYLOAD_LENGTH_MASK) \<in> {227, 228, 229}"
    if "length bs = RAW_SIZE" for bs
    using coded_reception_safe [OF a t(1,2), of "\<lparr>rx_time_ticks = 20, frame_len = 0, raw = bs\<rparr>"] that t(3) by simp
  have announced: "\<exists>ret w. decode_golay24 (encode_golay24 (of_nat n)) = (ret, w) \<and> 0 \<le> ret \<and> unat (w AND SKY_GOLAY_PAYLOAD_LENGTH_MASK) = n"
    if "n < 256" "header_word bs = encode_golay24 (of_nat n)" for n bs
    by (rule length_header_decoded [of bs n]) (use that in \<open>simp_all add: popcount_def\<close>)
  let ?w = "encode_golay24 (of_nat 229)"
  let ?bs = "[ucast (drop_bit 16 ?w), ucast (drop_bit 8 ?w), ucast ?w] @ replicate 226 0"
  have h: "header_word ?bs = ?w" by (rule header_word_encoded) (rule encode_golay24_24)
  have "encode_golay24 (of_nat 0) = 0" by (simp add: encode_golay24_def parity_bits_def golay_H_def builtin_parity_def popcount_def)
  then have z: "header_word (replicate 229 0) = encode_golay24 (of_nat 0)" by (simp add: header_word_def)
  show ?thesis
    using safe [of ?bs] safe [of "replicate 229 0"] announced [OF _ h] announced [OF _ z] unfolding h z
    by (auto simp: RAW_SIZE_val intro!: exI [of _ a] exI [of _ ?bs])
qed

end
