(* ===== verification/Blake3.thy ===== *)
theory Blake3
  imports Sky_Prelude
begin

text \<open>
  \<open>ext/blake3\<close>: the hash function behind the authentication of frames, as it is compiled here: the SIMD variants are
  switched off in \<open>blake3_impl.h\<close>, so \<open>blake3_dispatch.c\<close> always takes the portable functions and the SIMD degree is 1.
  Chaining values are lists of eight words inside a chunk and lists of 32 bytes on the stack of a hasher. Lengths are
  natural numbers; the chunk counter keeps its 64 bits. A hasher function returns \<open>None\<close> where the code would leave the
  stack or fail an assertion.
\<close>

section \<open>The compression function (\<open>blake3_portable.c\<close>, \<open>blake3_impl.h\<close>)\<close>

type_synonym u64 = "64 word"

definition BLAKE3_OUT_LEN :: nat where "BLAKE3_OUT_LEN = 32"
definition BLAKE3_BLOCK_LEN :: nat where "BLAKE3_BLOCK_LEN = 64"
definition BLAKE3_CHUNK_LEN :: nat where "BLAKE3_CHUNK_LEN = 1024"
definition BLAKE3_MAX_DEPTH :: nat where "BLAKE3_MAX_DEPTH = 54"

definition CHUNK_START :: byte where "CHUNK_START = 1"
definition CHUNK_END :: byte where "CHUNK_END = 2"
definition PARENT :: byte where "PARENT = 4"
definition ROOT :: byte where "ROOT = 8"
definition KEYED_HASH :: byte where "KEYED_HASH = 16"
definition DERIVE_KEY_CONTEXT :: byte where "DERIVE_KEY_CONTEXT = 32"
definition DERIVE_KEY_MATERIAL :: byte where "DERIVE_KEY_MATERIAL = 64"

definition MAX_SIMD_DEGREE :: nat where "MAX_SIMD_DEGREE = 1"
definition MAX_SIMD_DEGREE_OR_2 :: nat where
  "MAX_SIMD_DEGREE_OR_2 = (if MAX_SIMD_DEGREE > 2 then MAX_SIMD_DEGREE else 2)"
definition blake3_simd_degree :: nat where "blake3_simd_degree = 1"

definition blake3_IV :: "u32 list" where
  "blake3_IV = [0x6A09E667, 0xBB67AE85, 0x3C6EF372, 0xA54FF53A, 0x510E527F, 0x9B05688C, 0x1F83D9AB, 0x5BE0CD19]"

definition MSG_SCHEDULE :: "nat list list" where
  "MSG_SCHEDULE = [
     [0, 1, 2, 3, 4, 5, 6, 7, 8, 9, 10, 11, 12, 13, 14, 15],
     [2, 6, 3, 10, 7, 0, 4, 13, 1, 11, 12, 5, 9, 14, 15, 8],
     [3, 4, 10, 12, 13, 2, 7, 14, 6, 5, 9, 0, 11, 15, 8, 1],
     [10, 7, 12, 9, 14, 3, 13, 15, 4, 0, 11, 2, 5, 8, 1, 6],
     [12, 13, 9, 11, 15, 10, 14, 8, 7, 2, 5, 3, 0, 1, 6, 4],
     [9, 14, 11, 5, 8, 12, 15, 1, 13, 3, 0, 10, 2, 6, 4, 7],
     [11, 15, 5, 0, 1, 9, 8, 6, 14, 10, 2, 12, 3, 4, 7, 13]]"

definition rotr32 :: "u32 \<Rightarrow> nat \<Rightarrow> u32" where
  "rotr32 w c = drop_bit c w OR push_bit (32 - c) w"

definition blake3_load32 :: "bytes \<Rightarrow> nat \<Rightarrow> u32" where
  "blake3_load32 p i =
     ucast (p ! i) OR push_bit 8 (ucast (p ! (i + 1))) OR push_bit 16 (ucast (p ! (i + 2))) OR push_bit 24 (ucast (p ! (i + 3)))"

definition blake3_store32 :: "u32 \<Rightarrow> bytes" where
  "blake3_store32 w = [ucast w, ucast (drop_bit 8 w), ucast (drop_bit 16 w), ucast (drop_bit 24 w)]"

definition load_key_words :: "bytes \<Rightarrow> u32 list" where
  "load_key_words key = map (\<lambda>i. blake3_load32 key (i * 4)) [0, 1, 2, 3, 4, 5, 6, 7]"

definition store_cv_words :: "u32 list \<Rightarrow> bytes" where
  "store_cv_words cv = concat (map (\<lambda>i. blake3_store32 (cv ! i)) [0, 1, 2, 3, 4, 5, 6, 7])"

definition counter_low :: "u64 \<Rightarrow> u32" where "counter_low counter = ucast counter"
definition counter_high :: "u64 \<Rightarrow> u32" where "counter_high counter = ucast (drop_bit 32 counter)"

definition blake3_g :: "u32 list \<Rightarrow> nat \<Rightarrow> nat \<Rightarrow> nat \<Rightarrow> nat \<Rightarrow> u32 \<Rightarrow> u32 \<Rightarrow> u32 list" where
  "blake3_g state a b c d x y =
     (let s1 = state[a := state ! a + state ! b + x];
          s2 = s1[d := rotr32 (s1 ! d XOR s1 ! a) 16];
          s3 = s2[c := s2 ! c + s2 ! d];
          s4 = s3[b := rotr32 (s3 ! b XOR s3 ! c) 12];
          s5 = s4[a := s4 ! a + s4 ! b + y];
          s6 = s5[d := rotr32 (s5 ! d XOR s5 ! a) 8];
          s7 = s6[c := s6 ! c + s6 ! d]
      in s7[b := rotr32 (s7 ! b XOR s7 ! c) 7])"

definition round_fn :: "u32 list \<Rightarrow> u32 list \<Rightarrow> nat \<Rightarrow> u32 list" where
  "round_fn state msg round =
     (let schedule = MSG_SCHEDULE ! round;
          s1 = blake3_g state 0 4 8 12 (msg ! (schedule ! 0)) (msg ! (schedule ! 1));
          s2 = blake3_g s1 1 5 9 13 (msg ! (schedule ! 2)) (msg ! (schedule ! 3));
          s3 = blake3_g s2 2 6 10 14 (msg ! (schedule ! 4)) (msg ! (schedule ! 5));
          s4 = blake3_g s3 3 7 11 15 (msg ! (schedule ! 6)) (msg ! (schedule ! 7));
          s5 = blake3_g s4 0 5 10 15 (msg ! (schedule ! 8)) (msg ! (schedule ! 9));
          s6 = blake3_g s5 1 6 11 12 (msg ! (schedule ! 10)) (msg ! (schedule ! 11));
          s7 = blake3_g s6 2 7 8 13 (msg ! (schedule ! 12)) (msg ! (schedule ! 13))
      in blake3_g s7 3 4 9 14 (msg ! (schedule ! 14)) (msg ! (schedule ! 15)))"

definition compress_pre :: "u32 list \<Rightarrow> bytes \<Rightarrow> nat \<Rightarrow> u64 \<Rightarrow> byte \<Rightarrow> u32 list" where
  "compress_pre cv block block_len counter flags =
     (let block_words = map (\<lambda>i. blake3_load32 block (4 * i)) [0, 1, 2, 3, 4, 5, 6, 7, 8, 9, 10, 11, 12, 13, 14, 15];
          state = [cv ! 0, cv ! 1, cv ! 2, cv ! 3, cv ! 4, cv ! 5, cv ! 6, cv ! 7,
                   blake3_IV ! 0, blake3_IV ! 1, blake3_IV ! 2, blake3_IV ! 3,
                   counter_low counter, counter_high counter, of_nat block_len, ucast flags]
      in foldl (\<lambda>st round. round_fn st block_words round) state [0, 1, 2, 3, 4, 5, 6])"

definition blake3_compress_in_place :: "u32 list \<Rightarrow> bytes \<Rightarrow> nat \<Rightarrow> u64 \<Rightarrow> byte \<Rightarrow> u32 list" where
  "blake3_compress_in_place cv block block_len counter flags =
     (let state = compress_pre cv block block_len counter flags
      in map (\<lambda>i. state ! i XOR state ! (i + 8)) [0, 1, 2, 3, 4, 5, 6, 7])"

definition blake3_compress_xof :: "u32 list \<Rightarrow> bytes \<Rightarrow> nat \<Rightarrow> u64 \<Rightarrow> byte \<Rightarrow> bytes" where
  "blake3_compress_xof cv block block_len counter flags =
     (let state = compress_pre cv block block_len counter flags
      in concat (map (\<lambda>i. blake3_store32 (state ! i XOR state ! (i + 8))) [0, 1, 2, 3, 4, 5, 6, 7]) @
         concat (map (\<lambda>i. blake3_store32 (state ! (i + 8) XOR cv ! i)) [0, 1, 2, 3, 4, 5, 6, 7]))"

text \<open>The loop of \<open>hash_one_portable\<close>, with the flags of the next block.\<close>

fun hash_one_loop :: "bytes \<Rightarrow> nat \<Rightarrow> u32 list \<Rightarrow> u64 \<Rightarrow> byte \<Rightarrow> byte \<Rightarrow> byte \<Rightarrow> u32 list" where
  "hash_one_loop input 0 cv counter flags block_flags flags_end = cv"
| "hash_one_loop input (Suc blocks) cv counter flags block_flags flags_end =
     hash_one_loop (drop BLAKE3_BLOCK_LEN input) blocks
       (blake3_compress_in_place cv (take BLAKE3_BLOCK_LEN input) BLAKE3_BLOCK_LEN counter
          (if blocks = 0 then block_flags OR flags_end else block_flags))
       counter flags flags flags_end"

definition hash_one_portable :: "bytes \<Rightarrow> nat \<Rightarrow> u32 list \<Rightarrow> u64 \<Rightarrow> byte \<Rightarrow> byte \<Rightarrow> byte \<Rightarrow> bytes" where
  "hash_one_portable input blocks key counter flags flags_start flags_end =
     store_cv_words (hash_one_loop input blocks key counter flags (flags OR flags_start) flags_end)"

fun blake3_hash_many :: "bytes list \<Rightarrow> nat \<Rightarrow> u32 list \<Rightarrow> u64 \<Rightarrow> bool \<Rightarrow> byte \<Rightarrow> byte \<Rightarrow> byte \<Rightarrow> bytes list" where
  "blake3_hash_many [] blocks key counter increment_counter flags flags_start flags_end = []"
| "blake3_hash_many (input # inputs) blocks key counter increment_counter flags flags_start flags_end =
     hash_one_portable input blocks key counter flags flags_start flags_end #
     blake3_hash_many inputs blocks key (if increment_counter then counter + 1 else counter) increment_counter
       flags flags_start flags_end"

text \<open>\<open>__builtin_clzll\<close> and \<open>__builtin_popcountll\<close>.\<close>

fun highest_one :: "nat \<Rightarrow> nat" where
  "highest_one x = (if x \<le> 1 then 0 else Suc (highest_one (x div 2)))"

declare highest_one.simps [simp del]

definition popcnt :: "u64 \<Rightarrow> nat" where
  "popcnt x = length (filter (bit x) [0..<64])"

definition round_down_to_power_of_2 :: "nat \<Rightarrow> nat" where
  "round_down_to_power_of_2 x = 2 ^ highest_one (x OR 1)"

section \<open>Chunks (\<open>blake3.c\<close>)\<close>

record blake3_chunk_state =
  cs_cv :: "u32 list"
  chunk_counter :: u64
  cs_buf :: bytes
  buf_len :: nat
  blocks_compressed :: nat
  cs_flags :: byte

record output_t =
  out_cv :: "u32 list"
  out_counter :: u64
  out_block :: bytes
  out_block_len :: nat
  out_flags :: byte

definition chunk_state_init :: "u32 list \<Rightarrow> byte \<Rightarrow> blake3_chunk_state" where
  "chunk_state_init key flags =
     \<lparr>cs_cv = key, chunk_counter = 0, cs_buf = replicate BLAKE3_BLOCK_LEN 0, buf_len = 0, blocks_compressed = 0, cs_flags = flags\<rparr>"

definition chunk_state_reset :: "blake3_chunk_state \<Rightarrow> u32 list \<Rightarrow> u64 \<Rightarrow> blake3_chunk_state" where
  "chunk_state_reset self key counter =
     self\<lparr>cs_cv := key, chunk_counter := counter, blocks_compressed := 0, cs_buf := replicate BLAKE3_BLOCK_LEN 0, buf_len := 0\<rparr>"

definition chunk_state_len :: "blake3_chunk_state \<Rightarrow> nat" where
  "chunk_state_len self = BLAKE3_BLOCK_LEN * blocks_compressed self + buf_len self"

text \<open>The number of bytes taken, and the state.\<close>

definition chunk_state_fill_buf :: "blake3_chunk_state \<Rightarrow> bytes \<Rightarrow> nat \<times> blake3_chunk_state" where
  "chunk_state_fill_buf self input =
     (let tk = min (BLAKE3_BLOCK_LEN - buf_len self) (length input)
      in (tk, self\<lparr>cs_buf := take (buf_len self) (cs_buf self) @ take tk input @ drop (buf_len self + tk) (cs_buf self),
                    buf_len := buf_len self + tk\<rparr>))"

definition chunk_state_maybe_start_flag :: "blake3_chunk_state \<Rightarrow> byte" where
  "chunk_state_maybe_start_flag self = (if blocks_compressed self = 0 then CHUNK_START else 0)"

definition make_output :: "u32 list \<Rightarrow> bytes \<Rightarrow> nat \<Rightarrow> u64 \<Rightarrow> byte \<Rightarrow> output_t" where
  "make_output input_cv block block_len counter flags =
     \<lparr>out_cv = input_cv, out_counter = counter, out_block = block, out_block_len = block_len, out_flags = flags\<rparr>"

definition output_chaining_value :: "output_t \<Rightarrow> bytes" where
  "output_chaining_value self =
     store_cv_words (blake3_compress_in_place (out_cv self) (out_block self) (out_block_len self) (out_counter self) (out_flags self))"

text \<open>The loop of \<open>output_root_bytes\<close> from its second iteration on, where the offset is 0.\<close>

definition root_block :: "output_t \<Rightarrow> u64 \<Rightarrow> bytes" where
  "root_block self counter = blake3_compress_xof (out_cv self) (out_block self) (out_block_len self) counter (out_flags self OR ROOT)"

function root_loop :: "output_t \<Rightarrow> u64 \<Rightarrow> nat \<Rightarrow> bytes" where
  "root_loop self counter n =
     (if n > 0 then take (min n 64) (root_block self counter) @ root_loop self (counter + 1) (n - min n 64) else [])"
  by pat_completeness auto

termination by (relation "measure (\<lambda>(_, _, n). n)") auto

declare root_loop.simps [simp del]

definition output_root_bytes :: "output_t \<Rightarrow> u64 \<Rightarrow> nat \<Rightarrow> bytes" where
  "output_root_bytes self seek out_len =
     (let counter = seek div 64; offset = unat (seek mod 64); len = min out_len (64 - offset)
      in if out_len > 0
         then take len (drop offset (root_block self counter)) @ root_loop self (counter + 1) (out_len - len)
         else [])"

definition compress_block :: "blake3_chunk_state \<Rightarrow> bytes \<Rightarrow> blake3_chunk_state" where
  "compress_block self block =
     self\<lparr>cs_cv := blake3_compress_in_place (cs_cv self) block BLAKE3_BLOCK_LEN (chunk_counter self)
                     (cs_flags self OR chunk_state_maybe_start_flag self),
          blocks_compressed := blocks_compressed self + 1\<rparr>"

function chunk_update_loop :: "blake3_chunk_state \<Rightarrow> bytes \<Rightarrow> blake3_chunk_state \<times> bytes" where
  "chunk_update_loop self input =
     (if length input > BLAKE3_BLOCK_LEN
      then chunk_update_loop (compress_block self (take BLAKE3_BLOCK_LEN input)) (drop BLAKE3_BLOCK_LEN input)
      else (self, input))"
  by pat_completeness auto

termination by (relation "measure (\<lambda>(_, input). length input)") (auto simp: BLAKE3_BLOCK_LEN_def)

declare chunk_update_loop.simps [simp del]

definition chunk_state_update :: "blake3_chunk_state \<Rightarrow> bytes \<Rightarrow> blake3_chunk_state" where
  "chunk_state_update self0 input0 =
     (let (self1, input1) =
        (if buf_len self0 > 0
         then let (tk, self) = chunk_state_fill_buf self0 input0; input = drop tk input0
              in if input \<noteq> []
                 then ((compress_block self (cs_buf self))\<lparr>buf_len := 0, cs_buf := replicate BLAKE3_BLOCK_LEN 0\<rparr>, input)
                 else (self, input)
         else (self0, input0));
        (self2, input2) = chunk_update_loop self1 input1
      in snd (chunk_state_fill_buf self2 input2))"

definition chunk_state_output :: "blake3_chunk_state \<Rightarrow> output_t" where
  "chunk_state_output self =
     make_output (cs_cv self) (cs_buf self) (buf_len self) (chunk_counter self)
       (cs_flags self OR chunk_state_maybe_start_flag self OR CHUNK_END)"

definition parent_output :: "bytes \<Rightarrow> u32 list \<Rightarrow> byte \<Rightarrow> output_t" where
  "parent_output block key flags = make_output key block BLAKE3_BLOCK_LEN 0 (flags OR PARENT)"

section \<open>Subtrees\<close>

definition left_len :: "nat \<Rightarrow> nat" where
  "left_len content_len = round_down_to_power_of_2 ((content_len - 1) div BLAKE3_CHUNK_LEN) * BLAKE3_CHUNK_LEN"

text \<open>The array of complete chunks.\<close>

function full_chunks :: "bytes \<Rightarrow> bytes list" where
  "full_chunks input =
     (if length input \<ge> BLAKE3_CHUNK_LEN then take BLAKE3_CHUNK_LEN input # full_chunks (drop BLAKE3_CHUNK_LEN input) else [])"
  by pat_completeness auto

termination by (relation "measure length") (auto simp: BLAKE3_CHUNK_LEN_def)

declare full_chunks.simps [simp del]

definition compress_chunks_parallel :: "bytes \<Rightarrow> u32 list \<Rightarrow> u64 \<Rightarrow> byte \<Rightarrow> bytes list" where
  "compress_chunks_parallel input key counter flags =
     (let chunks_array = full_chunks input;
          out = blake3_hash_many chunks_array (BLAKE3_CHUNK_LEN div BLAKE3_BLOCK_LEN) key counter True flags CHUNK_START CHUNK_END;
          rest = drop (length chunks_array * BLAKE3_CHUNK_LEN) input
      in if rest \<noteq> []
         then out @ [output_chaining_value (chunk_state_output
                (chunk_state_update ((chunk_state_init key flags)\<lparr>chunk_counter := counter + of_nat (length chunks_array)\<rparr>) rest))]
         else out)"

fun parents_array :: "bytes list \<Rightarrow> bytes list" where
  "parents_array (a # b # cvs) = (a @ b) # parents_array cvs"
| "parents_array cvs = []"

definition compress_parents_parallel :: "bytes list \<Rightarrow> u32 list \<Rightarrow> byte \<Rightarrow> bytes list" where
  "compress_parents_parallel cvs key flags =
     (let ps = parents_array cvs; out = blake3_hash_many ps 1 key 0 False (flags OR PARENT) 0 0
      in if length cvs > 2 * length ps then out @ [cvs ! (2 * length ps)] else out)"

lemma round_down_pos: "0 < round_down_to_power_of_2 x"
  by (simp add: round_down_to_power_of_2_def)

lemma highest_one_le: "0 < x \<Longrightarrow> 2 ^ highest_one x \<le> x"
proof (induction x rule: highest_one.induct)
  case (1 x)
  show ?case
  proof (cases "x \<le> 1")
    case False
    then have "2 ^ highest_one (x div 2) \<le> x div 2" using 1 by simp
    then show ?thesis using False by (subst highest_one.simps) simp
  qed (use 1 in \<open>simp add: highest_one.simps [of x]\<close>)
qed

lemma highest_one_gr: "x < 2 ^ Suc (highest_one x)"
proof (induction x rule: highest_one.induct)
  case (1 x)
  show ?case
  proof (cases "x \<le> 1")
    case False
    then have "x div 2 < 2 ^ Suc (highest_one (x div 2))" using 1 by simp
    then show ?thesis using False by (subst highest_one.simps) simp
  qed (simp add: highest_one.simps [of x])
qed

lemma power_bounds_unique:
  fixes x :: nat
  assumes "2 ^ a \<le> x" "x < 2 ^ Suc a" "2 ^ b \<le> x" "x < 2 ^ Suc b"
  shows "a = b"
proof -
  have "(2 :: nat) ^ a < 2 ^ Suc b" "(2 :: nat) ^ b < 2 ^ Suc a" using assms by linarith+
  then have "a < Suc b" "b < Suc a" using power_less_imp_less_exp [of 2] by (metis one_less_numeral_iff semiring_norm(76))+
  then show ?thesis by simp
qed

lemma round_down_eq:
  assumes "2 ^ a \<le> x" "x < 2 ^ Suc a"
  shows "round_down_to_power_of_2 x = 2 ^ a"
proof -
  have or1: "x OR 1 = (if even x then x + 1 else x)" unfolding or_one_eq by simp
  have "x + 1 < 2 ^ Suc a" if "even x"
  proof -
    have "x + 1 \<le> 2 ^ Suc a" using assms(2) by simp
    moreover have "odd (x + 1)" "even (2 ^ Suc a :: nat)" using that by simp_all
    ultimately show ?thesis by (metis le_neq_implies_less)
  qed
  then have "2 ^ a \<le> x OR 1" "x OR 1 < 2 ^ Suc a" using assms unfolding or1 by auto
  moreover have "0 < x OR 1" using calculation(1) by (metis gr_zeroI not_less zero_less_numeral zero_less_power)
  ultimately have "a = highest_one (x OR 1)"
    using power_bounds_unique [OF _ _ highest_one_le highest_one_gr] by blast
  then show ?thesis by (simp add: round_down_to_power_of_2_def)
qed

lemma round_down_le: "1 \<le> x \<Longrightarrow> round_down_to_power_of_2 x \<le> x"
  using round_down_eq [OF highest_one_le highest_one_gr, of x] highest_one_le [of x] by simp

lemma left_len_bounds:
  assumes "BLAKE3_CHUNK_LEN < n"
  shows "0 < left_len n" "left_len n < n"
proof -
  have q: "1 \<le> (n - 1) div BLAKE3_CHUNK_LEN" using assms by (simp add: BLAKE3_CHUNK_LEN_def)
  show "0 < left_len n" using round_down_pos by (simp add: left_len_def BLAKE3_CHUNK_LEN_def)
  have "left_len n \<le> (n - 1) div BLAKE3_CHUNK_LEN * BLAKE3_CHUNK_LEN" using round_down_le [OF q] by (simp add: left_len_def)
  also have "\<dots> \<le> n - 1" by simp
  finally show "left_len n < n" using assms by simp
qed

text \<open>
  The chaining values of the left half fill the \<open>degree\<close> entries in front of those of the right half, so the array
  of both is their concatenation.
\<close>

function blake3_compress_subtree_wide :: "bytes \<Rightarrow> u32 list \<Rightarrow> u64 \<Rightarrow> byte \<Rightarrow> bytes list" where
  "blake3_compress_subtree_wide input key counter flags =
     (if length input \<le> blake3_simd_degree * BLAKE3_CHUNK_LEN then compress_chunks_parallel input key counter flags
      else let left_input_len = left_len (length input);
               right_chunk_counter = counter + of_nat (left_input_len div BLAKE3_CHUNK_LEN);
               left_cvs = blake3_compress_subtree_wide (take left_input_len input) key counter flags;
               right_cvs = blake3_compress_subtree_wide (drop left_input_len input) key right_chunk_counter flags;
               cv_array = left_cvs @ right_cvs
           in if length left_cvs = 1 then take 2 cv_array else compress_parents_parallel cv_array key flags)"
  by pat_completeness auto

termination
proof (relation "measure (\<lambda>(input, _). length input)", goal_cases)
  case (2 input)
  then show ?case using left_len_bounds [of "length input"] by (simp add: blake3_simd_degree_def)
next
  case (3 input)
  then show ?case using left_len_bounds [of "length input"] by (simp add: blake3_simd_degree_def)
qed simp

declare blake3_compress_subtree_wide.simps [simp del]

lemma length_hash_many: "length (blake3_hash_many ins blocks key counter inc flags fs fe) = length ins"
  by (induction ins blocks key counter inc flags fs fe rule: blake3_hash_many.induct) simp_all

lemma length_parents: "length (parents_array cvs) = length cvs div 2"
  by (induction cvs rule: parents_array.induct) simp_all

function condense_cvs :: "bytes list \<Rightarrow> u32 list \<Rightarrow> byte \<Rightarrow> bytes list" where
  "condense_cvs cvs key flags =
     (if 2 < length cvs \<and> length cvs \<le> MAX_SIMD_DEGREE_OR_2
      then condense_cvs (compress_parents_parallel cvs key flags) key flags else cvs)"
  by pat_completeness auto

termination
  by (relation "measure (\<lambda>(cvs, _). length cvs)")
    (auto simp: compress_parents_parallel_def Let_def length_hash_many length_parents)

declare condense_cvs.simps [simp del]

definition compress_subtree_to_parent_node :: "bytes \<Rightarrow> u32 list \<Rightarrow> u64 \<Rightarrow> byte \<Rightarrow> (bytes \<times> bytes) option" where
  "compress_subtree_to_parent_node input key counter flags =
     (let cvs = blake3_compress_subtree_wide input key counter flags
      in if length cvs \<le> MAX_SIMD_DEGREE_OR_2
         then let cv_array = condense_cvs cvs key flags
              in if 2 \<le> length cv_array then Some (cv_array ! 0, cv_array ! 1) else None
         else None)"

section \<open>The hasher\<close>

text \<open>The stack has \<open>cv_stack_len\<close> entries, the last one on top.\<close>

record blake3_hasher =
  h_key :: "u32 list"
  h_chunk :: blake3_chunk_state
  cv_stack :: "bytes list"

definition hasher_init_base :: "u32 list \<Rightarrow> byte \<Rightarrow> blake3_hasher" where
  "hasher_init_base key flags = \<lparr>h_key = key, h_chunk = chunk_state_init key flags, cv_stack = []\<rparr>"

definition blake3_hasher_init :: blake3_hasher where
  "blake3_hasher_init = hasher_init_base blake3_IV 0"

definition blake3_hasher_init_keyed :: "bytes \<Rightarrow> blake3_hasher" where
  "blake3_hasher_init_keyed key = hasher_init_base (load_key_words key) KEYED_HASH"

function merge_loop :: "u32 list \<Rightarrow> byte \<Rightarrow> nat \<Rightarrow> bytes list \<Rightarrow> bytes list option" where
  "merge_loop key flags post_merge_stack_len stack =
     (if length stack > post_merge_stack_len
      then if length stack \<ge> 2
           then merge_loop key flags post_merge_stack_len
                  (take (length stack - 2) stack @
                   [output_chaining_value (parent_output (stack ! (length stack - 2) @ stack ! (length stack - 1)) key flags)])
           else None
      else Some stack)"
  by pat_completeness auto

termination by (relation "measure (\<lambda>(_, _, _, stack). length stack)") auto

declare merge_loop.simps [simp del]

definition hasher_merge_cv_stack :: "blake3_hasher \<Rightarrow> u64 \<Rightarrow> blake3_hasher option" where
  "hasher_merge_cv_stack self total_len =
     map_option (\<lambda>st. self\<lparr>cv_stack := st\<rparr>) (merge_loop (h_key self) (cs_flags (h_chunk self)) (popcnt total_len) (cv_stack self))"

definition hasher_push_cv :: "blake3_hasher \<Rightarrow> bytes \<Rightarrow> u64 \<Rightarrow> blake3_hasher option" where
  "hasher_push_cv self0 new_cv counter = do {
     self \<leftarrow> hasher_merge_cv_stack self0 counter;
     if length (cv_stack self) < BLAKE3_MAX_DEPTH + 1 then Some (self\<lparr>cv_stack := cv_stack self @ [new_cv]\<rparr>) else None
   }"

function shrink_subtree :: "nat \<Rightarrow> u64 \<Rightarrow> nat" where
  "shrink_subtree subtree_len count_so_far =
     (if of_nat (subtree_len - 1) AND count_so_far \<noteq> 0 then shrink_subtree (subtree_len div 2) count_so_far else subtree_len)"
  by pat_completeness auto

termination
proof (relation "measure fst", goal_cases)
  case (2 n c)
  then have "n - 1 \<noteq> 0" by (metis and_zero_eq semiring_1_class.of_nat_0 zero_and_eq)
  then show ?case by simp
qed simp

declare shrink_subtree.simps [simp del]

lemma shrink_bounds: "1 \<le> n \<Longrightarrow> 1 \<le> shrink_subtree n c \<and> shrink_subtree n c \<le> n"
proof (induction n c rule: shrink_subtree.induct)
  case (1 n c)
  show ?case
  proof (cases "of_nat (n - 1) AND c = 0")
    case False
    then have "n - 1 \<noteq> 0" by (metis semiring_1_class.of_nat_0 zero_and_eq)
    then have "1 \<le> shrink_subtree (n div 2) c \<and> shrink_subtree (n div 2) c \<le> n div 2" using 1 False by simp
    moreover have "shrink_subtree n c = shrink_subtree (n div 2) c" using False by (subst shrink_subtree.simps) simp
    ultimately show ?thesis by linarith
  qed (use 1 in \<open>simp add: shrink_subtree.simps [of n]\<close>)
qed

text \<open>One iteration of the loop over whole subtrees: the hasher after the subtree that was split off.\<close>

definition push_subtree :: "blake3_hasher \<Rightarrow> bytes \<Rightarrow> blake3_hasher option" where
  "push_subtree self subtree =
     (let subtree_len = length subtree; subtree_chunks = subtree_len div BLAKE3_CHUNK_LEN;
          counter = chunk_counter (h_chunk self); flags = cs_flags (h_chunk self)
      in do {
           self' \<leftarrow>
             (if subtree_len \<le> BLAKE3_CHUNK_LEN
              then hasher_push_cv self (output_chaining_value (chunk_state_output
                     (chunk_state_update ((chunk_state_init (h_key self) flags)\<lparr>chunk_counter := counter\<rparr>) subtree))) counter
              else do {
                (l, r) \<leftarrow> compress_subtree_to_parent_node subtree (h_key self) counter flags;
                self1 \<leftarrow> hasher_push_cv self l counter;
                hasher_push_cv self1 r (counter + of_nat (subtree_chunks div 2))
              });
           Some (self'\<lparr>h_chunk := (h_chunk self')\<lparr>chunk_counter := counter + of_nat subtree_chunks\<rparr>\<rparr>)
         })"

function update_loop :: "blake3_hasher \<Rightarrow> bytes \<Rightarrow> (blake3_hasher \<times> bytes) option" where
  "update_loop self input =
     (if length input > BLAKE3_CHUNK_LEN
      then let subtree_len = shrink_subtree (round_down_to_power_of_2 (length input)) (chunk_counter (h_chunk self) * of_nat BLAKE3_CHUNK_LEN)
           in Option.bind (push_subtree self (take subtree_len input)) (\<lambda>self'. update_loop self' (drop subtree_len input))
      else Some (self, input))"
  by pat_completeness auto

termination
proof (relation "measure (\<lambda>(_, input). length input)", goal_cases)
  case (2 self input n self')
  have "1 \<le> n" using 2(2) shrink_bounds round_down_pos by (simp add: Suc_leI)
  then show ?case using 2(1) by (simp add: BLAKE3_CHUNK_LEN_def)
qed simp

declare update_loop.simps [simp del]

definition blake3_hasher_update :: "blake3_hasher \<Rightarrow> bytes \<Rightarrow> blake3_hasher option" where
  "blake3_hasher_update self0 input0 =
     (if input0 = [] then Some self0
      else do {
        let tk = min (BLAKE3_CHUNK_LEN - chunk_state_len (h_chunk self0)) (length input0);
        let self1 = self0\<lparr>h_chunk := chunk_state_update (h_chunk self0) (take tk input0)\<rparr>;
        if chunk_state_len (h_chunk self0) > 0 \<and> drop tk input0 = [] then Some self1
        else do {
          (self2, input) \<leftarrow>
            (if chunk_state_len (h_chunk self0) > 0
             then do {
               self \<leftarrow> hasher_push_cv self1 (output_chaining_value (chunk_state_output (h_chunk self1))) (chunk_counter (h_chunk self1));
               Some (self\<lparr>h_chunk := chunk_state_reset (h_chunk self) (h_key self) (chunk_counter (h_chunk self) + 1)\<rparr>, drop tk input0)
             }
             else Some (self0, input0));
          (self3, rest) \<leftarrow> update_loop self2 input;
          if rest \<noteq> []
          then (let self = self3\<lparr>h_chunk := chunk_state_update (h_chunk self3) rest\<rparr>
                in hasher_merge_cv_stack self (chunk_counter (h_chunk self)))
          else Some self3
        }
      })"

text \<open>The roll-up merge from the top of the stack down.\<close>

definition roll_up :: "u32 list \<Rightarrow> byte \<Rightarrow> bytes list \<Rightarrow> output_t \<Rightarrow> output_t" where
  "roll_up key flags stack output =
     foldr (\<lambda>cv output. parent_output (cv @ output_chaining_value output) key flags) stack output"

definition blake3_hasher_finalize_seek :: "blake3_hasher \<Rightarrow> u64 \<Rightarrow> nat \<Rightarrow> bytes option" where
  "blake3_hasher_finalize_seek self seek out_len =
     (let key = h_key self; flags = cs_flags (h_chunk self); stack = cv_stack self
      in if out_len = 0 then Some []
         else if stack = [] then Some (output_root_bytes (chunk_state_output (h_chunk self)) seek out_len)
         else if chunk_state_len (h_chunk self) > 0
         then Some (output_root_bytes (roll_up key flags stack (chunk_state_output (h_chunk self))) seek out_len)
         else if length stack \<ge> 2
         then Some (output_root_bytes
                (roll_up key flags (take (length stack - 2) stack)
                   (parent_output (stack ! (length stack - 2) @ stack ! (length stack - 1)) key flags)) seek out_len)
         else None)"

definition blake3_hasher_finalize :: "blake3_hasher \<Rightarrow> nat \<Rightarrow> bytes option" where
  "blake3_hasher_finalize self out_len = blake3_hasher_finalize_seek self 0 out_len"

definition blake3_hasher_init_derive_key_raw :: "bytes \<Rightarrow> blake3_hasher option" where
  "blake3_hasher_init_derive_key_raw context_bytes = do {
     context_hasher \<leftarrow> blake3_hasher_update (hasher_init_base blake3_IV DERIVE_KEY_CONTEXT) context_bytes;
     context_key \<leftarrow> blake3_hasher_finalize context_hasher 32;
     Some (hasher_init_base (load_key_words context_key) DERIVE_KEY_MATERIAL)
   }"

text \<open>A C string: the bytes before the first zero byte.\<close>

definition blake3_hasher_init_derive_key :: "bytes \<Rightarrow> blake3_hasher option" where
  "blake3_hasher_init_derive_key context_string =
     (if 0 \<in> set context_string then blake3_hasher_init_derive_key_raw (takeWhile (\<lambda>b. b \<noteq> 0) context_string) else None)"

definition blake3_hasher_reset :: "blake3_hasher \<Rightarrow> blake3_hasher" where
  "blake3_hasher_reset self = self\<lparr>h_chunk := chunk_state_reset (h_chunk self) (h_key self) 0, cv_stack := []\<rparr>"

end
