(* ===== verification/Blake3_Correct.thy ===== *)
theory Blake3_Correct
  imports Blake3
begin

text \<open>
  The BLAKE3 hasher against the tree of its specification: a message of one chunk is hashed block by block, a longer one
  is split after the largest power of two of chunks that leaves something for the right side. The incremental hasher
  with its lazily merged stack computes the same tree, however the message is split into updates.
\<close>

section \<open>The specification\<close>

definition pad_block :: "bytes \<Rightarrow> bytes" where
  "pad_block b = b @ replicate (64 - length b) 0"

function spec_chunk :: "byte \<Rightarrow> u64 \<Rightarrow> byte \<Rightarrow> u32 list \<Rightarrow> bytes \<Rightarrow> output_t" where
  "spec_chunk flags ctr start cv m =
     (if length m > 64
      then spec_chunk flags ctr 0 (blake3_compress_in_place cv (take 64 m) 64 ctr (flags OR start)) (drop 64 m)
      else make_output cv (pad_block m) (length m) ctr (flags OR start OR CHUNK_END))"
  by pat_completeness auto

termination by (relation "measure (\<lambda>(_, _, _, _, m). length m)") auto

declare spec_chunk.simps [simp del]

function spec_tree :: "u32 list \<Rightarrow> byte \<Rightarrow> u64 \<Rightarrow> bytes \<Rightarrow> output_t" where
  "spec_tree key flags ctr m =
     (if length m \<le> 1024 then spec_chunk flags ctr CHUNK_START key m
      else let l = left_len (length m)
           in parent_output (output_chaining_value (spec_tree key flags ctr (take l m)) @
                output_chaining_value (spec_tree key flags (ctr + of_nat (l div 1024)) (drop l m))) key flags)"
  by pat_completeness auto

termination
proof (relation "measure (\<lambda>(_, _, _, m). length m)", goal_cases)
  case (2 key flags ctr m l)
  then show ?case using left_len_bounds [of "length m"] by (simp add: BLAKE3_CHUNK_LEN_def)
next
  case (3 key flags ctr m l)
  then show ?case using left_len_bounds [of "length m"] by (simp add: BLAKE3_CHUNK_LEN_def)
qed simp

declare spec_tree.simps [simp del]

abbreviation spec_cv :: "u32 list \<Rightarrow> byte \<Rightarrow> u64 \<Rightarrow> bytes \<Rightarrow> bytes" where
  "spec_cv key flags ctr m \<equiv> output_chaining_value (spec_tree key flags ctr m)"

lemmas blake3_lens = BLAKE3_BLOCK_LEN_def BLAKE3_CHUNK_LEN_def BLAKE3_OUT_LEN_def

lemma length_cv [simp]: "length (output_chaining_value out) = 32"
  by (simp add: output_chaining_value_def store_cv_words_def blake3_store32_def)

section \<open>A chunk\<close>

definition pending :: "blake3_chunk_state \<Rightarrow> bytes" where
  "pending cs = take (buf_len cs) (cs_buf cs)"

definition buf_ok :: "blake3_chunk_state \<Rightarrow> bool" where
  "buf_ok cs \<longleftrightarrow> buf_len cs \<le> 64 \<and> cs_buf cs = pad_block (pending cs) \<and> length (pending cs) = buf_len cs"

text \<open>The state of a chunk after the bytes \<open>m\<close>: hashing can go on from the pending bytes.\<close>

definition absorbed :: "u32 list \<Rightarrow> byte \<Rightarrow> u64 \<Rightarrow> bytes \<Rightarrow> blake3_chunk_state \<Rightarrow> bool" where
  "absorbed key flags ctr m cs \<longleftrightarrow> cs_flags cs = flags \<and> chunk_counter cs = ctr \<and> buf_ok cs \<and>
     chunk_state_len cs = length m \<and> (m \<noteq> [] \<longrightarrow> buf_len cs > 0) \<and>
     (\<forall>x. spec_chunk flags ctr CHUNK_START key (m @ x) =
          spec_chunk flags ctr (chunk_state_maybe_start_flag cs) (cs_cv cs) (pending cs @ x))"

lemma absorbed_fresh:
  assumes "cs_cv cs = key" "buf_len cs = 0" "blocks_compressed cs = 0" "cs_buf cs = replicate BLAKE3_BLOCK_LEN 0"
    "chunk_counter cs = ctr" "cs_flags cs = flags"
  shows "absorbed key flags ctr [] cs"
  using assms by (simp add: absorbed_def buf_ok_def pending_def pad_block_def chunk_state_len_def
      chunk_state_maybe_start_flag_def blake3_lens)

lemma fill_buf:
  assumes "buf_ok cs" "chunk_state_fill_buf cs y = (tk, cs')"
  shows "tk = min (64 - buf_len cs) (length y)" "buf_ok cs'" "pending cs' = pending cs @ take tk y" "buf_len cs' = buf_len cs + tk"
    "cs_cv cs' = cs_cv cs" "blocks_compressed cs' = blocks_compressed cs" "cs_flags cs' = cs_flags cs" "chunk_counter cs' = chunk_counter cs"
proof -
  show tk: "tk = min (64 - buf_len cs) (length y)"
    using assms(2) by (auto simp: chunk_state_fill_buf_def blake3_lens Let_def)
  have cs': "cs' = cs\<lparr>cs_buf := take (buf_len cs) (cs_buf cs) @ take tk y @ drop (buf_len cs + tk) (cs_buf cs), buf_len := buf_len cs + tk\<rparr>"
    using assms(2) by (auto simp: chunk_state_fill_buf_def blake3_lens Let_def)
  show "buf_len cs' = buf_len cs + tk" "cs_cv cs' = cs_cv cs" "blocks_compressed cs' = blocks_compressed cs"
    "cs_flags cs' = cs_flags cs" "chunk_counter cs' = chunk_counter cs" by (simp_all add: cs')
  have len: "length (take (buf_len cs) (cs_buf cs)) = buf_len cs" "tk \<le> length y" "buf_len cs + tk \<le> 64"
    using assms(1) tk by (auto simp: buf_ok_def pending_def)
  show p: "pending cs' = pending cs @ take tk y" using len by (simp add: cs' pending_def)
  have "drop (buf_len cs + tk) (cs_buf cs) = replicate (64 - (buf_len cs + tk)) 0"
    using assms(1) len by (simp add: buf_ok_def pad_block_def)
  then show "buf_ok cs'" using len p by (simp add: buf_ok_def cs' pad_block_def pending_def)
qed

lemma spec_chunk_compress:
  assumes "length b = 64" "x \<noteq> []"
  shows "spec_chunk (cs_flags cs) (chunk_counter cs) (chunk_state_maybe_start_flag cs) (cs_cv cs) (b @ x) =
    spec_chunk (cs_flags cs) (chunk_counter cs) (chunk_state_maybe_start_flag (compress_block cs b)) (cs_cv (compress_block cs b)) x"
  using assms by (subst spec_chunk.simps) (simp add: compress_block_def chunk_state_maybe_start_flag_def blake3_lens)

lemma update_loop_chunk:
  assumes "chunk_update_loop cs y = (cs', rest)"
  shows "spec_chunk (cs_flags cs) (chunk_counter cs) (chunk_state_maybe_start_flag cs) (cs_cv cs) (y @ x) =
      spec_chunk (cs_flags cs) (chunk_counter cs) (chunk_state_maybe_start_flag cs') (cs_cv cs') (rest @ x) \<and>
    length rest \<le> 64 \<and> (y \<noteq> [] \<longrightarrow> rest \<noteq> []) \<and> 64 * blocks_compressed cs' + length rest = 64 * blocks_compressed cs + length y \<and>
    cs_flags cs' = cs_flags cs \<and> chunk_counter cs' = chunk_counter cs \<and> buf_len cs' = buf_len cs \<and> cs_buf cs' = cs_buf cs"
  using assms
proof (induction cs y rule: chunk_update_loop.induct)
  case (1 cs y)
  show ?case
  proof (cases "length y > 64")
    case True
    let ?c = "compress_block cs (take 64 y)"
    have run: "chunk_update_loop ?c (drop 64 y) = (cs', rest)"
      using 1(2) True by (subst (asm) chunk_update_loop.simps) (simp add: blake3_lens)
    have c: "cs_flags ?c = cs_flags cs" "chunk_counter ?c = chunk_counter cs" "buf_len ?c = buf_len cs" "cs_buf ?c = cs_buf cs"
      "blocks_compressed ?c = Suc (blocks_compressed cs)"
      by (simp_all add: compress_block_def)
    have "spec_chunk (cs_flags cs) (chunk_counter cs) (chunk_state_maybe_start_flag cs) (cs_cv cs) (take 64 y @ (drop 64 y @ x)) =
        spec_chunk (cs_flags cs) (chunk_counter cs) (chunk_state_maybe_start_flag ?c) (cs_cv ?c) (drop 64 y @ x)"
      by (rule spec_chunk_compress) (use True in simp_all)
    moreover have "take 64 y @ (drop 64 y @ x) = y @ x" by (metis append.assoc append_take_drop_id)
    ultimately have "spec_chunk (cs_flags cs) (chunk_counter cs) (chunk_state_maybe_start_flag cs) (cs_cv cs) (y @ x) =
        spec_chunk (cs_flags cs) (chunk_counter cs) (chunk_state_maybe_start_flag ?c) (cs_cv ?c) (drop 64 y @ x)" by simp
    then show ?thesis using 1(1) [unfolded blake3_lens, OF True run] True unfolding c by auto
  next
    case False
    then have "(cs', rest) = (cs, y)" using 1(2) by (subst (asm) chunk_update_loop.simps) (simp add: blake3_lens)
    then show ?thesis using False by simp
  qed
qed

lemma chunk_update_absorbs:
  assumes abs: "absorbed key flags ctr m cs"
  shows "absorbed key flags ctr (m @ y) (chunk_state_update cs y)"
proof -
  have A: "cs_flags cs = flags" "chunk_counter cs = ctr" "buf_ok cs" "chunk_state_len cs = length m" "m \<noteq> [] \<longrightarrow> buf_len cs > 0"
    "\<And>x. spec_chunk flags ctr CHUNK_START key (m @ x) = spec_chunk flags ctr (chunk_state_maybe_start_flag cs) (cs_cv cs) (pending cs @ x)"
    using abs by (auto simp: absorbed_def)
  obtain c1 y1 where c1: "chunk_state_update cs y = (let (c2, y2) = chunk_update_loop c1 y1 in snd (chunk_state_fill_buf c2 y2))"
    "cs_flags c1 = flags" "chunk_counter c1 = ctr" "buf_ok c1" "y1 = [] \<or> buf_len c1 = 0"
    "64 * blocks_compressed c1 + buf_len c1 + length y1 = length m + length y" "m @ y \<noteq> [] \<longrightarrow> buf_len c1 > 0 \<or> y1 \<noteq> []"
    "\<And>x. spec_chunk flags ctr CHUNK_START key (m @ y @ x) = spec_chunk flags ctr (chunk_state_maybe_start_flag c1) (cs_cv c1) (pending c1 @ y1 @ x)"
  proof (cases "buf_len cs > 0")
    case False
    show ?thesis
      by (rule that [of cs y]) (use False A in \<open>auto simp: chunk_state_update_def chunk_state_len_def blake3_lens\<close>)
  next
    case True
    obtain tk c where f: "chunk_state_fill_buf cs y = (tk, c)" by (cases "chunk_state_fill_buf cs y")
    note F = fill_buf [OF A(3) f]
    have start: "chunk_state_maybe_start_flag c = chunk_state_maybe_start_flag cs" by (simp add: chunk_state_maybe_start_flag_def F(6))
    have len: "64 * blocks_compressed cs + buf_len cs = length m" using A(4) by (simp add: chunk_state_len_def blake3_lens)
    have y: "y = take tk y @ drop tk y" by simp
    show ?thesis
    proof (cases "drop tk y = []")
      case more: True
      then have tk: "tk = length y" using F(1) by auto
      show ?thesis
        by (rule that [of c "[]"])
          (use True more tk F A start len f in \<open>auto simp: chunk_state_update_def Let_def\<close>)
    next
      case more: False
      then have full: "length (pending c) = 64" "buf_len c = 64" using F(1,2,4) by (auto simp: buf_ok_def)
      let ?d = "(compress_block c (cs_buf c))\<lparr>buf_len := 0, cs_buf := replicate BLAKE3_BLOCK_LEN 0\<rparr>"
      have buf: "cs_buf c = pending c" using F(2) full by (simp add: buf_ok_def pad_block_def)
      have d: "cs_flags ?d = flags" "chunk_counter ?d = ctr" "buf_len ?d = 0" "blocks_compressed ?d = Suc (blocks_compressed cs)"
        "cs_cv ?d = cs_cv (compress_block c (pending c))" "pending ?d = []" "buf_ok ?d"
        "chunk_state_maybe_start_flag ?d = chunk_state_maybe_start_flag (compress_block c (pending c))"
        unfolding buf using A(1,2) F(6-8) by (simp_all add: compress_block_def pending_def buf_ok_def pad_block_def blake3_lens chunk_state_maybe_start_flag_def)
      have "spec_chunk flags ctr CHUNK_START key (m @ y @ x) =
          spec_chunk flags ctr (chunk_state_maybe_start_flag ?d) (cs_cv ?d) (pending ?d @ drop tk y @ x)" for x
      proof -
        have "pending c @ (drop tk y @ x) = pending cs @ (take tk y @ drop tk y) @ x" unfolding F(3) by (simp only: append.assoc)
        then have e: "pending c @ (drop tk y @ x) = pending cs @ y @ x" by (simp only: append_take_drop_id)
        have "spec_chunk flags ctr CHUNK_START key (m @ y @ x) =
            spec_chunk flags ctr (chunk_state_maybe_start_flag c) (cs_cv c) (pending c @ (drop tk y @ x))"
          unfolding e F(5) start by (rule A(6))
        also have "\<dots> = spec_chunk flags ctr (chunk_state_maybe_start_flag ?d) (cs_cv ?d) (drop tk y @ x)"
          using spec_chunk_compress [of "pending c" "drop tk y @ x" c] full more F(7,8) A(1,2) unfolding d(5,8) by simp
        finally show ?thesis unfolding d(6) by simp
      qed
      moreover have "chunk_state_update cs y = (let (c2, y2) = chunk_update_loop ?d (drop tk y) in snd (chunk_state_fill_buf c2 y2))"
        using True more f by (simp add: chunk_state_update_def)
      moreover have "64 * blocks_compressed ?d + buf_len ?d + length (drop tk y) = length m + length y"
        using len full F(1,4) more unfolding d(3,4) by auto
      ultimately show ?thesis using that [of ?d "drop tk y"] d(1,2,3,7) more by simp
    qed
  qed
  obtain c2 y2 where l: "chunk_update_loop c1 y1 = (c2, y2)" by (cases "chunk_update_loop c1 y1")
  note L = update_loop_chunk [OF l]
  obtain tk c3 where f: "chunk_state_fill_buf c2 y2 = (tk, c3)" by (cases "chunk_state_fill_buf c2 y2")
  have p: "pending c2 = pending c1" "buf_ok c2" using L [of "[]"] c1(4) by (auto simp: pending_def buf_ok_def)
  note F = fill_buf [OF p(2) f]
  have y1: "y1 = [] \<Longrightarrow> y2 = []" using l by (simp add: chunk_update_loop.simps)
  have tk: "tk = length y2" using F(1) L [of "[]"] c1(5) y1 by (cases "y1 = []") auto
  then have tk2: "take tk y2 = y2" by simp
  have p1: "pending c1 @ y1 @ x = (if y1 = [] then pending c1 @ x else y1 @ x)" for x
    using c1(5) by (auto simp: pending_def)
  have "spec_chunk flags ctr CHUNK_START key ((m @ y) @ x) = spec_chunk flags ctr (chunk_state_maybe_start_flag c3) (cs_cv c3) (pending c3 @ x)" for x
  proof (cases "y1 = []")
    case True
    then have "c2 = c1" "y2 = []" using l by (auto simp: chunk_update_loop.simps)
    then show ?thesis using c1(8) [of x] True F by (simp add: chunk_state_maybe_start_flag_def)
  next
    case False
    then have "buf_len c1 = 0" using c1(5) by blast
    then have "pending c1 = []" by (simp add: pending_def)
    then show ?thesis using c1(8) [of x] L [of x] F tk tk2 p(1) c1(2,3) by (simp add: chunk_state_maybe_start_flag_def)
  qed
  moreover have "chunk_state_update cs y = c3" using c1(1) l f by simp
  moreover have "chunk_state_len c3 = length (m @ y)"
    using c1(6) L [of "[]"] F(4,6) tk by (simp add: chunk_state_len_def blake3_lens)
  moreover have "m @ y \<noteq> [] \<longrightarrow> buf_len c3 > 0" using c1(5,7) L [of "[]"] F(4) tk by auto
  ultimately show ?thesis using F L [of "[]"] c1(2,3) by (simp add: absorbed_def)
qed

lemma chunk_output_spec:
  assumes "absorbed key flags ctr m cs"
  shows "chunk_state_output cs = spec_chunk flags ctr CHUNK_START key m"
proof -
  have "spec_chunk flags ctr CHUNK_START key (m @ []) = spec_chunk flags ctr (chunk_state_maybe_start_flag cs) (cs_cv cs) (pending cs @ [])"
    using assms unfolding absorbed_def by blast
  moreover have "length (pending cs) \<le> 64" "length (pending cs) = buf_len cs" "cs_buf cs = pad_block (pending cs)" "cs_flags cs = flags" "chunk_counter cs = ctr"
    using assms by (auto simp: absorbed_def buf_ok_def)
  ultimately show ?thesis by (simp add: spec_chunk.simps [of _ _ _ _ "pending cs"] chunk_state_output_def)
qed

text \<open>\<open>hash_one_portable\<close> on a complete chunk and on a parent node.\<close>

lemma hash_one_loop_spec:
  assumes "length input = 64 * Suc n"
  shows "hash_one_loop input (Suc n) cv ctr flags (flags OR start) CHUNK_END =
    (let out = spec_chunk flags ctr start cv input
     in blake3_compress_in_place (out_cv out) (out_block out) (out_block_len out) (out_counter out) (out_flags out))"
  using assms
proof (induction n arbitrary: input cv start)
  case 0
  then show ?case by (simp add: spec_chunk.simps [of _ _ _ _ input] make_output_def pad_block_def blake3_lens or.assoc)
next
  case (Suc n)
  have "hash_one_loop input (Suc (Suc n)) cv ctr flags (flags OR start) CHUNK_END =
      hash_one_loop (drop 64 input) (Suc n) (blake3_compress_in_place cv (take 64 input) 64 ctr (flags OR start)) ctr flags (flags OR 0) CHUNK_END"
    by (simp add: blake3_lens)
  also have "\<dots> = (let out = spec_chunk flags ctr 0 (blake3_compress_in_place cv (take 64 input) 64 ctr (flags OR start)) (drop 64 input)
     in blake3_compress_in_place (out_cv out) (out_block out) (out_block_len out) (out_counter out) (out_flags out))"
    by (rule Suc.IH) (use Suc.prems in simp)
  also have "spec_chunk flags ctr 0 (blake3_compress_in_place cv (take 64 input) 64 ctr (flags OR start)) (drop 64 input) =
      spec_chunk flags ctr start cv input"
    using Suc.prems by (subst (2) spec_chunk.simps) simp
  finally show ?case .
qed

lemma hash_one_chunk:
  assumes "length input = 1024"
  shows "hash_one_portable input (BLAKE3_CHUNK_LEN div BLAKE3_BLOCK_LEN) key ctr flags CHUNK_START CHUNK_END = spec_cv key flags ctr input"
proof -
  have "BLAKE3_CHUNK_LEN div BLAKE3_BLOCK_LEN = Suc 15" by (simp add: blake3_lens)
  then show ?thesis
    using hash_one_loop_spec [of input 15] assms
    by (simp add: hash_one_portable_def output_chaining_value_def spec_tree.simps [of _ _ _ input] Let_def del: hash_one_loop.simps)
qed

lemma hash_one_parent:
  assumes "length a = 32" "length b = 32"
  shows "hash_one_portable (a @ b) 1 key 0 (flags OR PARENT) 0 0 = output_chaining_value (parent_output (a @ b) key flags)"
  using assms by (simp add: hash_one_portable_def output_chaining_value_def parent_output_def make_output_def blake3_lens)

section \<open>Subtrees\<close>

lemma left_len_eq:
  assumes "2 ^ a * 1024 < n" "n \<le> 2 ^ Suc a * 1024"
  shows "left_len n = 2 ^ a * 1024"
proof -
  have "2 ^ a \<le> (n - 1) div 1024" using assms(1) by (simp add: less_eq_div_iff_mult_less_eq)
  moreover have "(n - 1) div 1024 < 2 ^ Suc a" using assms by (simp add: div_less_iff_less_mult)
  ultimately show ?thesis using round_down_eq [of a "(n - 1) div 1024"] by (simp add: left_len_def blake3_lens)
qed

lemma left_len_half:
  assumes "1024 < n"
  obtains a where "left_len n = 2 ^ a * 1024" "2 ^ a * 1024 < n" "n \<le> 2 ^ Suc a * 1024"
proof -
  define q where "q = (n - 1) div 1024"
  have q: "0 < q" using assms by (simp add: q_def)
  have n: "q * 1024 < n" "n \<le> Suc q * 1024"
  proof -
    have "q * 1024 \<le> n - 1" by (simp add: q_def)
    then show "q * 1024 < n" using assms by linarith
    have "n - 1 < Suc q * 1024"
      using div_mult_mod_eq [of "n - 1" 1024] mod_less_divisor [of 1024 "n - 1"] unfolding q_def by simp
    then show "n \<le> Suc q * 1024" by linarith
  qed
  have "2 ^ highest_one q \<le> q" "q < 2 ^ Suc (highest_one q)" using highest_one_le [OF q] highest_one_gr by auto
  then have "2 ^ highest_one q * 1024 < n" "Suc q \<le> 2 ^ Suc (highest_one q)" using n by linarith+
  moreover have "n \<le> 2 ^ Suc (highest_one q) * 1024"
    using n(2) mult_le_mono1 [OF calculation(2), of 1024] by linarith
  ultimately show ?thesis using that left_len_eq by blast
qed

lemma compress_chunks_spec:
  assumes "0 < length input" "length input \<le> 1024"
  shows "compress_chunks_parallel input key ctr flags = [spec_cv key flags ctr input]"
proof (cases "length input = 1024")
  case True
  then have "full_chunks input = [input]" by (simp add: full_chunks.simps blake3_lens)
  then show ?thesis using True hash_one_chunk [OF True] by (simp add: compress_chunks_parallel_def blake3_lens)
next
  case False
  then have f: "full_chunks input = []" using assms by (simp add: full_chunks.simps [of input] blake3_lens)
  have "absorbed key flags ctr [] ((chunk_state_init key flags)\<lparr>chunk_counter := ctr\<rparr>)"
    by (rule absorbed_fresh) (simp_all add: chunk_state_init_def)
  from chunk_output_spec [OF chunk_update_absorbs [OF this, of input]]
  show ?thesis using f assms by (simp add: compress_chunks_parallel_def spec_tree.simps [of _ _ _ input])
qed

lemma parents_even: "compress_parents_parallel [a, b, c, d] key flags = [hash_one_portable (a @ b) 1 key 0 (flags OR PARENT) 0 0,
    hash_one_portable (c @ d) 1 key 0 (flags OR PARENT) 0 0]"
  by (simp add: compress_parents_parallel_def)

lemma parents_odd: "compress_parents_parallel [a, b, c] key flags = [hash_one_portable (a @ b) 1 key 0 (flags OR PARENT) 0 0, c]"
  by (simp add: compress_parents_parallel_def)

abbreviation children :: "u32 list \<Rightarrow> byte \<Rightarrow> u64 \<Rightarrow> bytes \<Rightarrow> bytes list" where
  "children key flags ctr m \<equiv> [spec_cv key flags ctr (take (left_len (length m)) m),
     spec_cv key flags (ctr + of_nat (left_len (length m) div 1024)) (drop (left_len (length m)) m)]"

lemma spec_tree_parent:
  "1024 < length m \<Longrightarrow> spec_tree key flags ctr m = parent_output (children key flags ctr m ! 0 @ children key flags ctr m ! 1) key flags"
  by (subst spec_tree.simps) (simp add: Let_def)

lemma subtree_wide_spec:
  "0 < length input \<Longrightarrow> blake3_compress_subtree_wide input key ctr flags =
     (if length input \<le> 1024 then [spec_cv key flags ctr input] else children key flags ctr input)"
proof (induction input key ctr flags rule: blake3_compress_subtree_wide.induct)
  case (1 input key ctr flags)
  show ?case
  proof (cases "length input \<le> 1024")
    case True
    then show ?thesis using 1(3) compress_chunks_spec
      by (subst blake3_compress_subtree_wide.simps) (simp add: blake3_simd_degree_def blake3_lens)
  next
    case False
    then obtain a where a: "left_len (length input) = 2 ^ a * 1024" "2 ^ a * 1024 < length input" "length input \<le> 2 ^ Suc a * 1024"
      using left_len_half [of "length input"] by auto
    let ?l = "left_len (length input)" and ?L = "take (left_len (length input)) input" and ?R = "drop (left_len (length input)) input"
    let ?rc = "ctr + of_nat (left_len (length input) div 1024)"
    have big: "\<not> length input \<le> blake3_simd_degree * BLAKE3_CHUNK_LEN" using False by (simp add: blake3_simd_degree_def blake3_lens)
    have len: "length ?L = 2 ^ a * 1024" "0 < length ?R" "length ?R \<le> length ?L" using a by auto
    have L: "blake3_compress_subtree_wide ?L key ctr flags = (if length ?L \<le> 1024 then [spec_cv key flags ctr ?L] else children key flags ctr ?L)"
      by (rule 1(1) [OF big refl refl]) (use len in simp)
    have R: "blake3_compress_subtree_wide ?R key ?rc flags = (if length ?R \<le> 1024 then [spec_cv key flags ?rc ?R] else children key flags ?rc ?R)"
      using 1(2) [OF big refl refl refl] len by (simp add: blake3_lens)
    have run: "blake3_compress_subtree_wide input key ctr flags = (let cv_array = blake3_compress_subtree_wide ?L key ctr flags @
        blake3_compress_subtree_wide ?R key ?rc flags
      in if length (blake3_compress_subtree_wide ?L key ctr flags) = 1 then take 2 cv_array else compress_parents_parallel cv_array key flags)"
      using big by (subst blake3_compress_subtree_wide.simps) (simp add: Let_def blake3_lens)
    have parent: "hash_one_portable (children key flags c m ! 0 @ children key flags c m ! 1) 1 key 0 (flags OR PARENT) 0 0 = spec_cv key flags c m"
      if "1024 < length m" for c m
      unfolding spec_tree_parent [OF that] by (rule hash_one_parent) simp_all
    show ?thesis
    proof (cases "length ?L \<le> 1024")
      case True
      then show ?thesis using False len(3) a(2) unfolding run L R Let_def a(1) [symmetric] by (simp add: min_absorb2)
    next
      case big_left: False
      then have pL: "hash_one_portable (children key flags ctr ?L ! 0 @ children key flags ctr ?L ! 1) 1 key 0 (flags OR PARENT) 0 0 = spec_cv key flags ctr ?L"
        by (intro parent) (simp only: not_le)
      show ?thesis
      proof (cases "length ?R \<le> 1024")
        case True
        then have "blake3_compress_subtree_wide input key ctr flags = compress_parents_parallel
            [children key flags ctr ?L ! 0, children key flags ctr ?L ! 1, spec_cv key flags ?rc ?R] key flags"
          using big_left unfolding run L R Let_def by simp
        then show ?thesis using False pL unfolding parents_odd by simp
      next
        case big_right: False
        then have pR: "hash_one_portable (children key flags ?rc ?R ! 0 @ children key flags ?rc ?R ! 1) 1 key 0 (flags OR PARENT) 0 0 = spec_cv key flags ?rc ?R"
          by (intro parent) (simp only: not_le)
        have "blake3_compress_subtree_wide input key ctr flags = compress_parents_parallel
            [children key flags ctr ?L ! 0, children key flags ctr ?L ! 1, children key flags ?rc ?R ! 0, children key flags ?rc ?R ! 1] key flags"
          using big_left big_right unfolding run L R Let_def by simp
        then show ?thesis using False pL pR unfolding parents_even by simp
      qed
    qed
  qed
qed

lemma parent_node_spec:
  assumes "1024 < length input"
  shows "compress_subtree_to_parent_node input key ctr flags =
    Some (children key flags ctr input ! 0, children key flags ctr input ! 1)"
proof -
  have "blake3_compress_subtree_wide input key ctr flags = children key flags ctr input"
    using subtree_wide_spec [of input key ctr flags] assms by (cases "input = []") simp_all
  then show ?thesis
    by (simp add: compress_subtree_to_parent_node_def condense_cvs.simps [of "children key flags ctr input"] MAX_SIMD_DEGREE_OR_2_def MAX_SIMD_DEGREE_def Let_def)
qed

end
