(* ===== verification/Blake3_Hasher.thy ===== *)
theory Blake3_Hasher
  imports Blake3_Correct
begin

text \<open>
  The incremental hasher. The complete chunks form a forest of perfect subtrees whose sizes are the binary digits of their
  number; merging is delayed until the next chaining value arrives, which leaves at most one subtree unmerged on top.
\<close>

section \<open>Binary digits\<close>

fun sizes :: "nat \<Rightarrow> nat list" where
  "sizes n = (if n = 0 then [] else map (\<lambda>s. 2 * s) (sizes (n div 2)) @ (if odd n then [1] else []))"

declare sizes.simps [simp del]

lemma sizes_0 [simp]: "sizes 0 = []"
  by (simp add: sizes.simps)

lemma sum_list_double: "sum_list (map (\<lambda>s. 2 * s) xs) = 2 * sum_list (xs :: nat list)"
  by (induction xs) simp_all

lemma sum_sizes [simp]: "sum_list (sizes n) = n"
proof (induction n rule: sizes.induct)
  case (1 n)
  then show ?case by (subst sizes.simps) (auto simp: sum_list_double elim: oddE)
qed

lemma sizes_even: "even n \<Longrightarrow> sizes n = map (\<lambda>s. 2 * s) (sizes (n div 2))"
  by (subst sizes.simps) auto

lemma sizes_add:
  assumes "2 ^ j dvd k" "even (k div 2 ^ j)"
  shows "sizes (k + 2 ^ j) = sizes k @ [2 ^ j]"
  using assms
proof (induction j arbitrary: k)
  case 0
  then have "odd (k + 1)" "(k + 1) div 2 = k div 2" by auto
  then show ?case using 0 by (subst sizes.simps) (simp add: sizes_even)
next
  case (Suc j)
  obtain k' where k: "k = 2 * k'" "2 ^ j dvd k'" using Suc.prems(1) by (auto elim: dvdE)
  have "even (k' div 2 ^ j)" using Suc.prems(2) k by simp
  then have "sizes (k' + 2 ^ j) = sizes k' @ [2 ^ j]" using Suc.IH k(2) by blast
  moreover have "(k + 2 ^ Suc j) div 2 = k' + 2 ^ j" "even (k + 2 ^ Suc j)" using k by simp_all
  ultimately have "sizes (k + 2 ^ Suc j) = map (\<lambda>s. 2 * s) (sizes k' @ [2 ^ j])" by (metis sizes_even)
  moreover have "sizes k = map (\<lambda>s. 2 * s) (sizes k')" using k(1) sizes_even [of k] by simp
  ultimately show ?case by simp
qed

text \<open>With the digit already set, the sum carries to the next one.\<close>

lemma carry:
  assumes "2 ^ j dvd k" "odd (k div 2 ^ j)"
  obtains k' where "k = k' + 2 ^ j" "2 ^ Suc j dvd k'" "sizes k = sizes k' @ [2 ^ j]"
proof -
  define k' where "k' = k - 2 ^ j"
  obtain q where q: "k = 2 ^ j * q" using assms(1) by (elim dvdE)
  then have "odd q" using assms(2) by simp
  then obtain r where r: "q = 2 * r + 1" by (elim oddE)
  have k': "k' = 2 ^ Suc j * r" by (simp add: k'_def q r algebra_simps)
  then have k: "k = k' + 2 ^ j" by (simp add: q r algebra_simps)
  have "sizes (k' + 2 ^ j) = sizes k' @ [2 ^ j]" by (rule sizes_add) (simp_all add: k')
  then show ?thesis using that [of k'] k k' by simp
qed

lemma length_sizes_add: "2 ^ j dvd k \<Longrightarrow> length (sizes (k + 2 ^ j)) \<le> length (sizes k) + 1"
proof (induction k arbitrary: j rule: less_induct)
  case (less k)
  show ?case
  proof (cases "even (k div 2 ^ j)")
    case True
    then show ?thesis using sizes_add [OF less.prems] by simp
  next
    case False
    then obtain k' where k: "k = k' + 2 ^ j" "2 ^ Suc j dvd k'" "sizes k = sizes k' @ [2 ^ j]" by (rule carry [OF less.prems])
    have "length (sizes (k' + 2 ^ Suc j)) \<le> length (sizes k') + 1" using less.IH [OF _ k(2)] k(1) by simp
    moreover have "k + 2 ^ j = k' + 2 ^ Suc j" using k(1) by simp
    ultimately show ?thesis unfolding k(3) by (simp del: power_Suc)
  qed
qed

lemma length_sizes: "n < 2 ^ w \<Longrightarrow> length (sizes n) = length (filter (bit n) [0..<w])"
proof (induction w arbitrary: n)
  case (Suc w)
  have "[0..<Suc w] = 0 # map Suc [0..<w]" by (simp add: map_Suc_upt upt_conv_Cons del: upt_Suc)
  then have "length (filter (bit n) [0..<Suc w]) = of_bool (odd n) + length (filter (bit (n div 2)) [0..<w])"
    by (simp add: filter_map o_def bit_0 bit_Suc del: upt_Suc)
  moreover have "length (sizes n) = of_bool (odd n) + length (sizes (n div 2))" by (subst sizes.simps) auto
  ultimately show ?case using Suc.IH [of "n div 2"] Suc.prems by (simp del: upt_Suc)
qed simp

lemma popcnt_sizes: "n < 2 ^ 64 \<Longrightarrow> popcnt (of_nat n) = length (sizes n)"
proof -
  assume n: "n < 2 ^ 64"
  have "filter (bit (of_nat n :: u64)) [0..<64] = filter (bit n) [0..<64]"
    by (rule filter_cong) (simp_all add: bit_of_nat_iff)
  then show ?thesis using length_sizes [OF n] by (simp add: popcnt_def)
qed

lemma length_sizes_le: "n < 2 ^ w \<Longrightarrow> length (sizes n) \<le> w"
  by (simp add: length_sizes le_trans [OF length_filter_le])

section \<open>The forest\<close>

abbreviation chunks_of :: "bytes \<Rightarrow> nat \<Rightarrow> nat \<Rightarrow> bytes" where
  "chunks_of M k s \<equiv> take (1024 * s) (drop (1024 * k) M)"

definition subtree_cv :: "u32 list \<Rightarrow> byte \<Rightarrow> bytes \<Rightarrow> nat \<Rightarrow> nat \<Rightarrow> bytes" where
  "subtree_cv key flags M k s = spec_cv key flags (of_nat k) (chunks_of M k s)"

primrec forest :: "u32 list \<Rightarrow> byte \<Rightarrow> bytes \<Rightarrow> nat \<Rightarrow> nat list \<Rightarrow> bytes list" where
  "forest key flags M k [] = []"
| "forest key flags M k (s # ss) = subtree_cv key flags M k s # forest key flags M (k + s) ss"

lemma length_forest [simp]: "length (forest key flags M k ss) = length ss"
  by (induction ss arbitrary: k) simp_all

lemma forest_append: "forest key flags M k (ss @ ts) = forest key flags M k ss @ forest key flags M (k + sum_list ss) ts"
  by (induction ss arbitrary: k) (simp_all add: add.assoc)

lemma chunks_of_extend: "1024 * (k + s) \<le> length M \<Longrightarrow> chunks_of (M @ x) k s = chunks_of M k s"
  by simp

lemma forest_extend: "1024 * (k + sum_list ss) \<le> length M \<Longrightarrow> forest key flags (M @ x) k ss = forest key flags M k ss"
  by (induction ss arbitrary: k) (simp_all add: subtree_cv_def algebra_simps)

text \<open>Two neighbours of the same size are the children of the subtree of twice the size.\<close>

lemma children_double:
  assumes "1024 * (k + 2 ^ Suc j) \<le> length M"
  shows "1024 < length (chunks_of M k (2 ^ Suc j))"
    "children key flags (of_nat k) (chunks_of M k (2 ^ Suc j)) =
       [subtree_cv key flags M k (2 ^ j), subtree_cv key flags M (k + 2 ^ j) (2 ^ j)]"
proof -
  define m where "m = chunks_of M k (2 ^ Suc j)"
  have len: "length m = 2 ^ Suc j * 1024" using assms by (simp add: m_def)
  have pos: "1 \<le> (2 :: nat) ^ j" by simp
  then have "1024 < length m" unfolding len power_Suc by linarith
  then show "1024 < length (chunks_of M k (2 ^ Suc j))" unfolding m_def .
  have l: "left_len (length m) = 2 ^ j * 1024" unfolding len by (rule left_len_eq) (use pos in simp_all)
  have "take (2 ^ j * 1024) m = chunks_of M k (2 ^ j)" by (simp add: m_def min_def mult.commute)
  moreover have "drop (2 ^ j * 1024) m = chunks_of M (k + 2 ^ j) (2 ^ j)" by (simp add: m_def drop_take algebra_simps)
  moreover have "(2 ^ j * 1024) div 1024 = (2 :: nat) ^ j" by simp
  ultimately show "children key flags (of_nat k) (chunks_of M k (2 ^ Suc j)) =
      [subtree_cv key flags M k (2 ^ j), subtree_cv key flags M (k + 2 ^ j) (2 ^ j)]"
    unfolding m_def [symmetric] l subtree_cv_def by (simp only: of_nat_add)
qed

lemma subtree_double:
  assumes "1024 * (k + 2 ^ Suc j) \<le> length M"
  shows "subtree_cv key flags M k (2 ^ Suc j) =
    output_chaining_value (parent_output (subtree_cv key flags M k (2 ^ j) @ subtree_cv key flags M (k + 2 ^ j) (2 ^ j)) key flags)"
  unfolding subtree_cv_def [of _ _ _ _ "2 ^ Suc j"] spec_tree_parent [OF children_double(1) [OF assms]] children_double(2) [OF assms]
  by simp

lemma merge_lazy:
  assumes "2 ^ j dvd k" "1024 * (k + 2 ^ j) \<le> length M"
  shows "merge_loop key flags (length (sizes (k + 2 ^ j))) (forest key flags M 0 (sizes k @ [2 ^ j])) =
    Some (forest key flags M 0 (sizes (k + 2 ^ j)))"
  using assms
proof (induction k arbitrary: j rule: less_induct)
  case (less k)
  show ?case
  proof (cases "even (k div 2 ^ j)")
    case True
    then show ?thesis using sizes_add [OF less.prems(1)] by (subst merge_loop.simps) simp
  next
    case False
    then obtain k' where k: "k = k' + 2 ^ j" "2 ^ Suc j dvd k'" "sizes k = sizes k' @ [2 ^ j]" by (rule carry [OF less.prems(1)])
    have sum: "k + 2 ^ j = k' + 2 ^ Suc j" using k(1) by simp
    have IH: "merge_loop key flags (length (sizes (k' + 2 ^ Suc j))) (forest key flags M 0 (sizes k' @ [2 ^ Suc j])) =
        Some (forest key flags M 0 (sizes (k' + 2 ^ Suc j)))"
      by (rule less.IH [OF _ k(2)]) (use k(1) less.prems(2) in simp_all)
    have st: "forest key flags M 0 (sizes k @ [2 ^ j]) = forest key flags M 0 (sizes k') @
        [subtree_cv key flags M k' (2 ^ j), subtree_cv key flags M (k' + 2 ^ j) (2 ^ j)]"
      by (simp add: k(3) forest_append)
    have dbl: "subtree_cv key flags M k' (2 ^ Suc j) = output_chaining_value (parent_output
        (subtree_cv key flags M k' (2 ^ j) @ subtree_cv key flags M (k' + 2 ^ j) (2 ^ j)) key flags)"
      by (rule subtree_double) (use less.prems(2) k(1) in simp)
    have "length (sizes (k' + 2 ^ Suc j)) \<le> length (sizes k') + 1" by (rule length_sizes_add [OF k(2)])
    then have "merge_loop key flags (length (sizes (k' + 2 ^ Suc j))) (forest key flags M 0 (sizes k @ [2 ^ j])) =
        merge_loop key flags (length (sizes (k' + 2 ^ Suc j))) (forest key flags M 0 (sizes k') @ [subtree_cv key flags M k' (2 ^ Suc j)])"
      unfolding st dbl by (subst merge_loop.simps) (simp add: nth_append)
    also have "\<dots> = merge_loop key flags (length (sizes (k' + 2 ^ Suc j))) (forest key flags M 0 (sizes k' @ [2 ^ Suc j]))"
      by (simp add: forest_append)
    finally show ?thesis unfolding sum using IH by simp
  qed
qed

text \<open>A forest in which the last subtree may still be unmerged.\<close>

definition lazy_forest :: "u32 list \<Rightarrow> byte \<Rightarrow> bytes \<Rightarrow> nat \<Rightarrow> bytes list \<Rightarrow> bool" where
  "lazy_forest key flags M n st \<longleftrightarrow> st = forest key flags M 0 (sizes n) \<or>
     (\<exists>k j. n = k + 2 ^ j \<and> 2 ^ j dvd k \<and> st = forest key flags M 0 (sizes k @ [2 ^ j]))"

lemma lazy_merged: "lazy_forest key flags M n (forest key flags M 0 (sizes n))"
  by (simp add: lazy_forest_def)

lemma lazy_snoc:
  "n = k + 2 ^ j \<Longrightarrow> 2 ^ j dvd k \<Longrightarrow> lazy_forest key flags M n (forest key flags M 0 (sizes k) @ [subtree_cv key flags M k (2 ^ j)])"
  unfolding lazy_forest_def by (intro disjI2 exI [of _ k] exI [of _ j]) (simp add: forest_append)

lemma lazy_merge:
  assumes "lazy_forest key flags M n st" "1024 * n \<le> length M"
  shows "merge_loop key flags (length (sizes n)) st = Some (forest key flags M 0 (sizes n))"
  using assms merge_lazy by (auto simp: lazy_forest_def merge_loop.simps [of _ _ _ "forest key flags M 0 (sizes n)"])

section \<open>Rolling up\<close>

text \<open>Every subtree is at least as large as all that follows it and \<open>u\<close> further chunks.\<close>

primrec fits :: "nat \<Rightarrow> nat list \<Rightarrow> bool" where
  "fits u [] \<longleftrightarrow> True"
| "fits u (s # ss) \<longleftrightarrow> (\<exists>j. s = 2 ^ j) \<and> sum_list ss + u \<le> s \<and> fits u ss"

lemma fits_double: "fits u ss \<Longrightarrow> fits (2 * u) (map (\<lambda>s. 2 * s) ss)"
  by (induction ss) (auto simp: sum_list_double intro: exI [of _ "Suc _"] simp flip: power_Suc)

lemma fits_mono: "fits u ss \<Longrightarrow> v \<le> u \<Longrightarrow> fits v ss"
  by (induction ss) auto

lemma fits_snoc: "fits (u + 1) ss \<Longrightarrow> u \<le> 1 \<Longrightarrow> fits u (ss @ [1])"
  by (induction ss) (auto intro: exI [of _ 0])

lemma fits_sizes: "2 ^ j dvd n \<Longrightarrow> fits (2 ^ j) (sizes n)"
proof (induction n arbitrary: j rule: sizes.induct)
  case (1 n)
  show ?case
  proof (cases "n = 0")
    case False
    show ?thesis
    proof (cases j)
      case (Suc i)
      then have "even n" "2 ^ i dvd n div 2" using "1.prems" by (auto elim!: dvdE)
      then show ?thesis using 1(1) [OF False, of i] fits_double Suc by (simp add: sizes_even)
    next
      case 0
      have "fits 2 (map (\<lambda>s. 2 * s) (sizes (n div 2)))" using fits_double [OF 1(1) [OF False, of 0]] by simp
      then have "fits 1 (map (\<lambda>s. 2 * s) (sizes (n div 2)))" "fits 1 (map (\<lambda>s. 2 * s) (sizes (n div 2)) @ [1])"
        using fits_mono [of 2 _ 1] fits_snoc [of 1] by (simp_all only: one_add_one)
      then show ?thesis using False 0 by (subst sizes.simps) (simp del: One_nat_def)
    qed
  qed simp
qed

lemma roll_up_spec:
  assumes "fits u ss" "0 < length X" "length X \<le> 1024 * u" "drop (1024 * k) M = rest" "length rest = 1024 * sum_list ss + length X"
    "X = drop (1024 * (k + sum_list ss)) M"
  shows "roll_up key flags (forest key flags M k ss) (spec_tree key flags (of_nat (k + sum_list ss)) X) = spec_tree key flags (of_nat k) rest"
  using assms
proof (induction ss arbitrary: k rest)
  case Nil
  have "X = rest" using Nil(6) unfolding Nil(4) [symmetric] sum_list.Nil add_0_right .
  then show ?case by (simp add: roll_up_def)
next
  case (Cons s ss)
  obtain j where j: "s = 2 ^ j" using Cons.prems(1) by auto
  have len: "length rest = 1024 * (s + sum_list ss) + length X" using Cons.prems(5) by simp
  have "1 \<le> s" by (simp add: j)
  have "1024 * sum_list ss + length X \<le> 1024 * s" using Cons.prems(1,3) by simp
  then have "s * 1024 < length rest" "length rest \<le> 2 * s * 1024" using len Cons.prems(2) \<open>1 \<le> s\<close> by (simp_all)
  then have l: "left_len (length rest) = 1024 * s" using left_len_eq [of j "length rest"] unfolding j by (simp only: power_Suc mult.commute)
  have "1024 \<le> 1024 * s" "0 < length X" using \<open>1 \<le> s\<close> Cons.prems(2) by simp_all
  then have big: "1024 < length rest" unfolding len distrib_left by linarith
  have dr: "drop (1024 * (k + s)) M = drop (1024 * s) rest"
    unfolding Cons.prems(4) [symmetric] drop_drop by (simp only: distrib_left add.commute)
  have "roll_up key flags (forest key flags M (k + s) ss) (spec_tree key flags (of_nat (k + s + sum_list ss)) X) =
      spec_tree key flags (of_nat (k + s)) (drop (1024 * (k + s)) M)"
  proof (rule Cons.IH)
    show "fits u ss" using Cons.prems(1) by simp
    show "length (drop (1024 * (k + s)) M) = 1024 * sum_list ss + length X" unfolding dr length_drop len by simp
    show "X = drop (1024 * (k + s + sum_list ss)) M" using Cons.prems(6) by (simp only: sum_list.Cons add.assoc)
  qed (use Cons.prems(2,3) in simp_all)
  then have "roll_up key flags (forest key flags M k (s # ss)) (spec_tree key flags (of_nat (k + sum_list (s # ss))) X) =
      parent_output (subtree_cv key flags M k s @ spec_cv key flags (of_nat (k + s)) (drop (1024 * (k + s)) M)) key flags"
    by (simp add: roll_up_def add.assoc)
  also have "\<dots> = spec_tree key flags (of_nat k) rest"
    unfolding spec_tree_parent [OF big] l subtree_cv_def Cons.prems(4) dr by simp
  finally show ?case .
qed

section \<open>Subtrees of an update\<close>

lemma and_low_bits_zero:
  assumes "a \<le> 64" "c < 2 ^ 64"
  shows "of_nat (2 ^ a - 1) AND (of_nat c :: u64) = 0 \<longleftrightarrow> 2 ^ a dvd c"
proof -
  have "(of_nat (2 ^ a - 1) :: u64) = mask a" by (simp add: mask_eq_exp_minus_1 of_nat_diff)
  moreover have "mask a AND (of_nat c :: u64) = take_bit a (of_nat c)" by (simp only: take_bit_eq_mask and.commute)
  ultimately have "of_nat (2 ^ a - 1) AND (of_nat c :: u64) = of_nat (take_bit a c)" by (simp only: take_bit_of_nat)
  moreover have "take_bit a c < 2 ^ 64" using assms(2) by (meson le_less_trans take_bit_nat_less_eq_self)
  ultimately show ?thesis by (auto simp: word_of_nat_eq_0_iff take_bit_eq_mod mod_eq_0_iff_dvd dest: nat_dvd_not_less [rotated])
qed

lemma shrink_power:
  assumes "a \<le> 64" "c < 2 ^ 64" "2 ^ d dvd c" "d \<le> a"
  obtains b where "shrink_subtree (2 ^ a) (of_nat c) = 2 ^ b" "2 ^ b dvd c" "d \<le> b" "b \<le> a"
  using assms
proof (induction a arbitrary: thesis)
  case (Suc a)
  show ?case
  proof (cases "2 ^ Suc a dvd c")
    case True
    then have "shrink_subtree (2 ^ Suc a) (of_nat c) = 2 ^ Suc a"
      using and_low_bits_zero [of "Suc a" c] Suc.prems(2,3) by (subst shrink_subtree.simps) simp
    then show ?thesis using Suc.prems(1) True Suc.prems(5) by blast
  next
    case False
    then have "d \<noteq> Suc a" using Suc.prems(4) by blast
    then have "d \<le> a" using Suc.prems(5) by simp
    moreover have "shrink_subtree (2 ^ Suc a) (of_nat c) = shrink_subtree (2 ^ a) (of_nat c)"
      using and_low_bits_zero [of "Suc a" c] Suc.prems(2,3) False by (subst shrink_subtree.simps) simp
    ultimately show ?thesis using Suc.IH Suc.prems by (metis Suc_leD le_SucI)
  qed
qed (auto simp: shrink_subtree.simps)

text \<open>The length of the subtree an update splits off a long input: whole chunks, a power of two that divides the chunks so far.\<close>

lemma subtree_len:
  assumes "1024 < length input" "length input < 2 ^ 64" "1024 * n < 2 ^ 64" "ctr = of_nat n"
  obtains i where "shrink_subtree (round_down_to_power_of_2 (length input)) (ctr * of_nat BLAKE3_CHUNK_LEN) = 1024 * 2 ^ i"
    "2 ^ i dvd n" "1024 * 2 ^ i \<le> length input"
proof -
  define a where "a = highest_one (length input)"
  have a: "2 ^ a \<le> length input" "length input < 2 ^ Suc a" unfolding a_def using highest_one_le [of "length input"] highest_one_gr [of "length input"] assms(1) by (cases "input = []"; simp)+
  have rd: "round_down_to_power_of_2 (length input) = 2 ^ a" by (rule round_down_eq [OF a])
  have "(2 :: nat) ^ 10 < 2 ^ Suc a" "(2 :: nat) ^ a < 2 ^ 64" using a assms(1,2) by simp_all
  then have "10 \<le> a" "a \<le> 64" using power_less_imp_less_exp [of "2 :: nat"] by (metis less_Suc_eq_le one_less_numeral_iff semiring_norm(76) less_imp_le)+
  moreover have "2 ^ 10 dvd 1024 * n" by simp
  ultimately obtain b where b: "shrink_subtree (2 ^ a) (of_nat (1024 * n)) = 2 ^ b" "2 ^ b dvd 1024 * n" "10 \<le> b" "b \<le> a"
    using shrink_power [of a "1024 * n" 10] assms(3) by metis
  obtain i where i: "b = 10 + i" using b(3) le_Suc_ex by blast
  then have "(2 :: nat) ^ b = 1024 * 2 ^ i" by (simp add: power_add)
  moreover have "(2 :: nat) ^ b \<le> 2 ^ a" using b(4) by simp
  moreover have "ctr * of_nat BLAKE3_CHUNK_LEN = of_nat (1024 * n)" by (simp add: assms(4) blake3_lens)
  ultimately show ?thesis using that [of i] b(1,2) a(1) rd by (simp del: of_nat_mult)
qed

lemma lazy_extend: "1024 * n \<le> length M \<Longrightarrow> lazy_forest key flags (M @ x) n st \<longleftrightarrow> lazy_forest key flags M n st"
proof -
  assume n: "1024 * n \<le> length M"
  have "forest key flags (M @ x) 0 (sizes n) = forest key flags M 0 (sizes n)" by (rule forest_extend) (simp add: n)
  moreover have "forest key flags (M @ x) 0 (sizes k @ [2 ^ j]) = forest key flags M 0 (sizes k @ [2 ^ j])" if "n = k + 2 ^ j" for k j
    by (rule forest_extend) (use n that in simp)
  ultimately show ?thesis unfolding lazy_forest_def by metis
qed

lemma chunks_bound: "1024 * n \<le> length (M :: bytes) \<Longrightarrow> length M < 2 ^ 64 \<Longrightarrow> n < 2 ^ 54"
  by simp

lemma merge_stack_lazy:
  assumes "lazy_forest key flags M n (cv_stack h)" "1024 * n \<le> length M" "length M < 2 ^ 64" "h_key h = key" "cs_flags (h_chunk h) = flags"
  shows "hasher_merge_cv_stack h (of_nat n) = Some (h\<lparr>cv_stack := forest key flags M 0 (sizes n)\<rparr>)"
  using assms lazy_merge [OF assms(1,2)] popcnt_sizes [of n] by (simp add: hasher_merge_cv_stack_def)

lemma push_cv_lazy:
  assumes "lazy_forest key flags M n (cv_stack h)" "1024 * n \<le> length M" "length M < 2 ^ 64" "h_key h = key" "cs_flags (h_chunk h) = flags"
  shows "hasher_push_cv h cv (of_nat n) = Some (h\<lparr>cv_stack := forest key flags M 0 (sizes n) @ [cv]\<rparr>)"
proof -
  have "length (sizes n) \<le> 54" by (rule length_sizes_le) (rule chunks_bound [OF assms(2,3)])
  then show ?thesis using merge_stack_lazy [OF assms] by (simp add: hasher_push_cv_def BLAKE3_MAX_DEPTH_def)
qed

definition unmerged :: "u32 list \<Rightarrow> byte \<Rightarrow> bytes \<Rightarrow> nat \<Rightarrow> bytes list \<Rightarrow> bool" where
  "unmerged key flags M n st \<longleftrightarrow>
     (\<exists>k j. 0 < k \<and> n = k + 2 ^ j \<and> 2 ^ j dvd k \<and> st = forest key flags M 0 (sizes k @ [2 ^ j]))"

lemma unmerged_lazy: "unmerged key flags M n st \<Longrightarrow> lazy_forest key flags M n st"
  unfolding unmerged_def lazy_forest_def by blast

text \<open>What the loop over subtrees keeps: an empty chunk and the forest of the chunks so far.\<close>

definition between :: "u32 list \<Rightarrow> byte \<Rightarrow> bytes \<Rightarrow> nat \<Rightarrow> blake3_hasher \<Rightarrow> bool" where
  "between key flags M n h \<longleftrightarrow> 1024 * n \<le> length M \<and> h_key h = key \<and> absorbed key flags (of_nat n) [] (h_chunk h) \<and>
     lazy_forest key flags M n (cv_stack h)"

lemma spec_tree_chunk: "length m \<le> 1024 \<Longrightarrow> spec_tree key flags ctr m = spec_chunk flags ctr CHUNK_START key m"
  by (subst spec_tree.simps) simp

lemma absorbed_counter: "absorbed key flags ctr m cs \<Longrightarrow> cs_flags cs = flags \<and> chunk_counter cs = ctr \<and> chunk_state_len cs = length m"
  by (simp add: absorbed_def)

lemma absorbed_empty:
  assumes "absorbed key flags ctr [] cs"
  shows "absorbed key flags ctr' [] (cs\<lparr>chunk_counter := ctr'\<rparr>)"
proof (rule absorbed_fresh)
  have l: "buf_len cs = 0" "blocks_compressed cs = 0" using assms by (auto simp: absorbed_def chunk_state_len_def blake3_lens)
  then show "buf_len (cs\<lparr>chunk_counter := ctr'\<rparr>) = 0" "blocks_compressed (cs\<lparr>chunk_counter := ctr'\<rparr>) = 0" by simp_all
  show "cs_buf (cs\<lparr>chunk_counter := ctr'\<rparr>) = replicate BLAKE3_BLOCK_LEN 0"
    using assms l by (simp add: absorbed_def buf_ok_def pending_def pad_block_def blake3_lens)
  have "spec_chunk flags ctr CHUNK_START key [] = spec_chunk flags ctr (chunk_state_maybe_start_flag cs) (cs_cv cs) (pending cs)"
    using assms unfolding absorbed_def by (metis append_Nil append_Nil2)
  then show "cs_cv (cs\<lparr>chunk_counter := ctr'\<rparr>) = key" using l by (simp add: spec_chunk.simps pending_def make_output_def)
qed (use assms in \<open>simp_all add: absorbed_def\<close>)

lemma push_subtree_between:
  assumes "between key flags M n h" "2 ^ i dvd n" "1024 * (n + 2 ^ i) \<le> length M" "length M < 2 ^ 64"
  obtains h' where "push_subtree h (chunks_of M n (2 ^ i)) = Some h'" "between key flags M (n + 2 ^ i) h'"
    "0 < i \<Longrightarrow> unmerged key flags M (n + 2 ^ i) (cv_stack h')"
proof -
  let ?m = "chunks_of M n (2 ^ i)"
  have h: "h_key h = key" "cs_flags (h_chunk h) = flags" "chunk_counter (h_chunk h) = of_nat n"
    "lazy_forest key flags M n (cv_stack h)" "1024 * n \<le> length M" "absorbed key flags (of_nat n) [] (h_chunk h)"
    using assms(1) by (auto simp: between_def dest: absorbed_counter)
  have len: "length ?m = 1024 * 2 ^ i" using assms(3) by simp
  define out where "out st = h\<lparr>cv_stack := st, h_chunk := (h_chunk h)\<lparr>chunk_counter := of_nat n + of_nat (2 ^ i)\<rparr>\<rparr>" for st
  have *: "between key flags M (n + 2 ^ i) (out st)" if "lazy_forest key flags M (n + 2 ^ i) st" for st
    using absorbed_empty [OF h(6)] that h(1) assms(3) by (simp add: between_def out_def)
  show ?thesis
  proof (cases i)
    case 0
    have "absorbed key flags (of_nat n) [] ((chunk_state_init key flags)\<lparr>chunk_counter := of_nat n\<rparr>)"
      by (rule absorbed_fresh) (simp_all add: chunk_state_init_def)
    from chunk_output_spec [OF chunk_update_absorbs [OF this, of ?m]]
    have "chunk_state_output (chunk_state_update ((chunk_state_init key flags)\<lparr>chunk_counter := of_nat n\<rparr>) ?m) = spec_tree key flags (of_nat n) ?m"
      using len 0 by (simp add: spec_tree_chunk)
    then have "push_subtree h ?m = Some (out (forest key flags M 0 (sizes n) @ [subtree_cv key flags M n 1]))"
      using h len 0 push_cv_lazy [OF h(4,5) assms(4) h(1,2)]
      by (simp add: push_subtree_def out_def blake3_lens subtree_cv_def Let_def)
    moreover have "lazy_forest key flags M (n + 2 ^ i) (forest key flags M 0 (sizes n) @ [subtree_cv key flags M n 1])"
      using lazy_snoc [of "n + 2 ^ i" n 0] by (simp add: 0)
    ultimately show ?thesis using that * 0 by blast
  next
    case (Suc j)
    let ?l = "subtree_cv key flags M n (2 ^ j)" and ?r = "subtree_cv key flags M (n + 2 ^ j) (2 ^ j)"
    have dv: "2 ^ j dvd n" "even (n div 2 ^ j)" using assms(2) Suc by (auto elim!: dvdE)
    note k = sizes_add [OF dv]
    have pair: "compress_subtree_to_parent_node ?m key (of_nat n) flags = Some (?l, ?r)"
      using parent_node_spec [OF children_double(1), of n j M key "of_nat n" flags] assms(3) unfolding Suc
      by (simp only: children_double(2) nth_Cons_0 nth_Cons_Suc One_nat_def)
    have long: "\<not> length ?m \<le> 1024" "length ?m div 1024 div 2 = 2 ^ j" "length ?m div 1024 = 2 ^ i"
      using children_double(1) [of n j M] assms(3) len unfolding Suc by (simp_all only: not_le) simp_all
    have first: "hasher_push_cv h ?l (of_nat n) = Some (h\<lparr>cv_stack := forest key flags M 0 (sizes n) @ [?l]\<rparr>)"
      by (rule push_cv_lazy [OF h(4,5) assms(4) h(1,2)])
    let ?h = "h\<lparr>cv_stack := forest key flags M 0 (sizes n) @ [?l]\<rparr>"
    have st: "cv_stack ?h = forest key flags M 0 (sizes (n + 2 ^ j))" by (simp add: k forest_append)
    have "hasher_push_cv ?h ?r (of_nat (n + 2 ^ j)) = Some (?h\<lparr>cv_stack := forest key flags M 0 (sizes (n + 2 ^ j)) @ [?r]\<rparr>)"
      by (rule push_cv_lazy) (use st h(1,2) assms(3,4) Suc in \<open>simp_all add: lazy_forest_def\<close>)
    then have "push_subtree h ?m = Some (out (forest key flags M 0 (sizes (n + 2 ^ j) @ [2 ^ j])))"
      using pair first long unfolding push_subtree_def Let_def blake3_lens h(1-3) by (simp add: out_def forest_append)
    moreover have "unmerged key flags M (n + 2 ^ i) (forest key flags M 0 (sizes (n + 2 ^ j) @ [2 ^ j]))"
      unfolding unmerged_def using dv Suc by (intro exI [of _ "n + 2 ^ j"] exI [of _ j]) simp
    ultimately show ?thesis using that * unmerged_lazy by (simp add: out_def)
  qed
qed

lemma update_loop_between:
  assumes "between key flags M n h" "input = drop (1024 * n) M" "input \<noteq> []" "length M < 2 ^ 64"
  shows "\<exists>h' n'. update_loop h input = Some (h', drop (1024 * n') M) \<and> between key flags M n' h' \<and> length M \<le> 1024 * n' + 1024 \<and>
    (drop (1024 * n') M = [] \<longrightarrow> unmerged key flags M n' (cv_stack h'))"
  using assms
proof (induction "length input" arbitrary: n h input rule: less_induct)
  case less
  show ?case
  proof (cases "1024 < length input")
    case False
    then have "update_loop h input = Some (h, drop (1024 * n) M)" using less.prems(2) by (subst update_loop.simps) (simp add: blake3_lens)
    then show ?thesis using False less.prems by (intro exI [of _ h] exI [of _ n]) auto
  next
    case True
    have n: "1024 * n \<le> length M" "chunk_counter (h_chunk h) = of_nat n" using less.prems(1) by (auto simp: between_def dest: absorbed_counter)
    have "length input < 2 ^ 64" "1024 * n < 2 ^ 64" using less.prems(2,4) n(1) by simp_all
    then obtain i where i: "shrink_subtree (round_down_to_power_of_2 (length input)) (chunk_counter (h_chunk h) * of_nat BLAKE3_CHUNK_LEN) = 1024 * 2 ^ i"
        "2 ^ i dvd n" "1024 * 2 ^ i \<le> length input"
      using subtree_len [OF True _ _ n(2)] by blast
    have b: "1024 * (n + 2 ^ i) \<le> length M" using i(3) n(1) less.prems(2) by simp
    obtain h' where h': "push_subtree h (chunks_of M n (2 ^ i)) = Some h'" "between key flags M (n + 2 ^ i) h'"
        "0 < i \<Longrightarrow> unmerged key flags M (n + 2 ^ i) (cv_stack h')"
      using push_subtree_between [OF less.prems(1) i(2) b less.prems(4)] by metis
    have d: "drop (1024 * 2 ^ i) input = drop (1024 * (n + 2 ^ i)) M" by (simp add: less.prems(2) algebra_simps)
    have run: "update_loop h input = update_loop h' (drop (1024 * (n + 2 ^ i)) M)"
      using True i(1) h'(1) d less.prems(2) by (subst update_loop.simps) (simp add: blake3_lens Let_def)
    show ?thesis
    proof (cases "drop (1024 * (n + 2 ^ i)) M = []")
      case nil: True
      have "0 < i" using nil True d by (cases i) auto
      then show ?thesis unfolding run nil using h' nil b
        by (intro exI [of _ h'] exI [of _ "n + 2 ^ i"]) (simp add: update_loop.simps)
    next
      case False
      have "length (drop (1024 * (n + 2 ^ i)) M) < length input" unfolding d [symmetric] length_drop using True by (intro diff_less) auto
      then show ?thesis unfolding run by (rule less.hyps [OF _ h'(2) refl False less.prems(4)])
    qed
  qed
qed

section \<open>The hasher\<close>

text \<open>The state of a hasher after the message \<open>M\<close>: its complete chunks in the forest, the rest in the open chunk.\<close>

definition hashed :: "u32 list \<Rightarrow> byte \<Rightarrow> bytes \<Rightarrow> blake3_hasher \<Rightarrow> bool" where
  "hashed key flags M h \<longleftrightarrow> h_key h = key \<and> (\<exists>n. 1024 * n \<le> length M \<and> length M \<le> 1024 * n + 1024 \<and>
     absorbed key flags (of_nat n) (drop (1024 * n) M) (h_chunk h) \<and>
     (if drop (1024 * n) M = [] then n = 0 \<and> cv_stack h = [] \<or> unmerged key flags M n (cv_stack h)
      else cv_stack h = forest key flags M 0 (sizes n)))"

lemma hashed_init: "hashed key flags [] (hasher_init_base key flags)"
proof -
  have "absorbed key flags 0 [] (chunk_state_init key flags)" by (rule absorbed_fresh) (simp_all add: chunk_state_init_def)
  then show ?thesis by (simp add: hashed_def hasher_init_base_def)
qed

text \<open>The last part of an update, once the open chunk is empty.\<close>

definition update_tail :: "blake3_hasher \<Rightarrow> bytes \<Rightarrow> blake3_hasher option" where
  "update_tail h input = do {
     (self3, rest) \<leftarrow> update_loop h input;
     if rest \<noteq> []
     then (let self = self3\<lparr>h_chunk := chunk_state_update (h_chunk self3) rest\<rparr>
           in hasher_merge_cv_stack self (chunk_counter (h_chunk self)))
     else Some self3
   }"

lemma update_tail_hashed:
  assumes "between key flags M n h" "drop (1024 * n) M \<noteq> []" "length M < 2 ^ 64"
  shows "\<exists>h'. update_tail h (drop (1024 * n) M) = Some h' \<and> hashed key flags M h'"
proof -
  obtain h' n' where l: "update_loop h (drop (1024 * n) M) = Some (h', drop (1024 * n') M)" "between key flags M n' h'"
      "length M \<le> 1024 * n' + 1024" "drop (1024 * n') M = [] \<Longrightarrow> unmerged key flags M n' (cv_stack h')"
    using update_loop_between [OF assms(1) refl assms(2,3)] by metis
  have b: "1024 * n' \<le> length M" "h_key h' = key" "absorbed key flags (of_nat n') [] (h_chunk h')" "lazy_forest key flags M n' (cv_stack h')"
    using l(2) by (auto simp: between_def)
  show ?thesis
  proof (cases "drop (1024 * n') M = []")
    case True
    then show ?thesis using l b by (auto simp: update_tail_def hashed_def intro: exI [of _ n'])
  next
    case False
    let ?c = "chunk_state_update (h_chunk h') (drop (1024 * n') M)"
    have c: "absorbed key flags (of_nat n') (drop (1024 * n') M) ?c" using chunk_update_absorbs [OF b(3)] by simp
    then have cc: "chunk_counter ?c = of_nat n'" "cs_flags ?c = flags" by (auto dest: absorbed_counter)
    have "hasher_merge_cv_stack (h'\<lparr>h_chunk := ?c\<rparr>) (of_nat n') = Some (h'\<lparr>h_chunk := ?c, cv_stack := forest key flags M 0 (sizes n')\<rparr>)"
      by (rule merge_stack_lazy) (use b assms(3) cc in simp_all)
    then have "update_tail h (drop (1024 * n) M) = Some (h'\<lparr>h_chunk := ?c, cv_stack := forest key flags M 0 (sizes n')\<rparr>)"
      using l(1) False cc by (simp add: update_tail_def Let_def)
    moreover have "hashed key flags M (h'\<lparr>h_chunk := ?c, cv_stack := forest key flags M 0 (sizes n')\<rparr>)"
      unfolding hashed_def using b(1,2) l(3) c False by (intro conjI exI [of _ n']) simp_all
    ultimately show ?thesis by blast
  qed
qed

lemma update_split:
  "blake3_hasher_update h y =
     (if y = [] then Some h
      else if chunk_state_len (h_chunk h) = 0 then update_tail h y
      else let tk = min (1024 - chunk_state_len (h_chunk h)) (length y); h1 = h\<lparr>h_chunk := chunk_state_update (h_chunk h) (take tk y)\<rparr>
           in if drop tk y = [] then Some h1
              else do {
                h2 \<leftarrow> hasher_push_cv h1 (output_chaining_value (chunk_state_output (h_chunk h1))) (chunk_counter (h_chunk h1));
                update_tail (h2\<lparr>h_chunk := chunk_state_reset (h_chunk h2) (h_key h2) (chunk_counter (h_chunk h2) + 1)\<rparr>) (drop tk y)
              })"
  by (auto simp: blake3_hasher_update_def update_tail_def blake3_lens Let_def intro!: Option.bind_cong [OF refl] split: option.splits)

lemma update_hashed:
  assumes "hashed key flags M h" "length (M @ y) < 2 ^ 64"
  shows "\<exists>h'. blake3_hasher_update h y = Some h' \<and> hashed key flags (M @ y) h'"
proof -
  obtain n where n: "h_key h = key" "1024 * n \<le> length M" "length M \<le> 1024 * n + 1024" "absorbed key flags (of_nat n) (drop (1024 * n) M) (h_chunk h)"
      "if drop (1024 * n) M = [] then n = 0 \<and> cv_stack h = [] \<or> unmerged key flags M n (cv_stack h) else cv_stack h = forest key flags M 0 (sizes n)"
    using assms(1) unfolding hashed_def by blast
  let ?t = "drop (1024 * n) M"
  have len: "chunk_state_len (h_chunk h) = length ?t" using n(4) by (simp add: absorbed_def)
  have lazy: "lazy_forest key flags (M @ y) n (cv_stack h)"
    unfolding lazy_extend [OF n(2)] using n(5) unmerged_lazy lazy_merged [of key flags M n] by (cases "?t = []") auto
  consider (none) "y = []" | (fresh) "y \<noteq> []" "?t = []" | (open_chunk) "y \<noteq> []" "?t \<noteq> []" by blast
  then show ?thesis
  proof cases
    case none
    then show ?thesis using assms(1) by (simp add: update_split)
  next
    case fresh
    then have "between key flags (M @ y) n h" "drop (1024 * n) (M @ y) = y" using n(1,2,4) lazy by (simp_all add: between_def)
    then show ?thesis using update_tail_hashed [of key flags "M @ y" n h] fresh assms(2) len by (simp add: update_split)
  next
    case open_chunk
    define tk where "tk = min (1024 - length ?t) (length y)"
    define h1 where "h1 = h\<lparr>h_chunk := chunk_state_update (h_chunk h) (take tk y)\<rparr>"
    have a1: "absorbed key flags (of_nat n) (?t @ take tk y) (h_chunk h1)" using chunk_update_absorbs [OF n(4)] by (simp add: h1_def)
    show ?thesis
    proof (cases "drop tk y = []")
      case True
      then have tk: "take tk y = y" "length M + length y \<le> 1024 * n + 1024" using n(2,3) by (simp_all add: tk_def)
      have "blake3_hasher_update h y = Some h1" using open_chunk True len by (simp add: update_split tk_def h1_def Let_def)
      moreover have "cv_stack h1 = forest key flags (M @ y) 0 (sizes n)" using n(2,5) open_chunk by (simp add: h1_def forest_extend)
      moreover have "h_key h1 = key" using n(1) by (simp add: h1_def)
      moreover have "drop (1024 * n) (M @ y) = ?t @ y" using n(2) by simp
      ultimately have "hashed key flags (M @ y) h1"
        unfolding hashed_def using a1 tk n(2) open_chunk(1) by (intro conjI exI [of _ n]) (simp_all only: length_append, simp_all)
      then show ?thesis using \<open>blake3_hasher_update h y = Some h1\<close> by blast
    next
      case False
      have tk: "tk = 1024 - length ?t" "tk < length y" using False by (simp_all add: tk_def)
      have full: "?t @ take tk y = chunks_of (M @ y) n 1" "drop tk y = drop (1024 * (n + 1)) (M @ y)" "1024 * (n + 1) \<le> length (M @ y)"
        using tk n(2,3) by simp_all
      have cv: "output_chaining_value (chunk_state_output (h_chunk h1)) = subtree_cv key flags (M @ y) n 1"
        unfolding chunk_output_spec [OF a1] full(1) subtree_cv_def by (subst spec_tree_chunk) simp_all
      have f: "cs_flags (h_chunk h1) = flags" "chunk_counter (h_chunk h1) = of_nat n" "cv_stack h1 = cv_stack h" "h_key h1 = key"
        using a1 n(1) by (auto simp: h1_def dest: absorbed_counter)
      define h2 where "h2 = h1\<lparr>cv_stack := forest key flags (M @ y) 0 (sizes n) @ [subtree_cv key flags (M @ y) n 1],
        h_chunk := chunk_state_reset (h_chunk h1) key (of_nat (n + 1))\<rparr>"
      have "hasher_push_cv h1 (subtree_cv key flags (M @ y) n 1) (of_nat n) =
          Some (h1\<lparr>cv_stack := forest key flags (M @ y) 0 (sizes n) @ [subtree_cv key flags (M @ y) n 1]\<rparr>)"
        by (rule push_cv_lazy) (use lazy f n(2) assms(2) in simp_all)
      then have run: "blake3_hasher_update h y = update_tail h2 (drop (1024 * (n + 1)) (M @ y))"
        using open_chunk False cv f
        unfolding update_split len Let_def tk_def [symmetric] h1_def [symmetric] full(2) [symmetric] by (simp add: h2_def add.commute)
      have "absorbed key flags (of_nat (n + 1)) [] (h_chunk h2)"
        by (rule absorbed_fresh) (simp_all add: h2_def chunk_state_reset_def f)
      moreover have "lazy_forest key flags (M @ y) (n + 1) (cv_stack h2)" using lazy_snoc [of "n + 1" n 0] by (simp add: h2_def)
      ultimately have "between key flags (M @ y) (n + 1) h2" using full(3) f(4) by (simp add: between_def h2_def)
      then show ?thesis unfolding run by (rule update_tail_hashed) (use False full(2) assms(2) in simp_all)
    qed
  qed
qed

lemma forest_nonempty: "0 < n \<Longrightarrow> forest key flags M 0 (sizes n) \<noteq> []"
  by (metis length_0_conv length_forest less_nat_zero_code sum_list.Nil sum_sizes)

lemma finalize_hashed:
  assumes "hashed key flags M h" "length M < 2 ^ 64"
  shows "blake3_hasher_finalize_seek h seek n = Some (output_root_bytes (spec_tree key flags 0 M) seek n)"
proof -
  obtain c where c: "h_key h = key" "1024 * c \<le> length M" "length M \<le> 1024 * c + 1024" "absorbed key flags (of_nat c) (drop (1024 * c) M) (h_chunk h)"
      "if drop (1024 * c) M = [] then c = 0 \<and> cv_stack h = [] \<or> unmerged key flags M c (cv_stack h) else cv_stack h = forest key flags M 0 (sizes c)"
    using assms(1) unfolding hashed_def by blast
  let ?t = "drop (1024 * c) M"
  have len: "chunk_state_len (h_chunk h) = length ?t" "cs_flags (h_chunk h) = flags" using c(4) by (simp_all add: absorbed_def)
  have out: "chunk_state_output (h_chunk h) = spec_tree key flags (of_nat c) ?t"
    using chunk_output_spec [OF c(4)] c(3) by (simp add: spec_tree_chunk)
  have zero: ?thesis if "n = 0" using that by (simp add: blake3_hasher_finalize_seek_def output_root_bytes_def Let_def)
  show ?thesis
  proof (cases "n = 0 \<or> c = 0")
    case True
    then have "n \<noteq> 0 \<Longrightarrow> c = 0 \<and> cv_stack h = []" using c(5) by (auto simp: unmerged_def split: if_splits)
    then show ?thesis using zero out by (cases "n = 0") (simp_all add: blake3_hasher_finalize_seek_def)
  next
    case False
    then have pos: "0 < n" "0 < c" by auto
    show ?thesis
    proof (cases "?t = []")
      case False
      have "roll_up key flags (forest key flags M 0 (sizes c)) (spec_tree key flags (of_nat (0 + sum_list (sizes c))) ?t) = spec_tree key flags (of_nat 0) M"
        by (rule roll_up_spec [where u = 1]) (use fits_sizes [of 0 c] False c(2,3) in simp_all)
      then have "roll_up key flags (forest key flags M 0 (sizes c)) (spec_tree key flags (of_nat c) ?t) = spec_tree key flags 0 M" by simp
      moreover have "cv_stack h \<noteq> []" using c(5) False forest_nonempty [OF pos(2)] by simp
      ultimately show ?thesis using c(1,5) out len pos(1) False by (simp add: blake3_hasher_finalize_seek_def Let_def)
    next
      case True
      then obtain k j where k: "0 < k" "c = k + 2 ^ j" "2 ^ j dvd k" "cv_stack h = forest key flags M 0 (sizes k @ [2 ^ j])"
        using c(5) pos(2) by (auto simp: unmerged_def)
      have M: "length M = 1024 * (k + 2 ^ j)" using True c(2) k(2) by simp
      let ?X = "drop (1024 * k) M"
      have "roll_up key flags (forest key flags M 0 (sizes k)) (spec_tree key flags (of_nat (0 + sum_list (sizes k))) ?X) = spec_tree key flags (of_nat 0) M"
        by (rule roll_up_spec [OF fits_sizes [OF k(3)]]) (use M in simp_all)
      then have roll: "roll_up key flags (forest key flags M 0 (sizes k)) (spec_tree key flags (of_nat k) ?X) = spec_tree key flags 0 M" by simp
      have X: "chunks_of M k (2 ^ j) = ?X" using M by simp
      obtain st cv where st: "forest key flags M 0 (sizes k) = st @ [cv]" using forest_nonempty [OF k(1)] by (metis rev_exhaust)
      have "cv_stack h = st @ [cv, spec_cv key flags (of_nat k) ?X]" using k(4) X by (simp add: forest_append st subtree_cv_def)
      moreover have "roll_up key flags st (parent_output (cv @ spec_cv key flags (of_nat k) ?X) key flags) = spec_tree key flags 0 M"
        using roll by (simp add: st roll_up_def)
      ultimately show ?thesis using c(1) len pos(1) True by (simp add: blake3_hasher_finalize_seek_def nth_append Let_def)
    qed
  qed
qed

fun update_all :: "blake3_hasher \<Rightarrow> bytes list \<Rightarrow> blake3_hasher option" where
  "update_all h [] = Some h"
| "update_all h (p # ps) = Option.bind (blake3_hasher_update h p) (\<lambda>h'. update_all h' ps)"

lemma update_all_hashed:
  "hashed key flags M h \<Longrightarrow> length (M @ concat ps) < 2 ^ 64 \<Longrightarrow> \<exists>h'. update_all h ps = Some h' \<and> hashed key flags (M @ concat ps) h'"
proof (induction ps arbitrary: M h)
  case (Cons p ps)
  then obtain h1 where "blake3_hasher_update h p = Some h1" "hashed key flags (M @ p) h1"
    using update_hashed [of key flags M h p] by auto
  then show ?case using Cons.IH [of "M @ p" h1] Cons.prems(2) by simp
qed simp

text \<open>A reset hasher starts over, and the derivation of a key from a context always succeeds.\<close>

lemma reset_hashed:
  assumes "hashed key flags M h"
  shows "hashed key flags [] (blake3_hasher_reset h)"
proof -
  have "h_key h = key" "cs_flags (h_chunk h) = flags" using assms by (auto simp: hashed_def absorbed_def)
  then have "absorbed key flags 0 [] (chunk_state_reset (h_chunk h) key 0)"
    by (intro absorbed_fresh) (simp_all add: chunk_state_reset_def)
  then show ?thesis using \<open>h_key h = key\<close> by (simp add: hashed_def blake3_hasher_reset_def)
qed

lemma derive_key_total:
  assumes "0 \<in> set context" "length context < 2 ^ 64"
  shows "\<exists>h key. blake3_hasher_init_derive_key context = Some h \<and> hashed key DERIVE_KEY_MATERIAL [] h"
proof -
  let ?c = "takeWhile (\<lambda>b. b \<noteq> 0) context"
  have "length ?c < 2 ^ 64" using length_takeWhile_le le_less_trans assms(2) by blast
  then obtain h where "blake3_hasher_update (hasher_init_base blake3_IV DERIVE_KEY_CONTEXT) ?c = Some h" "hashed blake3_IV DERIVE_KEY_CONTEXT ?c h"
    using update_hashed [OF hashed_init, of ?c blake3_IV DERIVE_KEY_CONTEXT] by auto
  then show ?thesis using finalize_hashed [of _ _ _ h] \<open>length ?c < 2 ^ 64\<close> hashed_init assms(1)
    by (auto simp: blake3_hasher_init_derive_key_def blake3_hasher_init_derive_key_raw_def blake3_hasher_finalize_def intro!: exI hashed_init)
qed

section \<open>The extendable output\<close>

definition xof_byte :: "output_t \<Rightarrow> nat \<Rightarrow> byte" where
  "xof_byte out i = root_block out (of_nat (i div 64)) ! (i mod 64)"

lemma length_root_block [simp]: "length (root_block out c) = 64"
  by (simp add: root_block_def blake3_compress_xof_def blake3_store32_def Let_def)

lemma root_bytes_within:
  assumes "o' + k \<le> 64"
  shows "take k (drop o' (root_block out (of_nat c))) = map (xof_byte out) [64 * c + o'..<64 * c + o' + k]"
proof (rule nth_equalityI)
  fix i
  assume "i < length (take k (drop o' (root_block out (of_nat c))))"
  then have i: "i < k" "o' + i < 64" using assms by simp_all
  then have "(64 * c + (o' + i)) div 64 = c" "(64 * c + (o' + i)) mod 64 = o' + i" by simp_all
  then show "take k (drop o' (root_block out (of_nat c))) ! i = map (xof_byte out) [64 * c + o'..<64 * c + o' + k] ! i"
    using i by (simp add: xof_byte_def add.assoc)
qed (use assms in simp)

lemma upt_join: "a \<le> b \<Longrightarrow> b \<le> c \<Longrightarrow> [a..<b] @ [b..<c] = [a..<c]"
  using upt_add_eq_append [of a b "c - b"] by simp

lemma root_loop_xof: "root_loop out (of_nat c) n = map (xof_byte out) [64 * c..<64 * c + n]"
proof (induction n arbitrary: c rule: less_induct)
  case (less n)
  show ?case
  proof (cases "n = 0")
    case False
    define k where "k = min n 64"
    have "root_loop out (of_nat c) n = take k (root_block out (of_nat c)) @ root_loop out (of_nat (Suc c)) (n - k)"
      using False by (subst root_loop.simps) (simp add: k_def add.commute)
    also have "root_loop out (of_nat (Suc c)) (n - k) = map (xof_byte out) [64 * c + k..<64 * c + n]"
      using less.IH [of "n - k" "Suc c"] False by (cases "n \<le> 64") (auto simp: k_def add.commute)
    also have "take k (root_block out (of_nat c)) = map (xof_byte out) [64 * c..<64 * c + k]"
      using root_bytes_within [of 0 k out c] by (simp add: k_def)
    also have "\<dots> @ map (xof_byte out) [64 * c + k..<64 * c + n] = map (xof_byte out) [64 * c..<64 * c + n]"
      unfolding map_append [symmetric] by (subst upt_join) (simp_all add: k_def)
    finally show ?thesis .
  qed (simp add: root_loop.simps)
qed

lemma root_bytes_xof:
  assumes "s < 2 ^ 64"
  shows "output_root_bytes out (of_nat s) n = map (xof_byte out) [s..<s + n]"
proof (cases "n = 0")
  case False
  define k where "k = min n (64 - s mod 64)"
  have sm: "unat (of_nat s :: u64) = s" using assms by (simp add: unsigned_of_nat take_bit_nat_eq_self)
  have "unat ((of_nat s :: u64) mod 64) = s mod 64" by (simp add: unat_mod_distrib sm)
  moreover have "unat ((of_nat s :: u64) div 64) = unat (of_nat (s div 64) :: u64)"
    using assms by (simp add: unat_div_distrib sm) (simp add: unsigned_of_nat take_bit_nat_eq_self)
  then have "(of_nat s :: u64) div 64 = of_nat (s div 64)" by (rule unsigned_word_eqI)
  ultimately have "output_root_bytes out (of_nat s) n =
      take k (drop (s mod 64) (root_block out (of_nat (s div 64)))) @ root_loop out (of_nat (s div 64) + 1) (n - k)"
    using False by (simp add: output_root_bytes_def k_def Let_def)
  also have "take k (drop (s mod 64) (root_block out (of_nat (s div 64)))) = map (xof_byte out) [s..<s + k]"
    using root_bytes_within [of "s mod 64" k out "s div 64"] by (simp add: k_def)
  also have "root_loop out (of_nat (s div 64) + 1) (n - k) = map (xof_byte out) [s + k..<s + n]"
  proof (cases "k = n")
    case False
    then have "k = 64 - s mod 64" "s mod 64 < 64" "s + k + (n - k) = s + n" by (auto simp: k_def)
    then have e: "64 * (s div 64 + 1) = s + k" using mult_div_mod_eq [of 64 s] unfolding distrib_left by linarith
    then show ?thesis using \<open>s + k + (n - k) = s + n\<close> root_loop_xof [of out "s div 64 + 1" "n - k"] by (simp add: add.commute)
  qed (simp add: root_loop.simps)
  also have "map (xof_byte out) [s..<s + k] @ map (xof_byte out) [s + k..<s + n] = map (xof_byte out) [s..<s + n]"
    unfolding map_append [symmetric] by (subst upt_join) (simp_all add: k_def)
  finally show ?thesis .
qed (simp add: output_root_bytes_def)

section \<open>Properties\<close>

text \<open>
  C13: The hasher is incremental: however a message of less than \<open>2^64\<close> bytes is split into calls of
  \<open>blake3_hasher_update\<close>, no call leaves the stack of chaining values, and \<open>blake3_hasher_finalize_seek\<close> returns
  the extendable output, from any position and of any length, of the hash tree of the whole message.
\<close>

theorem blake3_incremental:
  assumes "length (concat parts) < 2 ^ 64"
  shows "\<exists>h. update_all (hasher_init_base key flags) parts = Some h \<and>
    (\<forall>seek n. blake3_hasher_finalize_seek h seek n = Some (output_root_bytes (spec_tree key flags 0 (concat parts)) seek n))"
proof -
  obtain h where "update_all (hasher_init_base key flags) parts = Some h" "hashed key flags (concat parts) h"
    using update_all_hashed [OF hashed_init, of parts key flags] assms by auto
  then show ?thesis using finalize_hashed assms by blast
qed

text \<open>1000 bytes, 100 bytes that complete the first chunk, nothing, and four chunks.\<close>

theorem blake3_incremental_witness:
  "\<exists>h. update_all blake3_hasher_init [replicate 1000 1, replicate 100 2, [], replicate 4096 3] = Some h \<and>
    (\<forall>seek n. blake3_hasher_finalize_seek h seek n =
       Some (output_root_bytes (spec_tree blake3_IV 0 0 (replicate 1000 1 @ replicate 100 2 @ replicate 4096 3)) seek n))"
  using blake3_incremental [of "[replicate 1000 1, replicate 100 2, [], replicate 4096 3]" blake3_IV 0]
  by (simp add: blake3_hasher_init_def)

text \<open>The output from a position on is the rest of the output from the start.\<close>

lemma blake3_seek:
  assumes "s < 2 ^ 64" "blake3_hasher_finalize h (s + n) = Some bs" "0 < n"
  shows "blake3_hasher_finalize_seek h (of_nat s) n = Some (drop s bs)"
proof -
  have "output_root_bytes out (of_nat s) n = drop s (output_root_bytes out 0 (s + n))" for out
    using root_bytes_xof [OF assms(1)] root_bytes_xof [of 0 out "s + n"] by (simp add: drop_map)
  then show ?thesis using assms(2,3) by (auto simp: blake3_hasher_finalize_def blake3_hasher_finalize_seek_def Let_def split: if_splits)
qed

end
