(* ===== verification/Hmac_Blake3.thy ===== *)
theory Hmac_Blake3
  imports Hmac_Correct Blake3_Hasher
begin

text \<open>
  The keyed hash of the authentication code is BLAKE3: the parameter \<open>hash\<close> of \<open>Hmac\<close> and of everything built on it
  has the function that \<open>hmac.c\<close> calls as an instance.
\<close>

text \<open>The calls of the hasher in \<open>sky_hmac_extend_with_authentication\<close> and \<open>sky_hmac_check_authentication\<close>.\<close>

definition hmac_code :: "bytes \<Rightarrow> bytes \<Rightarrow> bytes option" where
  "hmac_code key msg = do {
     hasher \<leftarrow> blake3_hasher_update (blake3_hasher_init_keyed key) msg;
     blake3_hasher_finalize hasher SKY_HMAC_LENGTH
   }"

definition blake3_keyed_hash :: keyed_hash where
  "blake3_keyed_hash key msg = xof_byte (spec_tree (load_key_words key) KEYED_HASH 0 msg)"

text \<open>
  C14: The authentication code of a frame is computed without failure and is the keyed BLAKE3 hash of the frame: the calls
  of the hasher return the first bytes of the extendable output of the hash tree under the key.
\<close>

theorem hmac_code_is_digest:
  assumes "length msg < 2 ^ 64"
  shows "hmac_code key msg = Some (digest blake3_keyed_hash key msg)"
proof -
  obtain h where "blake3_hasher_update (blake3_hasher_init_keyed key) msg = Some h" "hashed (load_key_words key) KEYED_HASH msg h"
    using update_hashed [OF hashed_init, of msg "load_key_words key" KEYED_HASH] assms by (auto simp: blake3_hasher_init_keyed_def)
  moreover have "output_root_bytes out 0 n = map (xof_byte out) [0..<n]" for out n using root_bytes_xof [of 0 out n] by simp
  ultimately show ?thesis
    using finalize_hashed assms by (simp add: hmac_code_def blake3_hasher_finalize_def digest_def blake3_keyed_hash_def)
qed

text \<open>A key and the bytes of a short frame.\<close>

definition sample_key :: bytes where
  "sample_key = [0x77, 0x68, 0x61, 0x74, 0x73, 0x20, 0x74, 0x68, 0x65, 0x20, 0x45, 0x6c, 0x76, 0x69, 0x73, 0x68,
     0x20, 0x77, 0x6f, 0x72, 0x64, 0x20, 0x66, 0x6f, 0x72, 0x20, 0x66, 0x72, 0x69, 0x65, 0x6e, 0x64]"

theorem hmac_code_is_digest_witness:
  "hmac_code sample_key [0x66, 0x4f, 0x48, 0x32] = Some (digest blake3_keyed_hash sample_key [0x66, 0x4f, 0x48, 0x32])"
  by (rule hmac_code_is_digest) simp

end
