(* ===== verification/Vc_Interface.thy ===== *)
theory Vc_Interface
  imports Sky_Handle
begin

text \<open>
  \<open>skymodem/vc_interface.cpp\<close>: the bridge of the modem between the virtual channels and the message sockets. Each tick, a
  channel reports changes of its ARQ state, publishes one received packet, and handles one message: a packet to send, or
  a command.

  The JSON library is not part of the repository: its functions are the fields of a \<open>json_lib\<close>, where \<open>None\<close> is a thrown
  exception. What a socket delivers is an argument, what is published a list. Console output and the time stamps of the
  published messages are left out. A \<open>SuoError\<close> is caught by \<open>tick\<close>, every other exception ends the modem.
\<close>

section \<open>Numbers in strings (C++ standard library)\<close>

definition char_code :: "char \<Rightarrow> nat" where "char_code c = of_char c"

definition is_space :: "char \<Rightarrow> bool" where
  "is_space c \<longleftrightarrow> char_code c = 32 \<or> 9 \<le> char_code c \<and> char_code c \<le> 13"

definition hex_value :: "char \<Rightarrow> nat option" where
  "hex_value c =
     (let n = char_code c
      in if 48 \<le> n \<and> n \<le> 57 then Some (n - 48)
         else if 97 \<le> n \<and> n \<le> 102 then Some (n - 87)
         else if 65 \<le> n \<and> n \<le> 70 then Some (n - 55) else None)"

definition is_digit :: "char \<Rightarrow> bool" where
  "is_digit c \<longleftrightarrow> 48 \<le> char_code c \<and> char_code c \<le> 57"

text \<open>Leading white space and a sign: whether it is a minus, and the rest.\<close>

definition skip_sign :: "string \<Rightarrow> bool \<times> string" where
  "skip_sign s =
     (case dropWhile is_space s of
        [] \<Rightarrow> (False, [])
      | c # cs \<Rightarrow> if char_code c = 45 then (True, cs) else if char_code c = 43 then (False, cs) else (False, c # cs))"

definition skip_0x :: "string \<Rightarrow> string" where
  "skip_0x s =
     (case s of
        a # b # c # cs \<Rightarrow>
          if char_code a = 48 \<and> (char_code b = 120 \<or> char_code b = 88) \<and> hex_value c \<noteq> None then c # cs else s
      | _ \<Rightarrow> s)"

text \<open>\<open>std::stoul(s, nullptr, 16)\<close>: the longest prefix that is a number; \<open>None\<close> where it throws.\<close>

definition stoul16 :: "string \<Rightarrow> 64 word option" where
  "stoul16 s =
     (let (neg, s1) = skip_sign s;
          ds = takeWhile (\<lambda>c. hex_value c \<noteq> None) (skip_0x s1);
          v = foldl (\<lambda>a c. 16 * a + the (hex_value c)) 0 ds
      in if ds = [] \<or> v \<ge> 2 ^ 64 then None else Some (if neg then - of_nat v else of_nat v))"

text \<open>\<open>atoll\<close>, saturating as \<open>strtoll\<close> does.\<close>

definition atoll :: "string \<Rightarrow> int" where
  "atoll s =
     (let (neg, s1) = skip_sign s;
          v = foldl (\<lambda>a c. 10 * a + int (char_code c - 48)) 0 (takeWhile is_digit s1)
      in if neg then max (- v) (- (2 ^ 63)) else min v (2 ^ 63 - 1))"

definition hex_digit :: "nat \<Rightarrow> char" where
  "hex_digit n = char_of (if n < 10 then 48 + n else 87 + n)"

text \<open>\<open>setfill('0') << hex << setw(2)\<close> for every byte.\<close>

definition hex_string :: "bytes \<Rightarrow> string" where
  "hex_string data = concat (map (\<lambda>b. [hex_digit (unat b div 16), hex_digit (unat b mod 16)]) data)"

fun parse_hex :: "string \<Rightarrow> bytes option" where
  "parse_hex (a # b # s) = do { v \<leftarrow> stoul16 [a, b]; bs \<leftarrow> parse_hex s; Some (ucast v # bs) }"
| "parse_hex s = Some []"

section \<open>State and messages\<close>

record 'j json_lib =
  json_parse :: "string \<Rightarrow> 'j option"
  json_is_object :: "'j \<Rightarrow> bool"
  json_contains :: "'j \<Rightarrow> string \<Rightarrow> bool"
  json_get :: "'j \<Rightarrow> string \<Rightarrow> 'j"
  json_is_null :: "'j \<Rightarrow> bool"
  json_string :: "'j \<Rightarrow> string option"
  json_value_string :: "'j \<Rightarrow> string \<Rightarrow> string \<Rightarrow> string option"
  json_value_unsigned :: "'j \<Rightarrow> string \<Rightarrow> u32 \<Rightarrow> u32 option"

datatype modem_exn = SuoError | StdException

datatype zmq_recv = NoMessage | RecvError | Message string

datatype published =
    ArqTimeout nat u32
  | ArqConnected nat u32
  | Telemetry nat string
  | StateResponse "(nat \<times> u32) list"
  | StatsResponse "u16 list" "u16 list"
  | ConfigResponse string int
  | ArqConnecting u32

record VirtualChannelInterface =
  vc_index :: nat
  arq_expected_state :: byte
  vci_session_identifier :: u32

definition VCInterface_create :: "VirtualChannelInterface list" where
  "VCInterface_create =
     map (\<lambda>i. \<lparr>vc_index = i, arq_expected_state = ARQ_STATE_OFF, vci_session_identifier = 0\<rparr>) [0..<SKY_NUM_VIRTUAL_CHANNELS]"

definition PACKET_MAXLEN :: nat where "PACKET_MAXLEN = 256"

section \<open>\<open>set_config\<close>\<close>

definition to_i32 :: "int \<Rightarrow> int" where "to_i32 v = (v + 2147483648) mod 4294967296 - 2147483648"
definition to_i8 :: "int \<Rightarrow> int" where "to_i8 v = (v + 128) mod 256 - 128"

definition set_mac_config :: "string \<Rightarrow> int \<Rightarrow> SkyMACConfig \<Rightarrow> SkyMACConfig" where
  "set_mac_config parameter v c =
     (if parameter = ''mac.maximum_window_length_ticks'' then c\<lparr>maximum_window_length_ticks := to_i32 v\<rparr>
      else if parameter = ''mac.minimum_window_length_ticks'' then c\<lparr>minimum_window_length_ticks := to_i32 v\<rparr>
      else if parameter = ''mac.gap_constant_ticks'' then c\<lparr>gap_constant_ticks := to_i32 v\<rparr>
      else if parameter = ''mac.tail_constant_ticks'' then c\<lparr>tail_constant_ticks := to_i32 v\<rparr>
      else if parameter = ''mac.shift_threshold_ticks'' then c\<lparr>shift_threshold_ticks := to_i32 v\<rparr>
      else if parameter = ''mac.idle_timeout_ticks'' then c\<lparr>idle_timeout_ticks := to_i32 v\<rparr>
      else if parameter = ''mac.window_adjust_increment_ticks'' then c\<lparr>window_adjust_increment_ticks := to_i16 v\<rparr>
      else if parameter = ''mac.carrier_sense_ticks'' then c\<lparr>carrier_sense_ticks := to_i16 v\<rparr>
      else if parameter = ''mac.unauthenticated_mac_updates'' then c\<lparr>unauthenticated_mac_updates := of_int v\<rparr>
      else if parameter = ''mac.window_adjustment_period'' then c\<lparr>window_adjustment_period := to_i8 v\<rparr>
      else if parameter = ''mac.idle_frames_per_window'' then c\<lparr>mac_idle_frames_per_window := nat (v mod 256)\<rparr>
      else c)"

definition set_arq_config :: "string \<Rightarrow> int \<Rightarrow> SkyARQConfig \<Rightarrow> SkyARQConfig" where
  "set_arq_config parameter v c =
     (if parameter = ''arq.timeout_ticks'' then c\<lparr>arq_timeout_ticks := to_i32 v\<rparr>
      else if parameter = ''arq.idle_frame_threshold'' then c\<lparr>idle_frame_threshold := to_i32 v\<rparr>
      else if parameter = ''arq.idle_frames_per_window'' then c\<lparr>arq_idle_frames_per_window := to_i8 v\<rparr>
      else c)"

definition set_config :: "string \<Rightarrow> string \<Rightarrow> SkyConfig \<Rightarrow> SkyConfig" where
  "set_config parameter val conf =
     conf\<lparr>conf_mac := set_mac_config parameter (atoll val) (conf_mac conf),
          conf_arq := set_arq_config parameter (atoll val) (conf_arq conf)\<rparr>"

section \<open>\<open>check\<close>\<close>

text \<open>An operation on one channel of the instance.\<close>

definition with_channel :: "nat \<Rightarrow> (SkyVirtualChannel \<Rightarrow> ('a \<times> SkyVirtualChannel) option) \<Rightarrow> SkyAll \<Rightarrow> ('a \<times> SkyAll) option" where
  "with_channel vc g self = do {
     v \<leftarrow> nth_opt (virtual_channels self) vc;
     (r, v') \<leftarrow> g v;
     vs \<leftarrow> upd_opt (virtual_channels self) vc v';
     Some (r, self\<lparr>virtual_channels := vs\<rparr>)
   }"

definition check_arq_state :: "VirtualChannelInterface \<Rightarrow> SkyAll \<Rightarrow> (VirtualChannelInterface \<times> published list) option" where
  "check_arq_state vci self = do {
     v \<leftarrow> nth_opt (virtual_channels self) (vc_index vci);
     Some (if arq_expected_state vci \<noteq> ARQ_STATE_OFF \<and> arq_state_flag v = ARQ_STATE_OFF
           then (vci\<lparr>arq_expected_state := ARQ_STATE_OFF\<rparr>, [ArqTimeout (vc_index vci) (vci_session_identifier vci)])
           else if arq_expected_state vci \<noteq> ARQ_STATE_ON \<and> arq_state_flag v = ARQ_STATE_ON
           then (vci\<lparr>arq_expected_state := ARQ_STATE_ON\<rparr>, [ArqConnected (vc_index vci) (vci_session_identifier vci)])
           else (vci, []))
   }"

definition check_received :: "VirtualChannelInterface \<Rightarrow> SkyAll \<Rightarrow> (SkyAll \<times> published list) option" where
  "check_received vci self = do {
     ((ret, bs), self') \<leftarrow> with_channel (vc_index vci)
        (\<lambda>v. map_option (\<lambda>(ret, bs, v'). ((ret, bs), v')) (sky_vc_read_next_received v PACKET_MAXLEN)) self;
     Some (self', if ret > 0 then [Telemetry (vc_index vci) (hex_string bs)] else [])
   }"

text \<open>The length of the packet is passed as an \<open>unsigned int\<close>. The return code of the push is only printed.\<close>

definition handle_data :: "'j json_lib \<Rightarrow> 'j \<Rightarrow> VirtualChannelInterface \<Rightarrow> SkyAll \<Rightarrow> (modem_exn option \<times> SkyAll) option" where
  "handle_data lib frame_dict vci self =
     (case json_string lib (json_get lib frame_dict ''data'') of
        None \<Rightarrow> Some (Some StdException, self)
      | Some hex \<Rightarrow>
          if length hex mod 2 \<noteq> 0 then Some (Some SuoError, self)
          else (case json_value_unsigned lib frame_dict ''vc'' (of_nat (vc_index vci)) of
                  None \<Rightarrow> Some (Some StdException, self)
                | Some tx_vc \<Rightarrow>
                    if unat tx_vc \<ge> SKY_NUM_VIRTUAL_CHANNELS then Some (Some SuoError, self)
                    else (case parse_hex hex of
                            None \<Rightarrow> Some (Some StdException, self)
                          | Some data \<Rightarrow> do {
                              (ret, self') \<leftarrow> with_channel (unat tx_vc)
                                 (\<lambda>v. sky_vc_push_packet_to_send v (take (length data mod 2 ^ 32) data)) self;
                              Some (None, self')
                            })))"

definition handle_control ::
    "'j json_lib \<Rightarrow> sky_tick_t \<Rightarrow> 'j \<Rightarrow> VirtualChannelInterface \<Rightarrow> SkyAll \<Rightarrow>
     (modem_exn option \<times> VirtualChannelInterface \<times> SkyAll \<times> published list) option" where
  "handle_control lib ticks frame_dict vci self =
     (let control_dict = json_get lib frame_dict ''metadata''
      in if \<not> json_is_object lib control_dict then Some (Some SuoError, vci, self, [])
         else (case json_value_string lib control_dict ''cmd'' [] of
            None \<Rightarrow> Some (Some StdException, vci, self, [])
          | Some ctrl_command \<Rightarrow>
              if ctrl_command = ''get_state'' then do {
                state \<leftarrow> sky_get_state (virtual_channels self);
                Some (None, vci, self, [StateResponse (map (\<lambda>s. (st_state s, session_identifier s)) state)])
              }
              else if ctrl_command = ''flush'' \<or> ctrl_command = ''arq_disconnect'' then do {
                (_, self') \<leftarrow> with_channel (vc_index vci) sky_vc_arq_disconnect self;
                Some (None, vci, self', [])
              }
              else if ctrl_command = ''get_stats'' then
                (let stats = sky_diag self
                 in Some (None, vci, self,
                      [StatsResponse [rx_frames stats, rx_bytes stats, rx_fec_ok stats, rx_fec_fail stats, rx_fec_errs stats,
                         rx_arq_resets stats, rx_hmac_fail stats, tx_frames stats, tx_bytes stats]
                         (map vc_arq_retransmits (vc_stats stats))]))
              else if ctrl_command = ''clear_stats'' then
                Some (None, vci, self\<lparr>sky_diag := sky_diag_clear (sky_diag self)\<rparr>, [])
              else if ctrl_command = ''set_config'' then
                (case (json_string lib (json_get lib control_dict ''config''), json_string lib (json_get lib control_dict ''value'')) of
                   (Some config_name, Some config_value) \<Rightarrow>
                     Some (None, vci, self\<lparr>sky_conf := set_config config_name config_value (sky_conf self)\<rparr>, [])
                 | _ \<Rightarrow> Some (Some StdException, vci, self, []))
              else if ctrl_command = ''get_config'' then
                (case json_string lib (json_get lib control_dict ''config'') of
                   None \<Rightarrow> Some (Some StdException, vci, self, [])
                 | Some config_name \<Rightarrow> Some (None, vci, self, [ConfigResponse config_name 3]))
              else if ctrl_command = ''arq_connect'' then do {
                (_, self') \<leftarrow> with_channel (vc_index vci) (sky_vc_arq_connect ticks) self;
                state \<leftarrow> sky_get_state (virtual_channels self');
                s \<leftarrow> nth_opt state (vc_index vci);
                Some (None, vci\<lparr>arq_expected_state := ARQ_STATE_IN_INIT, vci_session_identifier := session_identifier s\<rparr>, self',
                  [ArqConnecting (session_identifier s)])
              }
              else if ctrl_command = ''mac_reset'' then do {
                m \<leftarrow> mac_reset (conf_mac (sky_conf self)) (sky_mac self) (sky_get_tick_time ticks);
                Some (None, vci, self\<lparr>sky_mac := m\<rparr>, [])
              }
              else Some (None, vci, self, [])))"

text \<open>A failed receive leaves an empty message, which is then parsed.\<close>

definition handle_message ::
    "'j json_lib \<Rightarrow> sky_tick_t \<Rightarrow> string \<Rightarrow> VirtualChannelInterface \<Rightarrow> SkyAll \<Rightarrow>
     (modem_exn option \<times> VirtualChannelInterface \<times> SkyAll \<times> published list) option" where
  "handle_message lib ticks msg vci self =
     (case json_parse lib msg of
        None \<Rightarrow> Some (Some SuoError, vci, self, [])
      | Some frame_dict \<Rightarrow>
          if \<not> json_is_object lib frame_dict then Some (Some SuoError, vci, self, [])
          else if json_contains lib frame_dict ''data'' \<and> \<not> json_is_null lib (json_get lib frame_dict ''data'')
          then map_option (\<lambda>(e, self'). (e, vci, self', [])) (handle_data lib frame_dict vci self)
          else handle_control lib ticks frame_dict vci self)"

definition check ::
    "'j json_lib \<Rightarrow> sky_tick_t \<Rightarrow> zmq_recv \<Rightarrow> VirtualChannelInterface \<Rightarrow> SkyAll \<Rightarrow>
     (modem_exn option \<times> VirtualChannelInterface \<times> SkyAll \<times> published list) option" where
  "check lib ticks recv vci0 self0 = do {
     (vci, out1) \<leftarrow> check_arq_state vci0 self0;
     (self, out2) \<leftarrow> check_received vci self0;
     case recv of
       NoMessage \<Rightarrow> Some (None, vci, self, out1 @ out2)
     | RecvError \<Rightarrow> map_option (\<lambda>(e, vci', self', out). (e, vci', self', out1 @ out2 @ out)) (handle_message lib ticks [] vci self)
     | Message msg \<Rightarrow> map_option (\<lambda>(e, vci', self', out). (e, vci', self', out1 @ out2 @ out)) (handle_message lib ticks msg vci self)
   }"

text \<open>The loop of \<open>VCInterface::tick\<close> over the channels, each with what its socket delivers.\<close>

fun VCInterface_tick ::
    "'j json_lib \<Rightarrow> sky_tick_t \<Rightarrow> (zmq_recv \<times> VirtualChannelInterface) list \<Rightarrow> SkyAll \<Rightarrow>
     (modem_exn option \<times> VirtualChannelInterface list \<times> SkyAll \<times> published list) option" where
  "VCInterface_tick lib ticks [] self = Some (None, [], self, [])"
| "VCInterface_tick lib ticks ((recv, vci) # vcs) self = do {
     (e, vci', self', out) \<leftarrow> check lib ticks recv vci self;
     if e = Some StdException then Some (Some StdException, vci' # map snd vcs, self', out)
     else do {
       (e', vcis, self'', out') \<leftarrow> VCInterface_tick lib ticks vcs self';
       Some (e', vci' # vcis, self'', out @ out')
     }
   }"

end
