(* ===== verification/Vc_Interface_Correct.thy ===== *)
theory Vc_Interface_Correct
  imports Vc_Interface Delivery
begin

text \<open>
  The message interface of the modem: it keeps the protocol instance intact whatever it is sent, packets survive the
  hexadecimal notation, and the two ways in which a message can stop the modem.
\<close>

section \<open>Hexadecimal notation\<close>

lemma code_hex_digit: "n < 16 \<Longrightarrow> char_code (hex_digit n) = (if n < 10 then 48 + n else 87 + n)"
  by (simp add: char_code_def hex_digit_def)

lemma hex_value_digit: "n < 16 \<Longrightarrow> hex_value (hex_digit n) = Some n"
  by (simp add: hex_value_def code_hex_digit)

lemma stoul16_digits:
  assumes "a < 16" "b < 16"
  shows "stoul16 [hex_digit a, hex_digit b] = Some (of_nat (16 * a + b))"
proof -
  have "\<not> is_space (hex_digit a)" "char_code (hex_digit a) \<noteq> 45" "char_code (hex_digit a) \<noteq> 43"
    using assms(1) by (simp_all add: is_space_def code_hex_digit)
  then have "skip_sign [hex_digit a, hex_digit b] = (False, [hex_digit a, hex_digit b])" by (simp add: skip_sign_def)
  then show ?thesis using assms by (simp add: stoul16_def skip_0x_def hex_value_digit)
qed

lemma parse_hex_string: "parse_hex (hex_string bs) = Some bs"
proof (induction bs)
  case (Cons b bs)
  have "unat b < 256" using unsigned_less [of b] by simp
  then have d: "unat b div 16 < 16" "unat b mod 16 < 16" by auto
  have "16 * (unat b div 16) + unat b mod 16 = unat b" by simp
  then have "stoul16 [hex_digit (unat b div 16), hex_digit (unat b mod 16)] = Some (of_nat (unat b))" using stoul16_digits [OF d] by simp
  moreover have "ucast (of_nat (unat b) :: 64 word) = b" by (rule bit_word_eqI) (simp add: bit_simps)
  ultimately show ?case using Cons.IH by (simp add: hex_string_def)
qed (simp add: hex_string_def)

lemma length_hex_string: "length (hex_string bs) = 2 * length bs"
  by (induction bs) (simp_all add: hex_string_def)

text \<open>A message with the notation of a packet queues exactly that packet on the channel it names.\<close>

lemma data_message_pushes:
  assumes "json_string lib (json_get lib j ''data'') = Some (hex_string bs)" "length bs < 2 ^ 32"
    "json_value_unsigned lib j ''vc'' (of_nat (vc_index vci)) = Some w" "unat w < SKY_NUM_VIRTUAL_CHANNELS"
  shows "handle_data lib j vci self =
    map_option (\<lambda>(ret, self'). (None, self')) (with_channel (unat w) (\<lambda>v. sky_vc_push_packet_to_send v bs) self)"
proof -
  have "length bs mod 2 ^ 32 = length bs" using assms(2) by simp
  then show ?thesis using assms(1,3,4)
    by (cases "with_channel (unat w) (\<lambda>v. sky_vc_push_packet_to_send v bs) self") (auto simp: handle_data_def parse_hex_string length_hex_string)
qed

section \<open>The instance behind the interface\<close>

lemma with_channel_on_channel:
  "on_channel vc (\<lambda>v. map_option snd (g v)) self = Some self' \<Longrightarrow> \<exists>r. with_channel vc g self = Some (r, self')"
  by (auto simp: on_channel_def with_channel_def bind_eq_Some_conv)

lemma with_channel_conf: "with_channel vc g self = Some (r, self') \<Longrightarrow> sky_conf self' = sky_conf self"
  by (auto simp: with_channel_def bind_eq_Some_conv)

lemma with_channel_ok:
  assumes "sky_ok self" "ticks_ok ticks" "sky_op_ok op"
    "\<And>s. sky_exec layout_gcc (\<lambda>_ _ _. 0) ticks s op = on_channel vc (\<lambda>v. map_option snd (g v)) s"
  obtains r self' where "with_channel vc g self = Some (r, self')" "sky_ok self'" "sky_conf self' = sky_conf self"
proof -
  have "layout_ok layout_gcc" by (simp add: layout_ok_def layout_gcc_def)
  then obtain self' where "on_channel vc (\<lambda>v. map_option snd (g v)) self = Some self'" "sky_ok self'"
    using sky_exec_ok [OF assms(1) _ assms(2,3), of layout_gcc "\<lambda>_ _ _. 0"] unfolding assms(4) by blast
  moreover obtain r where r: "with_channel vc g self = Some (r, self')" using with_channel_on_channel [OF calculation(1)] by blast
  ultimately show ?thesis by (intro that [OF r _ with_channel_conf [OF r]])
qed

text \<open>Reading from a channel never returns a positive number, so no packet is published.\<close>

lemma read_not_positive:
  assumes "channel_ok v"
  shows "\<exists>ret bs v'. sky_vc_read_next_received v n = Some (ret, bs, v') \<and> ret \<le> 0"
proof -
  obtain Ls Lr W ds m ps where v: "vc_view v Ls Lr W ds m ps" using assms by (auto simp: channel_ok_def vc_ok_def)
  show ?thesis
  proof (cases "readable W ps = 0")
    case True
    then show ?thesis using vc_read_empty [OF v] by (simp add: ret_codes)
  next
    case False
    then obtain d ps' where ps: "ps = Some d # ps'" by (cases ps; cases "hd ps") (auto simp: readable_def take_Cons split: nat.splits)
    show ?thesis
    proof (cases "length d \<le> n")
      case True
      then show ?thesis using vc_read_ok [OF v [unfolded ps]] False ps by (metis SKY_RET_OK_def order_refl neq0_conv)
    next
      case long: False
      then show ?thesis using vc_read_too_long [OF v [unfolded ps]] False ps by (simp add: ret_codes)
    qed
  qed
qed

lemma check_received_consumes:
  assumes "sky_ok self" "vc_index vci < SKY_NUM_VIRTUAL_CHANNELS"
  shows "\<exists>ret bs v'. sky_vc_read_next_received (virtual_channels self ! vc_index vci) PACKET_MAXLEN = Some (ret, bs, v') \<and>
    check_received vci self = Some (self\<lparr>virtual_channels := (virtual_channels self)[vc_index vci := v']\<rparr>, [])"
proof -
  obtain ret bs v' where "sky_vc_read_next_received (virtual_channels self ! vc_index vci) PACKET_MAXLEN = Some (ret, bs, v')" "ret \<le> 0"
    using read_not_positive [OF sky_ok_channel [OF assms]] by blast
  then show ?thesis using assms(2) sky_okD(6) [OF assms(1)] by (simp add: check_received_def with_channel_def)
qed

lemma check_received_ok:
  assumes "sky_ok self" "vc_index vci < SKY_NUM_VIRTUAL_CHANNELS" "ticks_ok ticks"
  obtains self' where "check_received vci self = Some (self', [])" "sky_ok self'" "sky_conf self' = sky_conf self"
proof -
  let ?g = "\<lambda>v. map_option (\<lambda>(ret, bs, v'). ((ret, bs), v')) (sky_vc_read_next_received v PACKET_MAXLEN)"
  have e: "map_option snd (?g v) = map_option (\<lambda>(_, _, v'). v') (sky_vc_read_next_received v PACKET_MAXLEN)" for v
    by (cases "sky_vc_read_next_received v PACKET_MAXLEN") auto
  have "sky_exec layout_gcc (\<lambda>_ _ _. 0) ticks s (ReadNext (vc_index vci) PACKET_MAXLEN) = on_channel (vc_index vci) (\<lambda>v. map_option snd (?g v)) s" for s
    unfolding e by simp
  from with_channel_ok [OF assms(1,3) _ this] obtain r self' where "with_channel (vc_index vci) ?g self = Some (r, self')"
      "sky_ok self'" "sky_conf self' = sky_conf self"
    using assms(2) by (metis sky_op_ok.simps(4))
  then show ?thesis using that check_received_consumes [OF assms(1,2)] by (cases r) (auto simp: check_received_def)
qed

text \<open>The result of handling a message: the instance is intact, its configuration is the same, and no packet is published.\<close>

definition kept :: "VirtualChannelInterface \<Rightarrow> SkyAll \<Rightarrow> (modem_exn option \<times> VirtualChannelInterface \<times> SkyAll \<times> published list) option \<Rightarrow> bool" where
  "kept vci self res \<longleftrightarrow> (\<exists>e vci' self' out. res = Some (e, vci', self', out) \<and> vc_index vci' = vc_index vci \<and> sky_ok self' \<and>
     sky_conf self' = sky_conf self \<and> (\<forall>i h. Telemetry i h \<notin> set out))"

lemma keptI: "sky_ok self' \<Longrightarrow> sky_conf self' = sky_conf self \<Longrightarrow> vc_index vci' = vc_index vci \<Longrightarrow> \<forall>i h. Telemetry i h \<notin> set out \<Longrightarrow> kept vci self (Some (e, vci', self', out))"
  by (simp add: kept_def)

lemma kept_if: "(b \<Longrightarrow> kept vci self x) \<Longrightarrow> (\<not> b \<Longrightarrow> kept vci self y) \<Longrightarrow> kept vci self (if b then x else y)"
  by simp

lemma kept_option:
  "(x = None \<Longrightarrow> kept vci self y) \<Longrightarrow> (\<And>a. x = Some a \<Longrightarrow> kept vci self (f a)) \<Longrightarrow> kept vci self (case x of None \<Rightarrow> y | Some a \<Rightarrow> f a)"
  by (cases x) simp_all

lemmas kept_intros = kept_if kept_option

lemma handle_data_kept:
  assumes "sky_ok self" "ticks_ok ticks"
  shows "kept vci self (map_option (\<lambda>(e, self'). (e, vci, self', [])) (handle_data lib j vci self))"
proof -
  have push: "kept vci self (map_option (\<lambda>(e, self'). (e, vci, self', []))
      (do { (ret, self') \<leftarrow> with_channel (unat w) (\<lambda>v. sky_vc_push_packet_to_send v d) self; Some (None, self') }))"
    if w: "\<not> unat w \<ge> SKY_NUM_VIRTUAL_CHANNELS" for w :: u32 and d
  proof -
    obtain r self' where "with_channel (unat w) (\<lambda>v. sky_vc_push_packet_to_send v d) self = Some (r, self')" "sky_ok self'" "sky_conf self' = sky_conf self"
      by (rule with_channel_ok [OF assms, of "Push (unat w) d"]) (use w in simp_all)
    then show ?thesis by (simp add: keptI)
  qed
  show ?thesis unfolding handle_data_def option.case_distrib [of "map_option _"] if_distrib [of "map_option _"]
    by (intro kept_intros push) (use assms(1) in \<open>simp_all add: keptI\<close>)
qed

lemma vc_get_state_ok: "channel_ok v \<Longrightarrow> \<exists>s. vc_get_state v = Some s"
proof -
  assume "channel_ok v"
  then obtain Ls Lr W hs m xs where "vc_rel v Ls Lr W hs m xs" by (auto simp: channel_ok_def vc_ok_def vc_view_def)
  note R = vc_relD(1,2) [OF this]
  show ?thesis using send_free_slots [OF R(1)] send_count [OF R(1)] rcv_count [OF R(2)] by (simp add: vc_get_state_def)
qed

lemma sky_get_state_ok: "list_all channel_ok vs \<Longrightarrow> \<exists>ss. sky_get_state vs = Some ss \<and> length ss = length vs"
  by (induction vs) (auto dest: vc_get_state_ok)

lemma clear_stats_ok: "sky_ok self \<Longrightarrow> sky_ok (self\<lparr>sky_diag := sky_diag_clear (sky_diag self)\<rparr>)"
  by (simp add: sky_ok_def sky_diag_clear_def sky_diag_create_def)

text \<open>The command of a message, if it has one.\<close>

definition command :: "'j json_lib \<Rightarrow> string \<Rightarrow> string option" where
  "command lib msg =
     Option.bind (json_parse lib msg) (\<lambda>j. json_value_string lib (json_get lib j ''metadata'') ''cmd'' [])"

lemma handle_control_kept:
  assumes "sky_ok self" "ticks_ok ticks" "vc_index vci < SKY_NUM_VIRTUAL_CHANNELS"
    "json_value_string lib (json_get lib j ''metadata'') ''cmd'' [] \<noteq> Some ''set_config''"
  shows "kept vci self (handle_control lib ticks j vci self)"
proof -
  obtain r1 s1 where disc: "with_channel (vc_index vci) sky_vc_arq_disconnect self = Some (r1, s1)" "sky_ok s1" "sky_conf s1 = sky_conf self"
    by (rule with_channel_ok [OF assms(1,2), of "DisconnectVC (vc_index vci)"]) (use assms(3) in simp_all)
  obtain r2 s2 where conn: "with_channel (vc_index vci) (sky_vc_arq_connect ticks) self = Some (r2, s2)" "sky_ok s2" "sky_conf s2 = sky_conf self"
    by (rule with_channel_ok [OF assms(1,2), of "ConnectVC (vc_index vci)"]) (use assms(3) in simp_all)
  obtain st1 where st1: "sky_get_state (virtual_channels self) = Some st1" using sky_get_state_ok sky_okD(7) [OF assms(1)] by blast
  obtain st2 where st2: "sky_get_state (virtual_channels s2) = Some st2" "length st2 = SKY_NUM_VIRTUAL_CHANNELS"
    using sky_get_state_ok [OF sky_okD(7) [OF conn(2)]] sky_okD(6) [OF conn(2)] by auto
  obtain m where m: "mac_reset (conf_mac (sky_conf self)) (sky_mac self) ticks = Some m" "mac_inv (conf_mac (sky_conf self)) m"
    by (rule mac_reset_ok [OF sky_okD(2,3) [OF assms(1)], of ticks]) (use assms(2) in \<open>auto simp: clock_def ticks_ok_def intro: that\<close>)
  have "sky_ok (self\<lparr>sky_mac := m\<rparr>)" using m(2) assms(1) by (simp add: sky_ok_def)
  then show ?thesis unfolding handle_control_def Let_def
    using disc conn st1 st2 m assms(3,4) clear_stats_ok [OF assms(1)]
    by (intro kept_intros) (simp_all add: keptI sky_get_tick_time_def assms(1))
qed

lemma handle_message_kept:
  assumes "sky_ok self" "ticks_ok ticks" "vc_index vci < SKY_NUM_VIRTUAL_CHANNELS" "command lib msg \<noteq> Some ''set_config''"
  shows "kept vci self (handle_message lib ticks msg vci self)"
  unfolding handle_message_def
proof (intro kept_intros handle_data_kept [OF assms(1,2)] keptI assms(1) refl)
  fix j
  assume "json_parse lib msg = Some j"
  then show "kept vci self (handle_control lib ticks j vci self)"
    using assms(4) by (intro handle_control_kept [OF assms(1-3)]) (simp add: command_def)
qed simp_all

section \<open>Properties\<close>

text \<open>The message that a receive yields: an empty one when it fails.\<close>

definition received_text :: "zmq_recv \<Rightarrow> string option" where
  "received_text recv = (case recv of NoMessage \<Rightarrow> None | RecvError \<Rightarrow> Some [] | Message msg \<Rightarrow> Some msg)"

definition no_set_config :: "'j json_lib \<Rightarrow> zmq_recv \<Rightarrow> bool" where
  "no_set_config lib recv \<longleftrightarrow> (case received_text recv of None \<Rightarrow> True | Some msg \<Rightarrow> command lib msg \<noteq> Some ''set_config'')"

lemma check_arq_index: "check_arq_state vci self = Some (vci', out) \<Longrightarrow> vc_index vci' = vc_index vci"
  by (auto simp: check_arq_state_def bind_eq_Some_conv split: if_splits)

lemma check_arq_no_packet: "check_arq_state vci self = Some (vci', out) \<Longrightarrow> Telemetry i h \<notin> set out"
  by (auto simp: check_arq_state_def bind_eq_Some_conv split: if_splits)

lemma check_kept:
  assumes "sky_ok self" "ticks_ok ticks" "vc_index vci < SKY_NUM_VIRTUAL_CHANNELS" "no_set_config lib recv"
  shows "kept vci self (check lib ticks recv vci self)"
proof -
  have "\<exists>p. check_arq_state vci self = Some p" using assms(3) sky_okD(6) [OF assms(1)] by (simp add: check_arq_state_def)
  then obtain vci1 out1 where a1: "check_arq_state vci self = Some (vci1, out1)" by auto
  note a = a1 check_arq_index [OF a1] check_arq_no_packet [OF a1]
  obtain self1 where b: "check_received vci1 self = Some (self1, [])" "sky_ok self1" "sky_conf self1 = sky_conf self"
    by (rule check_received_ok [OF assms(1) _ assms(2), of vci1]) (use assms(3) a(2) in simp_all)
  show ?thesis
  proof (cases "received_text recv")
    case None
    then show ?thesis using a b by (cases recv) (simp_all add: received_text_def check_def kept_def)
  next
    case (Some msg)
    then have "kept vci1 self1 (handle_message lib ticks msg vci1 self1)"
      using assms(3,4) a(2) by (intro handle_message_kept [OF b(2) assms(2)]) (simp_all add: no_set_config_def)
    then show ?thesis using Some a b by (cases recv) (auto simp: received_text_def check_def kept_def)
  qed
qed

lemma tick_kept:
  "\<lbrakk> sky_ok self; ticks_ok ticks; \<forall>(recv, vci) \<in> set vcs. vc_index vci < SKY_NUM_VIRTUAL_CHANNELS \<and> no_set_config lib recv \<rbrakk> \<Longrightarrow>
   \<exists>e vcis self' out. VCInterface_tick lib ticks vcs self = Some (e, vcis, self', out) \<and> e \<noteq> Some SuoError \<and>
     map vc_index vcis = map (\<lambda>(recv, vci). vc_index vci) vcs \<and> sky_ok self' \<and> sky_conf self' = sky_conf self \<and>
     (\<forall>i h. Telemetry i h \<notin> set out)"
proof (induction vcs arbitrary: self)
  case (Cons a vcs)
  obtain recv vci where a: "a = (recv, vci)" by (cases a)
  have "kept vci self (check lib ticks recv vci self)" using Cons.prems a by (intro check_kept) auto
  then obtain e vci' self' out where c: "check lib ticks recv vci self = Some (e, vci', self', out)" "vc_index vci' = vc_index vci"
      "sky_ok self'" "sky_conf self' = sky_conf self" "\<forall>i h. Telemetry i h \<notin> set out"
    by (auto simp: kept_def)
  show ?case
  proof (cases "e = Some StdException")
    case True
    then show ?thesis using c a by (simp add: case_prod_unfold)
  next
    case False
    then show ?thesis using Cons.IH [OF c(3) Cons.prems(2)] Cons.prems(3) c a by fastforce
  qed
qed simp

text \<open>
  C15: The message interface of the modem keeps the protocol instance intact. In one tick over any of the channels, whatever
  the sockets deliver and whatever the JSON library makes of it, as long as no message is the command \<open>set_config\<close>: every
  call into the protocol completes without a failed assertion, an overflow or an access out of range, the configuration
  does not change, and afterwards every further operation of the instance completes as well. No \<open>SuoError\<close> leaves the tick.
\<close>

theorem interface_never_fails:
  assumes "sky_ok self" "layout_ok ly" "ticks_ok ticks"
    and "\<forall>(recv, vci) \<in> set vcs. vc_index vci < SKY_NUM_VIRTUAL_CHANNELS \<and> no_set_config lib recv"
  shows "\<exists>e vcis self' out. VCInterface_tick lib ticks vcs self = Some (e, vcis, self', out) \<and> e \<noteq> Some SuoError \<and>
    map vc_index vcis = map (\<lambda>(recv, vci). vc_index vci) vcs \<and> sky_conf self' = sky_conf self \<and>
    (\<forall>hash ticks' op. ticks_ok ticks' \<longrightarrow> sky_op_ok op \<longrightarrow> (\<exists>self''. sky_exec ly hash ticks' self' op = Some self''))"
proof -
  obtain e vcis self' out where "VCInterface_tick lib ticks vcs self = Some (e, vcis, self', out)" "e \<noteq> Some SuoError"
    "map vc_index vcis = map (\<lambda>(recv, vci). vc_index vci) vcs" "sky_ok self'" "sky_conf self' = sky_conf self"
    using tick_kept [OF assms(1,3,4)] by blast
  then show ?thesis using sky_exec_ok [OF _ assms(2)] by blast
qed

text \<open>A small JSON library whose parser returns a given value.\<close>

datatype sample_json = JNull | JNumber nat | JString string | JObject "(string \<times> sample_json) list"

fun sample_get :: "sample_json \<Rightarrow> string \<Rightarrow> sample_json" where
  "sample_get (JObject fs) k = (case map_of fs k of None \<Rightarrow> JNull | Some v \<Rightarrow> v)"
| "sample_get _ k = JNull"

fun sample_string :: "sample_json \<Rightarrow> string option" where
  "sample_string (JString s) = Some s"
| "sample_string _ = None"

definition sample_lib :: "sample_json \<Rightarrow> sample_json json_lib" where
  "sample_lib j =
     \<lparr>json_parse = \<lambda>_. Some j, json_is_object = \<lambda>v. (case v of JObject _ \<Rightarrow> True | _ \<Rightarrow> False),
      json_contains = \<lambda>v k. sample_get v k \<noteq> JNull, json_get = sample_get, json_is_null = \<lambda>v. v = JNull,
      json_string = sample_string,
      json_value_string = \<lambda>v k d. (case sample_get v k of JNull \<Rightarrow> Some d | w \<Rightarrow> sample_string w),
      json_value_unsigned = \<lambda>v k d. (case sample_get v k of JNull \<Rightarrow> Some d | JNumber n \<Rightarrow> Some (of_nat n) | _ \<Rightarrow> None)\<rparr>"

definition sample_vci :: VirtualChannelInterface where
  "sample_vci = \<lparr>vc_index = 1, arq_expected_state = ARQ_STATE_OFF, vci_session_identifier = 0\<rparr>"

theorem interface_never_fails_witness:
  "\<exists>e vcis self' out. VCInterface_tick (sample_lib (JObject [(''data'', JString ''0a1B''), (''vc'', JNumber 2)])) 5
     [(Message ''m'', sample_vci)] sample_self = Some (e, vcis, self', out)"
proof -
  have "layout_ok layout_gcc" "ticks_ok 5" by (simp_all add: layout_ok_def layout_gcc_def ticks_ok_def MOD_TIME_TICKS_def)
  from interface_never_fails [OF sample_self(2) this, of "[(Message ''m'', sample_vci)]"
      "sample_lib (JObject [(''data'', JString ''0a1B''), (''vc'', JNumber 2)])"]
  show ?thesis
    by (auto simp: sample_vci_def SKY_NUM_VIRTUAL_CHANNELS_def no_set_config_def received_text_def command_def sample_lib_def)
qed

text \<open>A stretch without messages: the interface of one channel is ticked at the given times.\<close>

fun quiet_ticks :: "'j json_lib \<Rightarrow> sky_tick_t list \<Rightarrow> VirtualChannelInterface \<Rightarrow> SkyAll \<Rightarrow>
    (VirtualChannelInterface \<times> SkyAll \<times> published list) option" where
  "quiet_ticks lib [] vci self = Some (vci, self, [])"
| "quiet_ticks lib (t # ts) vci self = do {
     (e, vcis, self', out) \<leftarrow> VCInterface_tick lib t [(NoMessage, vci)] self;
     (vci', self'', out') \<leftarrow> quiet_ticks lib ts (hd vcis) self';
     Some (vci', self'', out @ out')
   }"

text \<open>One call removes the first packet of the receive queue and publishes nothing.\<close>

lemma check_received_drops:
  assumes "sky_ok self" "vc_index vci < SKY_NUM_VIRTUAL_CHANNELS" "length d \<le> PACKET_MAXLEN"
    "rx_queue (virtual_channels self ! vc_index vci) (d # ds)"
  obtains v' where "sky_vc_read_next_received (virtual_channels self ! vc_index vci) PACKET_MAXLEN = Some (SKY_RET_OK, d, v')"
    "rx_queue v' ds" "check_received vci self = Some (self\<lparr>virtual_channels := (virtual_channels self)[vc_index vci := v']\<rparr>, [])"
proof -
  obtain v' where v': "sky_vc_read_next_received (virtual_channels self ! vc_index vci) PACKET_MAXLEN = Some (SKY_RET_OK, d, v')" "rx_queue v' ds"
    by (rule rx_read_next [OF assms(4,3)])
  show ?thesis using check_received_consumes [OF assms(1,2)] v'(1) by (intro that [OF v']) simp
qed

lemma quiet_tick:
  assumes "sky_ok self" "ticks_ok t" "vc_index vci < SKY_NUM_VIRTUAL_CHANNELS" "length d \<le> PACKET_MAXLEN"
    "rx_queue (virtual_channels self ! vc_index vci) (d # ds)"
  obtains vci' self' out where "VCInterface_tick lib t [(NoMessage, vci)] self = Some (None, [vci'], self', out)"
    "vc_index vci' = vc_index vci" "sky_ok self'" "rx_queue (virtual_channels self' ! vc_index vci) ds" "\<forall>i h. Telemetry i h \<notin> set out"
proof -
  have "\<exists>p. check_arq_state vci self = Some p" using assms(3) sky_okD(6) [OF assms(1)] by (simp add: check_arq_state_def)
  then obtain vci' out where a: "check_arq_state vci self = Some (vci', out)" by auto
  note i = check_arq_index [OF a]
  obtain v' where v': "rx_queue v' ds" "check_received vci' self = Some (self\<lparr>virtual_channels := (virtual_channels self)[vc_index vci := v']\<rparr>, [])"
    by (rule check_received_drops [of self vci' d ds]) (use assms i in simp_all)
  obtain self' where "check_received vci' self = Some (self', [])" "sky_ok self'"
    by (rule check_received_ok [OF assms(1) _ assms(2), of vci']) (use assms(3) i in simp_all)
  then have "sky_ok (self\<lparr>virtual_channels := (virtual_channels self)[vc_index vci := v']\<rparr>)" using v'(2) by simp
  with i show ?thesis
    by (intro that [of vci' "self\<lparr>virtual_channels := (virtual_channels self)[vc_index vci := v']\<rparr>" out]) (use a v' assms(3) sky_okD(6) [OF assms(1)] check_arq_no_packet [OF a] in \<open>simp_all add: check_def\<close>)
qed

lemma quiet_ticks_drain:
  assumes "sky_ok self" "vc_index vci < SKY_NUM_VIRTUAL_CHANNELS" "rx_queue (virtual_channels self ! vc_index vci) xs"
    "\<forall>d \<in> set xs. length d \<le> PACKET_MAXLEN" "length ts = length xs" "\<forall>t \<in> set ts. ticks_ok t"
  shows "\<exists>vci' self' out. quiet_ticks lib ts vci self = Some (vci', self', out) \<and> rx_queue (virtual_channels self' ! vc_index vci) [] \<and>
    (\<forall>i h. Telemetry i h \<notin> set out)"
  using assms
proof (induction xs arbitrary: ts vci self)
  case (Cons d ds)
  obtain t ts' where ts: "ts = t # ts'" using Cons.prems(5) by (cases ts) auto
  obtain vci' self' out where q: "VCInterface_tick lib t [(NoMessage, vci)] self = Some (None, [vci'], self', out)"
    "vc_index vci' = vc_index vci" "sky_ok self'" "rx_queue (virtual_channels self' ! vc_index vci) ds" "\<forall>i h. Telemetry i h \<notin> set out"
    by (rule quiet_tick [of self t vci d ds lib]) (use Cons.prems ts in simp_all)
  obtain vci'' self'' out' where "quiet_ticks lib ts' vci' self' = Some (vci'', self'', out')"
    "rx_queue (virtual_channels self'' ! vc_index vci) []" "\<forall>i h. Telemetry i h \<notin> set out'"
    using Cons.IH [of self' vci' ts'] q(2-4) Cons.prems(2,4-6) ts by auto
  then show ?case using q(1,5) ts by (auto simp del: VCInterface_tick.simps)
qed simp

text \<open>
  C16: The modem loses the packets it receives. A channel holds received packets, each short enough for the read buffer of
  the interface. The next look at the channel takes the first packet out of the queue and publishes nothing, because the
  read returns zero for a packet and only a positive number counts; after as many ticks as there are packets the queue is
  empty and none of them has been published. In no tick at all, whatever messages arrive (but \<open>set_config\<close>), is a packet
  published. The documentation of the JSON interface says that every received packet is published.
\<close>

theorem received_packets_lost:
  assumes "sky_ok self" "vc_index vci < SKY_NUM_VIRTUAL_CHANNELS" "rx_queue (virtual_channels self ! vc_index vci) (d # ds)"
    and "\<forall>x \<in> set (d # ds). length x \<le> PACKET_MAXLEN" "length ts = length (d # ds)" "\<forall>t \<in> set ts. ticks_ok t"
  shows "(\<exists>v'. sky_vc_read_next_received (virtual_channels self ! vc_index vci) PACKET_MAXLEN = Some (SKY_RET_OK, d, v') \<and>
      check_received vci self = Some (self\<lparr>virtual_channels := (virtual_channels self)[vc_index vci := v']\<rparr>, []) \<and> rx_queue v' ds) \<and>
    (\<exists>vci' self' out. quiet_ticks lib ts vci self = Some (vci', self', out) \<and>
      rx_queue (virtual_channels self' ! vc_index vci) [] \<and> (\<forall>i h. Telemetry i h \<notin> set out)) \<and>
    (\<forall>ticks (vcs :: (zmq_recv \<times> VirtualChannelInterface) list). ticks_ok ticks \<and> (\<forall>(recv, vci') \<in> set vcs. vc_index vci' < SKY_NUM_VIRTUAL_CHANNELS \<and> no_set_config lib recv) \<longrightarrow>
      (\<exists>e vcis self' out. VCInterface_tick lib ticks vcs self = Some (e, vcis, self', out) \<and> (\<forall>i h. Telemetry i h \<notin> set out)))"
proof (intro conjI allI impI)
  show "\<exists>v'. sky_vc_read_next_received (virtual_channels self ! vc_index vci) PACKET_MAXLEN = Some (SKY_RET_OK, d, v') \<and>
      check_received vci self = Some (self\<lparr>virtual_channels := (virtual_channels self)[vc_index vci := v']\<rparr>, []) \<and> rx_queue v' ds"
    by (rule check_received_drops [OF assms(1,2) _ assms(3)]) (use assms(4) in auto)
  show "\<exists>vci' self' out. quiet_ticks lib ts vci self = Some (vci', self', out) \<and>
      rx_queue (virtual_channels self' ! vc_index vci) [] \<and> (\<forall>i h. Telemetry i h \<notin> set out)"
    by (rule quiet_ticks_drain [OF assms])
  fix ticks and vcs :: "(zmq_recv \<times> VirtualChannelInterface) list"
  assume "ticks_ok ticks \<and> (\<forall>(recv, vci') \<in> set vcs. vc_index vci' < SKY_NUM_VIRTUAL_CHANNELS \<and> no_set_config lib recv)"
  then show "\<exists>e vcis self' out. VCInterface_tick lib ticks vcs self = Some (e, vcis, self', out) \<and> (\<forall>i h. Telemetry i h \<notin> set out)"
    using tick_kept [OF assms(1)] by blast
qed

theorem received_packets_lost_witness:
  "\<exists>self v' vci' self' out. rx_queue (virtual_channels self ! 2) [[1, 2, 3]] \<and>
     check_received (sample_vci\<lparr>vc_index := 2\<rparr>) self = Some (self\<lparr>virtual_channels := (virtual_channels self)[2 := v']\<rparr>, []) \<and>
     rx_queue v' [] \<and> quiet_ticks (sample_lib JNull) [40] (sample_vci\<lparr>vc_index := 2\<rparr>) self = Some (vci', self', out) \<and>
     rx_queue (virtual_channels self' ! 2) [] \<and> (\<forall>i h. Telemetry i h \<notin> set out)"
proof -
  obtain self where self: "sky_ok self" "rx_queue (virtual_channels self ! 2) [[1, 2, 3]]" by (rule sample_received)
  from received_packets_lost [OF self(1), of "sample_vci\<lparr>vc_index := 2\<rparr>" "[1, 2, 3]" "[]" "[40]" "sample_lib JNull"] self(2)
  show ?thesis
    by (simp add: SKY_NUM_VIRTUAL_CHANNELS_def PACKET_MAXLEN_def ticks_ok_def MOD_TIME_TICKS_def del: quiet_ticks.simps) blast
qed

section \<open>The command \<open>set_config\<close>\<close>

lemma pm_sub_loop_zero:
  assumes "pm_sub_loop x m = Some y"
  shows "m = 0 \<longrightarrow> x < 0"
proof -
  have "(case (x, m) of (x, m) \<Rightarrow> \<lambda>y. m = 0 \<longrightarrow> x < 0) y"
    by (rule pm_sub_loop.raw_induct [where xa = "(x, m)"]) (use assms in \<open>fastforce simp: c_int_def bind_eq_Some_conv split: if_splits\<close>)+
  then show ?thesis by simp
qed

text \<open>A cycle of length zero: a division by zero, or a loop that does not end.\<close>

lemma positive_modulo_zero: "positive_modulo x 0 = None"
proof (cases "x = 0")
  case True
  have "pm_sub_loop 0 0 = None" using pm_sub_loop_zero [of 0 0] by (cases "pm_sub_loop 0 0") auto
  then show ?thesis using True by (simp add: positive_modulo_def pm_add_loop_nonneg)
next
  case False
  then show ?thesis by (auto simp: positive_modulo_def c_int_def bind_eq_None_conv)
qed

lemma no_schedule:
  assumes "get_mac_cycle c m = Some 0"
  shows "mac_can_send c m now = None"
  using assms by (auto simp: mac_can_send_def mac_own_window_remaining_def cycle_offset_def wrap_tdd_cycle_def positive_modulo_zero bind_eq_None_conv)

text \<open>
  C17: The command \<open>set_config\<close> writes its value into the running configuration without any check. A gap that makes the
  length of the TDD cycle zero is accepted, and from then on the question whether a frame may be sent never gets an
  answer, at no time: the code divides by zero or loops for ever.
\<close>

theorem set_config_breaks_schedule:
  assumes "sky_ok self" "json_parse lib msg = Some j" "json_is_object lib j" "\<not> json_contains lib j ''data''"
    and "json_is_object lib (json_get lib j ''metadata'')"
    and "json_value_string lib (json_get lib j ''metadata'') ''cmd'' [] = Some ''set_config''"
    and "json_string lib (json_get lib (json_get lib j ''metadata'') ''config'') = Some ''mac.gap_constant_ticks''"
    and "json_string lib (json_get lib (json_get lib j ''metadata'') ''value'') = Some val"
    and "atoll val = - (my_window_length (sky_mac self) + peer_window_length (sky_mac self) + tail_constant_ticks (conf_mac (sky_conf self)))"
  shows "\<exists>self'. handle_message lib ticks msg vci self = Some (None, vci, self', []) \<and>
    (\<forall>now. mac_can_send (conf_mac (sky_conf self')) (sky_mac self') now = None)"
proof -
  let ?c = "conf_mac (sky_conf self)" and ?m = "sky_mac self"
  define c' where "c' = ?c\<lparr>gap_constant_ticks := - (my_window_length ?m + peer_window_length ?m + tail_constant_ticks ?c)\<rparr>"
  have b: "0 < my_window_length ?m" "my_window_length ?m \<le> 1000000" "0 < peer_window_length ?m" "peer_window_length ?m \<le> 1000000"
    "0 \<le> tail_constant_ticks ?c" "tail_constant_ticks ?c \<le> 1000000"
    using sky_okD(2,3) [OF assms(1)] by (auto simp: mac_inv_def mac_conf_ok_def)
  then have "set_config ''mac.gap_constant_ticks'' val (sky_conf self) = (sky_conf self)\<lparr>conf_mac := c'\<rparr>"
    using assms(9) by (simp add: set_config_def set_mac_config_def set_arq_config_def c'_def to_i32_def)
  then have "handle_message lib ticks msg vci self = Some (None, vci, self\<lparr>sky_conf := (sky_conf self)\<lparr>conf_mac := c'\<rparr>\<rparr>, [])"
    using assms(2-8) by (simp add: handle_message_def handle_control_def)
  moreover have "get_mac_cycle c' ?m = Some 0" using b by (simp add: get_mac_cycle_def c_add_def c'_def)
  ultimately show ?thesis using no_schedule [of c' ?m] by simp
qed

text \<open>The value \<open>-580\<close> in the sample configuration.\<close>

definition sample_set_config :: sample_json where
  "sample_set_config = JObject [(''metadata'', JObject [(''cmd'', JString ''set_config''),
     (''config'', JString ''mac.gap_constant_ticks''), (''value'', JString ''-580'')])]"

theorem set_config_breaks_schedule_witness:
  "\<exists>self'. handle_message (sample_lib sample_set_config) 5 ''m'' sample_vci sample_self = Some (None, sample_vci, self', []) \<and>
    (\<forall>now. mac_can_send (conf_mac (sky_conf self')) (sky_mac self') now = None)"
proof -
  have "sky_mac sample_self = sample_mac" "conf_mac (sky_conf sample_self) = sample_mac_conf"
    by (rule sample_created [of sample_conf]; use sample_self(1) in simp)+
  moreover have "atoll ''-580'' = - 580" by code_simp
  ultimately show ?thesis
    by (intro set_config_breaks_schedule [OF sample_self(2), of _ _ sample_set_config "''-580''"])
      (simp_all add: sample_lib_def sample_set_config_def)
qed

end
