(* ===== verification/Spec2Isabelle.thy ===== *)
theory Spec2Isabelle
  imports Reliable_VC_Correct Crc Skylink_Tx Skylink_Rx Sky_Create Frame_Correct Mac_Correct Arq_Link Hmac_Correct Crc_Correct Golay_Correct
    Delivery Coded_Delivery Hmac_Blake3 Vc_Interface_Correct
begin

text \<open>
  Skylink is a radio link protocol for small satellites. An instance has four virtual channels that
  share one half duplex radio. The upper stack pushes packets into a channel and reads packets from
  it; the modem calls \<open>sky_tx\<close> for a frame to transmit and \<open>sky_rx\<close> with a received one. A channel runs
  with or without an automatic repeat request (ARQ). The MAC divides time into an own and a peer
  window. Frames carry extensions (ARQ, MAC, HMAC), a payload and, if so configured, an
  authentication code; below them lie a Reed-Solomon code and a Golay coded length header.

  \<^bold>\<open>Conventions.\<close> A C function is a HOL function with the same name. A function that may fail an
  assertion, leave an array or overflow a signed integer returns an \<open>option\<close>, and \<open>None\<close> is that
  failure: a theorem that says a call returns \<open>Some\<close> says that none of this happens. Error codes are
  the negative integers of \<open>skylink.h\<close>. Structs are records and are passed and returned; pointers into
  a frame are offsets into its bytes. Unsigned integers are words, signed ones are \<open>int\<close> with \<open>c_int\<close>
  checking the range. The global tick counter is an argument. Loops are recursive functions with
  termination proofs; the two loops of \<open>positive_modulo\<close> are partial functions, and
  \<open>Utilities.positive_modulo_correct\<close> shows that they end. There is no fuel.

  \<^bold>\<open>Parameters.\<close> The keyed hash of \<open>hmac.c\<close> is the argument \<open>hash\<close>; nothing is assumed of it, and
  \<open>Hmac_Blake3\<close> shows that the calls of the BLAKE3 hasher in \<open>hmac.c\<close> compute an instance of it. The JSON library
  of the modem is a record of functions, and nothing is assumed of it. The
  layout of the bit field struct \<open>SkyStaticHeader\<close> depends on the compiler and is the argument \<open>ly\<close> with
  the hypothesis \<open>layout_ok\<close>; \<open>layout_gcc\<close> is the instance of GCC. Memory from \<open>malloc\<close> is the argument
  \<open>uninit\<close>.

  \<^bold>\<open>Theories that model the code.\<close>
  \<^item> \<open>Sky_Prelude\<close>: machine integers, checked array access, byte copies, \<open>skylink.h\<close> return codes.
  \<^item> \<open>Utilities\<close>: \<open>utilities.c\<close>, byte order, positive modulo, the wrapping clock.
  \<^item> \<open>Element_Buffer\<close>: \<open>element_buffer.c\<close>, payloads as chains of linked elements in one pool.
  \<^item> \<open>Sequence_Ring\<close>: \<open>sequence_ring.c\<close>, the send and the receive ring of the ARQ.
  \<^item> \<open>Frame\<close>: \<open>frame.c\<close>, \<open>frame.h\<close>, extensions, payload and the extension parser.
  \<^item> \<open>Reliable_VC\<close>: \<open>reliable_vc.c\<close>, the channel and its ARQ state machine.
  \<^item> \<open>Mac\<close>: \<open>mac.c\<close>, the windows of the time division.
  \<^item> \<open>Crc\<close>, \<open>Golay\<close>, \<open>Reed_Solomon\<close>, \<open>Fec\<close>: \<open>crc.c\<close>, \<open>golay24.c\<close>, \<open>libfec\<close>, \<open>fec.c\<close>.
  \<^item> \<open>Sky_Handle\<close>, \<open>Hmac\<close>: configuration, diagnostics, the instance, and \<open>hmac.c\<close>.
  \<^item> \<open>Blake3\<close>: \<open>ext/blake3\<close>, the compression function, chunks, subtrees and the incremental hasher.
  \<^item> \<open>Skylink_Tx\<close>, \<open>Skylink_Rx\<close>, \<open>Sky_Create\<close>: \<open>skylink_tx.c\<close>, \<open>skylink_rx.c\<close>, \<open>sky_create\<close>.
  \<^item> \<open>Vc_Interface\<close>: \<open>skymodem/vc_interface.cpp\<close>, the bridge of the modem between channels and message sockets.

  \<^bold>\<open>Theories of proofs.\<close>
  \<^item> \<open>Payload_Store\<close> and \<open>Fifo_Spec\<close> are the contracts (locales) of a store of payloads and of a queue
    of packets. \<open>Element_Buffer_Correct\<close> interprets the first on the element buffer: its invariant
    (\<open>eb_inv\<close>) is kept by every operation, what was stored is read back, and the self check of the code
    holds. \<open>Reliable_VC_Correct\<close> interprets the second twice, for both directions of a channel.
  \<^item> \<open>Ring_Window\<close>, \<open>Send_Ring_Correct\<close>, \<open>Rcv_Ring_Correct\<close>: a ring is a list of slots that is rotated by
    its tail (\<open>send_rel\<close>, \<open>rcv_rel\<close>); each operation is an operation on that list.
  \<^item> \<open>Frame_Correct\<close>: a frame is given by its header, a list of extensions and a payload
    (\<open>tx_view\<close>, \<open>radio_view\<close>); encoders append to it, the parser inverts them and stays inside the
    frame for arbitrary bytes.
  \<^item> \<open>VC_Frame_Correct\<close>, \<open>VC_Machine\<close>: the channel on frames; the channel as a state machine with its
    reachable states, the invariant, and the outcome of each operation. \<open>Receive_Queue\<close>: when a receive queue has room
    for a packet, what storing and reading do to it.
  \<^item> \<open>Rx_Parse_Correct\<close>, \<open>Arq_Link\<close>: from bytes to the parsed frame; two channels connected by a link
    that may lose any frame, and the promise of the ARQ as an invariant of that system.
  \<^item> \<open>Mac_Correct\<close>: the windows as the phase in a cycle on the wrapping clock.
  \<^item> \<open>Hmac_Correct\<close>: what the authentication accepts and rejects.
  \<^item> \<open>Xor_Group\<close>, \<open>Crc_Correct\<close>, \<open>Golay_Correct\<close>: the checksum against the bitwise CRC-32 and its error
    detection; the Golay decoder corrects three errors.
  \<^item> \<open>Key_Equation\<close>, \<open>GF256\<close>, \<open>Rs_Code\<close>, \<open>Rs_Locator\<close>, \<open>Rs_Correct\<close>: the decoding theory of Reed-Solomon codes over an
    arbitrary field (locator, Berlekamp-Massey step, error values); the tables of the codec as an instance of the class
    \<open>field\<close>; the encoder makes multiples of the generator polynomial; the decoder's loops refine the abstract ones and
    correct up to 16 bytes. \<open>Fec_Correct\<close>: the same for a whitened frame.
  \<^item> \<open>Blake3_Correct\<close>, \<open>Blake3_Hasher\<close>: the hash tree of the BLAKE3 specification; chunks, subtrees and the stack of
    chaining values with delayed merging compute it for every split of the message into updates; the output as one stream
    of bytes. \<open>Hmac_Blake3\<close>: the authentication code is the keyed hash.
  \<^item> \<open>Station_Tx\<close>, \<open>Station\<close>, \<open>Delivery\<close>: the invariant of a whole instance (\<open>sky_ok\<close>), the instance as a
    state machine, and the way of a packet from one instance to another. \<open>Coded_Delivery\<close>: the same way over the radio, with
    error correction, length header and transmission errors, and the safety of the receiver for arbitrary bytes.
  \<^item> \<open>Vc_Interface_Correct\<close>: the bridge keeps the instance intact; it removes the received packets from the channels
    and publishes none, against \<open>docs/json_interface.md\<close>; its command
    \<open>set_config\<close> can bring the transmitter to a halt.

  \<^bold>\<open>Not modelled.\<close> The destroy functions only free memory and the print functions only print. The SIMD variants of BLAKE3 are
  switched off in \<open>blake3_impl.h\<close>. The encoder for AltiVec and decoding with erasures are not used by \<open>fec.c\<close>. The
  rest of the modem program wires objects of an external SDR library together (\<open>skymodem.cpp\<close>); binding and
  flushing the sockets is input and output. The Python tools and the tests are outside the library.
\<close>

end
